(* ===== verification/Prelude.thy ===== *)
theory Prelude
  imports Main "HOL-Library.Word" "HOL-Library.Monad_Syntax"
begin

text \<open>
  Vocabulary shared by the component theories: machine addresses with the null pointer, the
  C integer conversions the sources rely on, C strings as character lists read through
  \<open>peek\<close>, and generic lemmas on lists and on the option monad.
\<close>

named_theorems heap_simps \<open>evaluation of single loads and stores\<close>
named_theorems time_simps \<open>unfolding of the time arithmetic\<close>
named_theorems scan_simps \<open>one step of a character scanner\<close>

subsection \<open>Addresses\<close>

type_synonym addr = nat

abbreviation NULL :: addr where
  "NULL \<equiv> 0"

subsection \<open>Integer conversions\<close>

text \<open>Conversion to a 32-bit \<open>int\<close> and to a 64-bit \<open>long\<close> (LP64, two's complement).\<close>

definition c_int :: "int \<Rightarrow> int" where
  "c_int x = signed_take_bit 31 x"

definition c_long :: "int \<Rightarrow> int" where
  "c_long x = signed_take_bit 63 x"

lemma c_int_small: "- (2 ^ 31) \<le> x \<Longrightarrow> x < 2 ^ 31 \<Longrightarrow> c_int x = x"
  by (simp add: c_int_def signed_take_bit_int_eq_self)

lemma c_long_small: "- (2 ^ 63) \<le> x \<Longrightarrow> x < 2 ^ 63 \<Longrightarrow> c_long x = x"
  by (simp add: c_long_def signed_take_bit_int_eq_self)

lemma unat_of_nat_64: "n < 2 ^ 64 \<Longrightarrow> unat (of_nat n :: 64 word) = n"
  by (simp add: unsigned_of_nat take_bit_nat_eq_self del: of_nat_add of_nat_Suc)

text \<open>An \<open>int\<close> result out of range is undefined.\<close>

definition int_result :: "int \<Rightarrow> int option" where
  "int_result x = (if - (2 ^ 31) \<le> x \<and> x < 2 ^ 31 then Some x else None)"

subsection \<open>C strings\<close>

text \<open>
  A pointer into a null-terminated buffer is the list of the characters from it to the
  terminator, the terminator left out: reading past the last character gives the terminator.
\<close>

abbreviation NUL :: char where
  "NUL \<equiv> CHR 0x00"

definition peek :: "string \<Rightarrow> char" where
  "peek s = (case s of [] \<Rightarrow> NUL | c # _ \<Rightarrow> c)"

lemma peek_simps [simp]: "peek [] = NUL" "peek (c # s) = c"
  by (simp_all add: peek_def)

lemma peek_neq_NUL: "peek s \<noteq> NUL \<Longrightarrow> \<exists>t. s = peek s # t"
  by (cases s) auto

text \<open>The characters of a C string never include the terminator.\<close>

definition c_string :: "string \<Rightarrow> bool" where
  "c_string s \<longleftrightarrow> NUL \<notin> set s"

lemma c_string_simps [simp]:
  "c_string []" "c_string (c # s) \<longleftrightarrow> c \<noteq> NUL \<and> c_string s"
  "c_string (s @ t) \<longleftrightarrow> c_string s \<and> c_string t"
  by (auto simp: c_string_def)

text \<open>The code of a character, as an \<open>unsigned char\<close>.\<close>

definition chr :: "nat \<Rightarrow> char" where
  "chr n = char_of n"

definition ord :: "char \<Rightarrow> nat" where
  "ord c = of_char c"

lemma ord_less [simp]: "ord c < 256"
  by (simp add: ord_def)

lemma chr_ord [simp]: "chr (ord c) = c"
  by (simp add: chr_def ord_def)

lemma ord_chr [simp]: "ord (chr n) = n mod 256"
  by (simp add: chr_def ord_def)

lemma ord_eq_iff: "ord c = ord d \<longleftrightarrow> c = d"
  by (simp add: ord_def)

subsection \<open>Numbers as texts\<close>

fun decimal_digits :: "nat \<Rightarrow> string" where
  "decimal_digits n =
     (if n < 10 then [''0123456789'' ! n] else decimal_digits (n div 10) @ [''0123456789'' ! (n mod 10)])"

declare decimal_digits.simps [simp del]

text \<open>The conversion \<open>%0wd\<close>.\<close>

definition zero_padded :: "nat \<Rightarrow> int \<Rightarrow> string" where
  "zero_padded w i =
     (let s = decimal_digits (nat \<bar>i\<bar>)
      in if i < 0 then CHR ''-'' # replicate (w - 1 - length s) CHR ''0'' @ s
         else replicate (w - length s) CHR ''0'' @ s)"

subsection \<open>Lists\<close>

lemma nth_update_append:
  "n = length xs \<Longrightarrow> (xs @ y # ys)[n := z] = xs @ z # ys"
  by simp

lemma takeWhile_all: "\<forall>x \<in> set xs. P x \<Longrightarrow> takeWhile P (xs @ ys) = xs @ takeWhile P ys"
  by (induction xs) auto

lemma dropWhile_all: "\<forall>x \<in> set xs. P x \<Longrightarrow> dropWhile P (xs @ ys) = dropWhile P ys"
  by (induction xs) auto

lemma length_dropWhile_less:
  "xs \<noteq> [] \<Longrightarrow> P (hd xs) \<Longrightarrow> length (dropWhile P xs) < length xs"
  by (cases xs) (auto simp: le_imp_less_Suc length_dropWhile_le)

lemma length_takeWhile_stop: "x \<in> set xs \<Longrightarrow> \<not> P x \<Longrightarrow> length (takeWhile P xs) < length xs"
  by (induction xs) auto

lemma mod_wrap:
  fixes a b m :: nat
  assumes "a < m" "b < m"
  shows "(a + b) mod m = (if a + b < m then a + b else a + b - m)"
  using assms by (auto simp: le_mod_geq)

subsection \<open>The option monad\<close>

lemma bind_Some_conv: "(m \<bind> f = Some y) \<longleftrightarrow> (\<exists>x. m = Some x \<and> f x = Some y)"
  by (cases m) auto

end
