(* ===== verification/Dl_List.thy ===== *)
theory Dl_List
  imports Prelude
begin

text \<open>
  The intrusive doubly-linked list of \<open>eloop/src/list.h\<close>: a heap of \<open>next\<close> and \<open>prev\<close> fields, the
  operations of the header written store by store, and the ring predicate that gives a heap
  its abstract list.  A dereference of the null pointer has no result (\<open>None\<close>).

  The locale \<open>dlist\<close> is the contract that users of such a list rely on; the operations are
  shown to keep it by an interpretation at the end of the theory.  The list headers of
  \<open>dllist\<close> and \<open>linux_kenel_list\<close> provide the same contract.
\<close>

subsection \<open>The heap\<close>

record dl_heap =
  dl_next :: "addr \<Rightarrow> addr"
  dl_prev :: "addr \<Rightarrow> addr"

definition rd_next :: "dl_heap \<Rightarrow> addr \<Rightarrow> addr option" where
  "rd_next h a = (if a = NULL then None else Some (dl_next h a))"

definition rd_prev :: "dl_heap \<Rightarrow> addr \<Rightarrow> addr option" where
  "rd_prev h a = (if a = NULL then None else Some (dl_prev h a))"

definition wr_next :: "dl_heap \<Rightarrow> addr \<Rightarrow> addr \<Rightarrow> dl_heap option" where
  "wr_next h a v = (if a = NULL then None else Some (h\<lparr>dl_next := (dl_next h)(a := v)\<rparr>))"

definition wr_prev :: "dl_heap \<Rightarrow> addr \<Rightarrow> addr \<Rightarrow> dl_heap option" where
  "wr_prev h a v = (if a = NULL then None else Some (h\<lparr>dl_prev := (dl_prev h)(a := v)\<rparr>))"

lemma load_store [heap_simps]:
  "a \<noteq> NULL \<Longrightarrow> rd_next h a = Some (dl_next h a)"
  "a \<noteq> NULL \<Longrightarrow> rd_prev h a = Some (dl_prev h a)"
  "a \<noteq> NULL \<Longrightarrow> wr_next h a v = Some (h\<lparr>dl_next := (dl_next h)(a := v)\<rparr>)"
  "a \<noteq> NULL \<Longrightarrow> wr_prev h a v = Some (h\<lparr>dl_prev := (dl_prev h)(a := v)\<rparr>)"
  by (simp_all add: rd_next_def rd_prev_def wr_next_def wr_prev_def)

subsection \<open>The operations of the header\<close>

definition dl_list_init :: "dl_heap \<Rightarrow> addr \<Rightarrow> dl_heap option" where
  "dl_list_init h list = do {
     h \<leftarrow> wr_next h list list;
     wr_prev h list list
   }"

definition dl_list_add :: "dl_heap \<Rightarrow> addr \<Rightarrow> addr \<Rightarrow> dl_heap option" where
  "dl_list_add h list item = do {
     n \<leftarrow> rd_next h list;
     h \<leftarrow> wr_next h item n;
     h \<leftarrow> wr_prev h item list;
     n \<leftarrow> rd_next h list;
     h \<leftarrow> wr_prev h n item;
     wr_next h list item
   }"

definition dl_list_add_tail :: "dl_heap \<Rightarrow> addr \<Rightarrow> addr \<Rightarrow> dl_heap option" where
  "dl_list_add_tail h list item = do {
     p \<leftarrow> rd_prev h list;
     dl_list_add h p item
   }"

definition dl_list_del :: "dl_heap \<Rightarrow> addr \<Rightarrow> dl_heap option" where
  "dl_list_del h item = do {
     n \<leftarrow> rd_next h item;
     p \<leftarrow> rd_prev h item;
     h \<leftarrow> wr_prev h n p;
     p \<leftarrow> rd_prev h item;
     n \<leftarrow> rd_next h item;
     h \<leftarrow> wr_next h p n;
     h \<leftarrow> wr_next h item NULL;
     wr_prev h item NULL
   }"

definition dl_list_empty :: "dl_heap \<Rightarrow> addr \<Rightarrow> bool option" where
  "dl_list_empty h list = do {
     n \<leftarrow> rd_next h list;
     Some (n = list)
   }"

text \<open>
  The counting loop need not end on a malformed list, so it is a partial function.  The counter is
  an \<open>int\<close>, converted to \<open>unsigned int\<close> at the end.
\<close>

partial_function (option) dl_list_count :: "dl_heap \<Rightarrow> addr \<Rightarrow> addr \<Rightarrow> int \<Rightarrow> int option" where
  "dl_list_count h list item count =
     (if item = list then Some count
      else int_result (count + 1) \<bind> (\<lambda>count. rd_next h item \<bind> (\<lambda>n. dl_list_count h list n count)))"

definition dl_list_len :: "dl_heap \<Rightarrow> addr \<Rightarrow> 32 word option" where
  "dl_list_len h list = do {
     item \<leftarrow> rd_next h list;
     count \<leftarrow> dl_list_count h list item 0;
     Some (word_of_int count)
   }"

text \<open>
  \<open>dl_list_first\<close> and \<open>dl_list_last\<close>: the embedding object is named by the address of its
  list field, so \<open>dl_list_entry\<close> is the identity here.
\<close>

definition dl_list_first :: "dl_heap \<Rightarrow> addr \<Rightarrow> addr option" where
  "dl_list_first h list = do {
     e \<leftarrow> dl_list_empty h list;
     if e then Some NULL else rd_next h list
   }"

definition dl_list_last :: "dl_heap \<Rightarrow> addr \<Rightarrow> addr option" where
  "dl_list_last h list = do {
     e \<leftarrow> dl_list_empty h list;
     if e then Some NULL else rd_prev h list
   }"

subsection \<open>The abstract list of a ring\<close>

text \<open>
  \<open>links h ns\<close>: consecutive nodes of \<open>ns\<close> point at each other.  A list head \<open>l\<close> with the items
  \<open>xs\<close> is a ring when the nodes are distinct, none is null, and the links close at \<open>l\<close>.
\<close>

fun links :: "dl_heap \<Rightarrow> addr list \<Rightarrow> bool" where
  "links h (a # b # ns) = (dl_next h a = b \<and> dl_prev h b = a \<and> links h (b # ns))"
| "links h _ = True"

definition ring :: "dl_heap \<Rightarrow> addr \<Rightarrow> addr list \<Rightarrow> bool" where
  "ring h l xs \<longleftrightarrow> NULL \<notin> set (l # xs) \<and> distinct (l # xs) \<and> links h (l # xs @ [l])"

text \<open>Two heaps agree outside a set of nodes.\<close>

definition agree :: "addr set \<Rightarrow> dl_heap \<Rightarrow> dl_heap \<Rightarrow> bool" where
  "agree S h h' \<longleftrightarrow> (\<forall>a. a \<notin> S \<longrightarrow> dl_next h' a = dl_next h a \<and> dl_prev h' a = dl_prev h a)"

lemma links_append:
  "links h (xs @ a # ys) \<longleftrightarrow> links h (xs @ [a]) \<and> links h (a # ys)"
proof (induction xs)
  case (Cons x xs)
  then show ?case by (cases xs) auto
qed simp

lemma links_cong:
  assumes "\<forall>a \<in> set (butlast ns). dl_next h' a = dl_next h a"
    and "\<forall>a \<in> set (tl ns). dl_prev h' a = dl_prev h a"
  shows "links h' ns = links h ns"
  using assms
proof (induction h ns rule: links.induct)
  case (1 h a b ns)
  then show ?case by (cases ns) auto
qed auto

lemma ring_NULL: "ring h l xs \<Longrightarrow> l \<noteq> NULL" "ring h l xs \<Longrightarrow> x \<in> set xs \<Longrightarrow> x \<noteq> NULL"
  by (metis list.set_intros(1) ring_def) (metis list.set_intros(2) ring_def)

lemma ring_distinct: "ring h l xs \<Longrightarrow> distinct (l # xs)"
  by (simp add: ring_def)

text \<open>Any node of a ring can play the role of the head.\<close>

lemma ring_rotate: "ring h l (xs @ a # ys) \<longleftrightarrow> ring h a (ys @ l # xs)"
proof -
  have "links h (l # xs @ a # ys @ [l]) \<longleftrightarrow> links h (a # ys @ l # xs @ [a])"
    using links_append [of h "l # xs" a "ys @ [l]"] links_append [of h "a # ys" l "xs @ [a]"]
    by auto
  then show ?thesis by (auto simp: ring_def)
qed

lemma ring_next: "ring h l xs \<Longrightarrow> dl_next h l = (case xs of [] \<Rightarrow> l | x # _ \<Rightarrow> x)"
  by (cases xs) (auto simp: ring_def)

lemma ring_prev: "ring h l xs \<Longrightarrow> dl_prev h l = (if xs = [] then l else last xs)"
proof (induction xs rule: rev_induct)
  case Nil
  then show ?case by (simp add: ring_def)
next
  case (snoc x xs)
  then show ?case using links_append [of h "l # xs" x "[l]"] by (simp add: ring_def)
qed

lemma ring_next_at: "ring h l (xs @ a # ys) \<Longrightarrow> dl_next h a = hd (ys @ [l])"
  by (cases ys) (auto simp: ring_rotate dest: ring_next)

lemma ring_prev_at: "ring h l (xs @ a # ys) \<Longrightarrow> dl_prev h a = last (l # xs)"
  by (auto simp: ring_rotate dest: ring_prev)

lemma ring_next_hd: "ring h l xs \<Longrightarrow> dl_next h l = hd (xs @ [l])"
  by (cases xs) (auto dest: ring_next)

lemma agree_refl [simp]: "agree S h h"
  by (simp add: agree_def)

lemma agree_trans: "agree S h h' \<Longrightarrow> agree S' h' h'' \<Longrightarrow> agree (S \<union> S') h h''"
  by (auto simp: agree_def)

lemma agree_mono: "agree S h h' \<Longrightarrow> S \<subseteq> S' \<Longrightarrow> agree S' h h'"
  by (auto simp: agree_def)

text \<open>A ring none of whose nodes was written is still the same ring.\<close>

lemma ring_frame:
  assumes "agree S h h'" "S \<inter> set (l # xs) = {}" "ring h l xs"
  shows "ring h' l xs"
proof -
  have same: "dl_next h' a = dl_next h a" "dl_prev h' a = dl_prev h a" if "a \<in> set (l # xs)" for a
    using assms(1,2) that by (auto simp: agree_def)
  have "links h' (l # xs @ [l]) = links h (l # xs @ [l])"
    by (rule links_cong) (use same in \<open>auto simp: butlast_append\<close>)
  then show ?thesis using assms(3) by (simp add: ring_def)
qed

subsection \<open>The contract of an intrusive list\<close>

locale dlist =
  fixes init :: "dl_heap \<Rightarrow> addr \<Rightarrow> dl_heap option"
    and add :: "dl_heap \<Rightarrow> addr \<Rightarrow> addr \<Rightarrow> dl_heap option"
    and unlink :: "dl_heap \<Rightarrow> addr \<Rightarrow> dl_heap option"
  assumes init_ring:
      "l \<noteq> NULL \<Longrightarrow> \<exists>h'. init h l = Some h' \<and> ring h' l [] \<and> agree {l} h h'"
    and add_ring:
      "ring h l xs \<Longrightarrow> i \<noteq> NULL \<Longrightarrow> i \<notin> set (l # xs) \<Longrightarrow>
       \<exists>h'. add h l i = Some h' \<and> ring h' l (i # xs) \<and> agree (set (i # l # xs)) h h'"
    and unlink_ring:
      "ring h l (a # xs) \<Longrightarrow>
       \<exists>h'. unlink h a = Some h' \<and> ring h' l xs \<and> agree (set (l # a # xs)) h h'"
begin

text \<open>Insertion after any node, and removal of any item, by rotating the ring.\<close>

lemma add_after:
  assumes "ring h l (xs @ a # ys)" "i \<noteq> NULL" "i \<notin> set (l # xs @ a # ys)"
  shows "\<exists>h'. add h a i = Some h' \<and> ring h' l (xs @ a # i # ys)
    \<and> agree (set (i # l # xs @ a # ys)) h h'"
proof -
  have "ring h a (ys @ l # xs)" using assms(1) by (simp add: ring_rotate)
  from add_ring [OF this assms(2)] assms(3) obtain h'
    where h': "add h a i = Some h'" "ring h' a (i # ys @ l # xs)"
      "agree (set (i # a # ys @ l # xs)) h h'" by auto
  have "ring h' l (xs @ a # i # ys)"
    using h'(2) ring_rotate [of h' l xs a "i # ys"] by simp
  moreover have "agree (set (i # l # xs @ a # ys)) h h'"
    by (rule agree_mono [OF h'(3)]) auto
  ultimately show ?thesis using h'(1) by auto
qed

lemma add_before:
  assumes "ring h l (xs @ a # ys)" "i \<noteq> NULL" "i \<notin> set (l # xs @ a # ys)"
  shows "\<exists>h'. add h (dl_prev h a) i = Some h' \<and> ring h' l (xs @ i # a # ys)
    \<and> agree (set (i # l # xs @ a # ys)) h h'"
proof (cases xs rule: rev_cases)
  case Nil
  then show ?thesis using assms add_ring [of h l "a # ys" i] ring_prev_at [OF assms(1)] by simp
next
  case (snoc zs b)
  then show ?thesis
    using assms add_after [of h l zs b "a # ys" i] ring_prev_at [OF assms(1)] by simp
qed

lemma add_tail:
  assumes "ring h l xs" "i \<noteq> NULL" "i \<notin> set (l # xs)"
  shows "\<exists>h'. (rd_prev h l \<bind> (\<lambda>p. add h p i)) = Some h' \<and> ring h' l (xs @ [i])
    \<and> agree (set (i # l # xs)) h h'"
proof (cases xs rule: rev_cases)
  case Nil
  then show ?thesis
    using assms add_ring [of h l "[]" i] by (simp add: ring_prev heap_simps ring_NULL)
next
  case (snoc ys a)
  then show ?thesis
    using assms add_after [of h l ys a "[]" i] by (simp add: ring_prev heap_simps ring_NULL)
qed

lemma unlink_any:
  assumes "ring h l (xs @ a # ys)"
  shows "\<exists>h'. unlink h a = Some h' \<and> ring h' l (xs @ ys)
    \<and> agree (set (l # xs @ a # ys)) h h'"
proof (cases xs rule: rev_cases)
  case Nil
  then show ?thesis using assms unlink_ring [of h l a ys] by simp
next
  case (snoc zs b)
  have "ring h b (a # ys @ l # zs)"
    using assms snoc ring_rotate [of h l zs b "a # ys"] by simp
  from unlink_ring [OF this] obtain h' where h': "unlink h a = Some h'"
    "ring h' b (ys @ l # zs)" "agree (set (b # a # ys @ l # zs)) h h'" by auto
  have "ring h' l (xs @ ys)" using h'(2) snoc ring_rotate [of h' l zs b ys] by simp
  moreover have "agree (set (l # xs @ a # ys)) h h'"
    by (rule agree_mono [OF h'(3)]) (auto simp: snoc)
  ultimately show ?thesis using h'(1) by auto
qed

text \<open>A list that shares no node with the one operated on does not change.\<close>

lemma add_other:
  assumes "ring h l xs" "i \<noteq> NULL" "i \<notin> set (l # xs)"
    and "ring h m ys" "set (i # l # xs) \<inter> set (m # ys) = {}"
  shows "\<exists>h'. add h l i = Some h' \<and> ring h' m ys"
  using add_ring [OF assms(1-3)] ring_frame [OF _ assms(5,4)] by blast

lemma unlink_other:
  assumes "ring h l (xs @ a # ys)" "ring h m zs" "set (l # xs @ a # ys) \<inter> set (m # zs) = {}"
  shows "\<exists>h'. unlink h a = Some h' \<and> ring h' m zs"
  using unlink_any [OF assms(1)] ring_frame [OF _ assms(3,2)] by blast

text \<open>A queue: items appended at the tail leave at the head in the order they came.\<close>

lemma fifo_step:
  assumes "ring h l (x # xs)" "i \<noteq> NULL" "i \<notin> set (l # x # xs)"
  shows "\<exists>h' h''. (rd_prev h l \<bind> (\<lambda>p. add h p i)) = Some h'
    \<and> (rd_next h' l \<bind> unlink h') = Some h'' \<and> ring h'' l (xs @ [i])"
proof -
  from add_tail [OF assms] obtain h'
    where h': "(rd_prev h l \<bind> (\<lambda>p. add h p i)) = Some h'" "ring h' l (x # xs @ [i])" by auto
  from unlink_ring [OF h'(2)] obtain h'' where "unlink h' x = Some h''" "ring h'' l (xs @ [i])"
    by auto
  then show ?thesis using h' by (simp add: ring_next heap_simps ring_NULL)
qed

end

subsection \<open>The operations keep the contract\<close>

lemma dl_list_init_ring:
  "l \<noteq> NULL \<Longrightarrow> \<exists>h'. dl_list_init h l = Some h' \<and> ring h' l [] \<and> agree {l} h h'"
  by (simp add: dl_list_init_def heap_simps ring_def agree_def)

lemma dl_list_add_ring:
  assumes "ring h l xs" "i \<noteq> NULL" "i \<notin> set (l # xs)"
  shows "\<exists>h'. dl_list_add h l i = Some h' \<and> ring h' l (i # xs) \<and> agree (set (i # l # xs)) h h'"
proof -
  define n where "n = dl_next h l"
  define h' where "h' = h\<lparr>dl_next := (dl_next h)(i := n, l := i),
    dl_prev := (dl_prev h)(i := l, n := i)\<rparr>"
  have l: "l \<noteq> NULL" and i: "i \<noteq> l" using assms by (auto simp: ring_def)
  have n: "n = (case xs of [] \<Rightarrow> l | x # _ \<Rightarrow> x)" using ring_next [OF assms(1)] by (simp add: n_def)
  then have n0: "n \<noteq> NULL" "n \<noteq> i" using assms by (auto simp: ring_def split: list.splits)
  have eq: "dl_list_add h l i = Some h'"
    using l i n0 assms(2) by (simp add: dl_list_add_def heap_simps h'_def n_def)
  have tl: "links h' (n # tl xs @ (if xs = [] then [] else [l]))"
  proof (cases xs)
    case (Cons x ys)
    have "links h' (x # ys @ [l]) = links h (x # ys @ [l])"
      by (rule links_cong) (use assms Cons n in \<open>auto simp: ring_def h'_def butlast_append\<close>)
    then show ?thesis using assms(1) Cons n by (auto simp: ring_def)
  qed simp
  have "links h' (l # i # xs @ [l])"
    using tl n i n0 by (cases xs) (auto simp: h'_def)
  then have "ring h' l (i # xs)" using assms by (auto simp: ring_def)
  moreover have "agree (set (i # l # xs)) h h'"
    using n by (auto simp: agree_def h'_def split: list.splits)
  ultimately show ?thesis using eq by blast
qed

lemma dl_list_del_ring:
  assumes "ring h l (a # xs)"
  shows "\<exists>h'. dl_list_del h a = Some h' \<and> ring h' l xs \<and> agree (set (l # a # xs)) h h'"
proof -
  define n where "n = dl_next h a"
  define h' where "h' = h\<lparr>dl_next := (dl_next h)(l := n, a := NULL),
    dl_prev := (dl_prev h)(n := l, a := NULL)\<rparr>"
  have a: "a \<noteq> NULL" "l \<noteq> NULL" "a \<noteq> l" using assms by (auto simp: ring_def)
  have p: "dl_prev h a = l" using assms by (cases xs) (auto simp: ring_def)
  have n: "n = (case xs of [] \<Rightarrow> l | x # _ \<Rightarrow> x)"
    using assms by (cases xs) (auto simp: ring_def n_def)
  then have n0: "n \<noteq> NULL" "n \<noteq> a" using assms by (auto simp: ring_def split: list.splits)
  have eq: "dl_list_del h a = Some h'"
    using a p n0 by (simp add: dl_list_del_def heap_simps h'_def n_def)
  have tl: "links h' (n # tl xs @ (if xs = [] then [] else [l]))"
  proof (cases xs)
    case (Cons x ys)
    have "links h' (x # ys @ [l]) = links h (x # ys @ [l])"
      by (rule links_cong) (use assms Cons n in \<open>auto simp: ring_def h'_def butlast_append\<close>)
    then show ?thesis using assms Cons n by (auto simp: ring_def)
  qed simp
  have "links h' (l # xs @ [l])" using tl n a n0 by (cases xs) (auto simp: h'_def)
  then have "ring h' l xs" using assms by (auto simp: ring_def)
  moreover have "agree (set (l # a # xs)) h h'"
    using n by (auto simp: agree_def h'_def split: list.splits)
  ultimately show ?thesis using eq by blast
qed

interpretation dl: dlist dl_list_init dl_list_add dl_list_del
  by unfold_locales (rule dl_list_init_ring dl_list_add_ring dl_list_del_ring; assumption)+

lemma dl_list_count_ring:
  assumes "ring h l (xs @ ys)" "0 \<le> k" "k + int (length ys) < 2 ^ 31"
  shows "dl_list_count h l (hd (ys @ [l])) k = Some (k + int (length ys))"
  using assms
proof (induction ys arbitrary: xs k)
  case Nil
  then show ?case by (simp add: dl_list_count.simps)
next
  case (Cons y ys)
  have y: "y \<noteq> l" "y \<noteq> NULL" using Cons.prems by (auto dest: ring_distinct ring_NULL)
  have "dl_list_count h l (hd (ys @ [l])) (k + 1) = Some (k + 1 + int (length ys))"
    using Cons.IH [of "xs @ [y]" "k + 1"] Cons.prems by simp
  then show ?case
    using y ring_next_at [OF Cons.prems(1)] Cons.prems(2,3)
    by (subst dl_list_count.simps) (simp add: heap_simps int_result_def)
qed

subsection \<open>Properties\<close>

text \<open>
  A \<open>dl_list\<close> is a FIFO queue: on a well-formed ring with first item \<open>x\<close>, appending a new
  item with \<open>dl_list_add_tail\<close> and then deleting the first node with \<open>dl_list_del\<close> never
  dereferences null, drops exactly \<open>x\<close> and leaves the remaining items in order with the new one
  at the end.
\<close>

theorem dl_list_fifo:
  assumes "ring h l (x # xs)" "i \<noteq> NULL" "i \<notin> set (l # x # xs)"
  shows "\<exists>h' h''. dl_list_add_tail h l i = Some h'
    \<and> (rd_next h' l \<bind> dl_list_del h') = Some h'' \<and> ring h'' l (xs @ [i])"
  using dl.fifo_step [OF assms] unfolding dl_list_add_tail_def .

theorem dl_list_fifo_witness:
  "\<exists>h' h''. dl_list_add_tail \<lparr>dl_next = (\<lambda>a. if a = 1 then 2 else 1),
      dl_prev = (\<lambda>a. if a = 1 then 2 else 1)\<rparr> 1 3 = Some h'
    \<and> (rd_next h' 1 \<bind> dl_list_del h') = Some h'' \<and> ring h'' 1 ([] @ [3])"
  by (rule dl_list_fifo [of _ 1 2]) (simp_all add: ring_def)

text \<open>
  \<open>dl_list_len\<close> terminates on every well-formed ring and returns the number of items, as
  the unsigned 32-bit value the code converts its counter to, as long as an \<open>int\<close> can count them.
\<close>

theorem dl_list_len_ring:
  assumes "ring h l xs" "length xs < 2 ^ 31"
  shows "dl_list_len h l = Some (word_of_nat (length xs))"
  using dl_list_count_ring [of h l "[]" xs 0] assms ring_next_hd [OF assms(1)]
  by (simp add: dl_list_len_def heap_simps ring_NULL)

theorem dl_list_len_ring_witness:
  "dl_list_len \<lparr>dl_next = (\<lambda>a. if a = 1 then 2 else 1),
    dl_prev = (\<lambda>a. if a = 1 then 2 else 1)\<rparr> 1 = Some 1"
  using dl_list_len_ring [of "\<lparr>dl_next = (\<lambda>a. if a = 1 then 2 else 1),
    dl_prev = (\<lambda>a. if a = 1 then 2 else 1)\<rparr>" 1 "[2]"]
  by (simp add: ring_def)

end
