(* ===== verification/Eloop_Timeout.thy ===== *)
theory Eloop_Timeout
  imports Dl_List
begin

text \<open>
  The timeout queue of \<open>eloop/src/eloop.c\<close>: nodes allocated on a heap and linked into the ring
  whose head is the field \<open>eloop.timeout\<close>.  The operations are the code's, on the heap; the
  relation \<open>tmo_abs\<close> gives the list of timeouts a heap stands for, and each operation is shown
  to refine an operation on that list.

  The allocator and the clock are inputs: \<open>p\<close> is what \<open>os_zalloc\<close> returned (null when it failed)
  and \<open>now\<close> what \<open>os_get_reltime\<close> delivered (\<open>None\<close> when it failed).
\<close>

subsection \<open>Relative time\<close>

datatype os_reltime = Reltime (sec: int) (usec: int)

definition os_reltime_before :: "os_reltime \<Rightarrow> os_reltime \<Rightarrow> bool" where
  "os_reltime_before a b \<longleftrightarrow> sec a < sec b \<or> sec a = sec b \<and> usec a < usec b"

definition os_reltime_sub :: "os_reltime \<Rightarrow> os_reltime \<Rightarrow> os_reltime" where
  "os_reltime_sub a b =
     (let s = c_long (sec a - sec b); u = c_long (usec a - usec b)
      in if u < 0 then Reltime (c_long (s - 1)) (c_long (u + 1000000)) else Reltime s u)"

text \<open>The order the code compares by is a linear order; the library's sorting theory applies.\<close>

instantiation os_reltime :: linorder
begin

definition less_os_reltime :: "os_reltime \<Rightarrow> os_reltime \<Rightarrow> bool" where
  "a < b \<longleftrightarrow> os_reltime_before a b"

definition less_eq_os_reltime :: "os_reltime \<Rightarrow> os_reltime \<Rightarrow> bool" where
  "(a::os_reltime) \<le> b \<longleftrightarrow> \<not> os_reltime_before b a"

instance
  by intro_classes
    (auto simp: less_os_reltime_def less_eq_os_reltime_def os_reltime_before_def
      intro: os_reltime.expand)

end

lemma before_less [time_simps]: "os_reltime_before a b \<longleftrightarrow> a < b"
  by (simp add: less_os_reltime_def)

text \<open>A time in microseconds; a normalised time has its microseconds below one second.\<close>

definition usecs_of :: "os_reltime \<Rightarrow> int" where
  "usecs_of t = sec t * 1000000 + usec t"

definition normal_time :: "os_reltime \<Rightarrow> bool" where
  "normal_time t \<longleftrightarrow> 0 \<le> usec t \<and> usec t < 1000000 \<and> 0 \<le> sec t \<and> sec t < 2 ^ 62"

lemma less_usecs_of: "normal_time a \<Longrightarrow> normal_time b \<Longrightarrow> a < b \<longleftrightarrow> usecs_of a < usecs_of b"
  by (auto simp: less_os_reltime_def os_reltime_before_def usecs_of_def normal_time_def)

lemma c_long_id [time_simps]: "- (2 ^ 62) \<le> x \<Longrightarrow> x < 2 ^ 62 \<Longrightarrow> c_long x = x"
  by (simp add: c_long_small)

lemma c_long_add: "0 \<le> a \<Longrightarrow> a < 2 ^ 61 \<Longrightarrow> 0 \<le> b \<Longrightarrow> b < 2 ^ 31 \<Longrightarrow> c_long (a + b) = a + b"
  by (rule c_long_id) auto

lemma sub_usecs_of:
  assumes "normal_time a" "normal_time b" "b \<le> a"
  shows "usecs_of (os_reltime_sub a b) = usecs_of a - usecs_of b"
    and "normal_time (os_reltime_sub a b)"
proof -
  have r: "c_long (sec a - sec b) = sec a - sec b" "c_long (usec a - usec b) = usec a - usec b"
    "c_long (usec a - usec b + 1000000) = usec a - usec b + 1000000"
    "c_long (sec a - sec b - 1) = sec a - sec b - 1"
    using assms(1,2) by (auto simp: normal_time_def intro!: c_long_id)
  have le: "sec b < sec a \<or> sec b = sec a \<and> usec b \<le> usec a"
    using assms(3) by (auto simp: less_eq_os_reltime_def os_reltime_before_def)
  show "usecs_of (os_reltime_sub a b) = usecs_of a - usecs_of b"
    by (auto simp: os_reltime_sub_def usecs_of_def r Let_def)
  show "normal_time (os_reltime_sub a b)"
    using le assms(1,2) by (auto simp: os_reltime_sub_def normal_time_def r Let_def)
qed

text \<open>The carry loop of \<open>eloop_register_timeout\<close>.\<close>

function carry_usecs :: "int \<Rightarrow> int \<Rightarrow> os_reltime" where
  "carry_usecs s u =
     (if u \<ge> 1000000 then carry_usecs (c_long (s + 1)) (u - 1000000) else Reltime s u)"
  by pat_completeness auto
termination
  by (relation "measure (\<lambda>(s, u). nat u)") auto

declare carry_usecs.simps [simp del]

lemma carry_usecs_normal:
  "0 \<le> u \<Longrightarrow> 0 \<le> s \<Longrightarrow> s + u div 1000000 < 2 ^ 62 \<Longrightarrow>
   usecs_of (carry_usecs s u) = s * 1000000 + u \<and> normal_time (carry_usecs s u)"
proof (induction s u rule: carry_usecs.induct)
  case (1 s u)
  show ?case
  proof (cases "u \<ge> 1000000")
    case True
    have d: "(u - 1000000) div 1000000 = u div 1000000 - 1" by simp
    have q: "1 \<le> u div 1000000" using True by linarith
    then have "c_long (s + 1) = s + 1" using "1.prems" by (intro c_long_id) auto
    then show ?thesis
      using 1 True d q by (subst (1 2) carry_usecs.simps) auto
  next
    case False
    then show ?thesis
      using "1.prems" by (subst (1 2) carry_usecs.simps) (auto simp: usecs_of_def normal_time_def)
  qed
qed

lemma carry_usecs_negative: "u < 0 \<Longrightarrow> carry_usecs s u = Reltime s u"
  by (subst carry_usecs.simps) simp

subsection \<open>Timeout nodes and the queue\<close>

record eloop_timeout =
  t_time :: os_reltime
  t_eloop_data :: addr
  t_user_data :: addr
  t_handler :: addr

text \<open>
  \<open>lnk\<close> holds the list fields of all nodes and of the head; \<open>node\<close> the other fields of the
  nodes now allocated.  A node that was freed, or never allocated, has none, and reading one
  has no result.
\<close>

record timeout_store =
  lnk :: dl_heap
  node :: "addr \<Rightarrow> eloop_timeout option"

text \<open>The address of \<open>eloop.timeout\<close>, and the wildcard argument of \<open>eloop_cancel_timeout\<close>.\<close>

definition timeout_head :: addr where
  "timeout_head = 1"

definition ELOOP_ALL_CTX :: addr where
  "ELOOP_ALL_CTX = 2 ^ 64 - 1"

lemma timeout_head_neq [simp]: "timeout_head \<noteq> NULL" "NULL < timeout_head"
  by (simp_all add: timeout_head_def)

text \<open>\<open>eloop_register_timeout\<close>: the search for the place, then the whole function.\<close>

partial_function (option) register_loop ::
    "timeout_store \<Rightarrow> addr \<Rightarrow> os_reltime \<Rightarrow> addr \<Rightarrow> timeout_store option" where
  "register_loop st timeout t tmp =
     (if tmp = timeout_head then
        dl_list_add_tail (lnk st) timeout_head timeout \<bind> (\<lambda>h. Some (st\<lparr>lnk := h\<rparr>))
      else node st tmp \<bind> (\<lambda>n.
        if os_reltime_before t (t_time n) then
          rd_prev (lnk st) tmp \<bind> (\<lambda>p. dl_list_add (lnk st) p timeout \<bind>
            (\<lambda>h. Some (st\<lparr>lnk := h\<rparr>)))
        else rd_next (lnk st) tmp \<bind> (\<lambda>n'. register_loop st timeout t n')))"

definition eloop_register_timeout ::
    "addr \<Rightarrow> os_reltime option \<Rightarrow> 32 word \<Rightarrow> 32 word \<Rightarrow> addr \<Rightarrow> addr \<Rightarrow> addr \<Rightarrow>
     timeout_store \<Rightarrow> (int \<times> timeout_store) option" where
  "eloop_register_timeout p now secs usecs handler eloop_data user_data st =
     (if p = NULL then Some (-1, st)
      else case now of
        None \<Rightarrow> Some (-1, st)
      | Some t \<Rightarrow>
          (let now_sec = sec t; s = c_long (sec t + sint secs)
           in if s < now_sec then Some (0, st)
              else
                let t' = carry_usecs s (c_long (usec t + sint usecs));
                    st' = st\<lparr>node := (node st)(p \<mapsto> \<lparr>t_time = t', t_eloop_data = eloop_data,
                            t_user_data = user_data, t_handler = handler\<rparr>)\<rparr>
                in rd_next (lnk st') timeout_head \<bind> (\<lambda>tmp.
                   register_loop st' p t' tmp \<bind> (\<lambda>st''. Some (0, st'')))))"

definition eloop_remove_timeout :: "timeout_store \<Rightarrow> addr \<Rightarrow> timeout_store option" where
  "eloop_remove_timeout st timeout = do {
     h \<leftarrow> dl_list_del (lnk st) timeout;
     Some (st\<lparr>lnk := h, node := (node st)(timeout := None)\<rparr>)
   }"

text \<open>The test of \<open>eloop_cancel_timeout\<close>, with its wildcards, and the exact one of the others.\<close>

definition cancel_match :: "addr \<Rightarrow> addr \<Rightarrow> addr \<Rightarrow> eloop_timeout \<Rightarrow> bool" where
  "cancel_match handler eloop_data user_data n \<longleftrightarrow>
     t_handler n = handler \<and>
     (t_eloop_data n = eloop_data \<or> eloop_data = ELOOP_ALL_CTX) \<and>
     (t_user_data n = user_data \<or> user_data = ELOOP_ALL_CTX)"

definition exact_match :: "addr \<Rightarrow> addr \<Rightarrow> addr \<Rightarrow> eloop_timeout \<Rightarrow> bool" where
  "exact_match handler eloop_data user_data n \<longleftrightarrow>
     t_handler n = handler \<and> t_eloop_data n = eloop_data \<and> t_user_data n = user_data"

text \<open>\<open>dl_list_for_each_safe\<close>: the successor \<open>prev\<close> is read before the body may free the node.\<close>

partial_function (option) cancel_loop ::
    "(eloop_timeout \<Rightarrow> bool) \<Rightarrow> addr \<Rightarrow> addr \<Rightarrow> int \<Rightarrow> timeout_store \<Rightarrow>
     (int \<times> timeout_store) option" where
  "cancel_loop m timeout prev removed st =
     (if timeout = timeout_head then Some (removed, st)
      else node st timeout \<bind> (\<lambda>n.
        (if m n then eloop_remove_timeout st timeout \<bind> (\<lambda>st'. Some (removed + 1, st'))
         else Some (removed, st)) \<bind> (\<lambda>(removed', st').
        rd_next (lnk st') prev \<bind> (\<lambda>n'. cancel_loop m prev n' removed' st'))))"

definition eloop_cancel_timeout ::
    "addr \<Rightarrow> addr \<Rightarrow> addr \<Rightarrow> timeout_store \<Rightarrow> (int \<times> timeout_store) option" where
  "eloop_cancel_timeout handler eloop_data user_data st = do {
     timeout \<leftarrow> rd_next (lnk st) timeout_head;
     prev \<leftarrow> rd_next (lnk st) timeout;
     cancel_loop (cancel_match handler eloop_data user_data) timeout prev 0 st
   }"

partial_function (option) find_timeout ::
    "(eloop_timeout \<Rightarrow> bool) \<Rightarrow> addr \<Rightarrow> timeout_store \<Rightarrow> addr option option" where
  "find_timeout m tmp st =
     (if tmp = timeout_head then Some None
      else node st tmp \<bind> (\<lambda>n.
        if m n then Some (Some tmp)
        else rd_next (lnk st) tmp \<bind> (\<lambda>n'. find_timeout m n' st)))"

text \<open>
  \<open>eloop_cancel_timeout_one\<close> ignores the result of the clock, so it is modelled with the time
  read.  The result is the number removed and the remaining time.
\<close>

definition eloop_cancel_timeout_one ::
    "os_reltime \<Rightarrow> addr \<Rightarrow> addr \<Rightarrow> addr \<Rightarrow> timeout_store \<Rightarrow>
     (int \<times> os_reltime \<times> timeout_store) option" where
  "eloop_cancel_timeout_one now handler eloop_data user_data st = do {
     timeout \<leftarrow> rd_next (lnk st) timeout_head;
     f \<leftarrow> find_timeout (exact_match handler eloop_data user_data) timeout st;
     case f of
       None \<Rightarrow> Some (0, Reltime 0 0, st)
     | Some a \<Rightarrow> do {
         n \<leftarrow> node st a;
         st' \<leftarrow> eloop_remove_timeout st a;
         Some (1, if os_reltime_before now (t_time n) then os_reltime_sub (t_time n) now
                  else Reltime 0 0, st')
       }
   }"

definition eloop_is_timeout_registered ::
    "addr \<Rightarrow> addr \<Rightarrow> addr \<Rightarrow> timeout_store \<Rightarrow> int option" where
  "eloop_is_timeout_registered handler eloop_data user_data st = do {
     tmp \<leftarrow> rd_next (lnk st) timeout_head;
     f \<leftarrow> find_timeout (exact_match handler eloop_data user_data) tmp st;
     Some (if f = None then 0 else 1)
   }"

text \<open>
  \<open>eloop_deplete_timeout\<close> and \<open>eloop_replenish_timeout\<close> differ in one comparison.  \<open>now\<close> is the
  clock they read themselves; \<open>p\<close> and \<open>now'\<close> are the allocation and the clock of the
  registration they may make.
\<close>

definition adjust_timeout ::
    "(os_reltime \<Rightarrow> os_reltime \<Rightarrow> bool) \<Rightarrow> os_reltime \<Rightarrow> addr \<Rightarrow> os_reltime option \<Rightarrow>
     32 word \<Rightarrow> 32 word \<Rightarrow> addr \<Rightarrow> addr \<Rightarrow> addr \<Rightarrow> timeout_store \<Rightarrow> (int \<times> timeout_store) option" where
  "adjust_timeout change now p now' req_secs req_usecs handler eloop_data user_data st = do {
     tmp \<leftarrow> rd_next (lnk st) timeout_head;
     f \<leftarrow> find_timeout (exact_match handler eloop_data user_data) tmp st;
     case f of
       None \<Rightarrow> Some (-1, st)
     | Some a \<Rightarrow> do {
         n \<leftarrow> node st a;
         let requested = Reltime (sint req_secs) (sint req_usecs);
             remaining = os_reltime_sub (t_time n) now
         in if change requested remaining then do {
              (r, st1) \<leftarrow> eloop_cancel_timeout handler eloop_data user_data st;
              (r', st2) \<leftarrow> eloop_register_timeout p now' (word_of_int (sec requested))
                 (word_of_int (usec requested)) handler eloop_data user_data st1;
              Some (1, st2)
            }
            else Some (0, st)
       }
   }"

definition eloop_deplete_timeout ::
    "os_reltime \<Rightarrow> addr \<Rightarrow> os_reltime option \<Rightarrow> 32 word \<Rightarrow> 32 word \<Rightarrow> addr \<Rightarrow> addr \<Rightarrow> addr \<Rightarrow>
     timeout_store \<Rightarrow> (int \<times> timeout_store) option" where
  "eloop_deplete_timeout =
     adjust_timeout (\<lambda>requested remaining. os_reltime_before requested remaining)"

definition eloop_replenish_timeout ::
    "os_reltime \<Rightarrow> addr \<Rightarrow> os_reltime option \<Rightarrow> 32 word \<Rightarrow> 32 word \<Rightarrow> addr \<Rightarrow> addr \<Rightarrow> addr \<Rightarrow>
     timeout_store \<Rightarrow> (int \<times> timeout_store) option" where
  "eloop_replenish_timeout =
     adjust_timeout (\<lambda>requested remaining. os_reltime_before remaining requested)"

subsection \<open>The list of timeouts a store stands for\<close>

definition tmo_ring :: "timeout_store \<Rightarrow> addr list \<Rightarrow> eloop_timeout list \<Rightarrow> bool" where
  "tmo_ring st as ts \<longleftrightarrow>
     ring (lnk st) timeout_head as \<and> map (node st) as = map Some ts \<and> dom (node st) = set as"

definition tmo_abs :: "timeout_store \<Rightarrow> eloop_timeout list \<Rightarrow> bool" where
  "tmo_abs st ts \<longleftrightarrow> (\<exists>as. tmo_ring st as ts)"

text \<open>Where the code puts a new timeout: after every one that is not later.\<close>

definition insert_timeout :: "eloop_timeout \<Rightarrow> eloop_timeout list \<Rightarrow> eloop_timeout list" where
  "insert_timeout t ts = takeWhile (\<lambda>x. t_time x \<le> t_time t) ts @ t # dropWhile (\<lambda>x. t_time x \<le> t_time t) ts"

abbreviation by_time :: "eloop_timeout list \<Rightarrow> bool" where
  "by_time ts \<equiv> sorted (map t_time ts)"

lemma insert_timeout_set: "set (insert_timeout t ts) = insert t (set ts)"
proof -
  have "set ts = set (takeWhile (\<lambda>x. t_time x \<le> t_time t) ts) \<union> set (dropWhile (\<lambda>x. t_time x \<le> t_time t) ts)"
    by (metis set_append takeWhile_dropWhile_id)
  then show ?thesis by (auto simp: insert_timeout_def)
qed

lemma insert_timeout_length: "length (insert_timeout t ts) = Suc (length ts)"
  by (metis add_Suc_right insert_timeout_def length_Cons length_append takeWhile_dropWhile_id)

lemma insert_timeout_Cons:
  "insert_timeout t (x # ts) =
    (if t_time x \<le> t_time t then x # insert_timeout t ts else t # x # ts)"
  by (simp add: insert_timeout_def)

lemma insert_timeout_by_time: "by_time ts \<Longrightarrow> by_time (insert_timeout t ts)"
proof (induction ts)
  case Nil
  then show ?case by (simp add: insert_timeout_def)
next
  case (Cons x ts)
  then show ?case by (auto simp: insert_timeout_Cons insert_timeout_set)
qed

lemma tmo_ring_length: "tmo_ring st as ts \<Longrightarrow> length as = length ts"
  by (metis length_map tmo_ring_def)

lemma tmo_ring_mem:
  assumes "tmo_ring st as ts" "a \<in> set as"
  shows "a \<noteq> NULL" "a \<noteq> timeout_head" "\<exists>n. node st a = Some n"
proof -
  show "a \<noteq> NULL" "a \<noteq> timeout_head"
    using assms by (auto simp: tmo_ring_def dest: ring_NULL ring_distinct)
  show "\<exists>n. node st a = Some n"
    using assms by (auto simp: tmo_ring_def domD)
qed

lemma tmo_abs_unique: "tmo_abs st ts \<Longrightarrow> tmo_abs st ts' \<Longrightarrow> ts = ts'"
proof -
  have "as = bs" if "ring h l as" "ring h l bs" for h l as bs
  proof -
    have *: "links h (x # as @ [l]) \<Longrightarrow> links h (x # bs @ [l]) \<Longrightarrow> l \<notin> set as \<Longrightarrow> l \<notin> set bs
      \<Longrightarrow> as = bs" for x
    proof (induction as arbitrary: x bs)
      case Nil
      then show ?case by (cases bs) auto
    next
      case (Cons a as)
      then show ?case by (cases bs) auto
    qed
    show ?thesis using * [of l] that by (auto simp: ring_def)
  qed
  then show "tmo_abs st ts \<Longrightarrow> tmo_abs st ts' \<Longrightarrow> ts = ts'"
    unfolding tmo_abs_def tmo_ring_def by (metis list.inj_map_strong option.inject)
qed

subsection \<open>Registration refines sorted insertion\<close>

lemma register_loop_refines:
  assumes "ring (lnk st) timeout_head (as @ bs)"
    and "p \<noteq> NULL" "p \<notin> set (timeout_head # as @ bs)"
    and "map (node st) bs = map Some ts"
  shows "\<exists>h. register_loop st p t (hd (bs @ [timeout_head])) = Some (st\<lparr>lnk := h\<rparr>) \<and>
    (\<exists>n. ring h timeout_head (as @ take n bs @ p # drop n bs)
      \<and> n = length (takeWhile (\<lambda>x. t_time x \<le> t) ts))"
  using assms
proof (induction bs arbitrary: as ts)
  case Nil
  then obtain h where "(rd_prev (lnk st) timeout_head \<bind> (\<lambda>q. dl_list_add (lnk st) q p)) = Some h"
    "ring h timeout_head (as @ [p])"
    using dl.add_tail [of "lnk st" timeout_head as p] by auto
  then show ?case
    using Nil by (intro exI [of _ h]) (simp add: register_loop.simps dl_list_add_tail_def)
next
  case (Cons a bs)
  then obtain x ts' where ts: "ts = x # ts'" "node st a = Some x" "map (node st) bs = map Some ts'"
    by (cases ts) auto
  have a: "a \<noteq> NULL" "a \<noteq> timeout_head"
    using Cons.prems(1) by (auto dest: ring_NULL ring_distinct)
  show ?case
  proof (cases "t < t_time x")
    case True
    from dl.add_before [OF Cons.prems(1,2)] Cons.prems(3) obtain h where
      "dl_list_add (lnk st) (dl_prev (lnk st) a) p = Some h"
      "ring h timeout_head (as @ p # a # bs)" by auto
    moreover have "\<not> t_time x \<le> t" using True by simp
    ultimately show ?thesis
      using True a ts
      by (intro exI [of _ h]) (simp add: register_loop.simps time_simps heap_simps)
  next
    case False
    have "\<exists>h. register_loop st p t (hd (bs @ [timeout_head])) = Some (st\<lparr>lnk := h\<rparr>) \<and>
      (\<exists>n. ring h timeout_head ((as @ [a]) @ take n bs @ p # drop n bs)
        \<and> n = length (takeWhile (\<lambda>x. t_time x \<le> t) ts'))"
      by (rule Cons.IH) (use Cons.prems ts in auto)
    then show ?thesis
      using False a ts ring_next_at [OF Cons.prems(1)]
      by (subst register_loop.simps) (auto simp: time_simps heap_simps)
  qed
qed

lemma split_at_takeWhile:
  assumes "n = length (takeWhile P ts)"
  shows "take n ts = takeWhile P ts" "drop n ts = dropWhile P ts"
  unfolding assms by (rule takeWhile_eq_take [symmetric], rule dropWhile_eq_drop [symmetric])

lemma register_refines:
  assumes "tmo_ring st as ts" "p \<noteq> NULL" "p \<noteq> timeout_head" "node st p = None"
    and s: "s = c_long (sec now + sint secs)" "sec now \<le> s"
    and n: "n = \<lparr>t_time = carry_usecs s (c_long (usec now + sint usecs)), t_eloop_data = ed,
      t_user_data = ud, t_handler = hnd\<rparr>"
  shows "\<exists>st'. eloop_register_timeout p (Some now) secs usecs hnd ed ud st = Some (0, st')
    \<and> tmo_abs st' (insert_timeout n ts)"
proof -
  define st1 where "st1 = st\<lparr>node := (node st)(p \<mapsto> n)\<rparr>"
  have ring: "ring (lnk st1) timeout_head ([] @ as)" using assms(1) by (simp add: tmo_ring_def st1_def)
  have p: "p \<notin> set (timeout_head # [] @ as)"
    using assms(1,3,4) by (auto dest!: tmo_ring_mem(3))
  have nodes: "map (node st1) as = map Some ts"
    using assms(1) p by (simp add: tmo_ring_def st1_def del: fun_upd_apply)
  from register_loop_refines [OF ring assms(2) p nodes, of "t_time n"] obtain h m where
    run: "register_loop st1 p (t_time n) (hd (as @ [timeout_head])) = Some (st1\<lparr>lnk := h\<rparr>)" and
    ring': "ring h timeout_head (take m as @ p # drop m as)" and
    m: "m = length (takeWhile (\<lambda>x. t_time x \<le> t_time n) ts)" by auto
  have "tmo_ring (st1\<lparr>lnk := h\<rparr>) (take m as @ p # drop m as) (insert_timeout n ts)"
  proof -
    have "map (node st1) (take m as @ p # drop m as) = map Some (take m ts @ n # drop m ts)"
      using nodes by (simp add: st1_def take_map [symmetric] drop_map [symmetric])
    then show ?thesis
      using ring' assms(1) split_at_takeWhile [OF m] set_append [of "take m as" "drop m as"]
      by (auto simp: tmo_ring_def insert_timeout_def st1_def)
  qed
  moreover have "eloop_register_timeout p (Some now) secs usecs hnd ed ud st = Some (0, st1\<lparr>lnk := h\<rparr>)"
    using run s n assms(2) ring_next_hd [OF ring]
    by (simp add: eloop_register_timeout_def Let_def st1_def heap_simps)
  ultimately show ?thesis unfolding tmo_abs_def by blast
qed

subsection \<open>Removal refines filtering\<close>

lemma remove_refines:
  assumes "tmo_ring st (as @ a # bs) ts"
  shows "\<exists>st'. eloop_remove_timeout st a = Some st' \<and> node st' = (node st)(a := None)
    \<and> tmo_ring st' (as @ bs) (take (length as) ts @ drop (Suc (length as)) ts)"
proof -
  from assms have r: "ring (lnk st) timeout_head (as @ a # bs)" by (simp add: tmo_ring_def)
  from dl.unlink_any [OF r] obtain h where h: "dl_list_del (lnk st) a = Some h"
    "ring h timeout_head (as @ bs)" by auto
  have d: "a \<notin> set (as @ bs)" using ring_distinct [OF r] by auto
  have m: "map (node st) (as @ a # bs) = map Some ts" using assms by (simp add: tmo_ring_def)
  have "map (node st) (as @ bs) = map Some (take (length as) ts @ drop (Suc (length as)) ts)"
    using arg_cong [OF m, of "take (length as)"] arg_cong [OF m, of "drop (Suc (length as))"]
      tmo_ring_length [OF assms] by (simp add: take_map drop_map)
  then have "tmo_ring (st\<lparr>lnk := h, node := (node st)(a := None)\<rparr>) (as @ bs)
      (take (length as) ts @ drop (Suc (length as)) ts)"
    using h(2) d assms by (auto simp: tmo_ring_def)
  then show ?thesis using h(1) by (simp add: eloop_remove_timeout_def)
qed

text \<open>
  The loop invariant of the safe iteration: \<open>as\<close> are the kept nodes already passed, \<open>bs\<close> the
  nodes still to visit, and the two cursors are the first two nodes of what is left.
\<close>

lemma cancel_loop_refines:
  assumes "tmo_ring st (as @ bs) (us @ ts)" "length as = length us"
    and "cur = hd (bs @ [timeout_head])"
    and "nxt = (if bs = [] then hd (as @ [timeout_head]) else hd (tl bs @ [timeout_head]))"
  shows "\<exists>st'. cancel_loop m cur nxt k st = Some (k + int (length (filter m ts)), st')
    \<and> tmo_abs st' (us @ filter (\<lambda>x. \<not> m x) ts)"
  using assms
proof (induction bs arbitrary: as us ts cur nxt k st)
  case Nil
  then have "ts = []" using tmo_ring_length by fastforce
  then show ?case using Nil by (auto simp: cancel_loop.simps tmo_abs_def)
next
  case (Cons b bs)
  obtain x ts' where ts: "ts = x # ts'" "node st b = Some x" "length bs = length ts'"
    using Cons.prems(1,2) tmo_ring_length [OF Cons.prems(1)]
    by (cases ts) (auto simp: tmo_ring_def)
  have b: "b \<noteq> NULL" "b \<noteq> timeout_head" using tmo_ring_mem [OF Cons.prems(1), of b] by auto
  have cur: "cur = b" and nxt: "nxt = hd (bs @ [timeout_head])" using Cons.prems(3,4) by auto
  show ?case
  proof (cases "m x")
    case True
    from remove_refines [OF Cons.prems(1)] obtain st1 where st1:
      "eloop_remove_timeout st b = Some st1" "tmo_ring st1 (as @ bs) (us @ ts')"
      using ts Cons.prems(2) by auto
    have n0: "nxt \<noteq> NULL" using nxt tmo_ring_mem(1) [OF st1(2)] by (cases bs) auto
    have "dl_next (lnk st1) nxt =
        (if bs = [] then hd (as @ [timeout_head]) else hd (tl bs @ [timeout_head]))"
    proof (cases bs)
      case Nil
      then show ?thesis using nxt st1(2) ring_next_hd [of "lnk st1" timeout_head as]
        by (simp add: tmo_ring_def)
    next
      case (Cons c cs)
      then show ?thesis using nxt st1(2) ring_next_at [of "lnk st1" timeout_head as c cs]
        by (simp add: tmo_ring_def)
    qed
    then obtain st2 where st2: "cancel_loop m nxt (dl_next (lnk st1) nxt) (k + 1) st1
        = Some (k + 1 + int (length (filter m ts')), st2)"
      "tmo_abs st2 (us @ filter (\<lambda>x. \<not> m x) ts')"
      using Cons.IH [OF st1(2) Cons.prems(2) nxt, of _ "k + 1"] by auto
    have "cancel_loop m cur nxt k st = Some (k + 1 + int (length (filter m ts')), st2)"
      using b ts True st1(1) n0 st2(1) unfolding cur
      by (subst cancel_loop.simps) (simp add: heap_simps)
    then show ?thesis using st2(2) ts True by auto
  next
    case False
    have r: "tmo_ring st ((as @ [b]) @ bs) ((us @ [x]) @ ts')" "length (as @ [b]) = length (us @ [x])"
      using Cons.prems(1,2) ts(1) by auto
    have n0: "nxt \<noteq> NULL" using nxt tmo_ring_mem(1) [OF r(1)] by (cases bs) auto
    have "dl_next (lnk st) nxt =
        (if bs = [] then hd ((as @ [b]) @ [timeout_head]) else hd (tl bs @ [timeout_head]))"
    proof (cases bs)
      case Nil
      then show ?thesis using nxt r(1) ring_next_hd [of "lnk st" timeout_head "as @ [b]"]
        by (simp add: tmo_ring_def)
    next
      case (Cons c cs)
      then show ?thesis using nxt r(1) ring_next_at [of "lnk st" timeout_head "as @ [b]" c cs]
        by (simp add: tmo_ring_def)
    qed
    then obtain st2 where st2: "cancel_loop m nxt (dl_next (lnk st) nxt) k st
        = Some (k + int (length (filter m ts')), st2)"
      "tmo_abs st2 ((us @ [x]) @ filter (\<lambda>x. \<not> m x) ts')"
      using Cons.IH [OF r nxt, of _ k] by auto
    have "cancel_loop m cur nxt k st = Some (k + int (length (filter m ts')), st2)"
      using b ts False n0 st2(1) unfolding cur
      by (subst cancel_loop.simps) (simp add: heap_simps)
    then show ?thesis using st2(2) ts False by auto
  qed
qed

lemma cancel_refines:
  assumes "tmo_abs st ts"
  shows "\<exists>st'. eloop_cancel_timeout hnd ed ud st
      = Some (int (length (filter (cancel_match hnd ed ud) ts)), st')
    \<and> tmo_abs st' (filter (\<lambda>x. \<not> cancel_match hnd ed ud x) ts)"
proof -
  from assms obtain as where as: "tmo_ring st ([] @ as) ([] @ ts)" by (auto simp: tmo_abs_def)
  then have r: "ring (lnk st) timeout_head as" by (simp add: tmo_ring_def)
  define cur where "cur = hd (as @ [timeout_head])"
  have c: "dl_next (lnk st) timeout_head = cur" "cur \<noteq> NULL"
    using ring_next_hd [OF r] tmo_ring_mem(1) [OF as] by (auto simp: cur_def hd_append)
  have "dl_next (lnk st) cur =
      (if as = [] then hd ([] @ [timeout_head]) else hd (tl as @ [timeout_head]))"
    using r ring_next_at [of "lnk st" timeout_head "[]"] ring_next_hd [OF r]
    by (cases as) (auto simp: cur_def)
  from cancel_loop_refines [OF as _ cur_def this, of "cancel_match hnd ed ud" 0]
  show ?thesis using c by (simp add: eloop_cancel_timeout_def heap_simps)
qed

lemma find_timeout_refines:
  assumes "tmo_ring st (as @ bs) (us @ ts)" "length as = length us"
  shows "find_timeout m (hd (bs @ [timeout_head])) st =
    Some (if (\<exists>x \<in> set ts. m x) then Some (bs ! length (takeWhile (\<lambda>x. \<not> m x) ts)) else None)"
  using assms
proof (induction bs arbitrary: as us ts)
  case Nil
  then have "ts = []" using tmo_ring_length by fastforce
  then show ?case by (simp add: find_timeout.simps)
next
  case (Cons b bs)
  obtain x ts' where ts: "ts = x # ts'" "node st b = Some x"
    using Cons.prems(1,2) tmo_ring_length [OF Cons.prems(1)]
    by (cases ts) (auto simp: tmo_ring_def)
  have b: "b \<noteq> NULL" "b \<noteq> timeout_head" using tmo_ring_mem [OF Cons.prems(1), of b] by auto
  have "tmo_ring st ((as @ [b]) @ bs) ((us @ [x]) @ ts')" using Cons.prems(1) ts(1) by simp
  from Cons.IH [OF this] have ih: "find_timeout m (hd (bs @ [timeout_head])) st =
      Some (if \<exists>x \<in> set ts'. m x then Some (bs ! length (takeWhile (\<lambda>x. \<not> m x) ts')) else None)"
    using Cons.prems(2) by simp
  have "dl_next (lnk st) b = hd (bs @ [timeout_head])"
    using Cons.prems(1) ring_next_at [of "lnk st" timeout_head as b bs] by (simp add: tmo_ring_def)
  then show ?case using ih b ts by (subst find_timeout.simps) (auto simp: heap_simps)
qed

lemma registered_refines:
  assumes "tmo_abs st ts"
  shows "eloop_is_timeout_registered hnd ed ud st =
    Some (if \<exists>x \<in> set ts. exact_match hnd ed ud x then 1 else 0)"
proof -
  from assms obtain as where as: "tmo_ring st ([] @ as) ([] @ ts)" by (auto simp: tmo_abs_def)
  then have "dl_next (lnk st) timeout_head = hd (as @ [timeout_head])"
    by (auto simp: tmo_ring_def dest: ring_next_hd)
  then show ?thesis
    using find_timeout_refines [OF as, of "exact_match hnd ed ud"]
    by (simp add: eloop_is_timeout_registered_def heap_simps)
qed

subsection \<open>Properties\<close>

text \<open>The empty queue of a freshly initialised loop, for the witnesses.\<close>

definition empty_store :: timeout_store where
  "empty_store = \<lparr>lnk = \<lparr>dl_next = (\<lambda>_. timeout_head), dl_prev = (\<lambda>_. timeout_head)\<rparr>,
    node = (\<lambda>_. None)\<rparr>"

lemma tmo_ring_empty_store: "tmo_ring empty_store [] []"
  by (simp add: tmo_ring_def empty_store_def ring_def)

lemma tmo_abs_empty_store: "tmo_abs empty_store []"
  using tmo_ring_empty_store by (auto simp: tmo_abs_def)

text \<open>The time a registration asks for, when the arguments fit \<open>int\<close>.\<close>

lemma deadline_normal:
  assumes "normal_time now" "sec now < 2 ^ 61" "uint secs < 2 ^ 31" "uint usecs < 2 ^ 31"
  defines "s \<equiv> c_long (sec now + sint (secs :: 32 word))"
  defines "t \<equiv> carry_usecs s (c_long (usec now + sint (usecs :: 32 word)))"
  shows "sec now \<le> s" "normal_time t"
    "usecs_of t = usecs_of now + uint secs * 1000000 + uint usecs"
proof -
  have small: "sint (w :: 32 word) = uint w" if "uint w < 2 ^ 31" for w
    using that c_int_small [of "uint w"] uint_ge_0 [of w] by (simp add: sint_uint c_int_def)
  note ge0 = uint_ge_0 [of secs] uint_ge_0 [of usecs]
  have n: "0 \<le> sec now" "0 \<le> usec now" "usec now < 1000000"
    using assms(1) by (auto simp: normal_time_def)
  have s: "s = sec now + uint secs"
    unfolding s_def small [OF assms(3)]
    by (rule c_long_add [OF n(1) assms(2) ge0(1) assms(3)])
  then show "sec now \<le> s" by simp
  have u: "c_long (usec now + sint usecs) = usec now + uint usecs"
    unfolding small [OF assms(4)]
    by (rule c_long_add [OF n(2) _ ge0(2) assms(4)]) (use n(3) in simp)
  have "a + b + (c + d) div 1000000 < 2 ^ 62"
    if "a < 2 ^ 61" "b < 2 ^ 31" "c < 1000000" "d < 2 ^ 31" for a b c d :: int
    using that by simp
  then have "0 \<le> usec now + uint usecs" "0 \<le> s" "s + (usec now + uint usecs) div 1000000 < 2 ^ 62"
    unfolding s using n assms(2-4) ge0 by (auto simp del: uint_ge_0)
  from carry_usecs_normal [OF this]
  show "normal_time t" "usecs_of t = usecs_of now + uint secs * 1000000 + uint usecs"
    by (simp_all add: t_def u s usecs_of_def algebra_simps)
qed

text \<open>
  C31: \<open>eloop_register_timeout\<close> on the heap refines insertion into the list of pending timeouts:
  with a fresh node and a readable clock it returns 0, links the new node after every timeout
  that is not later and before every later one, keeps the queue in order of time, changes no
  other timeout, and the new deadline is exactly the clock plus the requested seconds and
  microseconds.
\<close>

theorem register_timeout_in_order:
  assumes "tmo_abs st ts" "by_time ts"
    and "p \<noteq> NULL" "p \<noteq> timeout_head" "node st p = None"
    and "normal_time now" "sec now < 2 ^ 61" "uint secs < 2 ^ 31" "uint usecs < 2 ^ 31"
  shows "\<exists>st' n. eloop_register_timeout p (Some now) secs usecs hnd ed ud st = Some (0, st')
    \<and> tmo_abs st' (insert_timeout n ts) \<and> by_time (insert_timeout n ts)
    \<and> t_handler n = hnd \<and> t_eloop_data n = ed \<and> t_user_data n = ud
    \<and> usecs_of (t_time n) = usecs_of now + uint secs * 1000000 + uint usecs"
proof -
  from assms(1) obtain as where as: "tmo_ring st as ts" by (auto simp: tmo_abs_def)
  note d = deadline_normal [OF assms(6-9)]
  from register_refines [OF as assms(3-5) refl d(1) refl] obtain st' where
    "eloop_register_timeout p (Some now) secs usecs hnd ed ud st = Some (0, st')"
    "tmo_abs st' (insert_timeout \<lparr>t_time = carry_usecs (c_long (sec now + sint secs))
        (c_long (usec now + sint usecs)), t_eloop_data = ed, t_user_data = ud,
        t_handler = hnd\<rparr> ts)" by blast
  then show ?thesis using insert_timeout_by_time [OF assms(2)] d(3) by fastforce
qed

theorem register_timeout_in_order_witness:
  "\<exists>st' n. eloop_register_timeout 2 (Some (Reltime 5 999999)) 1 1 7 8 9 empty_store = Some (0, st')
    \<and> tmo_abs st' (insert_timeout n []) \<and> by_time (insert_timeout n [])
    \<and> t_handler n = 7 \<and> t_eloop_data n = 8 \<and> t_user_data n = 9
    \<and> usecs_of (t_time n) = usecs_of (Reltime 5 999999) + uint (1 :: 32 word) * 1000000 + uint (1 :: 32 word)"
  by (rule register_timeout_in_order [OF tmo_abs_empty_store])
    (simp_all add: timeout_head_def empty_store_def normal_time_def)

text \<open>
  The error paths of \<open>eloop_register_timeout\<close>: a failed allocation or clock returns -1, and
  a number of seconds that is negative as an \<open>int\<close> (a timeout too far away) is ignored with
  result 0; in all three cases the queue is untouched.
\<close>

theorem register_timeout_errors:
  assumes "sec now < 2 ^ 61" "0 \<le> sec now" "p \<noteq> NULL" "sint s < 0"
  shows "eloop_register_timeout NULL c secs usecs hnd ed ud st = Some (-1, st)
    \<and> eloop_register_timeout p None secs usecs hnd ed ud st = Some (-1, st)
    \<and> eloop_register_timeout p (Some now) s usecs hnd ed ud st = Some (0, st)"
proof -
  have "sint s \<ge> - (2 ^ 31)" using sint_ge [of s] by simp
  then have "c_long (sec now + sint s) = sec now + sint s"
    using assms by (intro c_long_id) auto
  then show ?thesis using assms by (simp add: eloop_register_timeout_def)
qed

theorem register_timeout_errors_witness:
  "eloop_register_timeout NULL (Some (Reltime 5 0)) 1 0 7 8 9 empty_store = Some (-1, empty_store)
    \<and> eloop_register_timeout 2 None 1 0 7 8 9 empty_store = Some (-1, empty_store)
    \<and> eloop_register_timeout 2 (Some (Reltime 5 0)) 0xFFFFFFFF 0 7 8 9 empty_store = Some (0, empty_store)"
  by (rule register_timeout_errors [of "Reltime 5 0"]) simp_all

text \<open>
  C33: \<open>eloop_cancel_timeout\<close> removes exactly the matching timeouts (wildcard arguments match
  everything), keeps the order of the others, frees the nodes it unlinks (no node stays
  allocated outside the queue), and returns how many it removed.
\<close>

theorem cancel_timeout_filters:
  assumes "tmo_abs st ts" "by_time ts"
  shows "\<exists>st'. eloop_cancel_timeout hnd ed ud st
      = Some (int (length (filter (cancel_match hnd ed ud) ts)), st')
    \<and> tmo_abs st' (filter (\<lambda>x. \<not> cancel_match hnd ed ud x) ts)
    \<and> by_time (filter (\<lambda>x. \<not> cancel_match hnd ed ud x) ts)"
  using cancel_refines [OF assms(1)] sorted_filter [OF assms(2)] by blast

theorem cancel_timeout_filters_witness:
  "\<exists>st'. eloop_cancel_timeout 7 8 9 empty_store
      = Some (int (length (filter (cancel_match 7 8 9) [])), st')
    \<and> tmo_abs st' (filter (\<lambda>x. \<not> cancel_match 7 8 9 x) [])
    \<and> by_time (filter (\<lambda>x. \<not> cancel_match 7 8 9 x) [])"
  by (rule cancel_timeout_filters [OF tmo_abs_empty_store]) simp

text \<open>
  Registration and query agree: right after \<open>eloop_register_timeout\<close> succeeded with a
  fresh node, \<open>eloop_is_timeout_registered\<close> for the same handler and contexts returns 1, and
  for any handler that no pending timeout had and that is not the new one it still returns 0.
\<close>

theorem register_then_registered:
  assumes "tmo_abs st ts" "p \<noteq> NULL" "p \<noteq> timeout_head" "node st p = None"
    and "sec now \<le> c_long (sec now + sint secs)"
  shows "\<exists>st'. eloop_register_timeout p (Some now) secs usecs hnd ed ud st = Some (0, st')
    \<and> eloop_is_timeout_registered hnd ed ud st' = Some 1
    \<and> (\<forall>h. h \<noteq> hnd \<and> h \<notin> t_handler ` set ts \<longrightarrow> eloop_is_timeout_registered h ed ud st' = Some 0)"
proof -
  from assms(1) obtain as where as: "tmo_ring st as ts" by (auto simp: tmo_abs_def)
  define n where "n = \<lparr>t_time = carry_usecs (c_long (sec now + sint secs))
    (c_long (usec now + sint usecs)), t_eloop_data = ed, t_user_data = ud, t_handler = hnd\<rparr>"
  from register_refines [OF as assms(2-4) refl assms(5) n_def] obtain st' where st':
    "eloop_register_timeout p (Some now) secs usecs hnd ed ud st = Some (0, st')"
    "tmo_abs st' (insert_timeout n ts)" by blast
  note q = registered_refines [OF st'(2)]
  have "exact_match hnd ed ud n" by (simp add: exact_match_def n_def)
  then have "eloop_is_timeout_registered hnd ed ud st' = Some 1"
    using q [of hnd ed ud] by (auto simp: insert_timeout_set)
  moreover have "eloop_is_timeout_registered h ed ud st' = Some 0"
    if "h \<noteq> hnd" "h \<notin> t_handler ` set ts" for h
    using q [of h ed ud] that by (auto simp: insert_timeout_set exact_match_def n_def)
  ultimately show ?thesis using st'(1) by blast
qed

theorem register_then_registered_witness:
  "\<exists>st'. eloop_register_timeout 2 (Some (Reltime 5 0)) 1 0 7 8 9 empty_store = Some (0, st')
    \<and> eloop_is_timeout_registered 7 8 9 st' = Some 1
    \<and> (\<forall>h. h \<noteq> 7 \<and> h \<notin> t_handler ` set ([] :: eloop_timeout list) \<longrightarrow> eloop_is_timeout_registered h 8 9 st' = Some 0)"
  by (rule register_then_registered [OF tmo_abs_empty_store])
    (simp_all add: timeout_head_def empty_store_def c_long_id)

text \<open>
  A request of \<open>2\<^sup>3\<^sup>1\<close> microseconds or more turns negative in the conversion to \<open>int\<close>, is not
  normalised by the carry loop, and gives a deadline before the present.
\<close>

lemma register_usecs_overflow:
  "usecs_of (carry_usecs (c_long (5 + sint (0 :: 32 word))) (c_long (0 + sint (0x80000000 :: 32 word))))
    < usecs_of (Reltime 5 0)"
proof -
  have "c_long (0 + sint (0x80000000 :: 32 word)) = - 2147483648" "c_long (5 + sint (0 :: 32 word)) = 5"
    by (simp_all add: c_long_id)
  then show ?thesis by (simp add: carry_usecs_negative usecs_of_def)
qed

end
