(* ===== verification/Eloop.thy ===== *)
theory Eloop
  imports Eloop_Timeout
begin

text \<open>
  The event loop of \<open>eloop/src/eloop.c\<close>, in the \<open>select\<close> configuration the file fixes: socket
  tables, signals, and the loop itself over the timeout queue of \<open>Eloop_Timeout\<close>.

  Handlers are user code and arrive as an environment \<open>eloop_env\<close>: a handler is named by its
  address and acts on the whole loop state, so that it can register and cancel.  What the
  kernel does during one pass (the clock, the signals delivered, the result of \<open>select\<close>) is an
  input \<open>pass_io\<close>.  An aborting \<open>assert\<close>, an access past a \<open>fd_set\<close> and an invalid pointer have
  no result (\<open>None\<close>).
\<close>

subsection \<open>State\<close>

record eloop_sock =
  s_sock :: int
  s_eloop_data :: addr
  s_user_data :: addr
  s_handler :: addr

record eloop_signal =
  g_sig :: int
  g_user_data :: addr
  g_handler :: addr
  g_signaled :: int

text \<open>\<open>allocated\<close> says that the table pointer is not null; the entry count is the list's length.\<close>

record eloop_sock_table =
  allocated :: bool
  table :: "eloop_sock list"
  changed :: bool

text \<open>\<open>alarm\<close> is the pending argument of the \<open>alarm\<close> system call, 0 when there is none.\<close>

record eloop_data =
  max_sock :: int
  count :: int
  readers :: eloop_sock_table
  writers :: eloop_sock_table
  exceptions :: eloop_sock_table
  timeout :: timeout_store
  signals :: "eloop_signal list"
  signaled :: int
  pending_terminate :: bool
  terminate :: bool
  alarm :: int

definition SIGHUP :: int where "SIGHUP = 1"
definition SIGINT :: int where "SIGINT = 2"
definition SIGTERM :: int where "SIGTERM = 15"
definition EINTR :: int where "EINTR = 4"
definition FD_SETSIZE :: int where "FD_SETSIZE = 1024"

definition eloop_init :: "eloop_data \<Rightarrow> (int \<times> eloop_data) option" where
  "eloop_init st = do {
     h \<leftarrow> dl_list_init \<lparr>dl_next = (\<lambda>_. NULL), dl_prev = (\<lambda>_. NULL)\<rparr> timeout_head;
     Some (0, \<lparr>max_sock = 0, count = 0,
       readers = \<lparr>allocated = False, table = [], changed = False\<rparr>,
       writers = \<lparr>allocated = False, table = [], changed = False\<rparr>,
       exceptions = \<lparr>allocated = False, table = [], changed = False\<rparr>,
       timeout = \<lparr>lnk = h, node = (\<lambda>_. None)\<rparr>,
       signals = [], signaled = 0, pending_terminate = False, terminate = False,
       alarm = alarm st\<rparr>)
   }"

subsection \<open>Socket tables\<close>

text \<open>
  A table pointer is a lens into the state: \<open>eloop_get_sock_table\<close> selects one of the three
  tables, and any other enum value gives the null pointer.
\<close>

datatype table_ref = Readers | Writers | Exceptions

fun get_table :: "table_ref \<Rightarrow> eloop_data \<Rightarrow> eloop_sock_table" where
  "get_table Readers st = readers st"
| "get_table Writers st = writers st"
| "get_table Exceptions st = exceptions st"

fun put_table :: "table_ref \<Rightarrow> eloop_sock_table \<Rightarrow> eloop_data \<Rightarrow> eloop_data" where
  "put_table Readers t st = st\<lparr>readers := t\<rparr>"
| "put_table Writers t st = st\<lparr>writers := t\<rparr>"
| "put_table Exceptions t st = st\<lparr>exceptions := t\<rparr>"

definition EVENT_TYPE_READ :: int where "EVENT_TYPE_READ = 0"
definition EVENT_TYPE_WRITE :: int where "EVENT_TYPE_WRITE = 1"
definition EVENT_TYPE_EXCEPTION :: int where "EVENT_TYPE_EXCEPTION = 2"

definition eloop_get_sock_table :: "int \<Rightarrow> table_ref option" where
  "eloop_get_sock_table type =
     (if type = EVENT_TYPE_READ then Some Readers
      else if type = EVENT_TYPE_WRITE then Some Writers
      else if type = EVENT_TYPE_EXCEPTION then Some Exceptions
      else None)"

text \<open>\<open>mem\<close> says whether the reallocation succeeds.\<close>

definition eloop_sock_table_add_sock ::
    "bool \<Rightarrow> table_ref option \<Rightarrow> int \<Rightarrow> addr \<Rightarrow> addr \<Rightarrow> addr \<Rightarrow> eloop_data \<Rightarrow> int \<times> eloop_data" where
  "eloop_sock_table_add_sock mem tab sock handler eloop_data user_data st =
     (let new_max_sock = (if sock > max_sock st then sock else max_sock st)
      in case tab of
        None \<Rightarrow> (-1, st)
      | Some r \<Rightarrow>
          if \<not> mem then (-1, st)
          else
            let t = get_table r st;
                e = \<lparr>s_sock = sock, s_eloop_data = eloop_data, s_user_data = user_data,
                     s_handler = handler\<rparr>;
                st' = put_table r \<lparr>allocated = True, table = table t @ [e], changed = True\<rparr> st
            in (0, st'\<lparr>max_sock := new_max_sock, count := count st + 1\<rparr>))"

text \<open>Removal drops the first entry of the socket; the rest moves down one place.\<close>

fun remove_sock :: "int \<Rightarrow> eloop_sock list \<Rightarrow> eloop_sock list option" where
  "remove_sock sock [] = None"
| "remove_sock sock (e # es) =
     (if s_sock e = sock then Some es else map_option (Cons e) (remove_sock sock es))"

definition eloop_sock_table_remove_sock :: "table_ref option \<Rightarrow> int \<Rightarrow> eloop_data \<Rightarrow> eloop_data" where
  "eloop_sock_table_remove_sock tab sock st =
     (case tab of
        None \<Rightarrow> st
      | Some r \<Rightarrow> (case remove_sock sock (table (get_table r st)) of
          None \<Rightarrow> st
        | Some es \<Rightarrow> (put_table r ((get_table r st)\<lparr>table := es, changed := True\<rparr>) st)\<lparr>count := count st - 1\<rparr>))"

definition eloop_register_sock ::
    "bool \<Rightarrow> int \<Rightarrow> int \<Rightarrow> addr \<Rightarrow> addr \<Rightarrow> addr \<Rightarrow> eloop_data \<Rightarrow> (int \<times> eloop_data) option" where
  "eloop_register_sock mem sock type handler eloop_data user_data st =
     (if sock \<ge> 0
      then Some (eloop_sock_table_add_sock mem (eloop_get_sock_table type) sock handler
                   eloop_data user_data st)
      else None)"

definition eloop_unregister_sock :: "int \<Rightarrow> int \<Rightarrow> eloop_data \<Rightarrow> eloop_data" where
  "eloop_unregister_sock sock type st =
     eloop_sock_table_remove_sock (eloop_get_sock_table type) sock st"

definition eloop_register_read_sock ::
    "bool \<Rightarrow> int \<Rightarrow> addr \<Rightarrow> addr \<Rightarrow> addr \<Rightarrow> eloop_data \<Rightarrow> (int \<times> eloop_data) option" where
  "eloop_register_read_sock mem sock = eloop_register_sock mem sock EVENT_TYPE_READ"

definition eloop_unregister_read_sock :: "int \<Rightarrow> eloop_data \<Rightarrow> eloop_data" where
  "eloop_unregister_read_sock sock = eloop_unregister_sock sock EVENT_TYPE_READ"

text \<open>The descriptor set a table asks \<open>select\<close> for.\<close>

fun eloop_sock_table_set_fds :: "eloop_sock list \<Rightarrow> int list option" where
  "eloop_sock_table_set_fds [] = Some []"
| "eloop_sock_table_set_fds (e # es) =
     (if s_sock e \<ge> 0 \<and> s_sock e < FD_SETSIZE
      then map_option (Cons (s_sock e)) (eloop_sock_table_set_fds es)
      else None)"

record eloop_env =
  on_timeout :: "addr \<Rightarrow> addr \<Rightarrow> addr \<Rightarrow> eloop_data \<Rightarrow> eloop_data option"
  on_sock :: "addr \<Rightarrow> int \<Rightarrow> addr \<Rightarrow> addr \<Rightarrow> eloop_data \<Rightarrow> eloop_data option"
  on_signal :: "addr \<Rightarrow> int \<Rightarrow> addr \<Rightarrow> eloop_data \<Rightarrow> eloop_data option"

text \<open>The dispatch loop reads the table again in every round, since a handler may change it.\<close>

partial_function (option) dispatch_loop ::
    "eloop_env \<Rightarrow> table_ref \<Rightarrow> int list \<Rightarrow> nat \<Rightarrow> eloop_data \<Rightarrow> eloop_data option" where
  "dispatch_loop env r fds i st =
     (if i < length (table (get_table r st)) then
        (let e = table (get_table r st) ! i
         in if s_sock e \<in> set fds then
              on_sock env (s_handler e) (s_sock e) (s_eloop_data e) (s_user_data e) st \<bind> (\<lambda>st'.
              if changed (get_table r st') then Some st'
              else dispatch_loop env r fds (Suc i) st')
            else dispatch_loop env r fds (Suc i) st)
      else Some st)"

definition eloop_sock_table_dispatch ::
    "eloop_env \<Rightarrow> table_ref \<Rightarrow> int list \<Rightarrow> eloop_data \<Rightarrow> eloop_data option" where
  "eloop_sock_table_dispatch env r fds st =
     (if \<not> allocated (get_table r st) then Some st
      else dispatch_loop env r fds 0 (put_table r ((get_table r st)\<lparr>changed := False\<rparr>) st))"

subsection \<open>Signals\<close>

text \<open>The counters are of type \<open>int\<close>; one that overflows has no result.\<close>

definition bump_signal :: "eloop_signal \<Rightarrow> eloop_signal option" where
  "bump_signal g = map_option (\<lambda>n. g\<lparr>g_signaled := n\<rparr>) (int_result (g_signaled g + 1))"

fun mark_signal :: "int \<Rightarrow> eloop_signal list \<Rightarrow> eloop_signal list option" where
  "mark_signal sig [] = Some []"
| "mark_signal sig (g # gs) =
     (if g_sig g = sig then map_option (\<lambda>g. g # gs) (bump_signal g) else map_option (Cons g) (mark_signal sig gs))"

definition eloop_handle_signal :: "int \<Rightarrow> eloop_data \<Rightarrow> eloop_data option" where
  "eloop_handle_signal sig st = do {
     let st = (if (sig = SIGINT \<or> sig = SIGTERM) \<and> \<not> pending_terminate st
               then st\<lparr>pending_terminate := True, alarm := 2\<rparr> else st);
     n \<leftarrow> int_result (signaled st + 1);
     gs \<leftarrow> mark_signal sig (signals st);
     Some (st\<lparr>signaled := n, signals := gs\<rparr>)
   }"

partial_function (option) signal_loop :: "eloop_env \<Rightarrow> nat \<Rightarrow> eloop_data \<Rightarrow> eloop_data option" where
  "signal_loop env i st =
     (if i < length (signals st) then
        (let g = signals st ! i
         in if g_signaled g \<noteq> 0 then
              on_signal env (g_handler g) (g_sig g) (g_user_data g)
                (st\<lparr>signals := (signals st)[i := g\<lparr>g_signaled := 0\<rparr>]\<rparr>) \<bind> (\<lambda>st'.
              signal_loop env (Suc i) st')
            else signal_loop env (Suc i) st)
      else Some st)"

definition eloop_process_pending_signals :: "eloop_env \<Rightarrow> eloop_data \<Rightarrow> eloop_data option" where
  "eloop_process_pending_signals env st =
     (if signaled st = 0 then Some st
      else
        let st1 = st\<lparr>signaled := 0\<rparr>;
            st2 = (if pending_terminate st1
                   then st1\<lparr>alarm := 0, pending_terminate := False\<rparr> else st1)
        in signal_loop env 0 st2)"

definition eloop_register_signal ::
    "bool \<Rightarrow> int \<Rightarrow> addr \<Rightarrow> addr \<Rightarrow> eloop_data \<Rightarrow> int \<times> eloop_data" where
  "eloop_register_signal mem sig handler user_data st =
     (if \<not> mem then (-1, st)
      else (0, st\<lparr>signals := signals st @ [\<lparr>g_sig = sig, g_user_data = user_data,
                   g_handler = handler, g_signaled = 0\<rparr>]\<rparr>))"

definition eloop_register_signal_terminate ::
    "bool \<Rightarrow> bool \<Rightarrow> addr \<Rightarrow> addr \<Rightarrow> eloop_data \<Rightarrow> int \<times> eloop_data" where
  "eloop_register_signal_terminate mem mem' handler user_data st =
     (let (ret, st') = eloop_register_signal mem SIGINT handler user_data st
      in if ret = 0 then eloop_register_signal mem' SIGTERM handler user_data st' else (ret, st'))"

definition eloop_register_signal_reconfig ::
    "bool \<Rightarrow> addr \<Rightarrow> addr \<Rightarrow> eloop_data \<Rightarrow> int \<times> eloop_data" where
  "eloop_register_signal_reconfig mem = eloop_register_signal mem SIGHUP"

subsection \<open>The loop\<close>

text \<open>
  One pass reads the clock twice, lets signals arrive while it sleeps, and gets the result of
  \<open>select\<close> with the three sets it filled in.
\<close>

record pass_io =
  clock1 :: os_reltime
  arrived :: "int list"
  select_res :: int
  select_errno :: int
  rfds :: "int list"
  wfds :: "int list"
  efds :: "int list"
  clock2 :: os_reltime

definition eloop_continues :: "eloop_data \<Rightarrow> bool option" where
  "eloop_continues st = do {
     e \<leftarrow> dl_list_empty (lnk (timeout st)) timeout_head;
     Some (\<not> terminate st \<and> (\<not> e \<or> length (table (readers st)) > 0
       \<or> length (table (writers st)) > 0 \<or> length (table (exceptions st)) > 0))
   }"

text \<open>How long \<open>select\<close> may sleep: \<open>None\<close> is without limit.\<close>

definition select_timeout :: "os_reltime \<Rightarrow> eloop_data \<Rightarrow> os_reltime option option" where
  "select_timeout now st = do {
     a \<leftarrow> dl_list_first (lnk (timeout st)) timeout_head;
     if a = NULL then Some None
     else do {
       n \<leftarrow> node (timeout st) a;
       Some (Some (if os_reltime_before now (t_time n) then os_reltime_sub (t_time n) now
                   else Reltime 0 0))
     }
   }"

text \<open>The check for an expired timeout: at most one is removed and run in a pass.\<close>

definition run_timeout :: "eloop_env \<Rightarrow> os_reltime \<Rightarrow> eloop_data \<Rightarrow> eloop_data option" where
  "run_timeout env now st = do {
     a \<leftarrow> dl_list_first (lnk (timeout st)) timeout_head;
     if a = NULL then Some st
     else do {
       n \<leftarrow> node (timeout st) a;
       if \<not> os_reltime_before now (t_time n) then do {
         tst \<leftarrow> eloop_remove_timeout (timeout st) a;
         on_timeout env (t_handler n) (t_eloop_data n) (t_user_data n) (st\<lparr>timeout := tst\<rparr>)
       }
       else Some st
     }
   }"

text \<open>A pass of the loop body; the flag says whether the loop goes on or leaves by \<open>goto out\<close>.\<close>

definition eloop_pass :: "eloop_env \<Rightarrow> pass_io \<Rightarrow> eloop_data \<Rightarrow> (bool \<times> eloop_data) option" where
  "eloop_pass env io st = do {
     tv \<leftarrow> select_timeout (clock1 io) st;
     r \<leftarrow> eloop_sock_table_set_fds (table (readers st));
     w \<leftarrow> eloop_sock_table_set_fds (table (writers st));
     e \<leftarrow> eloop_sock_table_set_fds (table (exceptions st));
     st1 \<leftarrow> fold (\<lambda>sig st. st \<bind> eloop_handle_signal sig) (arrived io) (Some st);
     let res = select_res io
     in if res < 0 \<and> select_errno io \<noteq> EINTR \<and> select_errno io \<noteq> 0 then Some (False, st1)
        else do {
          st2 \<leftarrow> eloop_process_pending_signals env st1;
          st3 \<leftarrow> run_timeout env (clock2 io) st2;
          if res \<le> 0 then Some (True, st3)
          else do {
            st4 \<leftarrow> eloop_sock_table_dispatch env Readers (rfds io) st3;
            st5 \<leftarrow> eloop_sock_table_dispatch env Writers (wfds io) st4;
            st6 \<leftarrow> eloop_sock_table_dispatch env Exceptions (efds io) st5;
            Some (True, st6)
          }
        }
   }"

text \<open>
  The run over a sequence of passes: it ends when the condition fails, and is still inside the
  loop (flag \<open>True\<close>) when the inputs are used up.
\<close>

fun eloop_loop :: "eloop_env \<Rightarrow> pass_io list \<Rightarrow> eloop_data \<Rightarrow> (bool \<times> eloop_data) option" where
  "eloop_loop env ios st =
     eloop_continues st \<bind> (\<lambda>c.
     if \<not> c then Some (False, st\<lparr>terminate := False\<rparr>)
     else case ios of
       [] \<Rightarrow> Some (True, st)
     | io # ios' \<Rightarrow> eloop_pass env io st \<bind> (\<lambda>(go, st').
         if go then eloop_loop env ios' st' else Some (False, st')))"

declare eloop_loop.simps [simp del]

text \<open>\<open>mem\<close> says whether the three descriptor sets could be allocated.\<close>

definition eloop_run :: "bool \<Rightarrow> eloop_env \<Rightarrow> pass_io list \<Rightarrow> eloop_data \<Rightarrow> (bool \<times> eloop_data) option" where
  "eloop_run mem env ios st = (if \<not> mem then Some (False, st) else eloop_loop env ios st)"

definition eloop_terminate :: "eloop_data \<Rightarrow> eloop_data" where
  "eloop_terminate st = st\<lparr>terminate := True\<rparr>"

definition eloop_terminated :: "eloop_data \<Rightarrow> int" where
  "eloop_terminated st = (if terminate st then 1 else 0)"

subsection \<open>The invariant of the loop state\<close>

lemma table_lens [simp]:
  "get_table r (put_table r t st) = t"
  "r \<noteq> r' \<Longrightarrow> get_table r (put_table r' t st) = get_table r st"
  "timeout (put_table r t st) = timeout st" "signals (put_table r t st) = signals st"
  "max_sock (put_table r t st) = max_sock st" "count (put_table r t st) = count st"
  "terminate (put_table r t st) = terminate st"
  "signaled (put_table r t st) = signaled st"
  "get_table r (st\<lparr>timeout := tst\<rparr>) = get_table r st"
  "get_table r (st\<lparr>max_sock := m\<rparr>) = get_table r st"
  "get_table r (st\<lparr>count := c\<rparr>) = get_table r st"
  by (cases r; cases r'; simp)+

text \<open>
  \<open>count\<close> is the number of entries in the three tables, and \<open>max_sock\<close> bounds every socket, so
  that \<open>max_sock + 1\<close> is a bound \<open>select\<close> accepts; the queue is in order of time.
\<close>

definition socks_ok :: "eloop_data \<Rightarrow> bool" where
  "socks_ok st \<longleftrightarrow>
     count st = int (length (table (readers st)) + length (table (writers st))
       + length (table (exceptions st))) \<and>
     (\<forall>r. \<forall>e \<in> set (table (get_table r st)). 0 \<le> s_sock e \<and> s_sock e \<le> max_sock st)"

definition eloop_inv :: "eloop_data \<Rightarrow> eloop_timeout list \<Rightarrow> bool" where
  "eloop_inv st ts \<longleftrightarrow> socks_ok st \<and> tmo_abs (timeout st) ts \<and> by_time ts"

lemma remove_sock_Some:
  "remove_sock sock es = Some es' \<Longrightarrow>
   \<exists>us e vs. es = us @ e # vs \<and> s_sock e = sock \<and> es' = us @ vs \<and> sock \<notin> s_sock ` set us"
proof (induction es arbitrary: es')
  case (Cons x es)
  show ?case
  proof (cases "s_sock x = sock")
    case True
    then show ?thesis using Cons.prems by (intro exI [of _ "[]"]) auto
  next
    case False
    then obtain es1 where "remove_sock sock es = Some es1" "es' = x # es1"
      using Cons.prems by auto
    then obtain us e vs where "es = us @ e # vs" "s_sock e = sock" "es1 = us @ vs"
      "sock \<notin> s_sock ` set us" using Cons.IH by blast
    then show ?thesis using False \<open>es' = x # es1\<close>
      by (intro exI [of _ "x # us"] exI [of _ e] exI [of _ vs]) auto
  qed
qed simp

lemma remove_sock_None: "remove_sock sock es = None \<longleftrightarrow> sock \<notin> s_sock ` set es"
  by (induction es) auto

lemma add_sock_ok:
  assumes "socks_ok st" "0 \<le> sock"
  shows "socks_ok (snd (eloop_sock_table_add_sock mem tab sock h ed ud st))"
proof (cases tab)
  case None
  then show ?thesis using assms by (simp add: eloop_sock_table_add_sock_def)
next
  case (Some r)
  let ?st = "snd (eloop_sock_table_add_sock mem tab sock h ed ud st)"
  show ?thesis
  proof (cases mem)
    case True
    let ?e = "\<lparr>s_sock = sock, s_eloop_data = ed, s_user_data = ud, s_handler = h\<rparr>"
    have m: "max_sock ?st = max (max_sock st) sock"
      using True Some by (simp add: eloop_sock_table_add_sock_def Let_def)
    have t: "table (get_table r' ?st) =
        table (get_table r' st) @ (if r' = r then [?e] else [])" for r'
      using True Some
      by (cases "r' = r") (simp_all add: eloop_sock_table_add_sock_def Let_def)
    have "0 \<le> s_sock e \<and> s_sock e \<le> max_sock ?st" if "e \<in> set (table (get_table r' ?st))" for r' e
    proof -
      have "e \<in> set (table (get_table r' st)) \<or> e = ?e" using that t [of r'] by (auto split: if_splits)
      then show ?thesis using assms m by (fastforce simp: socks_ok_def)
    qed
    moreover have "count ?st = count st + 1"
      using True Some by (simp add: eloop_sock_table_add_sock_def Let_def)
    ultimately show ?thesis
      using assms t [of Readers] t [of Writers] t [of Exceptions]
      by (cases r) (simp_all add: socks_ok_def)
  next
    case False
    then show ?thesis using assms Some by (simp add: eloop_sock_table_add_sock_def Let_def)
  qed
qed

lemma remove_sock_ok:
  assumes "socks_ok st"
  shows "socks_ok (eloop_sock_table_remove_sock tab sock st)"
proof (cases "\<exists>r es. tab = Some r \<and> remove_sock sock (table (get_table r st)) = Some es")
  case True
  then obtain r es us e vs where r: "tab = Some r"
    "remove_sock sock (table (get_table r st)) = Some es"
    "table (get_table r st) = us @ e # vs" "es = us @ vs"
    using remove_sock_Some by metis
  let ?st = "eloop_sock_table_remove_sock tab sock st"
  have m: "max_sock ?st = max_sock st" using r by (simp add: eloop_sock_table_remove_sock_def)
  have "0 \<le> s_sock f \<and> s_sock f \<le> max_sock ?st" if "f \<in> set (table (get_table r' ?st))" for r' f
  proof -
    have "f \<in> set (table (get_table r' st))"
      using that r by (cases "r' = r") (auto simp: eloop_sock_table_remove_sock_def)
    then show ?thesis using assms m by (simp add: socks_ok_def)
  qed
  moreover have "count ?st = int (length (table (readers ?st)) + length (table (writers ?st))
      + length (table (exceptions ?st)))"
    using assms r by (cases r) (simp_all add: socks_ok_def eloop_sock_table_remove_sock_def)
  ultimately show ?thesis by (simp add: socks_ok_def)
next
  case False
  then have "eloop_sock_table_remove_sock tab sock st = st"
    by (auto simp: eloop_sock_table_remove_sock_def split: option.splits)
  then show ?thesis using assms by simp
qed

subsection \<open>Dispatch\<close>

text \<open>
  The contract between the loop and a handler: it may add or remove entries of the table being
  walked only through the functions above, which raise \<open>changed\<close>.
\<close>

definition flags_changes :: "eloop_env \<Rightarrow> table_ref \<Rightarrow> bool" where
  "flags_changes env r \<longleftrightarrow> (\<forall>h s ed ud st st'. on_sock env h s ed ud st = Some st' \<longrightarrow>
     changed (get_table r st') \<or> table (get_table r st') = table (get_table r st))"

text \<open>Dispatch over the entries as they were when the walk began.\<close>

fun dispatch_snapshot ::
    "eloop_env \<Rightarrow> table_ref \<Rightarrow> int list \<Rightarrow> eloop_sock list \<Rightarrow> eloop_data \<Rightarrow> eloop_data option" where
  "dispatch_snapshot env r fds [] st = Some st"
| "dispatch_snapshot env r fds (e # es) st =
     (if s_sock e \<in> set fds then
        on_sock env (s_handler e) (s_sock e) (s_eloop_data e) (s_user_data e) st \<bind> (\<lambda>st'.
        if changed (get_table r st') then Some st' else dispatch_snapshot env r fds es st')
      else dispatch_snapshot env r fds es st)"

lemma dispatch_loop_snapshot:
  assumes "flags_changes env r"
  shows "table (get_table r st) = us @ es \<Longrightarrow>
    dispatch_loop env r fds (length us) st = dispatch_snapshot env r fds es st"
proof (induction es arbitrary: us st)
  case Nil
  then show ?case by (simp add: dispatch_loop.simps)
next
  case (Cons e es)
  have nxt: "dispatch_loop env r fds (Suc (length us)) st' = dispatch_snapshot env r fds es st'"
    if "table (get_table r st') = us @ e # es" for st'
    using Cons.IH [of st' "us @ [e]"] that by simp
  show ?case
  proof (cases "s_sock e \<in> set fds")
    case True
    have "(if changed (get_table r st') then Some st' else dispatch_loop env r fds (Suc (length us)) st')
      = (if changed (get_table r st') then Some st' else dispatch_snapshot env r fds es st')"
      if "on_sock env (s_handler e) (s_sock e) (s_eloop_data e) (s_user_data e) st = Some st'" for st'
      using assms that nxt Cons.prems unfolding flags_changes_def by metis
    then show ?thesis
      using True Cons.prems by (subst dispatch_loop.simps) (auto intro!: Option.bind_cong)
  next
    case False
    then show ?thesis using Cons.prems nxt by (subst dispatch_loop.simps) simp
  qed
qed

lemma dispatch_is_snapshot:
  assumes "flags_changes env r" "allocated (get_table r st)"
  shows "eloop_sock_table_dispatch env r fds st =
    dispatch_snapshot env r fds (table (get_table r st))
      (put_table r ((get_table r st)\<lparr>changed := False\<rparr>) st)"
  using dispatch_loop_snapshot [OF assms(1), of _ "[]"] assms(2)
  by (simp add: eloop_sock_table_dispatch_def)

subsection \<open>Expired timeouts\<close>

lemma first_timeout:
  assumes "tmo_ring st as ts"
  shows "dl_list_first (lnk st) timeout_head = Some (case as of [] \<Rightarrow> NULL | a # _ \<Rightarrow> a)"
proof -
  have r: "ring (lnk st) timeout_head as" using assms by (simp add: tmo_ring_def)
  show ?thesis
    using ring_next [OF r] tmo_ring_mem [OF assms]
    by (cases as) (auto simp: dl_list_first_def dl_list_empty_def heap_simps)
qed

lemma run_timeout_spec:
  assumes "tmo_abs (timeout st) ts"
  shows "ts = [] \<or> now < t_time (hd ts) \<Longrightarrow> run_timeout env now st = Some st"
    and "ts \<noteq> [] \<Longrightarrow> t_time (hd ts) \<le> now \<Longrightarrow>
      \<exists>tst. tmo_abs tst (tl ts) \<and> run_timeout env now st =
        on_timeout env (t_handler (hd ts)) (t_eloop_data (hd ts)) (t_user_data (hd ts))
          (st\<lparr>timeout := tst\<rparr>)"
proof -
  from assms obtain as where as: "tmo_ring (timeout st) as ts" by (auto simp: tmo_abs_def)
  have len: "as = [] \<longleftrightarrow> ts = []" using tmo_ring_length [OF as] by auto
  show "run_timeout env now st = Some st" if "ts = [] \<or> now < t_time (hd ts)"
  proof (cases as)
    case Nil
    then show ?thesis using first_timeout [OF as] by (simp add: run_timeout_def)
  next
    case (Cons a as')
    then obtain x ts' where "ts = x # ts'" "node (timeout st) a = Some x"
      using as by (cases ts) (auto simp: tmo_ring_def)
    then show ?thesis
      using Cons that first_timeout [OF as] tmo_ring_mem [OF as, of a]
      by (simp add: run_timeout_def time_simps)
  qed
  show "\<exists>tst. tmo_abs tst (tl ts) \<and> run_timeout env now st =
        on_timeout env (t_handler (hd ts)) (t_eloop_data (hd ts)) (t_user_data (hd ts))
          (st\<lparr>timeout := tst\<rparr>)" if ne: "ts \<noteq> []" and due: "t_time (hd ts) \<le> now"
  proof -
    obtain a as' x ts' where *: "as = a # as'" "ts = x # ts'" "node (timeout st) a = Some x"
      using ne len as by (cases ts; cases as) (auto simp: tmo_ring_def)
    from remove_refines [of "timeout st" "[]" a as' ts] as * obtain tst
      where tst: "eloop_remove_timeout (timeout st) a = Some tst" "tmo_ring tst as' ts'" by auto
    have "run_timeout env now st =
        on_timeout env (t_handler x) (t_eloop_data x) (t_user_data x) (st\<lparr>timeout := tst\<rparr>)"
      using * due tst(1) first_timeout [OF as] tmo_ring_mem [OF as, of a]
      by (simp add: run_timeout_def time_simps not_less)
    then show ?thesis using tst(2) * by (auto simp: tmo_abs_def)
  qed
qed

lemma select_timeout_spec:
  assumes "tmo_abs (timeout st) ts"
  shows "select_timeout now st = Some (if ts = [] then None
    else Some (if now < t_time (hd ts) then os_reltime_sub (t_time (hd ts)) now else Reltime 0 0))"
proof -
  from assms obtain as where as: "tmo_ring (timeout st) as ts" by (auto simp: tmo_abs_def)
  show ?thesis
  proof (cases as)
    case Nil
    then show ?thesis using first_timeout [OF as] tmo_ring_length [OF as]
      by (simp add: select_timeout_def)
  next
    case (Cons a as')
    then obtain x ts' where "ts = x # ts'" "node (timeout st) a = Some x"
      using as by (cases ts) (auto simp: tmo_ring_def)
    then show ?thesis
      using Cons first_timeout [OF as] tmo_ring_mem [OF as, of a]
      by (simp add: select_timeout_def time_simps)
  qed
qed

subsection \<open>Signals\<close>

text \<open>Signal handlers that leave the signal array alone.\<close>

definition keeps_signals :: "eloop_env \<Rightarrow> bool" where
  "keeps_signals env \<longleftrightarrow> (\<forall>h s ud st. \<exists>st'. on_signal env h s ud st = Some st' \<and> signals st' = signals st)"

lemma signal_loop_clears:
  assumes "keeps_signals env"
  shows "i \<le> length (signals st) \<Longrightarrow> \<exists>st'. signal_loop env i st = Some st' \<and>
    signals st' = take i (signals st) @ map (\<lambda>g. g\<lparr>g_signaled := 0\<rparr>) (drop i (signals st))"
proof (induction "length (signals st) - i" arbitrary: i st)
  case 0
  then show ?case by (simp add: signal_loop.simps)
next
  case (Suc k)
  then have i: "i < length (signals st)" and k: "k = length (signals st) - Suc i" by simp_all
  have d: "drop i (signals st) = signals st ! i # drop (Suc i) (signals st)"
    using i by (simp add: Cons_nth_drop_Suc)
  show ?case
  proof (cases "g_signaled (signals st ! i) = 0")
    case True
    from Suc.hyps(1) [OF k] i obtain st' where
      "signal_loop env (Suc i) st = Some st'"
      "signals st' = take (Suc i) (signals st)
        @ map (\<lambda>g. g\<lparr>g_signaled := 0\<rparr>) (drop (Suc i) (signals st))" by auto
    moreover have "(signals st ! i)\<lparr>g_signaled := 0\<rparr> = signals st ! i" using True by simp
    ultimately show ?thesis
      using True i d by (subst signal_loop.simps) (auto simp: take_Suc_conv_app_nth Let_def)
  next
    case False
    let ?g = "signals st ! i"
    let ?st = "st\<lparr>signals := (signals st)[i := ?g\<lparr>g_signaled := 0\<rparr>]\<rparr>"
    from assms obtain st1 where st1:
      "on_signal env (g_handler ?g) (g_sig ?g) (g_user_data ?g) ?st = Some st1"
      "signals st1 = (signals st)[i := ?g\<lparr>g_signaled := 0\<rparr>]"
      unfolding keeps_signals_def by fastforce
    have k1: "k = length (signals st1) - Suc i" using k st1(2) by simp
    from Suc.hyps(1) [OF k1] i st1(2) obtain st' where
      "signal_loop env (Suc i) st1 = Some st'"
      "signals st' = take (Suc i) (signals st1)
        @ map (\<lambda>g. g\<lparr>g_signaled := 0\<rparr>) (drop (Suc i) (signals st1))" by auto
    then show ?thesis
      using False i d st1 by (subst signal_loop.simps) (auto simp: take_Suc_conv_app_nth Let_def)
  qed
qed

subsection \<open>Draining the queue\<close>

text \<open>Timeout handlers that leave the loop state alone.\<close>

definition keeps_loop :: "eloop_env \<Rightarrow> bool" where
  "keeps_loop env \<longleftrightarrow> (\<forall>h ed ud st. \<exists>st'. on_timeout env h ed ud st = Some st'
     \<and> timeout st' = timeout st \<and> terminate st' = terminate st \<and> signaled st' = signaled st
     \<and> (\<forall>r. get_table r st' = get_table r st))"

definition no_socks :: "eloop_data \<Rightarrow> bool" where
  "no_socks st \<longleftrightarrow> (\<forall>r. table (get_table r st) = [])"

lemma no_socks_tables:
  "no_socks st \<Longrightarrow> table (readers st) = [] \<and> table (writers st) = [] \<and> table (exceptions st) = []"
  unfolding no_socks_def by (metis get_table.simps)

definition silent :: "pass_io \<Rightarrow> bool" where
  "silent io \<longleftrightarrow> arrived io = [] \<and> select_res io = 0"

lemma continues_spec:
  assumes "tmo_abs (timeout st) ts" "no_socks st" "\<not> terminate st"
  shows "eloop_continues st = Some (ts \<noteq> [])"
proof -
  from assms(1) obtain as where as: "tmo_ring (timeout st) as ts" by (auto simp: tmo_abs_def)
  then have "dl_next (lnk (timeout st)) timeout_head = hd (as @ [timeout_head])"
    by (auto simp: tmo_ring_def dest: ring_next_hd)
  moreover have "hd (as @ [timeout_head]) = timeout_head \<longleftrightarrow> ts = []"
    using tmo_ring_length [OF as] tmo_ring_mem(2) [OF as] by (cases as) auto
  ultimately show ?thesis
    using assms(2,3) by (simp add: eloop_continues_def dl_list_empty_def heap_simps no_socks_tables)
qed

lemma silent_pass:
  assumes "tmo_abs (timeout st) ts" "no_socks st" "signaled st = 0" "silent io" "keeps_loop env"
    and "ts \<noteq> []" "t_time (hd ts) \<le> clock2 io"
  shows "\<exists>st'. eloop_pass env io st = Some (True, st') \<and> tmo_abs (timeout st') (tl ts)
    \<and> no_socks st' \<and> signaled st' = 0 \<and> terminate st' = terminate st"
proof -
  from run_timeout_spec(2) [OF assms(1,6,7), of env] obtain tst where tst: "tmo_abs tst (tl ts)"
    "run_timeout env (clock2 io) st = on_timeout env (t_handler (hd ts)) (t_eloop_data (hd ts))
      (t_user_data (hd ts)) (st\<lparr>timeout := tst\<rparr>)" by blast
  from assms(5) obtain st' where st': "run_timeout env (clock2 io) st = Some st'"
    "timeout st' = tst" "terminate st' = terminate st" "signaled st' = signaled st"
    "\<forall>r. get_table r st' = get_table r st"
    unfolding keeps_loop_def tst(2)
    by (metis eloop_data.select_convs(6,8,10) eloop_data.surjective eloop_data.update_convs(6)
        table_lens(9))
  have "eloop_pass env io st = Some (True, st')"
    using assms(2-4) st'(1) select_timeout_spec [OF assms(1), of "clock1 io"]
    by (simp add: eloop_pass_def silent_def no_socks_tables eloop_process_pending_signals_def)
  then show ?thesis using st' tst(1) assms(2,3) by (simp add: no_socks_def)
qed

lemma drain:
  assumes "keeps_loop env" "tmo_abs (timeout st) ts" "by_time ts" "no_socks st" "signaled st = 0"
    and "\<not> terminate st" "length ts \<le> length ios"
    and "\<forall>io \<in> set ios. silent io \<and> (\<forall>t \<in> set ts. t_time t \<le> clock2 io)"
  shows "\<exists>st'. eloop_loop env ios st = Some (False, st') \<and> tmo_abs (timeout st') []"
  using assms(2-8)
proof (induction ts arbitrary: st ios)
  case Nil
  then show ?case using continues_spec [OF Nil.prems(1,3,5)]
    by (subst eloop_loop.simps) simp
next
  case (Cons t ts)
  then obtain io ios' where ios: "ios = io # ios'" by (cases ios) auto
  have "silent io" "t_time (hd (t # ts)) \<le> clock2 io" using Cons.prems(7) ios by auto
  from silent_pass [OF Cons.prems(1,3,4) this(1) assms(1) _ this(2)] obtain st1 where st1:
    "eloop_pass env io st = Some (True, st1)" "tmo_abs (timeout st1) ts" "no_socks st1"
    "signaled st1 = 0" "terminate st1 = terminate st" by auto
  have "\<exists>st'. eloop_loop env ios' st1 = Some (False, st') \<and> tmo_abs (timeout st') []"
    by (rule Cons.IH [OF st1(2) _ st1(3,4)]) (use Cons.prems ios st1 in auto)
  then show ?case using continues_spec [OF Cons.prems(1,3,5)] st1(1) ios
    by (subst eloop_loop.simps) simp
qed

subsection \<open>Properties\<close>

text \<open>A loop just initialised and handlers that do nothing, for the witnesses.\<close>

definition idle_env :: eloop_env where
  "idle_env = \<lparr>on_timeout = (\<lambda>_ _ _. Some), on_sock = (\<lambda>_ _ _ _. Some), on_signal = (\<lambda>_ _ _. Some)\<rparr>"

definition idle_loop :: eloop_data where
  "idle_loop = \<lparr>max_sock = 0, count = 0,
     readers = \<lparr>allocated = False, table = [], changed = False\<rparr>,
     writers = \<lparr>allocated = False, table = [], changed = False\<rparr>,
     exceptions = \<lparr>allocated = False, table = [], changed = False\<rparr>,
     timeout = empty_store, signals = [], signaled = 0, pending_terminate = False,
     terminate = False, alarm = 0\<rparr>"

lemma idle_facts:
  "socks_ok idle_loop" "no_socks idle_loop" "eloop_inv idle_loop []"
  "keeps_loop idle_env" "keeps_signals idle_env" "flags_changes idle_env r"
proof -
  have t: "table (get_table r idle_loop) = []" for r by (cases r) (simp_all add: idle_loop_def)
  show "no_socks idle_loop" by (simp add: no_socks_def t)
  show "socks_ok idle_loop" by (simp add: socks_ok_def t) (simp add: idle_loop_def)
  then show "eloop_inv idle_loop []"
    by (simp add: eloop_inv_def idle_loop_def tmo_abs_empty_store)
qed (simp_all add: keeps_loop_def keeps_signals_def flags_changes_def idle_env_def)

text \<open>A loop with one pending timeout, at second 5, linked from the node at address 2.\<close>

definition one_timeout :: eloop_timeout where
  "one_timeout = \<lparr>t_time = Reltime 5 0, t_eloop_data = 8, t_user_data = 9, t_handler = 7\<rparr>"

definition one_loop :: eloop_data where
  "one_loop = idle_loop\<lparr>timeout := \<lparr>lnk = \<lparr>dl_next = (\<lambda>a. if a = 1 then 2 else 1),
     dl_prev = (\<lambda>a. if a = 1 then 2 else 1)\<rparr>, node = [2 \<mapsto> one_timeout]\<rparr>\<rparr>"

lemma one_loop_facts:
  "eloop_inv one_loop [one_timeout]" "no_socks one_loop" "signaled one_loop = 0"
  "\<not> terminate one_loop"
proof -
  have "tmo_ring (timeout one_loop) [2] [one_timeout]"
    by (simp add: tmo_ring_def ring_def one_loop_def timeout_head_def)
  then have a: "tmo_abs (timeout one_loop) [one_timeout]" by (auto simp: tmo_abs_def)
  have t: "get_table r one_loop = get_table r idle_loop" for r by (simp add: one_loop_def)
  show n: "no_socks one_loop" using idle_facts(2) by (simp add: no_socks_def t)
  have "socks_ok one_loop"
    using no_socks_tables [OF n] n by (simp add: socks_ok_def no_socks_def one_loop_def idle_loop_def)
  then show "eloop_inv one_loop [one_timeout]" using a by (simp add: eloop_inv_def)
qed (simp_all add: one_loop_def idle_loop_def)

text \<open>
  C32: Timeouts run in order and never early.  When the loop checks for an expired timeout, it
  does nothing if the queue is empty or its first entry is still in the future; otherwise it
  unlinks and frees the first entry before it calls that entry's handler with its contexts,
  and no other pending timeout has an earlier deadline.
\<close>

theorem run_timeout_in_order:
  assumes "eloop_inv st ts"
  shows "case ts of
      [] \<Rightarrow> run_timeout env now st = Some st
    | t # ts' \<Rightarrow>
        (if now < t_time t then run_timeout env now st = Some st
         else \<exists>tst. tmo_abs tst ts' \<and> run_timeout env now st =
             on_timeout env (t_handler t) (t_eloop_data t) (t_user_data t) (st\<lparr>timeout := tst\<rparr>))
        \<and> (\<forall>t' \<in> set ts'. t_time t \<le> t_time t')"
  using run_timeout_spec [of st ts now env] assms
  by (auto simp: eloop_inv_def not_less split: list.split)

theorem run_timeout_in_order_witness:
  "\<exists>tst. tmo_abs tst [] \<and> run_timeout idle_env (Reltime 6 0) one_loop =
    on_timeout idle_env 7 8 9 (one_loop\<lparr>timeout := tst\<rparr>)"
  using run_timeout_in_order [OF one_loop_facts(1), of idle_env "Reltime 6 0"]
  by (simp add: one_timeout_def less_os_reltime_def os_reltime_before_def)

text \<open>
  The loop neither oversleeps nor wakes early: with pending timeouts, \<open>select\<close> is given a
  normalised time that is at most the distance from now to every deadline (zero for one
  already past) and equal to the distance to one of them.
\<close>

theorem select_wakes_for_earliest:
  assumes "eloop_inv st ts" "ts \<noteq> []" "normal_time now" "\<forall>t \<in> set ts. normal_time (t_time t)"
  shows "\<exists>tv. select_timeout now st = Some (Some tv) \<and> normal_time tv
    \<and> (\<forall>t \<in> set ts. usecs_of tv \<le> max 0 (usecs_of (t_time t) - usecs_of now))
    \<and> (\<exists>t \<in> set ts. usecs_of tv = max 0 (usecs_of (t_time t) - usecs_of now))"
proof -
  obtain t ts' where ts: "ts = t # ts'" using assms(2) by (cases ts) auto
  have nt: "normal_time (t_time t)" using assms(4) ts by simp
  define tv where "tv = (if now < t_time t then os_reltime_sub (t_time t) now else Reltime 0 0)"
  have sel: "select_timeout now st = Some (Some tv)"
    using select_timeout_spec [of st ts now] assms(1) ts by (simp add: eloop_inv_def tv_def)
  have eq: "usecs_of tv = max 0 (usecs_of (t_time t) - usecs_of now)" and n: "normal_time tv"
    using sub_usecs_of [OF nt assms(3)] less_usecs_of [OF assms(3) nt]
    by (auto simp: tv_def usecs_of_def normal_time_def)
  have "usecs_of (t_time t) \<le> usecs_of (t_time u)" if "u \<in> set ts" for u
  proof -
    have "t_time t \<le> t_time u" using that assms(1) ts by (auto simp: eloop_inv_def)
    then show ?thesis using less_usecs_of [of "t_time u" "t_time t"] assms(4) that nt
      by (simp add: not_less [symmetric])
  qed
  then have "\<forall>u \<in> set ts. usecs_of tv \<le> max 0 (usecs_of (t_time u) - usecs_of now)"
    unfolding eq by (auto simp: max_def dest: order_trans)
  then show ?thesis using sel n eq ts by auto
qed

theorem select_wakes_for_earliest_witness:
  "\<exists>tv. select_timeout (Reltime 3 500000) one_loop = Some (Some tv) \<and> normal_time tv
    \<and> (\<forall>t \<in> set [one_timeout]. usecs_of tv \<le> max 0 (usecs_of (t_time t) - usecs_of (Reltime 3 500000)))
    \<and> (\<exists>t \<in> set [one_timeout]. usecs_of tv = max 0 (usecs_of (t_time t) - usecs_of (Reltime 3 500000)))"
  by (rule select_wakes_for_earliest [OF one_loop_facts(1)])
    (simp_all add: normal_time_def one_timeout_def)

text \<open>
  C36: Registering and unregistering sockets keeps the table invariant: \<open>eloop.count\<close> is the
  number of entries in the three tables, no registered socket is negative, and none exceeds
  \<open>max_sock\<close>, the bound handed to \<open>select\<close>; a negative socket aborts, and unregistering a
  socket that is not in the table changes nothing.
\<close>

theorem sock_tables_invariant:
  assumes "socks_ok st"
  shows "(case eloop_register_sock mem sock type h ed ud st of
            None \<Rightarrow> sock < 0
          | Some (r, st') \<Rightarrow> socks_ok st' \<and> timeout st' = timeout st)
    \<and> socks_ok (eloop_unregister_sock sock type st)
    \<and> (\<forall>r. eloop_get_sock_table type = Some r \<and> sock \<notin> s_sock ` set (table (get_table r st))
        \<longrightarrow> eloop_unregister_sock sock type st = st)"
proof -
  have "timeout (snd (eloop_sock_table_add_sock mem tab sock h ed ud st)) = timeout st" for tab
    by (auto simp: eloop_sock_table_add_sock_def Let_def split: option.splits)
  then have "case eloop_register_sock mem sock type h ed ud st of
            None \<Rightarrow> sock < 0
          | Some (r, st') \<Rightarrow> socks_ok st' \<and> timeout st' = timeout st"
    using add_sock_ok [OF assms, of sock mem "eloop_get_sock_table type" h ed ud]
    by (auto simp: eloop_register_sock_def split: option.splits) (metis snd_conv)+
  moreover have "\<forall>r. eloop_get_sock_table type = Some r \<and> sock \<notin> s_sock ` set (table (get_table r st))
        \<longrightarrow> eloop_unregister_sock sock type st = st"
    by (auto simp: eloop_unregister_sock_def eloop_sock_table_remove_sock_def
      remove_sock_None [THEN iffD2])
  ultimately show ?thesis using remove_sock_ok [OF assms] by (simp add: eloop_unregister_sock_def)
qed

theorem sock_tables_invariant_witness:
  "case eloop_register_sock True 5 EVENT_TYPE_READ 7 8 9 idle_loop of
     None \<Rightarrow> (5::int) < 0
   | Some (r, st') \<Rightarrow> socks_ok st' \<and> timeout st' = timeout idle_loop"
  using sock_tables_invariant [where st = idle_loop and mem = True and sock = 5
    and type = EVENT_TYPE_READ and h = 7 and ed = 8 and ud = 9] idle_facts(1) by blast

text \<open>
  C35: Dispatch over the live table, which the handlers may change while it is being walked,
  equals a walk over the table as it was at the start that stops after the first handler that
  raised \<open>changed\<close>: no entry is skipped, run twice or read after removal, provided handlers
  change the table only through the registration functions.
\<close>

theorem dispatch_equals_snapshot:
  assumes "flags_changes env r" "allocated (get_table r st)"
  shows "eloop_sock_table_dispatch env r fds st =
    dispatch_snapshot env r fds (table (get_table r st))
      (put_table r ((get_table r st)\<lparr>changed := False\<rparr>) st)"
  by (rule dispatch_is_snapshot [OF assms])

theorem dispatch_equals_snapshot_witness:
  "eloop_sock_table_dispatch idle_env Readers [5]
     (snd (eloop_sock_table_add_sock True (Some Readers) 5 7 8 9 idle_loop)) =
   dispatch_snapshot idle_env Readers [5]
     (table (get_table Readers (snd (eloop_sock_table_add_sock True (Some Readers) 5 7 8 9 idle_loop))))
     (put_table Readers ((get_table Readers (snd (eloop_sock_table_add_sock True (Some Readers) 5 7 8 9
       idle_loop)))\<lparr>changed := False\<rparr>) (snd (eloop_sock_table_add_sock True (Some Readers) 5 7 8 9 idle_loop)))"
  by (rule dispatch_equals_snapshot [OF idle_facts(6)])
    (simp add: eloop_sock_table_add_sock_def Let_def)

text \<open>
  Pending signals are handled completely: processing returns with the global flag and every
  signal's own counter at zero and the order of registrations unchanged, and a pending
  termination alarm is cancelled.
\<close>

theorem pending_signals_cleared:
  assumes "keeps_signals env" "signaled st \<noteq> 0"
  shows "\<exists>st'. eloop_process_pending_signals env st = Some st'
    \<and> signals st' = map (\<lambda>g. g\<lparr>g_signaled := 0\<rparr>) (signals st)"
proof -
  have "\<exists>st'. signal_loop env 0 s = Some st' \<and> signals st' = map (\<lambda>g. g\<lparr>g_signaled := 0\<rparr>) (signals st)"
    if "signals s = signals st" for s
    using signal_loop_clears [OF assms(1), of 0 s] that by simp
  then show ?thesis using assms(2) by (simp add: eloop_process_pending_signals_def Let_def)
qed

theorem pending_signals_cleared_witness:
  "eloop_handle_signal SIGHUP idle_loop = Some (idle_loop\<lparr>signaled := 1\<rparr>) \<and>
   (\<exists>st'. eloop_process_pending_signals idle_env (idle_loop\<lparr>signaled := 1\<rparr>) = Some st'
    \<and> signals st' = map (\<lambda>g. g\<lparr>g_signaled := 0\<rparr>) (signals (idle_loop\<lparr>signaled := 1\<rparr>)))"
  using pending_signals_cleared [OF idle_facts(5), of "idle_loop\<lparr>signaled := 1\<rparr>"]
  by (simp add: eloop_handle_signal_def idle_loop_def SIGHUP_def SIGINT_def SIGTERM_def int_result_def)

text \<open>
  C34: The loop makes progress: with no sockets registered and handlers that do not register
  anew, \<open>eloop_run\<close> drains a queue of \<open>n\<close> expired timeouts and returns by itself within \<open>n\<close>
  passes.
\<close>

theorem run_drains_expired:
  assumes "keeps_loop env" "eloop_inv st ts" "no_socks st" "signaled st = 0" "\<not> terminate st"
    and "length ts \<le> length ios"
    and "\<forall>io \<in> set ios. silent io \<and> (\<forall>t \<in> set ts. t_time t \<le> clock2 io)"
  shows "\<exists>st'. eloop_run True env ios st = Some (False, st') \<and> tmo_abs (timeout st') []"
  using drain [of env st ts ios] assms by (auto simp: eloop_run_def eloop_inv_def)

theorem run_drains_expired_witness:
  "\<exists>st'. eloop_run True idle_env [\<lparr>clock1 = Reltime 4 0, arrived = [], select_res = 0,
      select_errno = 0, rfds = [], wfds = [], efds = [], clock2 = Reltime 5 10\<rparr>] one_loop
      = Some (False, st') \<and> tmo_abs (timeout st') []"
  by (rule run_drains_expired [OF idle_facts(4) one_loop_facts])
    (simp_all add: silent_def one_timeout_def less_eq_os_reltime_def os_reltime_before_def)

text \<open>
  A descriptor of 1024 or more is accepted by \<open>eloop_register_sock\<close>, and the next pass of the
  loop then writes past its \<open>fd_set\<close>: the pass has no defined result.
\<close>

theorem large_fd_breaks_pass:
  assumes "FD_SETSIZE \<le> sock" "tmo_abs (timeout st) ts"
  shows "\<exists>st'. eloop_register_sock True sock EVENT_TYPE_READ h ed ud st = Some (0, st')
    \<and> eloop_pass env io st' = None"
proof -
  let ?e = "\<lparr>s_sock = sock, s_eloop_data = ed, s_user_data = ud, s_handler = h\<rparr>"
  obtain st' where st': "eloop_register_sock True sock EVENT_TYPE_READ h ed ud st = Some (0, st')"
    "table (readers st') = table (readers st) @ [?e]" "timeout st' = timeout st"
    using assms(1)
    by (simp add: eloop_register_sock_def eloop_sock_table_add_sock_def Let_def
      eloop_get_sock_table_def FD_SETSIZE_def)
  have "eloop_sock_table_set_fds (es @ [?e]) = None" for es
    using assms(1) by (induction es) (auto simp: FD_SETSIZE_def)
  then have "eloop_pass env io st' = None"
    using st'(2,3) select_timeout_spec [of st' ts "clock1 io"] assms(2) by (simp add: eloop_pass_def)
  then show ?thesis using st'(1) by blast
qed

theorem large_fd_breaks_pass_witness:
  "\<exists>st'. eloop_register_sock True 1024 EVENT_TYPE_READ 7 8 9 one_loop = Some (0, st')
    \<and> eloop_pass idle_env \<lparr>clock1 = Reltime 4 0, arrived = [], select_res = 0,
      select_errno = 0, rfds = [], wfds = [], efds = [], clock2 = Reltime 5 10\<rparr> st' = None"
  by (rule large_fd_breaks_pass [of _ _ "[one_timeout]"])
    (use one_loop_facts(1) in \<open>simp_all add: FD_SETSIZE_def eloop_inv_def\<close>)

end
