(* ===== verification/Eloop_End.thy ===== *)
theory Eloop_End
  imports Eloop
begin

text \<open>
  The end of the event loop of \<open>eloop/src/eloop.c\<close>: \<open>eloop_destroy\<close> with what it reports, and
  \<open>eloop_wait_for_read_sock\<close>, which waits for one socket beside the loop.
\<close>

subsection \<open>Reports\<close>

text \<open>
  The calls of \<open>wpa_printf\<close> for what is left, by the values they are given.  The file defines \<open>wpa_printf\<close>
  as nothing, so that the values are computed and no line is printed.
\<close>

datatype report =
    Remaining_Timeout int int addr addr addr
  | Remaining_Socket int addr addr addr

definition time_left :: "os_reltime \<Rightarrow> os_reltime \<Rightarrow> (int \<times> int) option" where
  "time_left now t = do {
     s \<leftarrow> int_result (c_int (sec t) - c_int (sec now));
     u \<leftarrow> int_result (c_int (usec t) - c_int (usec now));
     if usec t < usec now then do {
       s \<leftarrow> int_result (s - 1);
       u \<leftarrow> int_result (u + 1000000);
       Some (s, u)
     }
     else Some (s, u)
   }"

definition timeout_report :: "os_reltime \<Rightarrow> eloop_timeout \<Rightarrow> report option" where
  "timeout_report now n =
     time_left now (t_time n) \<bind> (\<lambda>(s, u).
     Some (Remaining_Timeout s u (t_eloop_data n) (t_user_data n) (t_handler n)))"

partial_function (option) destroy_loop ::
    "os_reltime \<Rightarrow> addr \<Rightarrow> addr \<Rightarrow> timeout_store \<Rightarrow> (report list \<times> timeout_store) option" where
  "destroy_loop now tmo prev st =
     (if tmo = timeout_head then Some ([], st)
      else node st tmo \<bind> (\<lambda>n. timeout_report now n \<bind> (\<lambda>r.
        eloop_remove_timeout st tmo \<bind> (\<lambda>st'. rd_next (lnk st') prev \<bind> (\<lambda>n'.
        destroy_loop now prev n' st' \<bind> (\<lambda>(rs, st''). Some (r # rs, st'')))))))"

text \<open>Without a table the loop over its entries does not start; the table is freed in any case.\<close>

definition eloop_sock_table_destroy :: "eloop_sock_table \<Rightarrow> report list" where
  "eloop_sock_table_destroy t =
     (if allocated t
      then map (\<lambda>e. Remaining_Socket (s_sock e) (s_eloop_data e) (s_user_data e) (s_handler e)) (table t)
      else [])"

text \<open>
  The tables and the array of signals are freed, but the pointers to them and the counts stay: the state
  that is returned names memory that is gone.
\<close>

definition eloop_destroy :: "os_reltime \<Rightarrow> eloop_data \<Rightarrow> (report list \<times> eloop_data) option" where
  "eloop_destroy now st = do {
     a \<leftarrow> rd_next (lnk (timeout st)) timeout_head;
     prev \<leftarrow> rd_next (lnk (timeout st)) a;
     (rs, tst) \<leftarrow> destroy_loop now a prev (timeout st);
     Some (rs @ eloop_sock_table_destroy (readers st) @ eloop_sock_table_destroy (writers st) @
             eloop_sock_table_destroy (exceptions st), st\<lparr>timeout := tst\<rparr>)
   }"

subsection \<open>Waiting for one socket\<close>

text \<open>The arguments of \<open>select\<close>: the bound and the descriptors; there is no time limit.\<close>

definition eloop_wait_for_read_sock :: "int \<Rightarrow> (int \<times> int list) option option" where
  "eloop_wait_for_read_sock sock =
     (if sock < 0 then Some None
      else if sock < FD_SETSIZE then Some (Some (sock + 1, [sock]))
      else None)"

lemma wait_for_read_sock_defined:
  "eloop_wait_for_read_sock sock \<noteq> None \<longleftrightarrow> sock < FD_SETSIZE"
  by (auto simp: eloop_wait_for_read_sock_def FD_SETSIZE_def)

subsection \<open>What is reported\<close>

definition int_time :: "os_reltime \<Rightarrow> bool" where
  "int_time t \<longleftrightarrow> 0 \<le> sec t \<and> sec t < 2 ^ 31 \<and> 0 \<le> usec t \<and> usec t < 1000000"

lemma time_left_exact:
  assumes "int_time now" "int_time t"
  shows "\<exists>s u. time_left now t = Some (s, u) \<and> 0 \<le> u \<and> u < 1000000 \<and> s * 1000000 + u = usecs_of t - usecs_of now"
  using assms
  by (auto simp: time_left_def int_result_def int_time_def c_int_small usecs_of_def)

text \<open>A report that tells of an entry how long it had to wait.\<close>

definition tells :: "os_reltime \<Rightarrow> eloop_timeout \<Rightarrow> report \<Rightarrow> bool" where
  "tells now n r \<longleftrightarrow> (\<exists>s u. r = Remaining_Timeout s u (t_eloop_data n) (t_user_data n) (t_handler n) \<and>
     0 \<le> u \<and> u < 1000000 \<and> s * 1000000 + u = usecs_of (t_time n) - usecs_of now)"

lemma timeout_report_tells:
  "int_time now \<Longrightarrow> int_time (t_time n) \<Longrightarrow> \<exists>r. timeout_report now n = Some r \<and> tells now n r"
  using time_left_exact [of now "t_time n"] by (auto simp: timeout_report_def tells_def)

lemma destroy_loop_reports:
  assumes "tmo_ring st bs ts" "int_time now" "\<forall>n \<in> set ts. int_time (t_time n)"
    and "cur = hd (bs @ [timeout_head])"
    and "nxt = (if bs = [] then timeout_head else hd (tl bs @ [timeout_head]))"
  shows "\<exists>rs st'. destroy_loop now cur nxt st = Some (rs, st') \<and> tmo_ring st' [] [] \<and> list_all2 (tells now) ts rs"
  using assms
proof (induction bs arbitrary: ts cur nxt st)
  case Nil
  then have "ts = []" using tmo_ring_length by fastforce
  then show ?case using Nil by (simp add: destroy_loop.simps)
next
  case (Cons b bs)
  obtain n ts' where ts: "ts = n # ts'" "node st b = Some n"
    using Cons.prems(1) tmo_ring_length [OF Cons.prems(1)] by (cases ts) (auto simp: tmo_ring_def)
  have b: "b \<noteq> NULL" "b \<noteq> timeout_head" using tmo_ring_mem [OF Cons.prems(1), of b] by auto
  have cur: "cur = b" and nxt: "nxt = hd (bs @ [timeout_head])" using Cons.prems(4,5) by auto
  have "tmo_ring st ([] @ b # bs) ts" using Cons.prems(1) by simp
  from remove_refines [OF this] obtain st1 where st1:
    "eloop_remove_timeout st b = Some st1" "tmo_ring st1 bs ts'"
    using ts by auto
  have n0: "nxt \<noteq> NULL" using nxt tmo_ring_mem(1) [OF st1(2)] by (cases bs) auto
  have ring: "ring (lnk st1) timeout_head bs" using st1(2) by (simp add: tmo_ring_def)
  have next1: "dl_next (lnk st1) nxt = (if bs = [] then timeout_head else hd (tl bs @ [timeout_head]))"
    using nxt ring ring_next_hd [OF ring] ring_next_at [of "lnk st1" timeout_head "[]"] by (cases bs) auto
  obtain r where r: "timeout_report now n = Some r" "tells now n r"
    using timeout_report_tells [of now n] Cons.prems(2,3) ts by auto
  from Cons.IH [OF st1(2) Cons.prems(2) _ nxt next1] obtain rs st2 where
    "destroy_loop now nxt (dl_next (lnk st1) nxt) st1 = Some (rs, st2)" "tmo_ring st2 [] []"
    "list_all2 (tells now) ts' rs"
    using Cons.prems(3) ts by auto
  then show ?case
    using b ts st1(1) n0 r unfolding cur by (subst destroy_loop.simps) (simp add: heap_simps)
qed

text \<open>
  \<open>eloop_destroy\<close> reports every timeout that is left, in the order of their deadlines and with the exact
  time to it, then every socket that is left, and empties the queue.
\<close>

theorem destroy_reports_remaining:
  assumes "tmo_abs (timeout st) ts" "int_time now" "\<forall>n \<in> set ts. int_time (t_time n)"
  shows "\<exists>rs st'. eloop_destroy now st =
      Some (rs @ concat (map eloop_sock_table_destroy [readers st, writers st, exceptions st]), st') \<and>
    list_all2 (tells now) ts rs \<and> tmo_abs (timeout st') []"
proof -
  from assms obtain as where as: "tmo_ring (timeout st) as ts" by (auto simp: tmo_abs_def)
  then have ring: "ring (lnk (timeout st)) timeout_head as" by (simp add: tmo_ring_def)
  define cur where "cur = hd (as @ [timeout_head])"
  have cur: "dl_next (lnk (timeout st)) timeout_head = cur" "cur \<noteq> NULL"
    using ring_next_hd [OF ring] tmo_ring_mem(1) [OF as] by (auto simp: cur_def hd_append)
  have nxt: "dl_next (lnk (timeout st)) cur = (if as = [] then timeout_head else hd (tl as @ [timeout_head]))"
    using ring ring_next_at [of "lnk (timeout st)" timeout_head "[]"] ring_next_hd [OF ring]
    by (cases as) (auto simp: cur_def)
  show ?thesis
    using destroy_loop_reports [OF as assms(2,3) cur_def nxt] cur
    by (auto simp: eloop_destroy_def heap_simps tmo_abs_def)
qed

theorem destroy_reports_remaining_witness:
  "\<exists>st now n rs st'. tmo_abs (timeout st) [n] \<and> t_time n = Reltime 6 0 \<and> t_handler n = 7 \<and>
    eloop_destroy now st = Some (rs @ concat (map eloop_sock_table_destroy [readers st, writers st, exceptions st]), st') \<and>
    list_all2 (tells now) [n] rs \<and> tmo_abs (timeout st') []"
proof -
  have "\<exists>st1. eloop_register_timeout 2 (Some (Reltime 5 0)) 1 0 7 8 9 empty_store = Some (0, st1) \<and>
      tmo_abs st1 (insert_timeout \<lparr>t_time = carry_usecs 6 0, t_eloop_data = 8, t_user_data = 9, t_handler = 7\<rparr> [])"
    by (rule register_refines [OF tmo_ring_empty_store]) (simp_all add: timeout_head_def empty_store_def c_long_id)
  moreover have "carry_usecs 6 0 = Reltime 6 0"
    by (simp add: carry_usecs.simps)
  ultimately obtain st1 where "tmo_abs st1 [\<lparr>t_time = Reltime 6 0, t_eloop_data = 8, t_user_data = 9, t_handler = 7\<rparr>]"
    by (auto simp: insert_timeout_def)
  then show ?thesis
    using destroy_reports_remaining [of "idle_loop\<lparr>timeout := st1\<rparr>" "[\<lparr>t_time = Reltime 6 0, t_eloop_data = 8, t_user_data = 9, t_handler = 7\<rparr>]" "Reltime 5 500000"]
    by (intro exI [of _ "idle_loop\<lparr>timeout := st1\<rparr>"] exI [of _ "Reltime 5 500000"]
         exI [of _ "\<lparr>t_time = Reltime 6 0, t_eloop_data = 8, t_user_data = 9, t_handler = 7\<rparr>"])
       (simp add: int_time_def)
qed

end
