(* ===== verification/Json_Object.thy ===== *)
theory Json_Object
  imports Prelude
begin

unbundle bit_operations_syntax

text \<open>
  The object table of \<open>parson/src/parson.c\<close>: names and values in insertion order, and an array
  of cells that maps a hash to an item by linear probing, with deletion by backward shift.

  The item arrays hold the items \<open>0\<close> to \<open>count - 1\<close>, so that \<open>count\<close> is the length of \<open>names\<close>;
  \<open>hashes\<close> also keeps what was written past the count.  The number of cells is the length of
  \<open>cells\<close>.  A cell without an item (\<open>OBJECT_INVALID_IX\<close>) is \<open>None\<close>.  An access outside an array,
  or to an item that was freed, has no result (\<open>None\<close> in the option monad).  The parameter \<open>M\<close>
  says for which numbers of cells the allocations of a table succeed.  The 32-bit loop counters
  are read as unbounded: they would wrap at 2 to the power of 32 cells.
\<close>

subsection \<open>State and operations\<close>

datatype json_status = JSONSuccess | JSONFailure

datatype 'v json_object =
  JSON_Object (cells: "nat option list") (hashes: "64 word list") (names: "string list")
    (vals: "'v list") (cell_ixs: "nat list") (item_capacity: nat)

definition STARTING_CAPACITY :: nat where "STARTING_CAPACITY = 16"

fun hash_from :: "64 word \<Rightarrow> string \<Rightarrow> 64 word" where
  "hash_from hash [] = hash"
| "hash_from hash (c # s) =
     (if c = NUL then hash else hash_from ((push_bit 5 hash + hash) + of_char c) s)"

definition hash_string :: "string \<Rightarrow> 64 word" where
  "hash_string s = hash_from 5381 s"

text \<open>
  \<open>(unsigned int)(capacity * 0.7f)\<close>: the float \<open>0.7f\<close> is \<open>11744051 / 2\<^sup>2\<^sup>4\<close>, and the product is
  exact for the capacities that occur, which are powers of two.
\<close>

definition item_capacity_for :: "nat \<Rightarrow> nat" where
  "item_capacity_for capacity = capacity * 11744051 div 16777216"

definition json_object_init :: "(nat \<Rightarrow> bool) \<Rightarrow> nat \<Rightarrow> json_status \<times> 'v json_object" where
  "json_object_init M capacity =
     (if capacity = 0 then (JSONSuccess, JSON_Object [] [] [] [] [] 0)
      else if M capacity
      then (JSONSuccess, JSON_Object (replicate capacity None) [] [] [] [] (item_capacity_for capacity))
      else (JSONFailure, JSON_Object [] [] [] [] [] 0))"

definition json_object_deinit :: "'v json_object \<Rightarrow> 'v json_object" where
  "json_object_deinit ob = JSON_Object [] [] [] [] [] 0"

text \<open>\<open>x & (cell_capacity - 1)\<close> at 64 bits.\<close>

definition cap_mask :: "nat \<Rightarrow> 64 word \<Rightarrow> nat" where
  "cap_mask cap x = unat (x AND (of_nat cap - 1))"

text \<open>The probe from cell \<open>i\<close> on, over \<open>n\<close> more cells.\<close>

fun probe_cells ::
    "'v json_object \<Rightarrow> string \<Rightarrow> 64 word \<Rightarrow> nat \<Rightarrow> nat \<Rightarrow> (nat option \<times> bool) option" where
  "probe_cells ob key hash i 0 = Some (None, False)"
| "probe_cells ob key hash i (Suc n) =
     (let ix = cap_mask (length (cells ob)) (of_nat i)
      in case cells ob ! ix of
        None \<Rightarrow> Some (Some ix, False)
      | Some cell \<Rightarrow>
          if cell \<ge> length (hashes ob) then None
          else if hash \<noteq> hashes ob ! cell then probe_cells ob key hash (Suc i) n
          else if cell \<ge> length (names ob) then None
          else if names ob ! cell = key then Some (Some ix, True)
          else probe_cells ob key hash (Suc i) n)"

definition json_object_get_cell_ix ::
    "'v json_object \<Rightarrow> string \<Rightarrow> 64 word \<Rightarrow> (nat option \<times> bool) option" where
  "json_object_get_cell_ix ob key hash =
     probe_cells ob key hash (cap_mask (length (cells ob)) hash) (length (cells ob))"

definition put_at :: "nat \<Rightarrow> 'a \<Rightarrow> 'a list \<Rightarrow> 'a list" where
  "put_at i x xs = (if i < length xs then xs[i := x] else xs @ [x])"

definition store_item ::
    "'v json_object \<Rightarrow> string \<Rightarrow> 'v \<Rightarrow> 64 word \<Rightarrow> nat option \<Rightarrow> 'v json_object option" where
  "store_item ob name v hash cell_ix =
     (case cell_ix of
        None \<Rightarrow> None
      | Some c \<Rightarrow>
          let count = length (names ob)
          in if c < length (cells ob) \<and> count < item_capacity ob
             then Some (JSON_Object ((cells ob)[c := Some count]) (put_at count hash (hashes ob))
                    (names ob @ [name]) (vals ob @ [v]) (cell_ixs ob @ [c]) (item_capacity ob))
             else None)"

text \<open>
  Adding and growing call each other: growing adds every item to a fresh table.  \<open>add_item\<close>
  counts the levels of that recursion, of which two are ever used.
\<close>

fun rehash ::
    "('v json_object \<Rightarrow> string \<Rightarrow> 'v \<Rightarrow> (json_status \<times> 'v json_object) option) \<Rightarrow>
     string list \<Rightarrow> 'v list \<Rightarrow> 'v json_object \<Rightarrow> (json_status \<times> 'v json_object) option" where
  "rehash add (key # ks) (v # vs) new =
     add new key v \<bind> (\<lambda>(res, new').
       if res \<noteq> JSONSuccess then Some (JSONFailure, new') else rehash add ks vs new')"
| "rehash add _ _ new = Some (JSONSuccess, new)"

definition grow_with ::
    "('v json_object \<Rightarrow> string \<Rightarrow> 'v \<Rightarrow> (json_status \<times> 'v json_object) option) \<Rightarrow>
     (nat \<Rightarrow> bool) \<Rightarrow> 'v json_object \<Rightarrow> (json_status \<times> 'v json_object) option" where
  "grow_with add M ob =
     (let new_capacity = max (length (cells ob) * 2) STARTING_CAPACITY;
          (res, new) = json_object_init M new_capacity
      in if res \<noteq> JSONSuccess then Some (JSONFailure, ob)
         else rehash add (names ob) (vals ob) new \<bind> (\<lambda>(res, new').
           if res \<noteq> JSONSuccess then Some (JSONFailure, ob) else Some (JSONSuccess, new')))"

primrec add_item ::
    "nat \<Rightarrow> (nat \<Rightarrow> bool) \<Rightarrow> 'v json_object \<Rightarrow> string \<Rightarrow> 'v \<Rightarrow> (json_status \<times> 'v json_object) option" where
  "add_item 0 = (\<lambda>M ob name v. None)"
| "add_item (Suc d) = (\<lambda>M ob name v.
     let hash = hash_string name
     in json_object_get_cell_ix ob name hash \<bind> (\<lambda>(cell_ix, found).
       if found then Some (JSONFailure, ob)
       else if length (names ob) \<ge> item_capacity ob then
         grow_with (add_item d M) M ob \<bind> (\<lambda>(res, ob').
           if res \<noteq> JSONSuccess then Some (JSONFailure, ob)
           else json_object_get_cell_ix ob' name hash \<bind> (\<lambda>(cell_ix', _).
             map_option (Pair JSONSuccess) (store_item ob' name v hash cell_ix')))
       else map_option (Pair JSONSuccess) (store_item ob name v hash cell_ix)))"

definition json_object_add ::
    "(nat \<Rightarrow> bool) \<Rightarrow> 'v json_object \<Rightarrow> string \<Rightarrow> 'v \<Rightarrow> (json_status \<times> 'v json_object) option" where
  "json_object_add = add_item 2"

definition json_object_grow_and_rehash ::
    "(nat \<Rightarrow> bool) \<Rightarrow> 'v json_object \<Rightarrow> (json_status \<times> 'v json_object) option" where
  "json_object_grow_and_rehash M ob = grow_with (add_item 1 M) M ob"

definition json_object_getn_value :: "'v json_object \<Rightarrow> string \<Rightarrow> nat \<Rightarrow> 'v option option" where
  "json_object_getn_value ob name name_len =
     (let key = take name_len name
      in json_object_get_cell_ix ob key (hash_string key) \<bind> (\<lambda>(cell_ix, found).
        if \<not> found then Some None
        else cell_ix \<bind> (\<lambda>c. cells ob ! c \<bind> (\<lambda>item_ix.
          if item_ix < length (vals ob) then Some (Some (vals ob ! item_ix)) else None))))"

text \<open>
  The backward shift after a removal: \<open>i\<close> is the hole, \<open>j\<close> the cell looked at last, and \<open>n\<close>
  rounds are left.  An item moves into the hole when the hole lies on its probe path.
\<close>

fun shift_back ::
    "64 word list \<Rightarrow> nat \<Rightarrow> nat \<Rightarrow> nat \<Rightarrow> nat option list \<Rightarrow> nat list \<Rightarrow>
     (nat \<times> nat option list \<times> nat list) option" where
  "shift_back hs 0 i j cs ixs = Some (i, cs, ixs)"
| "shift_back hs (Suc n) i j cs ixs =
     (let j' = cap_mask (length cs) (of_nat (Suc j))
      in case cs ! j' of
        None \<Rightarrow> Some (i, cs, ixs)
      | Some c \<Rightarrow>
          if c \<ge> length hs then None
          else let k = cap_mask (length cs) (hs ! c)
            in if (j' > i \<and> (k \<le> i \<or> k > j')) \<or> (j' < i \<and> (k \<le> i \<and> k > j'))
               then if c \<ge> length ixs then None
                 else shift_back hs n j' j' (cs[i := Some c]) (ixs[c := i])
               else shift_back hs n i j' cs ixs)"

definition json_object_remove_internal ::
    "'v json_object \<Rightarrow> string \<Rightarrow> (json_status \<times> 'v json_object) option" where
  "json_object_remove_internal ob name =
     json_object_get_cell_ix ob name (hash_string name) \<bind> (\<lambda>(cell_ix, found).
       if \<not> found then Some (JSONFailure, ob)
       else cell_ix \<bind> (\<lambda>cell. cells ob ! cell \<bind> (\<lambda>item_ix.
         let last_item_ix = length (names ob) - 1;
             hs = (if item_ix < last_item_ix then (hashes ob)[item_ix := hashes ob ! last_item_ix]
                   else hashes ob);
             nms = (if item_ix < last_item_ix then (names ob)[item_ix := names ob ! last_item_ix]
                   else names ob);
             vs = (if item_ix < last_item_ix then (vals ob)[item_ix := vals ob ! last_item_ix]
                   else vals ob);
             ixs = (if item_ix < last_item_ix then (cell_ixs ob)[item_ix := cell_ixs ob ! last_item_ix]
                   else cell_ixs ob);
             cs = (if item_ix < last_item_ix then (cells ob)[ixs ! item_ix := Some item_ix]
                   else cells ob)
         in shift_back hs (length cs - 1) cell cell cs (butlast ixs) \<bind> (\<lambda>(i, cs', ixs').
           Some (JSONSuccess, JSON_Object (cs'[i := None]) hs (butlast nms) (butlast vs) ixs'
             (item_capacity ob))))))"

definition json_object_get_value :: "'v json_object \<Rightarrow> string \<Rightarrow> 'v option option" where
  "json_object_get_value ob name = json_object_getn_value ob name (length name)"

definition json_object_get_count :: "'v json_object \<Rightarrow> nat" where
  "json_object_get_count ob = length (names ob)"

definition json_object_get_name :: "'v json_object \<Rightarrow> nat \<Rightarrow> string option" where
  "json_object_get_name ob index =
     (if index \<ge> json_object_get_count ob then None else Some (names ob ! index))"

definition json_object_get_value_at :: "'v json_object \<Rightarrow> nat \<Rightarrow> 'v option" where
  "json_object_get_value_at ob index =
     (if index \<ge> json_object_get_count ob then None else Some (vals ob ! index))"

text \<open>\<open>json_object_clear\<close> frees the items and resets the count; it leaves the cells alone.\<close>

definition json_object_clear :: "'v json_object \<Rightarrow> json_status \<times> 'v json_object" where
  "json_object_clear ob =
     (JSONSuccess, JSON_Object (cells ob) (hashes ob) [] [] [] (item_capacity ob))"

text \<open>
  \<open>json_object_set_value\<close> replaces the value of a name that is there, and adds a copy of the name
  otherwise; \<open>dup\<close> says whether that copy could be allocated.
\<close>

definition set_item ::
    "(nat \<Rightarrow> bool) \<Rightarrow> bool \<Rightarrow> 'v json_object \<Rightarrow> string \<Rightarrow> 'v \<Rightarrow> (json_status \<times> 'v json_object) option" where
  "set_item M dup ob name value =
     (let hash = hash_string name
      in json_object_get_cell_ix ob name hash \<bind> (\<lambda>(cell_ix, found).
        if found then
          cell_ix \<bind> (\<lambda>c. cells ob ! c \<bind> (\<lambda>item_ix.
            if item_ix < length (vals ob)
            then Some (JSONSuccess, JSON_Object (cells ob) (hashes ob) (names ob)
                   ((vals ob)[item_ix := value]) (cell_ixs ob) (item_capacity ob))
            else None))
        else if length (names ob) \<ge> item_capacity ob then
          json_object_grow_and_rehash M ob \<bind> (\<lambda>(res, ob').
            if res \<noteq> JSONSuccess then Some (JSONFailure, ob)
            else json_object_get_cell_ix ob' name hash \<bind> (\<lambda>(cell_ix', _).
              if \<not> dup then Some (JSONFailure, ob')
              else map_option (Pair JSONSuccess) (store_item ob' name value hash cell_ix')))
        else if \<not> dup then Some (JSONFailure, ob)
        else map_option (Pair JSONSuccess) (store_item ob name value hash cell_ix)))"

subsection \<open>Cyclic probing\<close>

text \<open>
  \<open>cyc a q b\<close>: cell \<open>q\<close> is met on the way from \<open>a\<close> up to and without \<open>b\<close>, going round.
  \<open>scanned h q j\<close>: \<open>q\<close> was passed on the way from \<open>h\<close>, left out, to \<open>j\<close>.
\<close>

definition cyc :: "nat \<Rightarrow> nat \<Rightarrow> nat \<Rightarrow> bool" where
  "cyc a q b \<longleftrightarrow> (if a \<le> b then a \<le> q \<and> q < b else a \<le> q \<or> q < b)"

definition scanned :: "nat \<Rightarrow> nat \<Rightarrow> nat \<Rightarrow> bool" where
  "scanned h q j \<longleftrightarrow> (if h \<le> j then h < q \<and> q \<le> j else h < q \<or> q \<le> j)"

definition next_cell :: "nat \<Rightarrow> nat \<Rightarrow> nat" where
  "next_cell m j = (if Suc j = m then 0 else Suc j)"

definition cells_to :: "nat \<Rightarrow> nat \<Rightarrow> nat \<Rightarrow> nat" where
  "cells_to m j e = (if j < e then e - j else e + m - j)"

lemma cap_mask_pow2:
  assumes "cap = 2 ^ k" "k < 64"
  shows "cap_mask cap x = unat x mod cap"
proof -
  have "x AND (of_nat cap - 1) = take_bit k x"
    using assms by (simp add: take_bit_eq_mask mask_eq_exp_minus_1)
  then have "cap_mask cap x = unat (take_bit k x)" by (simp only: cap_mask_def)
  also have "\<dots> = take_bit k (unat x)" using assms(2) by (simp add: unsigned_take_bit_eq)
  finally show ?thesis using assms(1) by (simp add: take_bit_eq_mod)
qed

lemma cap_mask_next:
  assumes "cap = 2 ^ k" "k < 64" "j < cap"
  shows "cap_mask cap (of_nat (Suc j)) = next_cell cap j"
proof -
  have "Suc j < 2 ^ 64"
  proof -
    have "Suc j \<le> 2 ^ k" using assms by simp
    also have "\<dots> < 2 ^ 64" using assms(2) by (intro power_strict_increasing) auto
    finally show ?thesis .
  qed
  then have "unat (of_nat (Suc j) :: 64 word) = Suc j" by (rule unat_of_nat_64)
  then show ?thesis using assms by (auto simp: cap_mask_pow2 next_cell_def)
qed

lemma cap_mask_add:
  assumes "cap = 2 ^ k" "k < 63" "h < cap" "i < cap"
  shows "cap_mask cap (of_nat (h + i)) = (h + i) mod cap"
proof -
  have "h + i < 2 ^ Suc k" using assms by simp
  also have "(2::nat) ^ Suc k < 2 ^ 64" using assms(2) by (intro power_strict_increasing) auto
  finally have "unat (of_nat (h + i) :: 64 word) = h + i" by (rule unat_of_nat_64)
  then show ?thesis using assms by (simp add: cap_mask_pow2)
qed

lemma scanned_next:
  assumes "h < m" "j < m" "q < m" "next_cell m j \<noteq> h"
  shows "scanned h q (next_cell m j) \<longleftrightarrow> scanned h q j \<or> q = next_cell m j"
  using assms by (auto simp: scanned_def next_cell_def split: if_splits)

lemma move_cond:
  assumes "i \<noteq> j"
  shows "(j > i \<and> (k \<le> i \<or> k > j)) \<or> (j < i \<and> (k \<le> i \<and> k > j)) \<longleftrightarrow> cyc k i j"
  using assms by (auto simp: cyc_def)

lemma cyc_trans: "cyc k q i \<Longrightarrow> cyc k i j \<Longrightarrow> cyc k q j"
  by (auto simp: cyc_def split: if_splits)

lemma cyc_irrefl [simp]: "\<not> cyc k i i"
  by (auto simp: cyc_def)

lemma scanned_empty [simp]: "\<not> scanned h q h"
  by (auto simp: scanned_def)

lemma cyc_meets_next:
  assumes "cyc a h p" "\<not> scanned h p j" "p \<noteq> next_cell m j" "h < m" "j < m" "p < m" "a < m"
    "h = j \<or> \<not> scanned h h j" "next_cell m j \<noteq> h"
  shows "cyc a (next_cell m j) p"
  using assms by (auto simp: cyc_def scanned_def next_cell_def split: if_splits)

lemma cells_to_next:
  assumes "j < m" "e < m" "j \<noteq> e" "next_cell m j \<noteq> e"
  shows "Suc (cells_to m (next_cell m j) e) = cells_to m j e"
  using assms by (auto simp: cells_to_def next_cell_def split: if_splits)

lemma cells_to_bounds:
  assumes "j < m" "e < m" "j \<noteq> e"
  shows "0 < cells_to m j e" "cells_to m j e < m"
  using assms by (auto simp: cells_to_def)

definition probe_dist :: "nat \<Rightarrow> nat \<Rightarrow> nat \<Rightarrow> nat" where
  "probe_dist m h p = (if h \<le> p then p - h else p + m - h)"

lemma probe_dist_less: "h < m \<Longrightarrow> p < m \<Longrightarrow> probe_dist m h p < m"
  by (auto simp: probe_dist_def)

lemma probe_dist_mod: "h < m \<Longrightarrow> p < m \<Longrightarrow> (h + probe_dist m h p) mod m = p"
  by (auto simp: probe_dist_def)

lemma probe_dist_unique:
  assumes "h < m" "p < m" "d < m" "(h + d) mod m = p"
  shows "probe_dist m h p = d"
proof -
  have "p = (if h + d < m then h + d else h + d - m)" using assms mod_wrap by metis
  then show ?thesis using assms by (auto simp: probe_dist_def split: if_splits)
qed

lemma probe_dist_cyc:
  assumes "h < m" "p < m" "d < probe_dist m h p"
  shows "cyc h ((h + d) mod m) p"
proof -
  have "d < m" using assms probe_dist_less [OF assms(1,2)] by simp
  then have "(h + d) mod m = (if h + d < m then h + d else h + d - m)"
    using assms(1) by (rule mod_wrap [rotated])
  then show ?thesis using assms \<open>d < m\<close> by (auto simp: cyc_def probe_dist_def split: if_splits)
qed

subsection \<open>The invariant\<close>

text \<open>
  \<open>cells_ok\<close>: apart from the cell \<open>hole\<close>, cells and items point at each other.  \<open>probes_ok\<close>: no
  empty cell, apart from the hole, lies between the home cell of an item and its cell.  A table
  at rest has no hole: it takes the first number past the cells.
\<close>

definition cells_ok :: "nat option list \<Rightarrow> nat list \<Rightarrow> nat \<Rightarrow> nat \<Rightarrow> bool" where
  "cells_ok cs ixs n hole \<longleftrightarrow>
     (\<forall>c < length cs. \<forall>i. c \<noteq> hole \<longrightarrow> cs ! c = Some i \<longrightarrow> i < n \<and> ixs ! i = c) \<and>
     (\<forall>i < n. ixs ! i < length cs \<and> ixs ! i \<noteq> hole \<and> cs ! (ixs ! i) = Some i)"

definition probes_ok :: "nat option list \<Rightarrow> 64 word list \<Rightarrow> nat list \<Rightarrow> nat \<Rightarrow> nat \<Rightarrow> bool" where
  "probes_ok cs hs ixs n hole \<longleftrightarrow>
     (\<forall>i < n. \<forall>q < length cs. q \<noteq> hole \<longrightarrow> cyc (cap_mask (length cs) (hs ! i)) q (ixs ! i) \<longrightarrow> cs ! q \<noteq> None)"

definition cap_ok :: "nat \<Rightarrow> bool" where
  "cap_ok cap \<longleftrightarrow> (\<exists>k. 4 \<le> k \<and> k < 32 \<and> cap = 2 ^ k)"

definition object_inv :: "'v json_object \<Rightarrow> bool" where
  "object_inv ob \<longleftrightarrow>
     (length (cells ob) = 0 \<or> cap_ok (length (cells ob))) \<and>
     item_capacity ob = item_capacity_for (length (cells ob)) \<and>
     length (names ob) \<le> item_capacity ob \<and>
     length (vals ob) = length (names ob) \<and> length (cell_ixs ob) = length (names ob) \<and>
     length (names ob) \<le> length (hashes ob) \<and>
     distinct (names ob) \<and> (\<forall>i < length (names ob). hashes ob ! i = hash_string (names ob ! i)) \<and>
     cells_ok (cells ob) (cell_ixs ob) (length (names ob)) (length (cells ob)) \<and>
     probes_ok (cells ob) (hashes ob) (cell_ixs ob) (length (names ob)) (length (cells ob))"

definition object_map :: "'v json_object \<Rightarrow> string \<rightharpoonup> 'v" where
  "object_map ob = map_of (zip (names ob) (vals ob))"

lemma item_capacity_less: "0 < cap \<Longrightarrow> item_capacity_for cap < cap"
  by (simp add: item_capacity_for_def div_less_iff_less_mult)

lemma cap_ok_facts:
  assumes "cap_ok cap"
  shows "0 < cap" "16 \<le> cap" "cap < 2 ^ 32"
    "cap_mask cap x < cap" "j < cap \<Longrightarrow> cap_mask cap (of_nat (Suc j)) = next_cell cap j"
    "h < cap \<Longrightarrow> i < cap \<Longrightarrow> cap_mask cap (of_nat (h + i)) = (h + i) mod cap"
proof -
  obtain k where k: "4 \<le> k" "k < 32" "cap = 2 ^ k" using assms by (auto simp: cap_ok_def)
  show "0 < cap" using k by simp
  have "(2::nat) ^ 4 \<le> 2 ^ k" using k(1) by (rule power_increasing) simp
  then show "16 \<le> cap" using k by simp
  show "cap < 2 ^ 32" unfolding k(3) using k(2) by (intro power_strict_increasing) auto
  show "cap_mask cap x < cap" using k cap_mask_pow2 [of cap k x] by simp
  show "j < cap \<Longrightarrow> cap_mask cap (of_nat (Suc j)) = next_cell cap j"
    using k by (intro cap_mask_next) auto
  show "h < cap \<Longrightarrow> i < cap \<Longrightarrow> cap_mask cap (of_nat (h + i)) = (h + i) mod cap"
    using k by (intro cap_mask_add) auto
qed

lemma object_inv_room:
  assumes "object_inv ob" "length (cells ob) \<noteq> 0"
  shows "\<exists>e < length (cells ob). cells ob ! e = None"
proof (rule ccontr)
  let ?cap = "length (cells ob)" and ?n = "length (names ob)"
  assume "\<not> ?thesis"
  then have full: "\<forall>c < ?cap. \<exists>i. cells ob ! c = Some i" by auto
  have ok: "\<forall>c < ?cap. \<forall>i. cells ob ! c = Some i \<longrightarrow> i < ?n \<and> cell_ixs ob ! i = c"
    using assms(1) by (auto simp: object_inv_def cells_ok_def)
  let ?f = "\<lambda>c. the (cells ob ! c)"
  have "inj_on ?f {..<?cap}" "?f ` {..<?cap} \<subseteq> {..<?n}"
    using full ok by (auto simp: inj_on_def) (metis option.sel)+
  then have "?cap \<le> ?n" using card_inj_on_le [of ?f "{..<?cap}" "{..<?n}"] by simp
  moreover have "?n < ?cap"
    using assms item_capacity_less [of ?cap] by (auto simp: object_inv_def)
  ultimately show False by simp
qed

subsection \<open>Looking up\<close>

definition passes :: "'v json_object \<Rightarrow> string \<Rightarrow> 64 word \<Rightarrow> nat \<Rightarrow> bool" where
  "passes ob key hash q \<longleftrightarrow> (\<exists>c. cells ob ! q = Some c \<and> c < length (hashes ob) \<and>
     (hashes ob ! c = hash \<longrightarrow> c < length (names ob) \<and> names ob ! c \<noteq> key))"

lemma probe_skip:
  assumes "cap_ok (length (cells ob))" "h < length (cells ob)"
  shows "(\<forall>d < D. passes ob key hash ((h + d) mod length (cells ob))) \<Longrightarrow> D \<le> length (cells ob) \<Longrightarrow>
    probe_cells ob key hash h (length (cells ob)) =
    probe_cells ob key hash (h + D) (length (cells ob) - D)"
proof (induction D)
  case (Suc D)
  let ?cap = "length (cells ob)"
  have n: "?cap - D = Suc (?cap - Suc D)" using Suc.prems(2) by simp
  have m: "cap_mask ?cap (of_nat (h + D)) = (h + D) mod ?cap"
    using cap_ok_facts(6) [OF assms(1,2)] Suc.prems(2) by simp
  have "passes ob key hash ((h + D) mod ?cap)" using Suc.prems(1) by simp
  then obtain c where c: "cells ob ! ((h + D) mod ?cap) = Some c" "c < length (hashes ob)"
    "hashes ob ! c = hash \<longrightarrow> c < length (names ob) \<and> names ob ! c \<noteq> key"
    by (auto simp: passes_def)
  have "probe_cells ob key hash (h + D) (?cap - D) =
      probe_cells ob key hash (h + Suc D) (?cap - Suc D)"
    unfolding n using m c by (auto simp del: of_nat_add)
  then show ?case using Suc by simp
qed simp

lemma probe_at:
  assumes "cap_ok (length (cells ob))" "h < length (cells ob)" "D < length (cells ob)"
    and "\<forall>d < D. passes ob key hash ((h + d) mod length (cells ob))"
    and "q = (h + D) mod length (cells ob)"
  shows "cells ob ! q = None \<Longrightarrow> probe_cells ob key hash h (length (cells ob)) = Some (Some q, False)"
    and "cells ob ! q = Some c \<Longrightarrow> c < length (hashes ob) \<Longrightarrow> hashes ob ! c = hash \<Longrightarrow>
      c < length (names ob) \<Longrightarrow> names ob ! c = key \<Longrightarrow>
      probe_cells ob key hash h (length (cells ob)) = Some (Some q, True)"
proof -
  let ?cap = "length (cells ob)"
  have n: "?cap - D = Suc (?cap - Suc D)" using assms(3) by simp
  have m: "cap_mask ?cap (of_nat (h + D)) = q"
    using cap_ok_facts(6) [OF assms(1,2,3)] assms(5) by simp
  have skip: "probe_cells ob key hash h ?cap = probe_cells ob key hash (h + D) (?cap - D)"
    using probe_skip [OF assms(1,2,4)] assms(3) by simp
  show "cells ob ! q = None \<Longrightarrow> probe_cells ob key hash h ?cap = Some (Some q, False)"
    unfolding skip n using m by (simp del: of_nat_add)
  show "cells ob ! q = Some c \<Longrightarrow> c < length (hashes ob) \<Longrightarrow> hashes ob ! c = hash \<Longrightarrow>
      c < length (names ob) \<Longrightarrow> names ob ! c = key \<Longrightarrow>
      probe_cells ob key hash h ?cap = Some (Some q, True)"
    unfolding skip n using m by (simp del: of_nat_add)
qed

lemma get_cell_ix_empty:
  "length (cells ob) = 0 \<Longrightarrow> json_object_get_cell_ix ob key hash = Some (None, False)"
  by (simp add: json_object_get_cell_ix_def)

lemma object_inv_cell:
  assumes "object_inv ob" "c < length (cells ob)" "cells ob ! c = Some i"
  shows "i < length (names ob)" "i < length (hashes ob)" "cell_ixs ob ! i = c"
    "hashes ob ! i = hash_string (names ob ! i)"
  using assms by (auto simp: object_inv_def cells_ok_def)

lemma object_inv_item:
  assumes "object_inv ob" "i < length (names ob)"
  shows "cell_ixs ob ! i < length (cells ob)" "cells ob ! (cell_ixs ob ! i) = Some i"
    "hashes ob ! i = hash_string (names ob ! i)" "i < length (hashes ob)" "i < length (vals ob)"
    "cap_ok (length (cells ob))"
  using assms by (auto simp: object_inv_def cells_ok_def)

lemma get_cell_ix_hit:
  assumes inv: "object_inv ob" and x: "x < length (names ob)"
  shows "json_object_get_cell_ix ob (names ob ! x) (hash_string (names ob ! x)) =
    Some (Some (cell_ixs ob ! x), True)"
proof -
  let ?cap = "length (cells ob)" and ?key = "names ob ! x" and ?p = "cell_ixs ob ! x"
  let ?h = "cap_mask ?cap (hash_string ?key)"
  note item = object_inv_item [OF inv x]
  have h: "?h < ?cap" using cap_ok_facts(4) [OF item(6)] .
  have pass: "passes ob ?key (hash_string ?key) ((?h + d) mod ?cap)"
    if d: "d < probe_dist ?cap ?h ?p" for d
  proof -
    let ?q = "(?h + d) mod ?cap"
    have q: "?q < ?cap" using cap_ok_facts(1) [OF item(6)] by (rule mod_less_divisor)
    have c: "cyc ?h ?q ?p" by (rule probe_dist_cyc [OF h item(1) d])
    then have "cells ob ! ?q \<noteq> None"
      using inv x q item(3) by (auto simp: object_inv_def probes_ok_def)
    then obtain i where i: "cells ob ! ?q = Some i" by auto
    have "?q \<noteq> ?p" using c by auto
    then have "i \<noteq> x" using object_inv_cell(3) [OF inv q i] by auto
    then have "names ob ! i \<noteq> ?key"
      using object_inv_cell(1) [OF inv q i] inv x
      by (simp add: object_inv_def nth_eq_iff_index_eq)
    then show ?thesis using object_inv_cell [OF inv q i] i by (auto simp: passes_def)
  qed
  show ?thesis
    unfolding json_object_get_cell_ix_def
    using probe_at(2) [OF item(6) h probe_dist_less [OF h item(1)]] pass
      probe_dist_mod [OF h item(1)] item x by simp
qed

lemma get_cell_ix_miss:
  assumes inv: "object_inv ob" and key: "key \<notin> set (names ob)" and cap: "length (cells ob) \<noteq> 0"
  shows "\<exists>q. json_object_get_cell_ix ob key (hash_string key) = Some (Some q, False) \<and>
    q < length (cells ob) \<and> cells ob ! q = None \<and>
    (\<forall>r < length (cells ob). cyc (cap_mask (length (cells ob)) (hash_string key)) r q \<longrightarrow> cells ob ! r \<noteq> None)"
proof -
  let ?cap = "length (cells ob)" and ?h = "cap_mask (length (cells ob)) (hash_string key)"
  let ?P = "\<lambda>d. d < ?cap \<and> cells ob ! ((?h + d) mod ?cap) = None"
  have ok: "cap_ok ?cap" using inv cap by (auto simp: object_inv_def)
  have h: "?h < ?cap" using cap_ok_facts(4) [OF ok] .
  obtain e where e: "e < ?cap" "cells ob ! e = None" using object_inv_room [OF inv cap] by auto
  have "?P (probe_dist ?cap ?h e)"
    using e probe_dist_less [OF h e(1)] probe_dist_mod [OF h e(1)] by simp
  then have D: "?P (LEAST d. ?P d)" by (rule LeastI)
  define D where "D = (LEAST d. ?P d)"
  have below: "cells ob ! ((?h + d) mod ?cap) \<noteq> None" if "d < D" for d
    using not_less_Least [of d ?P] that D by (auto simp: D_def)
  have pass: "passes ob key (hash_string key) ((?h + d) mod ?cap)" if d: "d < D" for d
  proof -
    obtain i where i: "cells ob ! ((?h + d) mod ?cap) = Some i" using below [OF d] by auto
    have "(?h + d) mod ?cap < ?cap" using cap_ok_facts(1) [OF ok] by (rule mod_less_divisor)
    note c = object_inv_cell [OF inv this i]
    then have "names ob ! i \<noteq> key" using key by auto
    then show ?thesis using c i by (auto simp: passes_def)
  qed
  let ?q = "(?h + D) mod ?cap"
  have q: "?q < ?cap" "cells ob ! ?q = None" "D < ?cap"
    using D cap_ok_facts(1) [OF ok] by (simp_all add: D_def [symmetric])
  have dist: "probe_dist ?cap ?h ?q = D" using probe_dist_unique [OF h q(1,3)] by simp
  have "cells ob ! r \<noteq> None" if r: "r < ?cap" "cyc ?h r ?q" for r
  proof -
    have "probe_dist ?cap ?h r < probe_dist ?cap ?h ?q"
      using r h q(1) by (auto simp: probe_dist_def cyc_def split: if_splits)
    then show ?thesis using below [of "probe_dist ?cap ?h r"] probe_dist_mod [OF h r(1)] dist by simp
  qed
  then show ?thesis
    using probe_at(1) [OF ok h q(3) _ refl q(2)] pass q by (auto simp: json_object_get_cell_ix_def)
qed

lemma object_map_nth:
  "object_inv ob \<Longrightarrow> i < length (names ob) \<Longrightarrow> object_map ob (names ob ! i) = Some (vals ob ! i)"
  by (simp add: object_map_def object_inv_def map_of_zip_nth)

lemma object_map_None:
  "object_inv ob \<Longrightarrow> object_map ob key = None \<longleftrightarrow> key \<notin> set (names ob)"
  by (simp add: object_map_def object_inv_def map_of_zip_is_None)

lemma getn_value_spec:
  assumes "object_inv ob"
  shows "json_object_getn_value ob name n = Some (object_map ob (take n name))"
proof (cases "take n name \<in> set (names ob)")
  case True
  then obtain x where x: "x < length (names ob)" "names ob ! x = take n name"
    by (auto simp: in_set_conv_nth)
  then show ?thesis
    using get_cell_ix_hit [OF assms x(1)] object_inv_item [OF assms x(1)] object_map_nth [OF assms x(1)]
    by (simp add: json_object_getn_value_def Let_def)
next
  case False
  then have "\<exists>c. json_object_get_cell_ix ob (take n name) (hash_string (take n name)) = Some (c, False)"
    using get_cell_ix_miss [OF assms] get_cell_ix_empty by blast
  then show ?thesis using False object_map_None [OF assms, of "take n name"]
    by (auto simp: json_object_getn_value_def Let_def)
qed

subsection \<open>Adding and growing\<close>

text \<open>A table of 2 to the power of 32 cells would take 32 GiB for its cells alone.\<close>

definition mem_bounded :: "(nat \<Rightarrow> bool) \<Rightarrow> bool" where
  "mem_bounded M \<longleftrightarrow> (\<forall>cap. M cap \<longrightarrow> cap < 2 ^ 32)"

definition grown_capacity :: "nat \<Rightarrow> nat" where
  "grown_capacity cap = max (cap * 2) STARTING_CAPACITY"

definition same_size :: "'v json_object \<Rightarrow> 'v json_object \<Rightarrow> bool" where
  "same_size ob ob' \<longleftrightarrow> length (cells ob') = length (cells ob) \<and> item_capacity ob' = item_capacity ob"

lemma grown_capacity_ok:
  assumes "cap = 0 \<or> cap_ok cap" "grown_capacity cap < 2 ^ 32"
  shows "cap_ok (grown_capacity cap)"
proof (cases "cap = 0")
  case True
  then show ?thesis
    by (auto simp: cap_ok_def grown_capacity_def STARTING_CAPACITY_def intro!: exI [of _ 4])
next
  case False
  then obtain k where k: "4 \<le> k" "k < 32" "cap = 2 ^ k" using assms(1) by (auto simp: cap_ok_def)
  have "16 \<le> cap" using assms(1) False cap_ok_facts(2) by blast
  then have g: "grown_capacity cap = 2 ^ Suc k"
    using k(3) by (simp add: grown_capacity_def STARTING_CAPACITY_def)
  have "(2::nat) ^ Suc k < 2 ^ 32" using assms(2) unfolding g .
  then have "Suc k < 32" by (rule power_less_imp_less_exp [rotated]) simp
  then show ?thesis using k(1) g unfolding cap_ok_def by (intro exI [of _ "Suc k"]) simp
qed

lemma item_capacity_grows:
  assumes "cap = 0 \<or> cap_ok cap"
  shows "item_capacity_for cap < item_capacity_for (grown_capacity cap)"
proof (cases "cap = 0")
  case False
  then have c: "16 \<le> cap" using assms cap_ok_facts(2) by blast
  then have g: "grown_capacity cap = 2 * cap" by (simp add: grown_capacity_def STARTING_CAPACITY_def)
  have "(cap * 11744051 + 16777216) div 16777216 \<le> (2 * cap * 11744051) div 16777216"
    using c by (intro div_le_mono) simp
  moreover have "(cap * 11744051 + 16777216) div 16777216 = Suc (cap * 11744051 div 16777216)" by simp
  ultimately show ?thesis unfolding item_capacity_for_def g by linarith
qed (simp add: item_capacity_for_def grown_capacity_def STARTING_CAPACITY_def)

lemma object_inv_fresh:
  assumes "cap_ok cap"
  shows "object_inv (JSON_Object (replicate cap None) [] [] [] [] (item_capacity_for cap))"
  using assms by (simp add: object_inv_def cells_ok_def probes_ok_def)

lemma object_inv_empty [simp]: "object_inv (JSON_Object [] [] [] [] [] 0)"
  by (simp add: object_inv_def cells_ok_def probes_ok_def item_capacity_for_def)

lemma put_at_nth:
  assumes "n \<le> length xs"
  shows "put_at n x xs ! n = x" "i < n \<Longrightarrow> put_at n x xs ! i = xs ! i" "n < length (put_at n x xs)"
    "length xs \<le> length (put_at n x xs)"
  using assms by (auto simp: put_at_def nth_append)

lemma cells_ok_store:
  assumes ok: "cells_ok cs ixs n (length cs)" and len: "length ixs = n"
    and q: "q < length cs" "cs ! q = None"
  shows "cells_ok (cs[q := Some n]) (ixs @ [q]) (Suc n) (length cs)"
proof -
  have old: "i < n \<and> ixs ! i = c" if "c < length cs" "cs ! c = Some i" for c i
    using ok that by (auto simp: cells_ok_def)
  have item: "ixs ! i < length cs \<and> cs ! (ixs ! i) = Some i" if "i < n" for i
    using ok that by (auto simp: cells_ok_def)
  have "i < Suc n \<and> (ixs @ [q]) ! i = c" if "c < length cs" "cs[q := Some n] ! c = Some i" for c i
    using that old [of c i] len by (cases "c = q") (auto simp: nth_append)
  moreover have "(ixs @ [q]) ! i < length cs \<and> cs[q := Some n] ! ((ixs @ [q]) ! i) = Some i"
    if "i < Suc n" for i
  proof (cases "i = n")
    case False
    then show ?thesis using that item [of i] len q
      by (cases "ixs ! i = q") (auto simp: nth_append)
  qed (use len q in \<open>simp add: nth_append\<close>)
  ultimately show ?thesis by (auto simp: cells_ok_def) (metis less_irrefl)
qed

lemma probes_ok_store:
  assumes "probes_ok cs hs ixs n (length cs)" "length ixs = n" "n \<le> length hs"
    and "\<forall>r < length cs. cyc (cap_mask (length cs) h) r q \<longrightarrow> cs ! r \<noteq> None"
  shows "probes_ok (cs[q := Some n]) (put_at n h hs) (ixs @ [q]) (Suc n) (length cs)"
proof -
  have "cs[q := Some n] ! r \<noteq> None"
    if "i < Suc n" "r < length cs" "cyc (cap_mask (length cs) (put_at n h hs ! i)) r ((ixs @ [q]) ! i)" for i r
  proof -
    have "cs ! r \<noteq> None"
    proof (cases "i = n")
      case False
      then have "i < n" using that(1) by simp
      then show ?thesis
        using assms(1,2) that(2,3) put_at_nth(2) [OF assms(3), where x = h]
        by (simp add: probes_ok_def nth_append)
    qed (use assms that put_at_nth(1) [OF assms(3), where x = h] in \<open>simp add: nth_append\<close>)
    then show ?thesis using that(2) by (cases "r = q") auto
  qed
  then show ?thesis by (auto simp: probes_ok_def)
qed

lemma store_item_spec:
  assumes inv: "object_inv ob" and name: "name \<notin> set (names ob)"
    and room: "length (names ob) < item_capacity ob"
    and q: "q < length (cells ob)" "cells ob ! q = None"
      "\<forall>r < length (cells ob). cyc (cap_mask (length (cells ob)) (hash_string name)) r q \<longrightarrow> cells ob ! r \<noteq> None"
  shows "\<exists>ob'. store_item ob name v (hash_string name) (Some q) = Some ob' \<and> object_inv ob' \<and>
    names ob' = names ob @ [name] \<and> vals ob' = vals ob @ [v] \<and> same_size ob ob'"
proof -
  let ?n = "length (names ob)" and ?hash = "hash_string name"
  let ?ob = "JSON_Object ((cells ob)[q := Some ?n]) (put_at ?n ?hash (hashes ob))
      (names ob @ [name]) (vals ob @ [v]) (cell_ixs ob @ [q]) (item_capacity ob)"
  have len: "length (cell_ixs ob) = ?n" "length (vals ob) = ?n" "?n \<le> length (hashes ob)"
    using inv by (auto simp: object_inv_def)
  have "cells_ok (cells ob) (cell_ixs ob) ?n (length (cells ob))"
    "probes_ok (cells ob) (hashes ob) (cell_ixs ob) ?n (length (cells ob))"
    using inv by (simp_all add: object_inv_def)
  note cells = cells_ok_store [OF this(1) len(1) q(1,2)]
    and probes = probes_ok_store [OF this(2) len(1,3) q(3)]
  have "object_inv ?ob"
    using inv name room len cells probes put_at_nth [OF len(3), where x = ?hash]
    by (auto simp: object_inv_def nth_append less_Suc_eq)
  then show ?thesis using q(1) room by (simp add: store_item_def same_size_def Let_def)
qed

lemma add_item_room:
  assumes "object_inv ob" "name \<notin> set (names ob)" "length (names ob) < item_capacity ob"
  shows "\<exists>ob'. add_item (Suc d) M ob name v = Some (JSONSuccess, ob') \<and> object_inv ob' \<and>
    names ob' = names ob @ [name] \<and> vals ob' = vals ob @ [v] \<and> same_size ob ob'"
proof -
  have "length (cells ob) \<noteq> 0"
    using assms(1,3) by (auto simp: object_inv_def item_capacity_for_def)
  then obtain q where q: "json_object_get_cell_ix ob name (hash_string name) = Some (Some q, False)"
    "q < length (cells ob)" "cells ob ! q = None"
    "\<forall>r < length (cells ob). cyc (cap_mask (length (cells ob)) (hash_string name)) r q \<longrightarrow> cells ob ! r \<noteq> None"
    using get_cell_ix_miss [OF assms(1,2)] by blast
  show ?thesis
    using store_item_spec [OF assms q(2-4), of v] q(1) assms(3) by (auto simp: Let_def)
qed

lemma rehash_spec:
  "object_inv new \<Longrightarrow> distinct (names new @ ks) \<Longrightarrow> length vs = length ks \<Longrightarrow>
   length (names new) + length ks \<le> item_capacity new \<Longrightarrow>
   \<exists>new'. rehash (add_item (Suc d) M) ks vs new = Some (JSONSuccess, new') \<and> object_inv new' \<and>
     names new' = names new @ ks \<and> vals new' = vals new @ vs \<and> same_size new new'"
proof (induction ks arbitrary: vs new)
  case Nil
  then show ?case by (simp add: same_size_def)
next
  case (Cons key ks)
  obtain v vs' where vs: "vs = v # vs'" using Cons.prems(3) by (cases vs) auto
  obtain new1 where n1: "add_item (Suc d) M new key v = Some (JSONSuccess, new1)" "object_inv new1"
    "names new1 = names new @ [key]" "vals new1 = vals new @ [v]" "same_size new new1"
    using add_item_room [of new key d M v] Cons.prems by auto
  then show ?case
    using Cons.IH [of new1 vs'] Cons.prems vs by (auto simp: same_size_def simp del: add_item.simps)
qed

lemma grow_spec:
  assumes inv: "object_inv ob" and M: "mem_bounded M"
  shows "if M (grown_capacity (length (cells ob)))
    then \<exists>ob'. grow_with (add_item (Suc d) M) M ob = Some (JSONSuccess, ob') \<and> object_inv ob' \<and>
      names ob' = names ob \<and> vals ob' = vals ob \<and>
      length (cells ob') = grown_capacity (length (cells ob)) \<and> item_capacity ob < item_capacity ob'
    else grow_with (add_item (Suc d) M) M ob = Some (JSONFailure, ob)"
proof (cases "M (grown_capacity (length (cells ob)))")
  case True
  let ?cap = "grown_capacity (length (cells ob))"
  let ?new = "JSON_Object (replicate ?cap None) [] [] [] [] (item_capacity_for ?cap) :: 'a json_object"
  have cap: "length (cells ob) = 0 \<or> cap_ok (length (cells ob))" using inv by (auto simp: object_inv_def)
  have "cap_ok ?cap" using grown_capacity_ok [OF cap] M True by (auto simp: mem_bounded_def)
  note new = object_inv_fresh [OF this, where ?'a = 'a] and pos = cap_ok_facts(1) [OF this]
  have more: "item_capacity ob < item_capacity_for ?cap"
    using item_capacity_grows [OF cap] inv by (simp add: object_inv_def)
  have "\<exists>new'. rehash (add_item (Suc d) M) (names ob) (vals ob) ?new = Some (JSONSuccess, new') \<and>
      object_inv new' \<and> names new' = names ob \<and> vals new' = vals ob \<and> same_size ?new new'"
    using rehash_spec [OF new, of "names ob" "vals ob" d M] inv more by (simp add: object_inv_def)
  then obtain new' where "rehash (add_item (Suc d) M) (names ob) (vals ob) ?new = Some (JSONSuccess, new')"
    "object_inv new'" "names new' = names ob" "vals new' = vals ob" "same_size ?new new'" by blast
  then show ?thesis
    using True pos more
    by (simp add: grow_with_def json_object_init_def Let_def same_size_def grown_capacity_def [symmetric]
      del: add_item.simps)
next
  case False
  then show ?thesis
    by (simp add: grow_with_def json_object_init_def Let_def grown_capacity_def [symmetric]
      grown_capacity_def STARTING_CAPACITY_def)
qed

text \<open>When an item can be added: the name is new, and a full table can grow.\<close>

definition can_grow :: "(nat \<Rightarrow> bool) \<Rightarrow> 'v json_object \<Rightarrow> bool" where
  "can_grow M ob \<longleftrightarrow>
     length (names ob) < item_capacity ob \<or> M (grown_capacity (length (cells ob)))"

lemma add_spec:
  assumes inv: "object_inv ob" and M: "mem_bounded M"
  shows "\<exists>ob'. json_object_add M ob name v =
      Some (if name \<notin> set (names ob) \<and> can_grow M ob then JSONSuccess else JSONFailure, ob') \<and>
    object_inv ob' \<and>
    (if name \<notin> set (names ob) \<and> can_grow M ob
     then names ob' = names ob @ [name] \<and> vals ob' = vals ob @ [v] else ob' = ob)"
proof (cases "name \<in> set (names ob)")
  case True
  then obtain x where x: "x < length (names ob)" "names ob ! x = name"
    by (auto simp: in_set_conv_nth)
  then show ?thesis
    using get_cell_ix_hit [OF inv x(1)] inv True
    by (simp add: json_object_add_def numeral_2_eq_2)
next
  case new: False
  show ?thesis
  proof (cases "length (names ob) < item_capacity ob")
    case True
    then show ?thesis using add_item_room [OF inv new True, of "Suc 0" M v] new
      by (auto simp: json_object_add_def numeral_2_eq_2 can_grow_def simp del: add_item.simps)
  next
    case full: False
    have miss: "\<exists>c. json_object_get_cell_ix ob name (hash_string name) = Some (c, False)"
      using get_cell_ix_miss [OF inv new] get_cell_ix_empty by blast
    show ?thesis
    proof (cases "M (grown_capacity (length (cells ob)))")
      case True
      then obtain ob1 where g: "grow_with (add_item (Suc 0) M) M ob = Some (JSONSuccess, ob1)"
        "object_inv ob1" "names ob1 = names ob" "vals ob1 = vals ob"
        "length (cells ob1) = grown_capacity (length (cells ob))" "item_capacity ob < item_capacity ob1"
        using grow_spec [OF inv M, of 0] by auto
      have ne: "length (cells ob1) \<noteq> 0" "name \<notin> set (names ob1)" "length (names ob1) < item_capacity ob1"
        using g(3,5,6) new inv by (auto simp: grown_capacity_def STARTING_CAPACITY_def object_inv_def)
      obtain q where q: "json_object_get_cell_ix ob1 name (hash_string name) = Some (Some q, False)"
        "q < length (cells ob1)" "cells ob1 ! q = None"
        "\<forall>r < length (cells ob1). cyc (cap_mask (length (cells ob1)) (hash_string name)) r q \<longrightarrow> cells ob1 ! r \<noteq> None"
        using get_cell_ix_miss [OF g(2) ne(2,1)] by blast
      show ?thesis
        using store_item_spec [OF g(2) ne(2,3) q(2-4), of v] q(1) g(1,3,4) miss full True new
        by (auto simp: json_object_add_def numeral_2_eq_2 can_grow_def simp del: add_item.simps(2)
          simp: add_item.simps(2) [of "Suc 0"] Let_def)
    next
      case False
      then have "grow_with (add_item (Suc 0) M) M ob = Some (JSONFailure, ob)"
        using grow_spec [OF inv M, of 0] by simp
      then show ?thesis using False full miss inv
        by (auto simp: json_object_add_def numeral_2_eq_2 can_grow_def simp del: add_item.simps(2)
          simp: add_item.simps(2) [of "Suc 0"] Let_def)
    qed
  qed
qed

subsection \<open>Removing\<close>

lemma next_cell_less: "j < m \<Longrightarrow> next_cell m j < m"
  by (auto simp: next_cell_def)

lemma scanned_round:
  assumes "next_cell m j = h" "q < m" "q \<noteq> h" "j < m"
  shows "scanned h q j"
  using assms by (auto simp: scanned_def next_cell_def split: if_splits)

lemma not_scanned_start: "\<not> scanned h h j"
  by (auto simp: scanned_def)

lemma cells_ok_move:
  assumes ok: "cells_ok cs ixs n h" and len: "length ixs = n"
    and h: "h < length cs" and j: "j < length cs" "j \<noteq> h" "cs ! j = Some c"
  shows "cells_ok (cs[h := Some c]) (ixs[c := h]) n j"
proof -
  have old: "i < n \<and> ixs ! i = q" if "q < length cs" "q \<noteq> h" "cs ! q = Some i" for q i
    using ok that by (auto simp: cells_ok_def)
  have item: "ixs ! i < length cs \<and> ixs ! i \<noteq> h \<and> cs ! (ixs ! i) = Some i" if "i < n" for i
    using ok that by (auto simp: cells_ok_def)
  have c: "c < n" "ixs ! c = j" using old [OF j(1,2,3)] by auto
  have "i < n \<and> ixs[c := h] ! i = q"
    if "q < length cs" "q \<noteq> j" "cs[h := Some c] ! q = Some i" for q i
  proof (cases "q = h")
    case True
    then show ?thesis using that h c len by simp
  next
    case False
    then have "i < n \<and> ixs ! i = q" using that old by simp
    then show ?thesis using that(2) c by (cases "i = c") auto
  qed
  moreover have "ixs[c := h] ! i < length cs \<and> ixs[c := h] ! i \<noteq> j \<and>
      cs[h := Some c] ! (ixs[c := h] ! i) = Some i" if "i < n" for i
  proof (cases "i = c")
    case False
    then have "ixs ! i \<noteq> j" using item [OF that] j(3) by auto
    then show ?thesis using item [OF that] False by simp
  qed (use h j(2) c len in simp)
  ultimately show ?thesis by (auto simp: cells_ok_def)
qed

lemma probes_ok_move:
  assumes ok: "cells_ok cs ixs n h" and pr: "probes_ok cs hs ixs n h" and len: "length ixs = n"
    and h: "h < length cs" and j: "j < length cs" "j \<noteq> h" "cs ! j = Some c"
    and path: "cyc (cap_mask (length cs) (hs ! c)) h j"
  shows "probes_ok (cs[h := Some c]) hs (ixs[c := h]) n j"
proof -
  have c: "c < n" "ixs ! c = j" using ok j by (auto simp: cells_ok_def)
  have "cs[h := Some c] ! q \<noteq> None"
    if i: "i < n" "q < length cs" "q \<noteq> j" "cyc (cap_mask (length cs) (hs ! i)) q (ixs[c := h] ! i)" for i q
  proof (cases "q = h")
    case False
    have "cyc (cap_mask (length cs) (hs ! i)) q (ixs ! i)"
      using i(4) path c len cyc_trans by (cases "i = c") auto
    then show ?thesis using pr i(1,2) False by (simp add: probes_ok_def)
  qed (use h in simp)
  then show ?thesis by (auto simp: probes_ok_def)
qed

lemma shift_back_step:
  assumes "cap_mask (length cs) (of_nat (Suc j)) = j'" "cs ! j' = Some c" "c < length hs"
    "c < length ixs" "j' \<noteq> i"
  shows "shift_back hs (Suc n) i j cs ixs =
    (if cyc (cap_mask (length cs) (hs ! c)) i j'
     then shift_back hs n j' j' (cs[i := Some c]) (ixs[c := i]) else shift_back hs n i j' cs ixs)"
  using move_cond [of i j' "cap_mask (length cs) (hs ! c)"] assms
  by (simp only: shift_back.simps Let_def option.case if_False not_le not_less) (simp add: not_le)

lemma shift_back_spec:
  assumes "cap_ok (length cs)" "length ixs = n" "n \<le> length hs"
    and "cells_ok cs ixs n h" "probes_ok cs hs ixs n h" "h < length cs" "j < length cs"
    and "e < length cs" "e \<noteq> h" "e \<noteq> j" "cs ! e = None"
    and "\<forall>q < length cs. scanned h q j \<longrightarrow> cs ! q \<noteq> None"
    and "\<forall>i < n. cyc (cap_mask (length cs) (hs ! i)) h (ixs ! i) \<longrightarrow> \<not> scanned h (ixs ! i) j"
    and "cells_to (length cs) j e \<le> fuel"
  shows "\<exists>h' cs' ixs'. shift_back hs fuel h j cs ixs = Some (h', cs', ixs') \<and>
    length cs' = length cs \<and> length ixs' = n \<and> h' < length cs \<and>
    cells_ok cs' ixs' n h' \<and> probes_ok cs' hs ixs' n h' \<and>
    (\<forall>i < n. \<not> cyc (cap_mask (length cs) (hs ! i)) h' (ixs' ! i))"
  using assms
proof (induction fuel arbitrary: h j cs ixs)
  case 0
  then show ?case using cells_to_bounds(1) [of j "length cs" e] by simp
next
  case (Suc fuel)
  let ?cap = "length cs"
  let ?j = "next_cell ?cap j"
  note len = Suc.prems(2) and ok = Suc.prems(4) and pr = Suc.prems(5)
  have j: "?j < ?cap" using Suc.prems(7) by (rule next_cell_less)
  have jh: "?j \<noteq> h"
    using scanned_round [of ?cap j h e] Suc.prems(7,8,9,11,12) by auto
  have mask: "cap_mask ?cap (of_nat (Suc j)) = ?j"
    using cap_ok_facts(5) [OF Suc.prems(1,7)] .
  have home: "cap_mask ?cap x < ?cap" for x using cap_ok_facts(4) [OF Suc.prems(1)] .
  show ?case
  proof (cases "cs ! ?j")
    case None
    have "\<not> cyc (cap_mask ?cap (hs ! i)) h (ixs ! i)" if i: "i < n" for i
    proof
      assume c: "cyc (cap_mask ?cap (hs ! i)) h (ixs ! i)"
      have p: "ixs ! i < ?cap" "cs ! (ixs ! i) = Some i" using ok i by (auto simp: cells_ok_def)
      then have "ixs ! i \<noteq> ?j" using None by auto
      then have "cyc (cap_mask ?cap (hs ! i)) ?j (ixs ! i)"
        using cyc_meets_next [OF c _ _ Suc.prems(6,7) p(1) home _ jh] Suc.prems(13) c i
          not_scanned_start by blast
      then show False using pr i j jh None unfolding probes_ok_def by blast
    qed
    then show ?thesis using None mask len ok pr Suc.prems(6) by (simp add: Let_def)
  next
    case (Some c)
    have c: "c < n" "ixs ! c = ?j" using ok j jh Some by (auto simp: cells_ok_def)
    have ej: "e \<noteq> ?j" using Some Suc.prems(11) by auto
    have fuel: "cells_to ?cap ?j e \<le> fuel"
      using cells_to_next [OF Suc.prems(7,8)] Suc.prems(10,14) ej by fastforce
    let ?k = "cap_mask ?cap (hs ! c)"
    show ?thesis
    proof (cases "cyc ?k h ?j")
      case True
      have step: "shift_back hs (Suc fuel) h j cs ixs =
          shift_back hs fuel ?j ?j (cs[h := Some c]) (ixs[c := h])"
        using shift_back_step [OF mask Some _ _ jh] c len Suc.prems(3) True by simp
      show ?thesis unfolding step
        using Suc.IH [of "cs[h := Some c]" "ixs[c := h]" ?j ?j]
          cells_ok_move [OF ok len Suc.prems(6) j jh Some]
          probes_ok_move [OF ok pr len Suc.prems(6) j jh Some True]
          Suc.prems(1,3,8,9,11) ej fuel j len by simp
    next
      case False
      have step: "shift_back hs (Suc fuel) h j cs ixs = shift_back hs fuel h ?j cs ixs"
        using shift_back_step [OF mask Some _ _ jh] c len Suc.prems(3) False by simp
      have sc: "scanned h q ?j \<longleftrightarrow> scanned h q j \<or> q = ?j" if "q < ?cap" for q
        by (rule scanned_next [OF Suc.prems(6,7) that jh])
      have "\<forall>q < ?cap. scanned h q ?j \<longrightarrow> cs ! q \<noteq> None" using sc Suc.prems(12) Some by auto
      moreover have "\<not> scanned h (ixs ! i) ?j"
        if i: "i < n" "cyc (cap_mask ?cap (hs ! i)) h (ixs ! i)" for i
      proof -
        have p: "ixs ! i < ?cap" "cs ! (ixs ! i) = Some i" using ok i(1) by (auto simp: cells_ok_def)
        then have "ixs ! i \<noteq> ?j" using Some False i(2) by auto
        then show ?thesis using sc [OF p(1)] Suc.prems(13) i by simp
      qed
      ultimately show ?thesis unfolding step
        using Suc.IH [of cs ixs h ?j] Suc.prems(1-6,8,9,11) ej fuel j by simp
    qed
  qed
qed

text \<open>Removing item \<open>x\<close> from an item array moves the last item into its place.\<close>

definition drop_at :: "nat \<Rightarrow> 'a list \<Rightarrow> 'a list" where
  "drop_at x xs = butlast (xs[x := last xs])"

lemma drop_at_simps:
  assumes "x < length xs"
  shows "length (drop_at x xs) = length xs - 1"
    "i < length xs - 1 \<Longrightarrow> drop_at x xs ! i = (if i = x then xs ! (length xs - 1) else xs ! i)"
proof -
  have "xs \<noteq> []" using assms by auto
  then show "length (drop_at x xs) = length xs - 1"
    "i < length xs - 1 \<Longrightarrow> drop_at x xs ! i = (if i = x then xs ! (length xs - 1) else xs ! i)"
    using assms by (simp_all add: drop_at_def nth_butlast last_conv_nth nth_list_update)
qed

lemma drop_at_code:
  assumes "length xs = n" "x < n"
  shows "butlast (if x < n - 1 then xs[x := xs ! (n - 1)] else xs) = drop_at x xs"
proof -
  have ne: "xs \<noteq> []" using assms by auto
  then have l: "last xs = xs ! (n - 1)" using assms(1) by (simp add: last_conv_nth)
  show ?thesis
  proof (cases "x < n - 1")
    case False
    then have "x = n - 1" using assms(2) by simp
    then show ?thesis unfolding drop_at_def l by (simp add: list_update_id)
  qed (simp add: drop_at_def l)
qed

lemma drop_at_distinct:
  assumes "distinct xs" "x < length xs"
  shows "distinct (drop_at x xs)" "set (drop_at x xs) = set xs - {xs ! x}"
proof -
  let ?l = "length xs - 1"
  note nth = drop_at_simps [OF assms(2)]
  show "distinct (drop_at x xs)"
    using assms nth by (auto simp: distinct_conv_nth)
  show "set (drop_at x xs) = set xs - {xs ! x}"
  proof (intro equalityI subsetI)
    fix y assume "y \<in> set (drop_at x xs)"
    then obtain i where "i < ?l" "y = drop_at x xs ! i" using nth(1) by (auto simp: in_set_conv_nth)
    then show "y \<in> set xs - {xs ! x}"
      using nth(2) [of i] assms by (auto simp: nth_eq_iff_index_eq)
  next
    fix y assume "y \<in> set xs - {xs ! x}"
    then obtain i where i: "i < length xs" "y = xs ! i" "i \<noteq> x" by (auto simp: in_set_conv_nth)
    show "y \<in> set (drop_at x xs)"
    proof (cases "i = ?l")
      case True
      then have "x < ?l" using i assms(2) by simp
      then show ?thesis using nth i True by (auto simp: in_set_conv_nth intro!: exI [of _ x])
    next
      case False
      then have "i < ?l" using i(1) by simp
      then show ?thesis using nth i by (auto simp: in_set_conv_nth intro!: exI [of _ i])
    qed
  qed
qed

lemma cells_ok_drop:
  assumes ok: "cells_ok cs ixs n (length cs)" and len: "length ixs = n" and x: "x < n"
  shows "cells_ok (if x < n - 1 then cs[ixs ! (n - 1) := Some x] else cs) (drop_at x ixs) (n - 1) (ixs ! x)"
    (is "cells_ok ?cs ?ixs ?l _")
proof -
  have old: "i < n \<and> ixs ! i = q" if "q < length cs" "cs ! q = Some i" for q i
    using ok that by (auto simp: cells_ok_def)
  have item: "ixs ! i < length cs \<and> cs ! (ixs ! i) = Some i" if "i < n" for i
    using ok that by (auto simp: cells_ok_def)
  have inj: "i = j" if "i < n" "j < n" "ixs ! i = ixs ! j" for i j
    using item [OF that(1)] item [OF that(2)] that(3) by (metis option.inject)
  have nth: "?ixs ! i = (if i = x then ixs ! ?l else ixs ! i)" if "i < ?l" for i
    using drop_at_simps(2) [of x ixs i] x len that by simp
  have l: "?l < n" using x by simp
  have A: "i < ?l \<and> ?ixs ! i = q" if q: "q < length cs" "q \<noteq> ixs ! x" "?cs ! q = Some i" for q i
  proof (cases "x < ?l \<and> q = ixs ! ?l")
    case True
    then show ?thesis using q item [OF l] nth [of x] by simp
  next
    case False
    then have "cs ! q = Some i" using q(3) by (auto split: if_splits)
    then have i: "i < n" "ixs ! i = q" using old q(1) by auto
    have ix: "i \<noteq> x" using i(2) q(2) by auto
    then have "i \<noteq> ?l" using i(2) False x by auto
    then show ?thesis using i ix nth [of i] by simp
  qed
  have B: "?ixs ! i < length cs \<and> ?ixs ! i \<noteq> ixs ! x \<and> ?cs ! (?ixs ! i) = Some i" if i: "i < ?l" for i
  proof (cases "i = x")
    case True
    then show ?thesis using i nth [of i] item [OF l] inj [OF l x] by auto
  next
    case False
    have n: "i < n" using i by simp
    have "ixs ! i \<noteq> ixs ! ?l" using inj [OF n l] i by auto
    moreover have "ixs ! i \<noteq> ixs ! x" using inj [OF n x] False by auto
    ultimately show ?thesis using nth [OF i] item [OF n] False by simp
  qed
  have L: "length ?cs = length cs" by simp
  show ?thesis unfolding cells_ok_def L by (intro conjI allI impI) (use A B in blast)+
qed

lemma probes_ok_drop:
  assumes "probes_ok cs hs ixs n (length cs)" "length ixs = n" "x < n" "n \<le> length hs"
  shows "probes_ok (if x < n - 1 then cs[c := Some y] else cs)
    (if x < n - 1 then hs[x := hs ! (n - 1)] else hs) (drop_at x ixs) (n - 1) h"
proof -
  have "cs ! q \<noteq> None"
    if i: "i < n - 1" "q < length cs"
      "cyc (cap_mask (length cs) ((if x < n - 1 then hs[x := hs ! (n - 1)] else hs) ! i)) q (drop_at x ixs ! i)" for i q
  proof -
    have nth: "drop_at x ixs ! i = ixs ! (if i = x then n - 1 else i)"
      using drop_at_simps(2) [of x ixs i] assms(2,3) i(1) by simp
    have "(if x < n - 1 then hs[x := hs ! (n - 1)] else hs) ! i = hs ! (if i = x then n - 1 else i)"
      using i(1) assms(3,4) by simp
    then have c: "cyc (cap_mask (length cs) (hs ! (if i = x then n - 1 else i))) q
        (ixs ! (if i = x then n - 1 else i))" using i(3) nth by simp
    have "(if i = x then n - 1 else i) < n" using i(1) by auto
    then show ?thesis using assms(1) i(2) c unfolding probes_ok_def by blast
  qed
  moreover have "cs[c := Some y] ! q \<noteq> None" if "cs ! q \<noteq> None" "q < length cs" for q
    using that by (cases "q = c") auto
  ultimately show ?thesis unfolding probes_ok_def by simp
qed

lemma object_map_drop:
  assumes "distinct ns" "length vs = length ns" "x < length ns"
  shows "map_of (zip (drop_at x ns) (drop_at x vs)) = (map_of (zip ns vs))(ns ! x := None)"
proof (rule ext)
  fix key
  let ?l = "length ns - 1"
  note n = drop_at_simps [OF assms(3)] and v = drop_at_simps [of x vs, unfolded assms(2), OF assms(3)]
  note d = drop_at_distinct [OF assms(1,3)]
  have len: "length (drop_at x ns) = length (drop_at x vs)" using n(1) v(1) by simp
  show "map_of (zip (drop_at x ns) (drop_at x vs)) key = ((map_of (zip ns vs))(ns ! x := None)) key"
  proof (cases "key \<in> set ns - {ns ! x}")
    case False
    then have "map_of (zip (drop_at x ns) (drop_at x vs)) key = None"
      unfolding map_of_zip_is_None [OF len] d(2) .
    moreover have "((map_of (zip ns vs))(ns ! x := None)) key = None"
      using False assms(2) map_of_zip_is_None [of ns vs key] by auto
    ultimately show ?thesis by simp
  next
    case True
    then obtain i where i: "i < length ns" "key = ns ! i" "i \<noteq> x" by (auto simp: in_set_conv_nth)
    define y where "y = (if i = ?l then x else i)"
    have "y < ?l" using i assms(3) by (auto simp: y_def)
    then have y: "y < ?l" "drop_at x ns ! y = ns ! i" "drop_at x vs ! y = vs ! i"
      using n(2) [of y] v(2) [of y] i by (auto simp: y_def)
    have "map_of (zip (drop_at x ns) (drop_at x vs)) (drop_at x ns ! y) = Some (drop_at x vs ! y)"
      by (rule map_of_zip_nth [OF len d(1)]) (use y(1) v(1) in simp)
    moreover have "map_of (zip ns vs) (ns ! i) = Some (vs ! i)"
      by (rule map_of_zip_nth) (use assms i(1) in simp_all)
    ultimately show ?thesis using i y assms by (simp add: nth_eq_iff_index_eq)
  qed
qed

lemma cells_ok_close:
  assumes "cells_ok cs ixs n h" "h < length cs"
  shows "cells_ok (cs[h := None]) ixs n (length cs)"
  using assms unfolding cells_ok_def
  by (metis length_list_update less_irrefl nth_list_update_eq nth_list_update_neq option.distinct(1))

lemma probes_ok_close:
  assumes "probes_ok cs hs ixs n h" "h < length cs"
    and "\<forall>i < n. \<not> cyc (cap_mask (length cs) (hs ! i)) h (ixs ! i)"
  shows "probes_ok (cs[h := None]) hs ixs n (length cs)"
proof -
  have "cs[h := None] ! q \<noteq> None"
    if "i < n" "q < length cs" "cyc (cap_mask (length cs) (hs ! i)) q (ixs ! i)" for i q
    using that assms by (cases "q = h") (auto simp: probes_ok_def)
  then show ?thesis by (simp add: probes_ok_def)
qed

lemma remove_spec:
  assumes inv: "object_inv ob" and x: "x < length (names ob)"
  shows "\<exists>ob'. json_object_remove_internal ob (names ob ! x) = Some (JSONSuccess, ob') \<and>
    object_inv ob' \<and> names ob' = drop_at x (names ob) \<and> vals ob' = drop_at x (vals ob)"
proof -
  let ?n = "length (names ob)" and ?cap = "length (cells ob)" and ?h = "cell_ixs ob ! x"
  let ?l = "?n - 1"
  define hs where "hs = (if x < ?l then (hashes ob)[x := hashes ob ! ?l] else hashes ob)"
  define cs where "cs = (if x < ?l then (cells ob)[cell_ixs ob ! ?l := Some x] else cells ob)"
  define ixs where "ixs = drop_at x (cell_ixs ob)"
  note item = object_inv_item [OF inv x]
  have len: "length (cell_ixs ob) = ?n" "length (vals ob) = ?n" "?n \<le> length (hashes ob)"
    "length cs = ?cap" "length ixs = ?l" "?l \<le> length hs"
    using inv x drop_at_simps(1) [of x "cell_ixs ob"] by (auto simp: object_inv_def cs_def hs_def ixs_def)
  have code_cs: "(if x < ?l then (cells ob)[(if x < ?l then (cell_ixs ob)[x := cell_ixs ob ! ?l]
      else cell_ixs ob) ! x := Some x] else cells ob) = cs"
    using len(1) x by (simp add: cs_def)
  have ok: "cells_ok cs ixs ?l ?h"
    unfolding cs_def ixs_def by (rule cells_ok_drop) (use inv x len in \<open>simp_all add: object_inv_def\<close>)
  have pr: "probes_ok cs hs ixs ?l ?h"
    unfolding cs_def hs_def ixs_def
    by (rule probes_ok_drop) (use inv x len in \<open>simp_all add: object_inv_def\<close>)
  have "?cap \<noteq> 0" using item(1) by auto
  then obtain e where e: "e < ?cap" "cells ob ! e = None" using object_inv_room [OF inv] by auto
  have eh: "e \<noteq> ?h" using e(2) item(2) by auto
  have "e \<noteq> cell_ixs ob ! ?l" using e(2) object_inv_item(2) [OF inv, of ?l] x by auto
  then have ecs: "cs ! e = None" using e by (simp add: cs_def)
  have fuel: "cells_to ?cap ?h e \<le> ?cap - 1"
    using cells_to_bounds(2) [OF item(1) e(1)] eh by simp
  obtain h' cs' ixs' where sh: "shift_back hs (?cap - 1) ?h ?h cs ixs = Some (h', cs', ixs')"
    "length cs' = ?cap" "length ixs' = ?l" "h' < ?cap" "cells_ok cs' ixs' ?l h'"
    "probes_ok cs' hs ixs' ?l h'"
    "\<forall>i < ?l. \<not> cyc (cap_mask ?cap (hs ! i)) h' (ixs' ! i)"
    using shift_back_spec [of cs ixs ?l hs ?h ?h e "?cap - 1"] len ok pr item e eh ecs fuel
    by auto
  let ?ob = "JSON_Object (cs'[h' := None]) hs (drop_at x (names ob)) (drop_at x (vals ob)) ixs' (item_capacity ob)"
  have run: "json_object_remove_internal ob (names ob ! x) = Some (JSONSuccess, ?ob)"
    using sh(1) get_cell_ix_hit [OF inv x] item(2) len(1,2,4) code_cs
      drop_at_code [OF refl x] drop_at_code [OF len(1) x] drop_at_code [OF len(2) x]
    by (simp add: json_object_remove_internal_def Let_def hs_def [symmetric] ixs_def [symmetric]
      del: shift_back.simps One_nat_def split del: if_split)
  note dn = drop_at_simps [OF x]
  have "hs ! i = hash_string (drop_at x (names ob) ! i)" if "i < ?l" for i
    using object_inv_item(3) [OF inv, of i] object_inv_item(3) [OF inv, of ?l] that x len(3) dn(2) [OF that]
    by (auto simp: hs_def)
  then have "object_inv ?ob"
    using inv x dn(1) sh(2-4) len(2,6) drop_at_simps(1) [of x "vals ob"]
      drop_at_distinct(1) [of "names ob" x]
      cells_ok_close [OF sh(5)] probes_ok_close [OF sh(6)] sh(7)
    by (auto simp: object_inv_def)
  then show ?thesis using run by auto
qed

lemma remove_miss:
  assumes "object_inv ob" "name \<notin> set (names ob)"
  shows "json_object_remove_internal ob name = Some (JSONFailure, ob)"
proof -
  have "\<exists>c. json_object_get_cell_ix ob name (hash_string name) = Some (c, False)"
    using get_cell_ix_miss [OF assms] get_cell_ix_empty by blast
  then show ?thesis by (auto simp: json_object_remove_internal_def)
qed

subsection \<open>Setting\<close>

lemma map_of_zip_snoc:
  "length ns = length vs \<Longrightarrow> n \<notin> set ns \<Longrightarrow>
   map_of (zip (ns @ [n]) (vs @ [v])) = (map_of (zip ns vs))(n \<mapsto> v)"
  by (induction ns vs rule: list_induct2) auto

lemma map_of_zip_update:
  "length ns = length vs \<Longrightarrow> distinct ns \<Longrightarrow> x < length ns \<Longrightarrow>
   map_of (zip ns (vs[x := v])) = (map_of (zip ns vs))(ns ! x \<mapsto> v)"
proof (induction ns vs arbitrary: x rule: list_induct2)
  case (Cons n ns w vs)
  then show ?case by (cases x) (auto simp: fun_eq_iff dest: nth_mem)
qed simp

lemma set_item_present:
  assumes inv: "object_inv ob" and x: "x < length (names ob)"
  shows "set_item M dup ob (names ob ! x) v = Some (JSONSuccess, JSON_Object (cells ob) (hashes ob)
    (names ob) ((vals ob)[x := v]) (cell_ixs ob) (item_capacity ob))"
  using get_cell_ix_hit [OF inv x] object_inv_item [OF inv x] by (simp add: set_item_def Let_def)

lemma object_inv_vals:
  assumes "object_inv ob" "length vs = length (vals ob)"
  shows "object_inv (JSON_Object (cells ob) (hashes ob) (names ob) vs (cell_ixs ob) (item_capacity ob))"
  using assms by (simp add: object_inv_def)

lemma set_item_absent:
  assumes inv: "object_inv ob" and M: "mem_bounded M" and new: "name \<notin> set (names ob)"
  shows "\<exists>ob'. set_item M dup ob name v =
      Some (if dup \<and> can_grow M ob then JSONSuccess else JSONFailure, ob') \<and> object_inv ob' \<and>
    (if dup \<and> can_grow M ob
     then names ob' = names ob @ [name] \<and> vals ob' = vals ob @ [v]
     else names ob' = names ob \<and> vals ob' = vals ob) \<and>
    length (cells ob') = (if item_capacity ob \<le> length (names ob) \<and> can_grow M ob
      then grown_capacity (length (cells ob)) else length (cells ob))"
proof (cases "length (names ob) < item_capacity ob")
  case True
  then have "length (cells ob) \<noteq> 0" using inv by (auto simp: object_inv_def item_capacity_for_def)
  then obtain q where q: "json_object_get_cell_ix ob name (hash_string name) = Some (Some q, False)"
    "q < length (cells ob)" "cells ob ! q = None"
    "\<forall>r < length (cells ob). cyc (cap_mask (length (cells ob)) (hash_string name)) r q \<longrightarrow> cells ob ! r \<noteq> None"
    using get_cell_ix_miss [OF inv new] by blast
  show ?thesis
    using store_item_spec [OF inv new True q(2-4), of v] q(1) True inv
    by (auto simp: set_item_def can_grow_def same_size_def Let_def)
next
  case full: False
  have miss: "\<exists>c. json_object_get_cell_ix ob name (hash_string name) = Some (c, False)"
    using get_cell_ix_miss [OF inv new] get_cell_ix_empty by blast
  show ?thesis
  proof (cases "M (grown_capacity (length (cells ob)))")
    case True
    then obtain ob1 where g: "json_object_grow_and_rehash M ob = Some (JSONSuccess, ob1)"
      "object_inv ob1" "names ob1 = names ob" "vals ob1 = vals ob"
      "length (cells ob1) = grown_capacity (length (cells ob))" "item_capacity ob < item_capacity ob1"
      using grow_spec [OF inv M, of 0] by (auto simp: json_object_grow_and_rehash_def)
    have ne: "length (cells ob1) \<noteq> 0" "name \<notin> set (names ob1)" "length (names ob1) < item_capacity ob1"
      using g(3,5,6) new inv by (auto simp: grown_capacity_def STARTING_CAPACITY_def object_inv_def)
    obtain q where q: "json_object_get_cell_ix ob1 name (hash_string name) = Some (Some q, False)"
      "q < length (cells ob1)" "cells ob1 ! q = None"
      "\<forall>r < length (cells ob1). cyc (cap_mask (length (cells ob1)) (hash_string name)) r q \<longrightarrow> cells ob1 ! r \<noteq> None"
      using get_cell_ix_miss [OF g(2) ne(2,1)] by blast
    show ?thesis
      using store_item_spec [OF g(2) ne(2,3) q(2-4), of v] q(1) g(1-5) miss full True
      by (auto simp: set_item_def can_grow_def same_size_def Let_def)
  next
    case False
    then have "json_object_grow_and_rehash M ob = Some (JSONFailure, ob)"
      using grow_spec [OF inv M, of 0] by (simp add: json_object_grow_and_rehash_def)
    then show ?thesis using False full miss inv by (auto simp: set_item_def can_grow_def Let_def)
  qed
qed

lemma set_item_map:
  assumes inv: "object_inv ob" and M: "mem_bounded M"
  shows "\<exists>ob'. set_item M dup ob name v =
      Some (if name \<in> set (names ob) \<or> dup \<and> can_grow M ob then JSONSuccess else JSONFailure, ob') \<and>
    object_inv ob' \<and>
    object_map ob' = (if name \<in> set (names ob) \<or> dup \<and> can_grow M ob
      then (object_map ob)(name \<mapsto> v) else object_map ob)"
proof (cases "name \<in> set (names ob)")
  case True
  then obtain x where x: "x < length (names ob)" "names ob ! x = name"
    by (auto simp: in_set_conv_nth)
  then show ?thesis
    using set_item_present [OF inv x(1), of M dup v] object_inv_vals [OF inv, of "(vals ob)[x := v]"]
      map_of_zip_update [of "names ob" "vals ob" x v] inv True
    by (simp add: object_map_def object_inv_def)
next
  case False
  then show ?thesis
    using set_item_absent [OF inv M False, of dup v] map_of_zip_snoc [of "names ob" "vals ob" name v] inv
    by (auto simp: object_map_def object_inv_def)
qed

lemma remove_map:
  assumes inv: "object_inv ob"
  shows "\<exists>ob'. json_object_remove_internal ob name =
      Some (if name \<in> set (names ob) then JSONSuccess else JSONFailure, ob') \<and>
    object_inv ob' \<and> object_map ob' = (object_map ob)(name := None)"
proof (cases "name \<in> set (names ob)")
  case True
  then obtain x where x: "x < length (names ob)" "names ob ! x = name"
    by (auto simp: in_set_conv_nth)
  then show ?thesis
    using remove_spec [OF inv x(1)] object_map_drop [of "names ob" "vals ob" x] inv True
    by (auto simp: object_map_def object_inv_def)
next
  case False
  then have "(object_map ob)(name := None) = object_map ob"
    using object_map_None [OF inv] by (metis fun_upd_triv)
  then show ?thesis using remove_miss [OF inv False] inv False by simp
qed

lemma shift_back_length: "shift_back hs n i j cs ixs = Some (i', cs', ixs') \<Longrightarrow> length cs' = length cs"
  by (induction hs n i j cs ixs rule: shift_back.induct)
    (auto simp: Let_def split: option.splits if_splits)

lemma remove_cells:
  "json_object_remove_internal ob name = Some (res, ob') \<Longrightarrow> length (cells ob') = length (cells ob)"
  by (auto simp: json_object_remove_internal_def Let_def bind_eq_Some_conv dest!: shift_back_length
    split: if_splits)

subsection \<open>The table as a map\<close>

text \<open>
  The contract the callers rely on: a table with an invariant stands for a map and has room for a
  number of items.  \<open>accept n room key\<close> says whether a new name is taken by a table of \<open>n\<close> items, and
  what room the table has afterwards.  With it the map alone decides what every call reports.
\<close>

definition map_put ::
    "(nat \<Rightarrow> nat \<Rightarrow> string \<Rightarrow> bool \<times> nat) \<Rightarrow> string \<Rightarrow> 'v \<Rightarrow> (string \<rightharpoonup> 'v) \<times> nat \<Rightarrow>
     json_status \<times> (string \<rightharpoonup> 'v) \<times> nat" where
  "map_put accept key v = (\<lambda>(m, room).
     if key \<in> dom m then (JSONSuccess, m(key \<mapsto> v), room)
     else let (taken, room') = accept (card (dom m)) room key
       in if taken then (JSONSuccess, m(key \<mapsto> v), room') else (JSONFailure, m, room'))"

definition map_del :: "string \<Rightarrow> (string \<rightharpoonup> 'v) \<times> nat \<Rightarrow> json_status \<times> (string \<rightharpoonup> 'v) \<times> nat" where
  "map_del key = (\<lambda>(m, room).
     if key \<in> dom m then (JSONSuccess, m(key := None), room) else (JSONFailure, m, room))"

datatype 'v table_op = Put string 'v | Del string

fun run_table ::
    "('t \<Rightarrow> string \<Rightarrow> 'v \<Rightarrow> (json_status \<times> 't) option) \<Rightarrow> ('t \<Rightarrow> string \<Rightarrow> (json_status \<times> 't) option) \<Rightarrow>
     'v table_op list \<Rightarrow> 't \<Rightarrow> (json_status list \<times> 't) option" where
  "run_table put del [] t = Some ([], t)"
| "run_table put del (op # ops) t =
     (case op of Put key v \<Rightarrow> put t key v | Del key \<Rightarrow> del t key) \<bind> (\<lambda>(res, t').
     run_table put del ops t' \<bind> (\<lambda>(rs, t''). Some (res # rs, t'')))"

text \<open>The same run on a map, with what its calls report.\<close>

fun run_map ::
    "(nat \<Rightarrow> nat \<Rightarrow> string \<Rightarrow> bool \<times> nat) \<Rightarrow> 'v table_op list \<Rightarrow> (string \<rightharpoonup> 'v) \<times> nat \<Rightarrow>
     json_status list \<times> (string \<rightharpoonup> 'v) \<times> nat" where
  "run_map accept [] m = ([], m)"
| "run_map accept (op # ops) m =
     (let (res, m') = (case op of Put key v \<Rightarrow> map_put accept key v m | Del key \<Rightarrow> map_del key m);
          (rs, m'') = run_map accept ops m'
      in (res # rs, m''))"

locale kv_table =
  fixes inv :: "'t \<Rightarrow> bool"
    and content :: "'t \<Rightarrow> string \<rightharpoonup> 'v"
    and room :: "'t \<Rightarrow> nat"
    and accept :: "nat \<Rightarrow> nat \<Rightarrow> string \<Rightarrow> bool \<times> nat"
    and get :: "'t \<Rightarrow> string \<Rightarrow> 'v option option"
    and put :: "'t \<Rightarrow> string \<Rightarrow> 'v \<Rightarrow> (json_status \<times> 't) option"
    and del :: "'t \<Rightarrow> string \<Rightarrow> (json_status \<times> 't) option"
  assumes get: "inv t \<Longrightarrow> get t key = Some (content t key)"
    and put: "inv t \<Longrightarrow> \<exists>res t'. put t key v = Some (res, t') \<and> inv t' \<and>
      map_put accept key v (content t, room t) = (res, content t', room t')"
    and del: "inv t \<Longrightarrow> \<exists>res t'. del t key = Some (res, t') \<and> inv t' \<and>
      map_del key (content t, room t) = (res, content t', room t')"
begin

lemma get_put:
  assumes "inv t" "put t key v = Some (JSONSuccess, t')"
  shows "get t' key' = Some (if key' = key then Some v else content t key')"
proof -
  have "inv t'" "content t' = (content t)(key \<mapsto> v)"
    using put [OF assms(1), of key v] assms(2) by (auto simp: map_put_def split: if_splits prod.splits)
  then show ?thesis by (simp add: get)
qed

lemma get_del:
  assumes "inv t" "del t key = Some (res, t')"
  shows "get t' key' = Some (if key' = key then None else content t key')"
proof -
  have "inv t'" "content t' = (content t)(key := None)"
    using del [OF assms(1), of key] assms(2) by (auto simp: map_del_def domIff split: if_splits)
  then show ?thesis by (simp add: get)
qed

lemma run_refines:
  "inv t \<Longrightarrow> \<exists>rs t'. run_table put del ops t = Some (rs, t') \<and> inv t' \<and>
     run_map accept ops (content t, room t) = (rs, content t', room t')"
proof (induction ops arbitrary: t)
  case (Cons op ops)
  obtain res t1 where t1: "(case op of Put key v \<Rightarrow> put t key v | Del key \<Rightarrow> del t key) = Some (res, t1)"
    "inv t1" "(case op of Put key v \<Rightarrow> map_put accept key v (content t, room t)
      | Del key \<Rightarrow> map_del key (content t, room t)) = (res, content t1, room t1)"
    using put [OF Cons.prems] del [OF Cons.prems] by (cases op) (simp_all, blast+)
  from Cons.IH [OF t1(2)] obtain rs t' where
    "run_table put del ops t1 = Some (rs, t')" "inv t'"
    "run_map accept ops (content t1, room t1) = (rs, content t', room t')" by blast
  then show ?case using t1(1,3) by simp
qed simp

end

text \<open>
  An object takes a new name if there is memory for the copy of the name and, when all its items are
  used, for the larger table; it has grown also when only the copy failed.
\<close>

definition object_accepts :: "(nat \<Rightarrow> bool) \<Rightarrow> (string \<Rightarrow> bool) \<Rightarrow> nat \<Rightarrow> nat \<Rightarrow> string \<Rightarrow> bool \<times> nat" where
  "object_accepts M dup n capacity name =
     (if n < item_capacity_for capacity then (dup name, capacity)
      else if M (grown_capacity capacity) then (dup name, grown_capacity capacity)
      else (False, capacity))"

lemma object_map_dom: "object_inv ob \<Longrightarrow> dom (object_map ob) = set (names ob)"
  by (simp add: set_eq_iff domIff object_map_None)

lemma object_map_card: "object_inv ob \<Longrightarrow> card (dom (object_map ob)) = length (names ob)"
  using object_map_dom [of ob] by (simp add: object_inv_def distinct_card)

lemma set_item_runs:
  assumes inv: "object_inv ob" and M: "mem_bounded M"
  shows "\<exists>res ob'. set_item M (dup name) ob name v = Some (res, ob') \<and> object_inv ob' \<and>
    map_put (object_accepts M dup) name v (object_map ob, length (cells ob)) =
      (res, object_map ob', length (cells ob'))"
proof (cases "name \<in> set (names ob)")
  case True
  then obtain x where x: "x < length (names ob)" "names ob ! x = name"
    by (auto simp: in_set_conv_nth)
  then show ?thesis
    using set_item_present [OF inv x(1), of M "dup name" v] object_inv_vals [OF inv, of "(vals ob)[x := v]"]
      map_of_zip_update [of "names ob" "vals ob" x v] inv True object_map_dom [OF inv]
    by (simp add: map_put_def object_map_def object_inv_def)
next
  case False
  obtain ob' where ob': "set_item M (dup name) ob name v =
      Some (if dup name \<and> can_grow M ob then JSONSuccess else JSONFailure, ob')" "object_inv ob'"
    "(if dup name \<and> can_grow M ob
     then names ob' = names ob @ [name] \<and> vals ob' = vals ob @ [v]
     else names ob' = names ob \<and> vals ob' = vals ob)"
    "length (cells ob') = (if item_capacity ob \<le> length (names ob) \<and> can_grow M ob
      then grown_capacity (length (cells ob)) else length (cells ob))"
    using set_item_absent [OF inv M False, of "dup name" v] by blast
  have cap: "item_capacity_for (length (cells ob)) = item_capacity ob" using inv by (simp add: object_inv_def)
  have m: "object_map ob' = (if dup name \<and> can_grow M ob then (object_map ob)(name \<mapsto> v) else object_map ob)"
    using ob'(3) map_of_zip_snoc [of "names ob" "vals ob" name v] False inv
    by (auto simp: object_map_def object_inv_def)
  show ?thesis
    using ob'(1,2,4) m False cap
    by (auto simp: map_put_def object_accepts_def object_map_dom [OF inv] object_map_card [OF inv, unfolded object_map_dom [OF inv]] can_grow_def)
qed

interpretation ob: kv_table "\<lambda>ob. object_inv ob \<and> mem_bounded M" object_map "\<lambda>ob. length (cells ob)"
  "object_accepts M dup" json_object_get_value "\<lambda>ob name. set_item M (dup name) ob name"
  json_object_remove_internal for M dup
proof
  fix t :: "'a json_object" and key v
  assume t: "object_inv t \<and> mem_bounded M"
  then have inv: "object_inv t" and M: "mem_bounded M" by simp_all
  show "json_object_get_value t key = Some (object_map t key)"
    using getn_value_spec [OF inv] by (simp add: json_object_get_value_def)
  show "\<exists>res t'. set_item M (dup key) t key v = Some (res, t') \<and> (object_inv t' \<and> mem_bounded M) \<and>
      map_put (object_accepts M dup) key v (object_map t, length (cells t)) = (res, object_map t', length (cells t'))"
    using set_item_runs [OF inv M, of dup key v] M by blast
  obtain t' where t': "json_object_remove_internal t key =
      Some (if key \<in> set (names t) then JSONSuccess else JSONFailure, t')"
    "object_inv t'" "object_map t' = (object_map t)(key := None)"
    using remove_map [OF inv, of key] by blast
  then show "\<exists>res t'. json_object_remove_internal t key = Some (res, t') \<and> (object_inv t' \<and> mem_bounded M) \<and>
      map_del key (object_map t, length (cells t)) = (res, object_map t', length (cells t'))"
    using M remove_cells [OF t'(1)] by (auto simp: map_del_def domIff object_map_None [OF inv])
qed

subsection \<open>Properties\<close>

definition plenty :: "nat \<Rightarrow> bool" where
  "plenty cap \<longleftrightarrow> cap < 2 ^ 32"

lemma plenty_bounded [simp]: "mem_bounded plenty"
  by (simp add: mem_bounded_def plenty_def)

definition object_a :: "nat json_object" where
  "object_a = JSON_Object ((replicate 16 None)[6 := Some 0]) [177670] [''a''] [7] [6] 11"

lemma object_a_inv [simp]: "object_inv object_a"
proof -
  have "cap_ok 16" by (auto simp: cap_ok_def intro!: exI [of _ 4])
  moreover have "cap_mask 16 177670 = 6" by (simp add: cap_mask_def)
  moreover have "hash_string ''a'' = 177670" by (simp add: hash_string_def)
  moreover have "item_capacity_for 16 = 11" by (simp add: item_capacity_for_def)
  moreover have "c < 16 \<Longrightarrow> (replicate 16 None)[6 := Some 0] ! c = (if c = 6 then Some (0::nat) else None)"
    for c :: nat
    by (simp add: nth_list_update)
  ultimately show ?thesis
    by (auto simp: object_inv_def object_a_def cells_ok_def probes_ok_def cyc_def split: if_splits)
qed

text \<open>
  Looking a name up in an object finds the value stored under exactly that name, and no value
  when there is none, whatever collisions the table holds; the probe stays inside its arrays.
\<close>

theorem object_lookup:
  assumes "object_inv ob"
  shows "json_object_getn_value ob name n = Some (object_map ob (take n name))"
  by (rule getn_value_spec [OF assms])

theorem object_lookup_witness:
  "json_object_getn_value object_a ''a.b'' 1 = Some (Some 7)"
  by (subst object_lookup [OF object_a_inv]) (simp add: object_map_def object_a_def)

text \<open>
  Adding an item under a new name, as the parser does, keeps the table invariant and appends
  the item; it fails, leaving the object as it was, exactly when the name is already there or the
  full table cannot grow.
\<close>

theorem object_add_appends:
  assumes "object_inv ob" "mem_bounded M"
  shows "\<exists>ob'. json_object_add M ob name v =
      Some (if name \<notin> set (names ob) \<and> can_grow M ob then JSONSuccess else JSONFailure, ob') \<and>
    object_inv ob' \<and>
    (if name \<notin> set (names ob) \<and> can_grow M ob
     then names ob' = names ob @ [name] \<and> vals ob' = vals ob @ [v] else ob' = ob)"
  by (rule add_spec [OF assms])

theorem object_add_appends_witness:
  "\<exists>ob'. json_object_add plenty object_a ''b'' 8 = Some (JSONSuccess, ob') \<and> object_inv ob' \<and>
    names ob' = [''a'', ''b''] \<and> vals ob' = [7, 8]"
  using object_add_appends [OF object_a_inv plenty_bounded, of "''b''" 8]
  by (auto simp: can_grow_def object_a_def)

text \<open>
  Removing an item keeps the table invariant, so that the backward shift never cuts another
  item off from its probe path, and takes exactly that name out of the object; removing a name
  that is not there fails and changes nothing.
\<close>

theorem object_remove_deletes:
  assumes "object_inv ob"
  shows "\<exists>ob'. json_object_remove_internal ob name =
      Some (if name \<in> set (names ob) then JSONSuccess else JSONFailure, ob') \<and>
    object_inv ob' \<and> object_map ob' = (object_map ob)(name := None)"
  by (rule remove_map [OF assms])

theorem object_remove_deletes_witness:
  "\<exists>ob'. json_object_remove_internal object_a ''a'' = Some (JSONSuccess, ob') \<and>
    object_inv ob' \<and> object_map ob' = (object_map object_a)(''a'' := None)"
  using object_remove_deletes [OF object_a_inv, of "''a''"] by (simp add: object_a_def)

text \<open>
  C23: Any sequence of \<open>json_object_set_value\<close> and \<open>json_object_remove\<close> calls on an object behaves
  as the same sequence on a map: every call reports what the map gives, and the object answers
  every later lookup as the map does, through every growth and rehash.  Removing fails exactly for
  a name that is not there; storing fails, and leaves the content as it was, only for a new name,
  and only when there is no memory for its copy or for the larger table it needs.
\<close>

theorem object_runs_as_map:
  assumes "object_inv ob" "mem_bounded M"
  shows "case run_map (object_accepts M dup) ops (object_map ob, length (cells ob)) of (rs, m, capacity) \<Rightarrow>
    \<exists>ob'. run_table (\<lambda>ob name. set_item M (dup name) ob name) json_object_remove_internal ops ob = Some (rs, ob') \<and>
      length (cells ob') = capacity \<and> (\<forall>key. json_object_get_value ob' key = Some (m key))"
  using ob.run_refines [of ob M dup ops] ob.get [of _ M] assms by fastforce

theorem object_runs_as_map_witness:
  "\<exists>ob'. run_table (\<lambda>ob name. set_item plenty True ob name) json_object_remove_internal
      [Put ''b'' 8, Put ''a'' 9, Del ''b'', Del ''b''] object_a =
      Some ([JSONSuccess, JSONSuccess, JSONSuccess, JSONFailure], ob') \<and>
    json_object_get_value ob' ''a'' = Some (Some 9) \<and> json_object_get_value ob' ''b'' = Some None"
proof -
  have "object_map object_a = [''a'' \<mapsto> 7]" "length (cells object_a) = 16"
    by (simp_all add: object_map_def object_a_def)
  then show ?thesis
    using object_runs_as_map [OF object_a_inv plenty_bounded, of "\<lambda>_. True"
        "[Put ''b'' 8, Put ''a'' 9, Del ''b'', Del ''b'']"]
    by (auto simp: map_put_def map_del_def object_accepts_def item_capacity_for_def)
qed

text \<open>
  \<open>json_object_clear\<close> leaves the cells of the items it freed in place: looking up a name the
  object held before the call reaches a freed item.
\<close>

theorem object_clear_leaves_cells:
  assumes "object_inv ob" "name \<in> set (names ob)"
  shows "json_object_get_value (snd (json_object_clear ob)) name = None"
proof -
  let ?ob = "snd (json_object_clear ob)" and ?cap = "length (cells ob)" and ?hash = "hash_string name"
  let ?h = "cap_mask ?cap ?hash"
  obtain x where x: "x < length (names ob)" "names ob ! x = name"
    using assms(2) by (auto simp: in_set_conv_nth)
  note item = object_inv_item [OF assms(1) x(1)]
  have h: "?h < ?cap" using cap_ok_facts(4) [OF item(6)] .
  let ?p = "cell_ixs ob ! x"
  let ?P = "\<lambda>d. \<exists>c. cells ob ! ((?h + d) mod ?cap) = Some c \<and> c < length (hashes ob) \<and> hashes ob ! c = ?hash"
  have "?P (probe_dist ?cap ?h ?p)"
    using probe_dist_mod [OF h item(1)] item(2-4) x(2) by simp
  then have P: "?P (LEAST d. ?P d)" and le: "(LEAST d. ?P d) \<le> probe_dist ?cap ?h ?p"
    by (rule LeastI, rule Least_le)
  define D where "D = (LEAST d. ?P d)"
  have D: "D < ?cap" using le probe_dist_less [OF h item(1)] by (simp add: D_def)
  have "passes ?ob name ?hash ((?h + d) mod ?cap)" if d: "d < D" for d
  proof -
    have q: "(?h + d) mod ?cap < ?cap" using cap_ok_facts(1) [OF item(6)] by (rule mod_less_divisor)
    have "cyc ?h ((?h + d) mod ?cap) ?p"
      using probe_dist_cyc [OF h item(1), of d] d le by (simp add: D_def)
    then have "cells ob ! ((?h + d) mod ?cap) \<noteq> None"
      using assms(1) x item(3) q by (auto simp: object_inv_def probes_ok_def)
    then obtain c where c: "cells ob ! ((?h + d) mod ?cap) = Some c" by auto
    have "c < length (hashes ob)" using object_inv_cell(2) [OF assms(1) q c] .
    then have "hashes ob ! c \<noteq> ?hash"
      using not_less_Least [of d ?P] d c by (auto simp: D_def)
    then show ?thesis using c \<open>c < length (hashes ob)\<close> by (simp add: passes_def json_object_clear_def)
  qed
  then have skip: "probe_cells ?ob name ?hash ?h ?cap = probe_cells ?ob name ?hash (?h + D) (?cap - D)"
    using probe_skip [of ?ob ?h D name ?hash] item(6) h D by (simp add: json_object_clear_def)
  have n: "?cap - D = Suc (?cap - Suc D)" using D by simp
  have m: "cap_mask ?cap (of_nat (?h + D)) = (?h + D) mod ?cap"
    by (rule cap_ok_facts(6) [OF item(6) h D])
  have "probe_cells ?ob name ?hash ?h ?cap = None"
    unfolding skip n using P m by (auto simp: D_def [symmetric] json_object_clear_def simp del: of_nat_add)
  then show ?thesis
    by (simp add: json_object_get_value_def json_object_getn_value_def json_object_get_cell_ix_def
      Let_def json_object_clear_def)
qed

theorem object_clear_leaves_cells_witness:
  "json_object_get_value (snd (json_object_clear object_a)) ''a'' = None"
  by (rule object_clear_leaves_cells) (simp_all, simp add: object_a_def)

end
