(* ===== verification/Json_Text.thy ===== *)
theory Json_Text
  imports Prelude
begin

unbundle bit_operations_syntax

text \<open>
  The text level of \<open>parson/src/parson.c\<close>: UTF-8 checks, the string literals of the parser and of
  the serializer, the scan for comments, and the shape of numbers.

  A pointer into the input is the rest of the input.  Output goes through a pair of the number
  of characters written and the buffer, \<open>None\<close> for the null buffer with which the size is
  computed.  The number of characters is an \<open>int\<close> of the code: \<open>None\<close> stands for a sum that overflowed,
  which is undefined.
\<close>

abbreviation DQ :: char where "DQ \<equiv> CHR 0x22"
abbreviation BSL :: char where "BSL \<equiv> CHR 0x5C"

subsection \<open>UTF-8\<close>

definition IS_CONT :: "nat \<Rightarrow> bool" where
  "IS_CONT b \<longleftrightarrow> b AND 0xC0 = 0x80"

definition num_bytes_in_utf8_sequence :: "nat \<Rightarrow> nat" where
  "num_bytes_in_utf8_sequence c =
     (if c = 0xC0 \<or> c = 0xC1 \<or> c > 0xF4 \<or> IS_CONT c then 0
      else if c AND 0x80 = 0 then 1
      else if c AND 0xE0 = 0xC0 then 2
      else if c AND 0xF0 = 0xE0 then 3
      else if c AND 0xF8 = 0xF0 then 4
      else 0)"

text \<open>The byte at an index; past the last character the terminator is read.\<close>

definition byte_at :: "string \<Rightarrow> nat \<Rightarrow> nat" where
  "byte_at s i = (if i < length s then ord (s ! i) else 0)"

definition verify_utf8_sequence :: "string \<Rightarrow> nat option" where
  "verify_utf8_sequence s =
     (let b = byte_at s;
          len = num_bytes_in_utf8_sequence (b 0);
          cp = (if len = 1 then Some (b 0)
                else if len = 2 \<and> IS_CONT (b 1)
                then Some (push_bit 6 (b 0 AND 0x1F) OR (b 1 AND 0x3F))
                else if len = 3 \<and> IS_CONT (b 1) \<and> IS_CONT (b 2)
                then Some (push_bit 6 (push_bit 6 (b 0 AND 0xF) OR (b 1 AND 0x3F)) OR (b 2 AND 0x3F))
                else if len = 4 \<and> IS_CONT (b 1) \<and> IS_CONT (b 2) \<and> IS_CONT (b 3)
                then Some (push_bit 6 (push_bit 6 (push_bit 6 (b 0 AND 0x7) OR (b 1 AND 0x3F))
                       OR (b 2 AND 0x3F)) OR (b 3 AND 0x3F))
                else None)
      in case cp of
        None \<Rightarrow> None
      | Some cp \<Rightarrow>
          if (cp < 0x80 \<and> len > 1) \<or> (cp < 0x800 \<and> len > 2) \<or> (cp < 0x10000 \<and> len > 3) then None
          else if cp > 0x10FFFF then None
          else if cp \<ge> 0xD800 \<and> cp \<le> 0xDFFF then None
          else Some len)"

lemma verify_utf8_pos: "verify_utf8_sequence s = Some len \<Longrightarrow> 0 < len"
  by (auto simp: verify_utf8_sequence_def Let_def split: if_splits option.splits)

function is_valid_utf8 :: "string \<Rightarrow> nat \<Rightarrow> bool" where
  "is_valid_utf8 s string_len =
     (if string_len = 0 then True
      else case verify_utf8_sequence s of
        None \<Rightarrow> False
      | Some len \<Rightarrow> is_valid_utf8 (drop len s) (string_len - len))"
  by pat_completeness auto
termination
  by (relation "measure snd") (auto dest: verify_utf8_pos)

declare is_valid_utf8.simps [simp del]

subsection \<open>Numbers\<close>

definition is_decimal :: "string \<Rightarrow> nat \<Rightarrow> bool" where
  "is_decimal s len =
     (if len > 1 \<and> peek s = CHR ''0'' \<and> peek (drop 1 s) \<noteq> CHR ''.'' then False
      else if len > 2 \<and> take 2 s = ''-0'' \<and> peek (drop 2 s) \<noteq> CHR ''.'' then False
      else \<forall>c \<in> set (take len s). c \<noteq> CHR ''x'' \<and> c \<noteq> CHR ''X'')"

subsection \<open>Comments\<close>

fun strstr :: "string \<Rightarrow> string \<Rightarrow> nat option" where
  "strstr [] t = (if t = [] then Some 0 else None)"
| "strstr (c # s) t =
     (if take (length t) (c # s) = t then Some 0 else map_option Suc (strstr s t))"

function blank_comments :: "string \<Rightarrow> string \<Rightarrow> bool \<Rightarrow> bool \<Rightarrow> string \<Rightarrow> string" where
  "blank_comments st et in_string escaped [] = []"
| "blank_comments st et in_string escaped (c # s) =
     (if c = BSL \<and> \<not> escaped then c # blank_comments st et in_string True s
      else if c = DQ \<and> \<not> escaped then c # blank_comments st et (\<not> in_string) False s
      else if \<not> in_string \<and> take (length st) (c # s) = st \<and> st \<noteq> [] then
        (let u = drop (length st) (c # s)
         in case strstr u et of
           None \<Rightarrow> replicate (length st) CHR '' '' @ u
         | Some k \<Rightarrow> replicate (length st + (k + length et)) CHR '' '' @
             blank_comments st et in_string False (drop (k + length et) u))
      else c # blank_comments st et in_string False s)"
  by pat_completeness auto
termination
proof (relation "measure (\<lambda>(st, et, i, e, s). length s)", goal_cases)
  case (4 st et i e c s u k)
  then show ?case by (cases st) auto
qed auto

definition remove_comments :: "string \<Rightarrow> string \<Rightarrow> string \<Rightarrow> string" where
  "remove_comments s start_token end_token =
     (if length start_token = 0 \<or> length end_token = 0 then s
      else blank_comments start_token end_token False False s)"

subsection \<open>String literals: reading\<close>

definition hex_char_to_int :: "char \<Rightarrow> int" where
  "hex_char_to_int c =
     (if ord c \<ge> ord CHR ''0'' \<and> ord c \<le> ord CHR ''9'' then int (ord c - ord CHR ''0'')
      else if ord c \<ge> ord CHR ''a'' \<and> ord c \<le> ord CHR ''f'' then int (ord c - ord CHR ''a'' + 10)
      else if ord c \<ge> ord CHR ''A'' \<and> ord c \<le> ord CHR ''F'' then int (ord c - ord CHR ''A'' + 10)
      else -1)"

definition parse_utf16_hex :: "string \<Rightarrow> nat option" where
  "parse_utf16_hex s =
     (if length s < 4 then None
      else let x1 = hex_char_to_int (s ! 0); x2 = hex_char_to_int (s ! 1);
               x3 = hex_char_to_int (s ! 2); x4 = hex_char_to_int (s ! 3)
        in if x1 = -1 \<or> x2 = -1 \<or> x3 = -1 \<or> x4 = -1 then None
           else Some (nat (push_bit 12 x1 OR push_bit 8 x2 OR push_bit 4 x3 OR x4)))"

text \<open>
  \<open>parse_utf16\<close> starts at the \<open>u\<close> of an escape and gives the bytes it writes and the input from
  the last hexadecimal digit on.
\<close>

definition parse_utf16 :: "string \<Rightarrow> (string \<times> string) option" where
  "parse_utf16 unprocessed =
     (let p = drop 1 unprocessed
      in case parse_utf16_hex p of
        None \<Rightarrow> None
      | Some cp \<Rightarrow>
          if cp < 0x80 then Some ([chr cp], drop 3 p)
          else if cp < 0x800 then
            Some ([chr ((drop_bit 6 cp AND 0x1F) OR 0xC0), chr ((cp AND 0x3F) OR 0x80)], drop 3 p)
          else if cp < 0xD800 \<or> cp > 0xDFFF then
            Some ([chr ((drop_bit 12 cp AND 0x0F) OR 0xE0), chr ((drop_bit 6 cp AND 0x3F) OR 0x80),
                   chr ((cp AND 0x3F) OR 0x80)], drop 3 p)
          else if cp \<ge> 0xD800 \<and> cp \<le> 0xDBFF then
            (let lead = cp; q = drop 4 p
             in if peek q \<noteq> BSL \<or> peek (drop 1 q) \<noteq> CHR ''u'' then None
                else case parse_utf16_hex (drop 2 q) of
                  None \<Rightarrow> None
                | Some trail \<Rightarrow>
                    if trail < 0xDC00 \<or> trail > 0xDFFF then None
                    else let cp = (push_bit 10 ((lead - 0xD800) AND 0x3FF) OR ((trail - 0xDC00) AND 0x3FF)) + 0x010000
                      in Some ([chr ((drop_bit 18 cp AND 0x07) OR 0xF0),
                                chr ((drop_bit 12 cp AND 0x3F) OR 0x80),
                                chr ((drop_bit 6 cp AND 0x3F) OR 0x80),
                                chr ((cp AND 0x3F) OR 0x80)], drop 3 (drop 2 q)))
          else None)"

text \<open>The single-character escapes of the literal.\<close>

definition simple_escape :: "char \<Rightarrow> char option" where
  "simple_escape c =
     (if c = DQ then Some DQ
      else if c = BSL then Some BSL
      else if c = CHR ''/'' then Some CHR ''/''
      else if c = CHR ''b'' then Some CHR 0x08
      else if c = CHR ''f'' then Some CHR 0x0C
      else if c = CHR ''n'' then Some CHR 0x0A
      else if c = CHR ''r'' then Some CHR 0x0D
      else if c = CHR ''t'' then Some CHR 0x09
      else None)"

lemma parse_utf16_length: "parse_utf16 s = Some (out, t) \<Longrightarrow> length t \<le> length s"
  by (auto simp: parse_utf16_def Let_def split: if_splits option.splits)

text \<open>\<open>n\<close> characters of the literal are left.\<close>

function process_loop :: "nat \<Rightarrow> string \<Rightarrow> string option" where
  "process_loop n [] = Some []"
| "process_loop n (c # s) =
     (if n = 0 then Some []
      else if c = BSL then
        (case simple_escape (peek s) of
           Some d \<Rightarrow> map_option (Cons d) (process_loop (n - 2) (drop 1 s))
         | None \<Rightarrow>
             if peek s = CHR ''u'' then
               (case parse_utf16 s of
                  None \<Rightarrow> None
                | Some (out, t) \<Rightarrow>
                    map_option (append out) (process_loop (n - (2 + length s - length t)) (drop 1 t)))
             else None)
      else if ord c < 0x20 then None
      else map_option (Cons c) (process_loop (n - 1) s))"
  by pat_completeness auto
termination
  by (relation "measure (\<lambda>(n, s). length s)") (auto dest: parse_utf16_length)

text \<open>\<open>mem\<close> says for which sizes an allocation succeeds.\<close>

definition process_string :: "(nat \<Rightarrow> bool) \<Rightarrow> string \<Rightarrow> nat \<Rightarrow> string option" where
  "process_string mem input input_len =
     (if \<not> mem (input_len + 1) then None
      else case process_loop input_len input of
        None \<Rightarrow> None
      | Some output \<Rightarrow> if \<not> mem (length output + 1) then None else Some output)"

fun skip_quoted :: "string \<Rightarrow> string option" where
  "skip_quoted [] = None"
| "skip_quoted (c # s) =
     (if c = DQ then Some s
      else if c = BSL then (case s of [] \<Rightarrow> None | _ # t \<Rightarrow> skip_quoted t)
      else skip_quoted s)"

definition skip_quotes :: "string \<Rightarrow> string option" where
  "skip_quotes s = (if peek s \<noteq> DQ then None else skip_quoted (drop 1 s))"

definition get_quoted_string :: "(nat \<Rightarrow> bool) \<Rightarrow> string \<Rightarrow> (string \<times> string) option" where
  "get_quoted_string mem s =
     (case skip_quotes s of
        None \<Rightarrow> None
      | Some t \<Rightarrow>
          (case process_string mem (drop 1 s) (length s - length t - 2) of
             None \<Rightarrow> None
           | Some out \<Rightarrow> Some (out, t)))"

subsection \<open>String literals: writing\<close>

text \<open>
  Every function of the writer adds up its own total and hands it to its caller, who adds it to
  his; here one total runs through all of them.  The totals of the callees are parts of it, so
  that a sum overflows somewhere if and only if this one does.
\<close>

type_synonym out = "int option \<times> string option"

definition add_written :: "nat \<Rightarrow> int option \<Rightarrow> int option" where
  "add_written n written_total =
     (if n = 0 then written_total
      else case written_total of
        None \<Rightarrow> None
      | Some w \<Rightarrow> if w + int n < 2 ^ 31 then Some (w + int n) else None)"

definition append_string :: "string \<Rightarrow> out \<Rightarrow> out" where
  "append_string str = (\<lambda>(written, buf). (add_written (length str) written, map_option (\<lambda>b. b @ str) buf))"

fun append_indent :: "nat \<Rightarrow> out \<Rightarrow> out" where
  "append_indent 0 w = w"
| "append_indent (Suc level) w = append_indent level (append_string ''    '' w)"

definition hex_digit :: "nat \<Rightarrow> char" where
  "hex_digit n = ''0123456789abcdef'' ! n"

text \<open>The switch of \<open>json_serialize_string\<close>; \<open>slashes\<close> is \<open>parson_escape_slashes\<close>.\<close>

definition escape_char :: "bool \<Rightarrow> char \<Rightarrow> string" where
  "escape_char slashes c =
     (if c = DQ then [BSL, DQ]
      else if c = BSL then [BSL, BSL]
      else if c = CHR 0x08 then [BSL, CHR ''b'']
      else if c = CHR 0x0C then [BSL, CHR ''f'']
      else if c = CHR 0x0A then [BSL, CHR ''n'']
      else if c = CHR 0x0D then [BSL, CHR ''r'']
      else if c = CHR 0x09 then [BSL, CHR ''t'']
      else if ord c < 0x20 then
        [BSL, CHR ''u'', CHR ''0'', CHR ''0'', hex_digit (ord c div 16), hex_digit (ord c mod 16)]
      else if c = CHR ''/'' then (if slashes then [BSL, CHR ''/''] else [CHR ''/''])
      else [c])"

fun append_chars :: "bool \<Rightarrow> string \<Rightarrow> out \<Rightarrow> out" where
  "append_chars slashes [] w = w"
| "append_chars slashes (c # s) w =
     append_chars slashes s (append_string (escape_char slashes c) w)"

definition json_serialize_string :: "bool \<Rightarrow> string \<Rightarrow> out \<Rightarrow> out" where
  "json_serialize_string slashes s w =
     append_string [DQ] (append_chars slashes s (append_string [DQ] w))"

subsection \<open>What is written\<close>

definition quoted :: "bool \<Rightarrow> string \<Rightarrow> string" where
  "quoted slashes s = DQ # concat (map (escape_char slashes) s) @ [DQ]"

lemma add_written_simps [simp]:
  "add_written 0 w = w"
  "add_written m (add_written n w) = add_written (n + m) w"
  by (auto simp: add_written_def split: option.splits)

lemma append_append [simp]: "append_string t (append_string s w) = append_string (s @ t) w"
  by (cases w) (simp add: append_string_def option.map_comp comp_def)

lemma append_none [simp]: "append_string [] w = w"
  by (cases w) (simp add: append_string_def option.map_ident)

text \<open>What a writer leaves when it starts with nothing written.\<close>

lemma append_from_start:
  "append_string s (Some 0, b) =
   (if length s < 2 ^ 31 then Some (int (length s)) else None, map_option (\<lambda>t. t @ s) b)"
  by (auto simp: append_string_def add_written_def)

text \<open>Both modes of the serializer: the count, and the text appended to the buffer.\<close>

definition emits :: "(out \<Rightarrow> out) \<Rightarrow> string \<Rightarrow> bool" where
  "emits f str \<longleftrightarrow> f = append_string str"

named_theorems emits_intros \<open>what a serializer step writes\<close>

lemma emits_append [emits_intros]: "emits (append_string str) str"
  by (simp add: emits_def)

lemma emits_comp: "emits f s \<Longrightarrow> emits g t \<Longrightarrow> emits (\<lambda>w. g (f w)) (s @ t)"
  unfolding emits_def by (rule ext) simp

lemma emits_id: "emits (\<lambda>w. w) []"
  unfolding emits_def by (rule ext) simp

lemma emits_indent [emits_intros]: "emits (append_indent level) (replicate (4 * level) CHR '' '')"
proof (induction level)
  case 0
  then show ?case using emits_id by (simp add: emits_def)
next
  case (Suc n)
  have "emits (\<lambda>w. append_indent n (append_string ''    '' w)) (''    '' @ replicate (4 * n) CHR '' '')"
    by (rule emits_comp [OF emits_append Suc])
  then show ?case by (simp add: emits_def numeral_eq_Suc)
qed

lemma emits_chars: "emits (append_chars slashes s) (concat (map (escape_char slashes) s))"
proof (induction s)
  case Nil
  then show ?case using emits_id by (simp add: emits_def)
next
  case (Cons c s)
  have "emits (\<lambda>w. append_chars slashes s (append_string (escape_char slashes c) w))
      (escape_char slashes c @ concat (map (escape_char slashes) s))"
    by (rule emits_comp [OF emits_append Cons])
  then show ?case by (simp add: emits_def)
qed

lemma emits_serialize_string [emits_intros]: "emits (json_serialize_string slashes s) (quoted slashes s)"
proof -
  have "emits (\<lambda>w. append_string [DQ] (append_chars slashes s (append_string [DQ] w)))
      (([DQ] @ concat (map (escape_char slashes) s)) @ [DQ])"
    by (rule emits_comp [OF emits_comp [OF emits_append emits_chars] emits_append])
  then show ?thesis by (simp add: emits_def json_serialize_string_def [abs_def] quoted_def)
qed

subsection \<open>Reading it back\<close>

lemma small_chars:
  assumes "ord c < 32"
  obtains n where "c = chr n" "n \<in> {0..<32}"
  using assms chr_ord [of c] by (metis atLeastLessThan_iff le0)

lemma push_bit_or:
  fixes a b :: nat
  assumes "b < 2 ^ k"
  shows "push_bit k a OR b = a * 2 ^ k + b"
proof -
  have b: "take_bit k b = b" using assms by (simp add: take_bit_nat_eq_self)
  have "push_bit k a AND take_bit k b = 0" by (rule bit_eqI) (auto simp: bit_simps)
  then have "push_bit k a AND b = 0" by (simp only: b)
  then have "push_bit k a OR b = push_bit k a + b" by (simp add: disjunctive_add_eq_or)
  then show ?thesis by (simp add: push_bit_eq_mult)
qed

lemma upto_16: "n < 16 \<longleftrightarrow> n \<in> {0, 1, 2, 3, 4, 5, 6, 7, 8, 9, 10, 11, 12, 13, 14, 15 :: nat}"
  unfolding insert_iff empty_iff by presburger

lemma hex_digit_facts:
  assumes "n < 16"
  shows "hex_char_to_int (hex_digit n) = int n" "hex_digit n \<noteq> DQ" "hex_digit n \<noteq> BSL"
  using assms unfolding upto_16
  by (auto simp: hex_digit_def hex_char_to_int_def ord_def)

lemma parse_control_escape:
  assumes "ord c < 32"
  shows "parse_utf16 (CHR ''u'' # CHR ''0'' # CHR ''0'' # hex_digit (ord c div 16) # hex_digit (ord c mod 16) # t)
    = Some ([c], hex_digit (ord c mod 16) # t)"
proof -
  have d: "ord c div 16 < 16" "ord c mod 16 < 16" using assms by auto
  have z: "hex_char_to_int CHR ''0'' = 0" by (simp add: hex_char_to_int_def ord_def)
  have "push_bit 4 (ord c div 16) OR ord c mod 16 = ord c"
    using push_bit_or [of "ord c mod 16" 4 "ord c div 16"] by simp
  then have "push_bit 4 (int (ord c div 16)) OR int (ord c mod 16) = int (ord c)"
    by (metis of_nat_or_eq of_nat_push_bit)
  then show ?thesis
    using assms d hex_digit_facts(1) by (simp add: parse_utf16_def parse_utf16_hex_def z Let_def)
qed

lemma skip_escape: "skip_quoted (escape_char slashes c @ t) = skip_quoted t"
proof -
  have "ord c div 16 < 16" "ord c mod 16 < 16"
    using ord_less [of c] by (simp_all add: div_less_iff_less_mult)
  note h = hex_digit_facts(2,3) [OF this(1)] hex_digit_facts(2,3) [OF this(2)]
  show ?thesis using h by (auto simp: escape_char_def)
qed

lemma append_single: "(@) [c] = (#) c"
  by (rule ext) simp

lemma process_escape:
  "process_loop (length (escape_char slashes c) + n) (escape_char slashes c @ t) =
   map_option (Cons c) (process_loop n t)"
proof (cases "ord c < 32 \<and> c \<notin> {CHR 0x08, CHR 0x0C, CHR 0x0A, CHR 0x0D, CHR 0x09}")
  case True
  have "ord DQ = 34" "ord BSL = 92" by (simp_all add: ord_def)
  moreover have "ord c < 32" using True by (rule conjunct1)
  ultimately have c: "ord c < 32" "c \<noteq> DQ" "c \<noteq> BSL" by fastforce+
  then have e: "escape_char slashes c =
      [BSL, CHR ''u'', CHR ''0'', CHR ''0'', hex_digit (ord c div 16), hex_digit (ord c mod 16)]"
    using True c by (simp add: escape_char_def)
  show ?thesis
    unfolding e using parse_control_escape [OF c(1), of t]
    by (simp add: simple_escape_def append_single)
next
  case False
  then show ?thesis by (auto simp: escape_char_def simple_escape_def ord_def)
qed

lemma quoted_back:
  "skip_quoted (concat (map (escape_char slashes) s) @ DQ # t) = Some t"
  "process_loop (length (concat (map (escape_char slashes) s))) (concat (map (escape_char slashes) s) @ t) = Some s"
proof (induction s)
  case Nil
  {
    case 1
    show ?case by simp
  next
    case 2
    show ?case by (cases t) simp_all
  }
next
  case (Cons c s)
  {
    case 1
    show ?case using Cons(1) by (simp add: skip_escape)
  next
    case 2
    show ?case using Cons(2) process_escape [of slashes c "length (concat (map (escape_char slashes) s))"]
      by simp
  }
qed

lemma escape_char_length: "1 \<le> length (escape_char slashes c)" "length (escape_char slashes c) \<le> 6"
  by (auto simp: escape_char_def)

lemma escaped_length:
  "length s \<le> length (concat (map (escape_char slashes) s))"
  "length (concat (map (escape_char slashes) s)) \<le> 6 * length s"
proof (induction s)
  case (Cons c s)
  {
    case 1
    then show ?case using Cons(1) escape_char_length [of slashes c] by simp
  next
    case 2
    then show ?case using Cons(2) escape_char_length [of slashes c] by simp
  }
qed simp_all

lemma get_quoted_back:
  assumes "\<forall>n \<le> length (quoted slashes s). M n"
  shows "get_quoted_string M (quoted slashes s @ t) = Some (s, t)"
  using assms quoted_back [of slashes s] escaped_length(1) [of s slashes]
  by (simp add: get_quoted_string_def skip_quotes_def quoted_def process_string_def)

subsection \<open>Comments and literals\<close>

text \<open>
  The pieces of a text with comments: characters on their own, escaped characters, closed literals
  and closed comments, and at the end possibly a comment or a literal that is not closed.  A backslash
  stands alone at the end of the text and before a comment, which it does not protect.
\<close>

datatype piece = Plain char | Escaped char | Backslash | Literal string | Comment string
  | Open_Comment string | Open_Literal string

fun piece_text :: "string \<Rightarrow> string \<Rightarrow> piece \<Rightarrow> string" where
  "piece_text st et (Plain c) = [c]"
| "piece_text st et (Escaped c) = [BSL, c]"
| "piece_text st et Backslash = [BSL]"
| "piece_text st et (Literal s) = s"
| "piece_text st et (Comment s) = st @ s @ et"
| "piece_text st et (Open_Comment s) = st @ s"
| "piece_text st et (Open_Literal s) = s"

text \<open>What is left of a piece: of a comment that is not closed only the start token is blanked.\<close>

fun piece_blanked :: "string \<Rightarrow> string \<Rightarrow> piece \<Rightarrow> string" where
  "piece_blanked st et (Comment s) = replicate (length st + length s + length et) CHR '' ''"
| "piece_blanked st et (Open_Comment s) = replicate (length st) CHR '' '' @ s"
| "piece_blanked st et p = piece_text st et p"

definition starts_with :: "string \<Rightarrow> string \<Rightarrow> bool" where
  "starts_with st s \<longleftrightarrow> take (length st) s = st"

text \<open>A piece in front of a rest.  A literal is what the parser's \<open>skip_quotes\<close> passes over.\<close>

fun piece_ok :: "string \<Rightarrow> string \<Rightarrow> piece \<Rightarrow> string \<Rightarrow> bool" where
  "piece_ok st et (Plain c) rest = (c \<noteq> DQ \<and> c \<noteq> BSL \<and> \<not> starts_with st (c # rest))"
| "piece_ok st et (Escaped c) rest = (\<not> starts_with st (c # rest))"
| "piece_ok st et Backslash rest = (rest = [] \<or> starts_with st rest)"
| "piece_ok st et (Literal s) rest = (skip_quotes s = Some [])"
| "piece_ok st et (Comment s) rest = (strstr (s @ et @ rest) et = Some (length s))"
| "piece_ok st et (Open_Comment s) rest = (rest = [] \<and> strstr s et = None)"
| "piece_ok st et (Open_Literal s) rest = (rest = [] \<and> peek s = DQ \<and> skip_quotes s = None)"

fun pieces :: "string \<Rightarrow> string \<Rightarrow> piece list \<Rightarrow> string \<Rightarrow> string \<Rightarrow> bool" where
  "pieces st et [] t u = (t = [] \<and> u = [])"
| "pieces st et (p # ps) t u = (\<exists>rest blanked. pieces st et ps rest blanked \<and> piece_ok st et p rest \<and>
     t = piece_text st et p @ rest \<and> u = piece_blanked st et p @ blanked)"

lemma strstr_bound: "strstr s t = Some k \<Longrightarrow> k + length t \<le> length s"
proof (induction s arbitrary: k)
  case (Cons c s)
  show ?case
  proof (cases "take (length t) (c # s) = t")
    case True
    then have "length t \<le> length (c # s)" by (metis length_take min.absorb_iff2 nat_le_linear take_all_iff)
    then show ?thesis using True Cons.prems by simp
  next
    case False
    then show ?thesis using Cons by auto
  qed
qed (auto split: if_splits)

lemma skip_quoted_split: "skip_quoted s = Some rest \<Longrightarrow> \<exists>u. s = u @ rest \<and> skip_quoted u = Some []"
proof (induction s rule: skip_quoted.induct)
  case (2 c s)
  consider "c = DQ" | "c = BSL" | "c \<noteq> DQ" "c \<noteq> BSL" by blast
  then show ?case
  proof cases
    case 1
    then show ?thesis using 2 by (intro exI [of _ "[DQ]"]) simp
  next
    case c: 2
    then obtain d t where s: "s = d # t" "skip_quoted t = Some rest" using 2(3) by (cases s) auto
    then obtain u where "t = u @ rest" "skip_quoted u = Some []" using 2(1) c by (auto simp: s)
    then show ?thesis using s c by (intro exI [of _ "BSL # d # u"]) simp
  next
    case 3
    then obtain u where "s = u @ rest" "skip_quoted u = Some []" using 2 by auto
    then show ?thesis using 3 by (intro exI [of _ "c # u"]) simp
  qed
qed simp

lemma blank_closed_literal:
  "skip_quoted s = Some [] \<Longrightarrow>
   blank_comments st et True False (s @ t) = s @ blank_comments st et False False t"
  by (induction s rule: skip_quoted.induct) (auto split: if_splits list.splits)

lemma blank_open_literal: "skip_quoted s = None \<Longrightarrow> blank_comments st et True False s = s"
  by (induction s rule: skip_quoted.induct) (auto split: if_splits list.splits)

lemma starts_withD: "starts_with st s \<Longrightarrow> s = st @ drop (length st) s"
  unfolding starts_with_def by (metis append_take_drop_id)

lemma blank_at_comment:
  assumes st: "st \<noteq> []" "hd st \<noteq> DQ" "hd st \<noteq> BSL"
  shows "blank_comments st et False e (st @ u) =
   (case strstr u et of
      None \<Rightarrow> replicate (length st) CHR '' '' @ u
    | Some k \<Rightarrow> replicate (length st + (k + length et)) CHR '' '' @
        blank_comments st et False False (drop (k + length et) u))"
  using st by (cases st) (simp_all add: Let_def split: option.split)

lemma blank_piece:
  assumes st: "st \<noteq> []" "hd st \<noteq> DQ" "hd st \<noteq> BSL"
    and "piece_ok st et p rest"
  shows "blank_comments st et False False (piece_text st et p @ rest) =
    piece_blanked st et p @ blank_comments st et False False rest"
  using assms(4)
proof (cases p)
  case (Escaped c)
  then show ?thesis using assms(4) by (simp add: starts_with_def)
next
  case Backslash
  then consider "rest = []" | "starts_with st rest" using assms(4) by auto
  then show ?thesis
  proof cases
    case 2
    obtain u where "rest = st @ u" using starts_withD [OF 2] by blast
    then show ?thesis using Backslash by (simp add: blank_at_comment [OF st])
  qed (simp add: Backslash)
next
  case (Literal s)
  then obtain u where "s = DQ # u" "skip_quoted u = Some []"
    using assms(4) by (cases s) (auto simp: skip_quotes_def split: if_splits)
  then show ?thesis using Literal blank_closed_literal [of u st et rest] by simp
next
  case (Comment s)
  then show ?thesis using assms(4) by (simp add: blank_at_comment [OF st])
next
  case (Open_Comment s)
  then show ?thesis using assms(4) by (simp add: blank_at_comment [OF st])
next
  case (Open_Literal s)
  then obtain u where "s = DQ # u" "skip_quoted u = None"
    using assms(4) by (cases s) (auto simp: skip_quotes_def split: if_splits)
  then show ?thesis using Open_Literal assms(4) blank_open_literal [of u st et] by simp
qed (simp_all add: starts_with_def)

lemma pieces_blanked:
  assumes st: "st \<noteq> []" "hd st \<noteq> DQ" "hd st \<noteq> BSL"
    and "pieces st et ps t u"
  shows "blank_comments st et False False t = u"
  using assms(4) by (induction ps arbitrary: t u) (auto simp: blank_piece [OF st])

lemma strstr_split: "strstr s et = Some k \<Longrightarrow> s = take k s @ et @ drop (k + length et) s"
proof (induction s arbitrary: k)
  case (Cons c s)
  show ?case
  proof (cases "take (length et) (c # s) = et")
    case True
    then have "k = 0" using Cons.prems by simp
    then show ?thesis using starts_withD [of et "c # s"] True by (simp add: starts_with_def)
  next
    case False
    then obtain j where "strstr s et = Some j" "k = Suc j" using Cons.prems by auto
    then show ?thesis using Cons.IH by simp
  qed
qed (simp split: if_splits)

lemma next_piece:
  assumes st: "st \<noteq> []" "hd st \<noteq> DQ" "hd st \<noteq> BSL"
    and "t \<noteq> []"
  shows "\<exists>p rest. piece_ok st et p rest \<and> t = piece_text st et p @ rest \<and> length rest < length t"
proof (cases "starts_with st t")
  case True
  then obtain u where u: "t = st @ u" using starts_withD by blast
  show ?thesis
  proof (cases "strstr u et")
    case None
    then show ?thesis using u st by (intro exI [of _ "Open_Comment u"] exI [of _ "[]"]) simp
  next
    case (Some k)
    note split = strstr_split [OF Some]
    have len: "k + length et \<le> length u" using strstr_bound [OF Some] .
    have less: "length u - (k + length et) < length st + length u" using st by (cases st) auto
    then show ?thesis
      using u len less Some split
      by (intro exI [of _ "Comment (take k u)"] exI [of _ "drop (k + length et) u"]) (auto simp flip: split)
  qed
next
  case no: False
  obtain c s where t: "t = c # s" using assms(4) by (cases t) auto
  consider "c = BSL" | "c = DQ" | "c \<noteq> BSL" "c \<noteq> DQ" by blast
  then show ?thesis
  proof cases
    case 1
    show ?thesis
    proof (cases "s = [] \<or> starts_with st s")
      case True
      then show ?thesis using t 1 by (intro exI [of _ Backslash] exI [of _ s]) auto
    next
      case False
      then obtain d r where "s = d # r" by (cases s) auto
      then show ?thesis using t 1 False by (intro exI [of _ "Escaped d"] exI [of _ r]) auto
    qed
  next
    case 2
    show ?thesis
    proof (cases "skip_quotes t")
      case None
      then show ?thesis using t 2 by (intro exI [of _ "Open_Literal t"] exI [of _ "[]"]) simp
    next
      case (Some rest)
      then have "skip_quoted s = Some rest" using t 2 by (simp add: skip_quotes_def)
      then obtain u where "s = u @ rest" "skip_quoted u = Some []" using skip_quoted_split by blast
      then show ?thesis using t 2
        by (intro exI [of _ "Literal (DQ # u)"] exI [of _ rest]) (simp add: skip_quotes_def)
    qed
  next
    case 3
    then show ?thesis using t no by (intro exI [of _ "Plain c"] exI [of _ s]) simp
  qed
qed

lemma pieces_exist:
  assumes st: "st \<noteq> []" "hd st \<noteq> DQ" "hd st \<noteq> BSL"
  shows "\<exists>ps u. pieces st et ps t u"
proof (induction t rule: length_induct)
  case (1 t)
  show ?case
  proof (cases "t = []")
    case False
    obtain p rest where p: "piece_ok st et p rest" "t = piece_text st et p @ rest" "length rest < length t"
      using next_piece [OF st False] by blast
    then obtain ps u where "pieces st et ps rest u" using 1 by blast
    then show ?thesis using p by (intro exI [of _ "p # ps"] exI [of _ "piece_blanked st et p @ u"]) auto
  qed (auto intro: exI [of _ "[]"])
qed

subsection \<open>Properties\<close>

text \<open>
  C22: The string literals of the serializer are read back by the parser: for every byte string,
  quotes, backslashes, control characters and embedded zero bytes included, the number of
  characters reported is the number written (as far as an \<open>int\<close> counts it), and the parser's scan of
  what was written gives the string back and stops right behind the closing quote.
\<close>

theorem string_literal_roundtrip:
  assumes "\<forall>n \<le> 6 * length s + 2. mem n"
  shows "\<exists>text. json_serialize_string slashes s (Some 0, Some []) =
      (if length text < 2 ^ 31 then Some (int (length text)) else None, Some text) \<and>
    (\<forall>t. get_quoted_string mem (text @ t) = Some (s, t))"
  using emits_serialize_string [of slashes s] get_quoted_back [of slashes s mem] assms escaped_length(2) [of slashes s]
  by (intro exI [of _ "quoted slashes s"]) (simp add: emits_def append_from_start quoted_def)

theorem string_literal_roundtrip_witness:
  "\<exists>text. json_serialize_string True [CHR ''a'', DQ, CHR ''/'', CHR 0x0A, NUL] (Some 0, Some []) =
      (if length text < 2 ^ 31 then Some (int (length text)) else None, Some text) \<and>
    (\<forall>t. get_quoted_string (\<lambda>n. n < 1000) (text @ t) = Some ([CHR ''a'', DQ, CHR ''/'', CHR 0x0A, NUL], t))"
  by (rule string_literal_roundtrip) simp

text \<open>
  C30: Removing comments blanks exactly the comments.  Cut into characters, escaped characters, string
  literals as the parser's \<open>skip_quotes\<close> delimits them, and comments, each ending with the first end
  token behind its start, a text keeps everything but its comments, which become blanks of the same
  length: what looks like a comment inside a literal stays, and so does every literal behind other
  text and behind a comment.  Every text has such a cut, so that this is all the function does.
\<close>

theorem comments_spare_literals:
  assumes "st \<noteq> []" "et \<noteq> []" "hd st \<noteq> DQ" "hd st \<noteq> BSL"
  shows "remove_comments t st et = u \<longleftrightarrow> (\<exists>ps. pieces st et ps t u)"
  using pieces_blanked [OF assms(1,3,4)] pieces_exist [OF assms(1,3,4), of et t] assms(1,2)
  by (auto simp: remove_comments_def)

theorem comments_spare_literals_witness:
  "remove_comments (''[/*x*/ '' @ [DQ, CHR ''/'', CHR ''*'', BSL, DQ, CHR ''*'', CHR ''/'', DQ] @ ''/* '' @ [DQ] @ '' */]'') ''/*'' ''*/'' =
   ''[      '' @ [DQ, CHR ''/'', CHR ''*'', BSL, DQ, CHR ''*'', CHR ''/'', DQ] @ ''       ]''"
  unfolding comments_spare_literals [of "''/*''" "''*/''", simplified]
  by (rule exI [of _ "[Plain CHR ''['', Comment ''x'', Plain CHR '' '',
      Literal [DQ, CHR ''/'', CHR ''*'', BSL, DQ, CHR ''*'', CHR ''/'', DQ],
      Comment [CHR '' '', DQ, CHR '' ''], Plain CHR '']'']"])
    (simp add: starts_with_def skip_quotes_def eval_nat_numeral)

end
