(* ===== verification/Json_Utf8.thy ===== *)
theory Json_Utf8
  imports Json_Text
begin

unbundle bit_operations_syntax

text \<open>
  UTF-8 in \<open>parson/src/parson.c\<close> against the encoding itself: the validity check accepts exactly
  the encodings of Unicode scalar values, and the \<open>\u\<close> escapes of a literal produce them.
\<close>

subsection \<open>Bit fields of bytes\<close>

lemma and_field:
  fixes b :: nat
  shows "b AND push_bit k (mask n) = (b div 2 ^ k mod 2 ^ n) * 2 ^ k"
proof -
  have "b AND push_bit k (mask n) = push_bit k (take_bit n (drop_bit k b))"
    by (rule bit_eqI) (auto simp: bit_simps)
  then show ?thesis by (simp add: push_bit_eq_mult take_bit_eq_mod drop_bit_eq_div)
qed


lemma and_field_num:
  fixes b :: nat
  assumes "m = (2 ^ n - 1) * 2 ^ k" "d = 2 ^ k" "r = 2 ^ n"
  shows "b AND m = b div d mod r * d"
  using and_field [of b k n] assms by (simp add: mask_eq_exp_minus_1 push_bit_eq_mult)

lemma byte_fields:
  fixes b :: nat
  shows "b AND 0xC0 = b div 64 mod 4 * 64" "b AND 0x80 = b div 128 mod 2 * 128"
    "b AND 0xE0 = b div 32 mod 8 * 32" "b AND 0xF0 = b div 16 mod 16 * 16"
    "b AND 0xF8 = b div 8 mod 32 * 8"
    by (rule and_field_num [of _ 2 6] and_field_num [of _ 1 7] and_field_num [of _ 3 5]
      and_field_num [of _ 4 4] and_field_num [of _ 5 3]; simp)+

lemma and_mask_num:
  fixes b :: nat
  assumes "m = 2 ^ n - 1" "r = 2 ^ n"
  shows "b AND m = b mod r"
  using and_field [of b 0 n] assms by (simp add: mask_eq_exp_minus_1)

lemma byte_masks:
  fixes b :: nat
  shows "b AND 0x3F = b mod 64" "b AND 0x1F = b mod 32" "b AND 0xF = b mod 16" "b AND 0x7 = b mod 8"
    "b AND 0x3FF = b mod 1024"
    by (rule and_mask_num [of _ 6] and_mask_num [of _ 5] and_mask_num [of _ 4]
      and_mask_num [of _ 3] and_mask_num [of _ 10]; simp; fail)+

lemma div_field:
  fixes b :: nat
  assumes "0 < d" "b < r * d"
  shows "b div d mod r * d = v * d \<longleftrightarrow> v * d \<le> b \<and> b < v * d + d"
proof -
  have "b div d < r" using assms by (simp add: div_less_iff_less_mult)
  then have "b div d mod r * d = v * d \<longleftrightarrow> b div d = v" using assms(1) by simp
  also have "\<dots> \<longleftrightarrow> v * d \<le> b \<and> b < v * d + d"
    using assms(1) by (metis add.commute div_less_iff_less_mult less_eq_div_iff_mult_less_eq less_Suc_eq_le mult_Suc nat_less_le not_less)
  finally show ?thesis .
qed

lemma IS_CONT_iff: "b < 256 \<Longrightarrow> IS_CONT b \<longleftrightarrow> 128 \<le> b \<and> b < 192"
  unfolding IS_CONT_def byte_fields using div_field [of 64 b 4 2] by simp

lemma num_bytes_iff:
  assumes "b < 256"
  shows "num_bytes_in_utf8_sequence b =
    (if b < 128 then 1 else if 194 \<le> b \<and> b < 224 then 2 else if 224 \<le> b \<and> b < 240 then 3
     else if 240 \<le> b \<and> b < 245 then 4 else 0)"
proof -
  have f: "b div 128 mod 2 * 128 = 0 \<longleftrightarrow> b < 128" "b div 32 mod 8 * 32 = 0xC0 \<longleftrightarrow> 192 \<le> b \<and> b < 224"
    "b div 16 mod 16 * 16 = 0xE0 \<longleftrightarrow> 224 \<le> b \<and> b < 240"
    "b div 8 mod 32 * 8 = 0xF0 \<longleftrightarrow> 240 \<le> b \<and> b < 248"
    using assms div_field [of 128 b 2 0] div_field [of 32 b 8 6] div_field [of 16 b 16 14] div_field [of 8 b 32 30]
    by simp_all
  show ?thesis
    unfolding num_bytes_in_utf8_sequence_def byte_fields f IS_CONT_iff [OF assms] using assms
    by simp
qed

lemma byte_at_less [simp]: "byte_at s i < 256"
  by (simp add: byte_at_def)

subsection \<open>The encoding\<close>

lemma join6:
  fixes a b :: nat
  shows "push_bit 6 a OR (b mod 64) = a * 64 + b mod 64"
  using push_bit_or [of "b mod 64" 6 a] by simp

definition scalar :: "nat \<Rightarrow> bool" where
  "scalar cp \<longleftrightarrow> cp \<le> 0x10FFFF \<and> \<not> (0xD800 \<le> cp \<and> cp \<le> 0xDFFF)"

definition utf8_bytes :: "nat \<Rightarrow> nat list" where
  "utf8_bytes cp =
     (if cp < 0x80 then [cp]
      else if cp < 0x800 then [192 + cp div 64, 128 + cp mod 64]
      else if cp < 0x10000 then [224 + cp div 4096, 128 + cp div 64 mod 64, 128 + cp mod 64]
      else [240 + cp div 262144, 128 + cp div 4096 mod 64, 128 + cp div 64 mod 64, 128 + cp mod 64])"

definition utf8_encode :: "nat \<Rightarrow> string" where
  "utf8_encode cp = map chr (utf8_bytes cp)"

text \<open>The code point of a sequence whose length its first byte gives.\<close>

definition decoded :: "nat list \<Rightarrow> nat" where
  "decoded bs =
     (case bs of
        [a] \<Rightarrow> a
      | [a, b] \<Rightarrow> a mod 32 * 64 + b mod 64
      | [a, b, c] \<Rightarrow> (a mod 16 * 64 + b mod 64) * 64 + c mod 64
      | [a, b, c, d] \<Rightarrow> ((a mod 8 * 64 + b mod 64) * 64 + c mod 64) * 64 + d mod 64
      | _ \<Rightarrow> 0)"

definition cp_ok :: "nat \<Rightarrow> nat \<Rightarrow> bool" where
  "cp_ok len cp \<longleftrightarrow> scalar cp \<and> (len > 1 \<longrightarrow> 0x80 \<le> cp) \<and> (len > 2 \<longrightarrow> 0x800 \<le> cp) \<and> (len > 3 \<longrightarrow> 0x10000 \<le> cp)"

lemma check_cp:
  "(case if C then Some X else None of None \<Rightarrow> None
    | Some cp \<Rightarrow> if (cp < 0x80 \<and> len > 1) \<or> (cp < 0x800 \<and> len > 2) \<or> (cp < 0x10000 \<and> len > 3) then None
        else if cp > 0x10FFFF then None else if cp \<ge> 0xD800 \<and> cp \<le> 0xDFFF then None else Some len) =
   (if C \<and> cp_ok len X then Some len else None)"
  by (auto simp: scalar_def cp_ok_def)

definition cont :: "nat \<Rightarrow> bool" where
  "cont b \<longleftrightarrow> 128 \<le> b \<and> b < 192"

lemma verify_utf8_spec:
  "verify_utf8_sequence s =
     (let len = num_bytes_in_utf8_sequence (byte_at s 0); bs = map (byte_at s) [0..<len]
      in if len \<noteq> 0 \<and> list_all cont (drop 1 bs) \<and> cp_ok len (decoded bs) then Some len else None)"
proof -
  let ?n = "num_bytes_in_utf8_sequence (byte_at s 0)"
  have u: "map (byte_at s) [0..<1] = [byte_at s 0]"
    "map (byte_at s) [0..<2] = [byte_at s 0, byte_at s 1]"
    "map (byte_at s) [0..<3] = [byte_at s 0, byte_at s 1, byte_at s 2]"
    "map (byte_at s) [0..<4] = [byte_at s 0, byte_at s 1, byte_at s 2, byte_at s 3]"
    by (simp_all add: upt_rec numeral_eq_Suc)
  have v: "verify_utf8_sequence s =
     (case (if ?n = 1 then Some (byte_at s 0)
        else if ?n = 2 \<and> cont (byte_at s 1) then Some (byte_at s 0 mod 32 * 64 + byte_at s 1 mod 64)
        else if ?n = 3 \<and> cont (byte_at s 1) \<and> cont (byte_at s 2)
        then Some ((byte_at s 0 mod 16 * 64 + byte_at s 1 mod 64) * 64 + byte_at s 2 mod 64)
        else if ?n = 4 \<and> cont (byte_at s 1) \<and> cont (byte_at s 2) \<and> cont (byte_at s 3)
        then Some (((byte_at s 0 mod 8 * 64 + byte_at s 1 mod 64) * 64 + byte_at s 2 mod 64) * 64 + byte_at s 3 mod 64)
        else None) of None \<Rightarrow> None
      | Some cp \<Rightarrow> if (cp < 0x80 \<and> ?n > 1) \<or> (cp < 0x800 \<and> ?n > 2) \<or> (cp < 0x10000 \<and> ?n > 3) then None
        else if cp > 0x10FFFF then None else if cp \<ge> 0xD800 \<and> cp \<le> 0xDFFF then None else Some ?n)"
    unfolding verify_utf8_sequence_def Let_def byte_masks join6 IS_CONT_iff [OF byte_at_less] cont_def ..
  consider "?n = 0" | "?n = 1" | "?n = 2" | "?n = 3" | "?n = 4"
    using num_bytes_iff [OF byte_at_less, of s 0] by (auto split: if_splits)
  then show ?thesis
  proof cases
    case 1
    then show ?thesis unfolding v by simp
  next
    case 2
    show ?thesis unfolding v Let_def 2 u by (auto simp: decoded_def cp_ok_def scalar_def)
  next
    case 3
    show ?thesis unfolding v Let_def 3 u by (auto simp: decoded_def cp_ok_def scalar_def)
  next
    case 4
    show ?thesis unfolding v Let_def 4 u by (auto simp: decoded_def cp_ok_def scalar_def)
  next
    case 5
    show ?thesis unfolding v Let_def 5 u by (auto simp: decoded_def cp_ok_def scalar_def)
  qed
qed

lemma mod_shift:
  fixes q r m k :: nat
  assumes "k = r * m" "q < m"
  shows "(k + q) mod m = q"
  using assms by simp

lemma decode_bytes:
  assumes "scalar cp"
  shows "utf8_bytes cp \<noteq> []" "num_bytes_in_utf8_sequence (hd (utf8_bytes cp)) = length (utf8_bytes cp)"
    "list_all cont (drop 1 (utf8_bytes cp))" "decoded (utf8_bytes cp) = cp"
    "cp_ok (length (utf8_bytes cp)) cp" "\<forall>b \<in> set (utf8_bytes cp). b < 256"
proof -
  let ?bs = "utf8_bytes cp"
  have c: "(128 + q mod 64) mod 64 = q mod 64" "q mod 64 < 128" for q :: nat
    using mod_shift [of 128 2 64 "q mod 64"] mod_less_divisor [of 64 q] by linarith+
  have "?bs \<noteq> [] \<and> num_bytes_in_utf8_sequence (hd ?bs) = length ?bs \<and> list_all cont (drop 1 ?bs) \<and>
    decoded ?bs = cp \<and> cp_ok (length ?bs) cp \<and> (\<forall>b \<in> set ?bs. b < 256)"
  proof -
    consider "cp < 0x80" | "0x80 \<le> cp" "cp < 0x800" | "0x800 \<le> cp" "cp < 0x10000"
      | "0x10000 \<le> cp" "cp \<le> 0x10FFFF"
      using assms by (cases "cp < 0x80"; cases "cp < 0x800"; cases "cp < 0x10000")
        (auto simp: scalar_def not_less)
    then show ?thesis
    proof cases
      case 1
      then show ?thesis using assms by (simp add: utf8_bytes_def num_bytes_iff decoded_def cp_ok_def)
    next
      case 2
      then have "cp div 64 < 32" "2 \<le> cp div 64" by simp_all
      then show ?thesis using 2 assms
        by (simp add: utf8_bytes_def num_bytes_iff decoded_def cp_ok_def cont_def mod_add_eq [symmetric])
    next
      case 3
      then have d: "cp div 4096 < 16" "(224 + cp div 4096) mod 16 = cp div 4096"
        using mod_shift [of 224 14 16] by simp_all
      have e: "cp div 64 = cp div 4096 * 64 + cp div 64 mod 64"
        using div_mult_mod_eq [of "cp div 64" 64] by (simp add: div_mult2_eq [symmetric])
      have "4096 * (cp div 4096) + cp div 64 mod 64 * 64 + cp mod 64 = cp"
        using e div_mult_mod_eq [of cp 64] by linarith
      then show ?thesis using 3 d assms
        by (simp add: utf8_bytes_def num_bytes_iff decoded_def cp_ok_def cont_def c)
    next
      case 4
      then have d: "cp div 262144 < 5" "(240 + cp div 262144) mod 8 = cp div 262144"
        using mod_shift [of 240 30 8] by simp_all
      have e: "cp div 64 = cp div 4096 * 64 + cp div 64 mod 64"
        "cp div 4096 = cp div 262144 * 64 + cp div 4096 mod 64"
        using div_mult_mod_eq [of "cp div 64" 64] div_mult_mod_eq [of "cp div 4096" 64]
        by (simp_all add: div_mult2_eq [symmetric])
      have "262144 * (cp div 262144) + 4096 * (cp div 4096 mod 64) + cp div 64 mod 64 * 64 + cp mod 64 = cp"
        using e div_mult_mod_eq [of cp 64] by linarith
      then show ?thesis using 4 d assms
        by (simp add: utf8_bytes_def num_bytes_iff decoded_def cp_ok_def cont_def c)
    qed
  qed
  then show "?bs \<noteq> []" "num_bytes_in_utf8_sequence (hd ?bs) = length ?bs"
    "list_all cont (drop 1 ?bs)" "decoded ?bs = cp" "cp_ok (length ?bs) cp" "\<forall>b \<in> set ?bs. b < 256"
    by blast+
qed


lemma length_1: "length xs = 1 \<Longrightarrow> \<exists>b. xs = [b]"
  and length_2: "length xs = 2 \<Longrightarrow> \<exists>b c. xs = [b, c]"
  and length_3: "length xs = 3 \<Longrightarrow> \<exists>b c d. xs = [b, c, d]"
  by (auto simp: numeral_eq_Suc length_Suc_conv)

lemma div64:
  fixes q r :: nat
  shows "(q * 64 + r mod 64) div 64 = q" "(q * 64 + r mod 64) mod 64 = r mod 64"
    "x div 4096 = x div 64 div 64" "x div 262144 = x div 64 div 64 div (64::nat)"
  by (simp_all add: div_mult2_eq [symmetric])

lemma small_sum: "p < 16 \<Longrightarrow> q < 64 \<Longrightarrow> r < 64 \<Longrightarrow> (p * 64 + q) * 64 + r < (0x10000::nat)"
proof -
  assume "p < 16" "q < 64" "r < 64"
  then have "p * 64 + q < 1024" by simp
  with \<open>r < 64\<close> show ?thesis by simp
qed

lemma encode_decoded:
  assumes "num_bytes_in_utf8_sequence a = Suc (length bs)" "a < 256" "list_all cont bs"
    and "cp_ok (Suc (length bs)) (decoded (a # bs))"
  shows "utf8_bytes (decoded (a # bs)) = a # bs"
proof -
  have m: "128 + b mod 64 = b" if "cont b" for b
  proof -
    have "b - 128 < 64" "128 \<le> b" using that by (auto simp: cont_def)
    then show ?thesis using mod_shift [of 128 2 64 "b - 128"] by simp
  qed
  consider "bs = []" "a < 128" | b where "bs = [b]" "194 \<le> a" "a < 224"
    | b c where "bs = [b, c]" "224 \<le> a" "a < 240" | b c d where "bs = [b, c, d]" "240 \<le> a" "a < 245"
  proof -
    have "length bs = 0 \<and> a < 128 \<or> length bs = 1 \<and> 194 \<le> a \<and> a < 224 \<or>
        length bs = 2 \<and> 224 \<le> a \<and> a < 240 \<or> length bs = 3 \<and> 240 \<le> a \<and> a < 245"
      using assms(1) unfolding num_bytes_iff [OF assms(2)] by (auto split: if_splits)
    then show thesis using that length_1 length_2 length_3 by blast
  qed
  then show ?thesis
  proof cases
    case 1
    then show ?thesis by (simp add: decoded_def utf8_bytes_def)
  next
    case (2 b)
    have a: "192 + a mod 32 = a" using 2 mod_shift [of 192 6 32 "a - 192"] by simp
    show ?thesis using 2 a assms(3,4) m [of b] by (simp add: decoded_def utf8_bytes_def cp_ok_def)
  next
    case (3 b c)
    have a: "224 + a mod 16 = a" using 3 mod_shift [of 224 14 16 "a - 224"] by simp
    let ?x = "(a mod 16 * 64 + b mod 64) * 64 + c mod 64"
    have d: "?x div 64 = a mod 16 * 64 + b mod 64" "?x div 4096 = a mod 16" "?x mod 64 = c mod 64"
      by (simp_all only: div64)
    have x: "0x800 \<le> ?x" using assms(4) 3 by (simp add: decoded_def cp_ok_def)
    have "?x < 0x10000"
      by (rule small_sum) simp_all
    then show ?thesis using 3 a x assms(3) m [of b] m [of c]
      unfolding 3 decoded_def utf8_bytes_def list.case d div64(2) by simp
  next
    case (4 b c d)
    let ?x = "((a mod 8 * 64 + b mod 64) * 64 + c mod 64) * 64 + d mod 64"
    have a: "240 + a mod 8 = a" using 4 mod_shift [of 240 30 8 "a - 240"] by simp
    have d: "?x div 64 = (a mod 8 * 64 + b mod 64) * 64 + c mod 64"
      "?x div 4096 = a mod 8 * 64 + b mod 64" "?x div 262144 = a mod 8" "?x mod 64 = d mod 64"
      by (simp_all only: div64)
    have "0x10000 \<le> ?x" using assms(4) 4 by (simp add: decoded_def cp_ok_def)
    then show ?thesis using 4 a assms(3) m [of b] m [of c] m [of d]
      unfolding 4 decoded_def utf8_bytes_def list.case d div64(2)
      by simp
  qed
qed


lemma byte_at_encode:
  assumes "scalar cp" "i < length (utf8_bytes cp)"
  shows "byte_at (utf8_encode cp @ t) i = utf8_bytes cp ! i"
  using assms decode_bytes(6) [OF assms(1)]
  by (simp add: byte_at_def utf8_encode_def nth_append)

lemma verify_encode:
  assumes "scalar cp"
  shows "verify_utf8_sequence (utf8_encode cp @ t) = Some (length (utf8_bytes cp))"
proof -
  note d = decode_bytes [OF assms]
  have "byte_at (utf8_encode cp @ t) 0 = hd (utf8_bytes cp)"
    using byte_at_encode [OF assms, of 0 t] d(1) by (simp add: hd_conv_nth)
  moreover have "map (byte_at (utf8_encode cp @ t)) [0..<length (utf8_bytes cp)] = utf8_bytes cp"
    by (rule nth_equalityI) (simp_all add: byte_at_encode [OF assms])
  ultimately show ?thesis using d by (simp add: verify_utf8_spec Let_def)
qed

lemma verify_decodes:
  assumes "verify_utf8_sequence s = Some len" "s \<noteq> []"
  shows "\<exists>cp t. scalar cp \<and> s = utf8_encode cp @ t \<and> len = length (utf8_encode cp)"
proof -
  define bs where "bs = map (byte_at s) [0..<len]"
  have v: "num_bytes_in_utf8_sequence (byte_at s 0) = len" "len \<noteq> 0" "list_all cont (drop 1 bs)"
    "cp_ok len (decoded bs)"
    using assms(1) unfolding verify_utf8_spec Let_def bs_def by (auto split: if_splits)
  have len: "len \<le> length s"
  proof (rule ccontr)
    assume "\<not> len \<le> length s"
    then have "len - 1 < length (drop 1 bs) + 1" "byte_at s (len - 1) = 0" "len - 1 \<noteq> 0"
      using v(2) length_greater_0_conv [of s] assms(2)
      by (auto simp: bs_def byte_at_def Suc_le_eq simp del: length_greater_0_conv)
    moreover from this have "byte_at s (len - 1) \<in> set (drop 1 bs)"
      by (auto simp: bs_def drop_map in_set_conv_nth intro!: exI [of _ "len - 2"])
    ultimately show False using v(3) by (auto simp: list_all_iff cont_def)
  qed
  then have bs: "bs = map ord (take len s)" "length bs = len"
    by (auto simp: bs_def byte_at_def intro: nth_equalityI)
  obtain a cs where ac: "bs = a # cs" using v(2) bs(2) by (cases bs) auto
  have "a = byte_at s 0" using ac v(2) by (auto simp: bs_def upt_rec split: if_splits)
  then have "utf8_bytes (decoded bs) = bs"
    using encode_decoded [of a cs] ac v bs(2) by simp
  then have "utf8_encode (decoded bs) = take len s"
    using bs(1) by (simp add: utf8_encode_def comp_def)
  moreover have "scalar (decoded bs)" using v(4) by (simp add: cp_ok_def)
  moreover have "len = length (take len s)" using len by simp
  ultimately show ?thesis by (metis append_take_drop_id)
qed

lemma utf8_encode_nonempty: "utf8_encode cp \<noteq> []"
  by (simp add: utf8_encode_def utf8_bytes_def)

lemma valid_utf8_iff:
  "is_valid_utf8 s (length s) \<longleftrightarrow> (\<exists>cps. list_all scalar cps \<and> s = concat (map utf8_encode cps))"
proof
  show "is_valid_utf8 s (length s) \<Longrightarrow> \<exists>cps. list_all scalar cps \<and> s = concat (map utf8_encode cps)"
  proof (induction "length s" arbitrary: s rule: less_induct)
    case less
    show ?case
    proof (cases "s = []")
      case True
      then show ?thesis by (intro exI [of _ "[]"]) simp
    next
      case False
      then obtain len where len: "verify_utf8_sequence s = Some len"
        "is_valid_utf8 (drop len s) (length s - len)"
        using less.prems by (subst (asm) is_valid_utf8.simps) (auto split: option.splits)
      obtain cp t where cp: "scalar cp" "s = utf8_encode cp @ t" "len = length (utf8_encode cp)"
        using verify_decodes [OF len(1) False] by blast
      then have "\<exists>cps. list_all scalar cps \<and> t = concat (map utf8_encode cps)"
        using less.hyps [of t] len(2) utf8_encode_nonempty [of cp] by simp
      then obtain cps where "list_all scalar cps" "t = concat (map utf8_encode cps)" by blast
      then show ?thesis using cp by (intro exI [of _ "cp # cps"]) simp
    qed
  qed
next
  have "list_all scalar cps \<Longrightarrow> is_valid_utf8 (concat (map utf8_encode cps)) (length (concat (map utf8_encode cps)))" for cps
  proof (induction cps)
    case Nil
    show ?case by (simp add: is_valid_utf8.simps)
  next
    case (Cons cp cps)
    have "length (utf8_bytes cp) = length (utf8_encode cp)" by (simp add: utf8_encode_def)
    then show ?case
      using Cons verify_encode [of cp "concat (map utf8_encode cps)"] utf8_encode_nonempty [of cp]
      by (subst is_valid_utf8.simps) simp
  qed
  then show "\<exists>cps. list_all scalar cps \<and> s = concat (map utf8_encode cps) \<Longrightarrow> is_valid_utf8 s (length s)"
    by blast
qed


subsection \<open>Escapes\<close>

lemma or_high:
  fixes b m :: nat
  assumes "b < 2 ^ k" "m = a * 2 ^ k"
  shows "b OR m = m + b"
  using push_bit_or [OF assms(1), of a] assms(2) by (simp add: or.commute push_bit_eq_mult)

lemma hex_range: "hex_char_to_int c = -1 \<or> (\<exists>n < 16. hex_char_to_int c = int n)"
proof -
  have "ord CHR ''0'' = 48" "ord CHR ''9'' = 57" "ord CHR ''a'' = 97" "ord CHR ''f'' = 102"
    "ord CHR ''A'' = 65" "ord CHR ''F'' = 70" by (simp_all add: ord_def)
  note h = hex_char_to_int_def [of c, unfolded this]
  consider "48 \<le> ord c \<and> ord c \<le> 57" | "97 \<le> ord c \<and> ord c \<le> 102" | "65 \<le> ord c \<and> ord c \<le> 70"
    | "\<not> (48 \<le> ord c \<and> ord c \<le> 57)" "\<not> (97 \<le> ord c \<and> ord c \<le> 102)" "\<not> (65 \<le> ord c \<and> ord c \<le> 70)"
    by blast
  then show ?thesis
  proof cases
    case 1
    then show ?thesis unfolding h by (intro disjI2 exI [of _ "ord c - 48"]) auto
  next
    case 2
    then show ?thesis unfolding h by (intro disjI2 exI [of _ "ord c - 97 + 10"]) auto
  next
    case 3
    then show ?thesis unfolding h by (intro disjI2 exI [of _ "ord c - 65 + 10"]) auto
  next
    case 4
    then have "hex_char_to_int c = -1" unfolding h by auto
    then show ?thesis by simp
  qed
qed

text \<open>
  The value of four hexadecimal digits, most significant first, and the scalar value of an escape
  behind its \<open>\u\<close>, with the number of characters it takes: one group of digits, or two for a
  surrogate pair.
\<close>

definition hex_value :: "char \<Rightarrow> nat option" where
  "hex_value = map_of (zip ''0123456789abcdefABCDEF'' ([0..<16] @ [10..<16]))"

fun hex_quad :: "string \<Rightarrow> nat option" where
  "hex_quad (a # b # c # d # t) =
     (case map hex_value [a, b, c, d] of
        [Some k, Some l, Some m, Some n] \<Rightarrow> Some (((16 * k + l) * 16 + m) * 16 + n)
      | _ \<Rightarrow> None)"
| "hex_quad s = None"

definition escape_value :: "string \<Rightarrow> (nat \<times> nat) option" where
  "escape_value s =
     (case hex_quad s of
        None \<Rightarrow> None
      | Some high \<Rightarrow>
          if high < 0xD800 \<or> 0xDFFF < high then Some (high, 4)
          else if 0xDC00 \<le> high \<or> take 2 (drop 4 s) \<noteq> [BSL, CHR ''u''] then None
          else case hex_quad (drop 6 s) of
              None \<Rightarrow> None
            | Some low \<Rightarrow>
                if 0xDC00 \<le> low \<and> low \<le> 0xDFFF
                then Some (0x10000 + (high - 0xD800) * 0x400 + (low - 0xDC00), 10) else None)"

lemma chars_between:
  "m \<le> ord c \<Longrightarrow> ord c \<le> n \<Longrightarrow> c \<in> set (map chr [m..<Suc n])"
  using chr_ord [of c] by (metis atLeastLessThan_iff image_eqI image_set less_Suc_eq_le set_upt)

lemma digit_chars:
  "map chr [48..<Suc 57] = ''0123456789''" "map chr [97..<Suc 102] = ''abcdef''"
  "map chr [65..<Suc 70] = ''ABCDEF''"
  by code_simp+

lemma hex_value_char:
  "hex_char_to_int c = (case hex_value c of None \<Rightarrow> -1 | Some n \<Rightarrow> int n)"
proof (cases "c \<in> set ''0123456789abcdefABCDEF''")
  case True
  then show ?thesis by (auto simp: hex_value_def hex_char_to_int_def ord_def upt_rec)
next
  case False
  have "ord CHR ''0'' = 48" "ord CHR ''9'' = 57" "ord CHR ''a'' = 97" "ord CHR ''f'' = 102"
    "ord CHR ''A'' = 65" "ord CHR ''F'' = 70" by (simp_all add: ord_def)
  note h = hex_char_to_int_def [of c, unfolded this]
  have "\<not> (48 \<le> ord c \<and> ord c \<le> 57)" "\<not> (97 \<le> ord c \<and> ord c \<le> 102)" "\<not> (65 \<le> ord c \<and> ord c \<le> 70)"
    using False chars_between [of 48 c 57] chars_between [of 97 c 102] chars_between [of 65 c 70]
    unfolding digit_chars by auto
  then have "hex_char_to_int c = -1" unfolding h by auto
  moreover have "hex_value c = None" using False by (simp add: hex_value_def map_of_eq_None_iff upt_rec)
  ultimately show ?thesis by simp
qed

lemma hex_value_less: "hex_value c = Some n \<Longrightarrow> n < 16"
  using hex_range [of c] by (auto simp: hex_value_char)

lemma hex_or:
  fixes a b c d :: nat
  assumes "a < 16" "b < 16" "c < 16" "d < 16"
  shows "push_bit 12 a OR push_bit 8 b OR push_bit 4 c OR d = ((16 * a + b) * 16 + c) * 16 + d"
proof -
  have "push_bit 4 c OR d = c * 16 + d" using push_bit_or [of d 4 c] assms by simp
  moreover have "push_bit 8 b OR (c * 16 + d) = b * 256 + (c * 16 + d)"
    using push_bit_or [of "c * 16 + d" 8 b] assms by simp
  moreover have "push_bit 12 a OR (b * 256 + (c * 16 + d)) = a * 4096 + (b * 256 + (c * 16 + d))"
    using push_bit_or [of "b * 256 + (c * 16 + d)" 12 a] assms by simp
  ultimately show ?thesis by (simp add: or.assoc)
qed

lemma parse_hex_quad: "parse_utf16_hex s = hex_quad s"
proof (cases s rule: hex_quad.cases)
  case (1 a b c d t)
  show ?thesis
  proof (cases "\<exists>k l m n. map hex_value [a, b, c, d] = [Some k, Some l, Some m, Some n]")
    case True
    then obtain k l m n where v: "hex_value a = Some k" "hex_value b = Some l" "hex_value c = Some m" "hex_value d = Some n"
      by auto
    note lt = v [THEN hex_value_less]
    have "nat (push_bit 12 (int k) OR push_bit 8 (int l) OR push_bit 4 (int m) OR int n) =
        push_bit 12 k OR push_bit 8 l OR push_bit 4 m OR n"
      by (metis nat_int of_nat_or_eq of_nat_push_bit)
    then show ?thesis using v hex_or [OF lt] 1
      by (simp add: parse_utf16_hex_def hex_value_char Let_def)
  next
    case False
    then show ?thesis using 1
      by (auto simp: parse_utf16_hex_def hex_value_char Let_def split: option.splits)
  qed
qed (simp_all add: parse_utf16_hex_def)

lemma hex_quad_bounds:
  assumes "hex_quad s = Some v"
  shows "v < 0x10000" "4 \<le> length s"
proof -
  have "v < 0x10000 \<and> 4 \<le> length s"
  proof (cases s rule: hex_quad.cases)
    case (1 a b c d u)
    then obtain k l m n where v: "hex_value a = Some k" "hex_value b = Some l" "hex_value c = Some m"
      "hex_value d = Some n" "v = ((16 * k + l) * 16 + m) * 16 + n"
      using assms by (auto split: option.splits)
    then show ?thesis using 1 v(1-4) [THEN hex_value_less] by simp
  qed (use assms in simp_all)
  then show "v < 0x10000" "4 \<le> length s" by blast+
qed

lemma low_bytes:
  fixes x :: nat
  shows "(x AND 0x1F) OR 0xC0 = 192 + x mod 32" "(x AND 0x0F) OR 0xE0 = 224 + x mod 16"
    "(x AND 0x07) OR 0xF0 = 240 + x mod 8" "(x AND 0x3F) OR 0x80 = 128 + x mod 64"
  unfolding byte_masks
  using or_high [of "x mod 32" 5 "0xC0" 6] or_high [of "x mod 16" 4 "0xE0" 14]
    or_high [of "x mod 8" 3 "0xF0" 30] or_high [of "x mod 64" 6 "0x80" 2] by simp_all

lemma surrogates_joined:
  fixes high low :: nat
  assumes "0xD800 \<le> high" "high \<le> 0xDBFF" "0xDC00 \<le> low" "low \<le> 0xDFFF"
  shows "(push_bit 10 ((high - 0xD800) AND 0x3FF) OR ((low - 0xDC00) AND 0x3FF)) + 0x010000 =
    0x10000 + (high - 0xD800) * 0x400 + (low - 0xDC00)"
  using push_bit_or [of "low - 0xDC00" 10 "high - 0xD800"] assms unfolding byte_masks by simp

lemma four_bytes:
  assumes "0x10000 \<le> x" "x \<le> 0x10FFFF"
  shows "[chr ((drop_bit 18 x AND 0x07) OR 0xF0), chr ((drop_bit 12 x AND 0x3F) OR 0x80),
      chr ((drop_bit 6 x AND 0x3F) OR 0x80), chr ((x AND 0x3F) OR 0x80)] = utf8_encode x"
proof -
  have "x div 262144 < 5" using assms by simp
  then show ?thesis using assms by (simp add: utf8_encode_def utf8_bytes_def low_bytes drop_bit_eq_div)
qed

lemma backslash_u: "take 2 t = [BSL, CHR ''u''] \<longleftrightarrow> peek t = BSL \<and> peek (drop 1 t) = CHR ''u''"
proof (cases t)
  case (Cons a r)
  then show ?thesis by (cases r) auto
qed simp

lemma parse_utf16_value:
  "(case escape_value s of
      None \<Rightarrow> parse_utf16 (u # s) = None
    | Some (cp, k) \<Rightarrow> scalar cp \<and> k \<le> length s \<and> parse_utf16 (u # s) = Some (utf8_encode cp, drop (k - 1) s))"
proof (cases "hex_quad s")
  case None
  then show ?thesis by (simp add: parse_utf16_def escape_value_def parse_hex_quad)
next
  case (Some high)
  note r = hex_quad_bounds [OF Some]
  note defs = parse_utf16_def escape_value_def parse_hex_quad Let_def
  consider "high < 0x80" | "0x80 \<le> high" "high < 0x800" | "0x800 \<le> high" "high < 0xD800 \<or> high > 0xDFFF"
    | "0xD800 \<le> high" "high \<le> 0xDBFF" | "0xDC00 \<le> high" "high \<le> 0xDFFF" by linarith
  then show ?thesis
  proof cases
    case 1
    then show ?thesis using Some r by (simp add: defs scalar_def utf8_encode_def utf8_bytes_def)
  next
    case 2
    then have "high div 64 < 32" by simp
    then show ?thesis using 2 Some r
      by (simp add: defs scalar_def utf8_encode_def utf8_bytes_def low_bytes drop_bit_eq_div)
  next
    case 3
    then have "high div 4096 < 16" using r by simp
    then show ?thesis using 3 Some r
      by (auto simp: defs scalar_def utf8_encode_def utf8_bytes_def low_bytes drop_bit_eq_div)
  next
    case 4
    show ?thesis
    proof (cases "take 2 (drop 4 s) = [BSL, CHR ''u'']")
      case False
      then show ?thesis using 4 Some by (simp add: defs backslash_u)
    next
      case pair: True
      then have p: "peek (drop 4 s) = BSL" "peek (drop (Suc 4) s) = CHR ''u''" by (simp_all add: backslash_u)
      show ?thesis
      proof (cases "hex_quad (drop 6 s)")
        case None
        then show ?thesis using 4 Some pair p by (simp add: defs)
      next
        case low: (Some low)
        have len: "10 \<le> length s" using hex_quad_bounds(2) [OF low] by simp
        show ?thesis
        proof (cases "0xDC00 \<le> low \<and> low \<le> 0xDFFF")
          case True
          define x where "x = 0x10000 + (high - 0xD800) * 0x400 + (low - 0xDC00)"
          have x: "0x10000 \<le> x" "x \<le> 0x10FFFF" using True 4 unfolding x_def by linarith+
          have "parse_utf16 (u # s) =
              (let cp = (push_bit 10 ((high - 0xD800) AND 0x3FF) OR ((low - 0xDC00) AND 0x3FF)) + 0x010000
               in Some ([chr ((drop_bit 18 cp AND 0x07) OR 0xF0), chr ((drop_bit 12 cp AND 0x3F) OR 0x80),
                 chr ((drop_bit 6 cp AND 0x3F) OR 0x80), chr ((cp AND 0x3F) OR 0x80)], drop 9 s))"
            using True 4 Some p low by (simp add: parse_utf16_def parse_hex_quad Let_def)
          also have "\<dots> = Some (utf8_encode x, drop 9 s)"
            unfolding Let_def surrogates_joined [OF 4 True [THEN conjunct1] True [THEN conjunct2]] x_def [symmetric]
            by (simp only: four_bytes [OF x])
          moreover have "escape_value s = Some (x, 10)"
            using True 4 Some pair low by (simp add: escape_value_def x_def)
          ultimately show ?thesis using x len by (simp add: scalar_def)
        next
          case False
          then show ?thesis using 4 Some pair p low by (auto simp: defs)
        qed
      qed
    qed
  next
    case 5
    then show ?thesis using Some by (simp add: defs)
  qed
qed
subsection \<open>Properties\<close>

text \<open>
  C24: The UTF-8 check accepts a string exactly when it is the concatenation of the encodings of
  Unicode scalar values: overlong forms, surrogates, values past U+10FFFF, stray continuation
  bytes and sequences cut off by the end of the string are all refused.
\<close>

theorem utf8_check_exact:
  "is_valid_utf8 s (length s) \<longleftrightarrow> (\<exists>cps. list_all scalar cps \<and> s = concat (map utf8_encode cps))"
  by (rule valid_utf8_iff)

text \<open>
  C25: A \<open>\u\<close> escape becomes the UTF-8 encoding of the scalar value it stands for: of the value of its
  four hexadecimal digits, and of \<open>0x10000 + (high - 0xD800) * 0x400 + (low - 0xDC00)\<close> for a pair of
  surrogates.  The input goes on from its last digit, the fourth or the tenth character behind the
  \<open>u\<close>.  Everything else, a lone surrogate included, is refused.
\<close>

theorem unicode_escape_encodes:
  "(case escape_value s of
      None \<Rightarrow> parse_utf16 (CHR ''u'' # s) = None
    | Some (cp, k) \<Rightarrow> scalar cp \<and> k \<le> length s \<and>
        parse_utf16 (CHR ''u'' # s) = Some (utf8_encode cp, drop (k - 1) s))"
  by (rule parse_utf16_value)

text \<open>
  The check reads past the length it is given: told that a string is one byte long, it accepts
  the first byte of any character, also of one that continues after that byte, although that byte
  alone is not valid UTF-8.
\<close>

theorem truncated_character_accepted:
  assumes "scalar cp" "0x80 \<le> cp"
  shows "is_valid_utf8 (utf8_encode cp @ t) 1 \<and> \<not> is_valid_utf8 (take 1 (utf8_encode cp @ t)) 1"
proof -
  have "is_valid_utf8 (utf8_encode cp @ t) 1"
    using verify_encode [OF assms(1), of t] decode_bytes(1) [OF assms(1)]
    by (subst is_valid_utf8.simps) (simp add: is_valid_utf8.simps Suc_le_eq)
  moreover have "\<not> is_valid_utf8 (take 1 (utf8_encode cp @ t)) 1"
  proof
    let ?s = "take 1 (utf8_encode cp @ t)"
    have s: "length ?s = 1" using utf8_encode_nonempty [of cp] by (cases "utf8_encode cp") auto
    assume "is_valid_utf8 ?s 1"
    then obtain len where v: "verify_utf8_sequence ?s = Some len"
      by (subst (asm) is_valid_utf8.simps) (auto split: option.splits)
    have "?s \<noteq> []" using s by auto
    then obtain cp' t' where "scalar cp'" "?s = utf8_encode cp' @ t'" "len = length (utf8_encode cp')"
      using verify_decodes [OF v] by blast
    then have l: "length (utf8_encode cp') = 1" using s utf8_encode_nonempty [of cp']
      by (cases "utf8_encode cp'") auto
    then have "len = 1" using \<open>len = _\<close> by simp
    have "?s = [chr (hd (utf8_bytes cp))]"
      by (simp add: utf8_encode_def utf8_bytes_def)
    moreover have "hd (utf8_bytes cp) < 256" "194 \<le> hd (utf8_bytes cp)"
      using decode_bytes(1,2,6) [OF assms(1)] assms
      by (auto simp: utf8_bytes_def scalar_def)
    ultimately have "byte_at ?s 0 = hd (utf8_bytes cp)"
      by (simp add: byte_at_def)
    then have "num_bytes_in_utf8_sequence (byte_at ?s 0) \<noteq> 1"
      using \<open>194 \<le> _\<close> \<open>_ < 256\<close> by (simp add: num_bytes_iff)
    then show False using v \<open>len = 1\<close> by (auto simp: verify_utf8_spec Let_def split: if_splits)
  qed
  ultimately show ?thesis by blast
qed

theorem truncated_character_accepted_witness:
  "is_valid_utf8 (utf8_encode 0xE9 @ []) 1 \<and> \<not> is_valid_utf8 (take 1 (utf8_encode 0xE9 @ [])) 1"
  by (rule truncated_character_accepted) (simp_all add: scalar_def)

end
