(* ===== verification/Json_Value.thy ===== *)
theory Json_Value
  imports Json_Object Json_Utf8
begin

text \<open>
  The values of \<open>parson/src/parson.c\<close> and the operations on them: constructors, accessors, arrays,
  objects with plain and dotted names, deep copy, equality and validation against a schema.

  A value owns its parts, so a tree of values is a datatype; a pointer that may be null is an
  option.  Where the code asks whether a value already has a parent, the flag \<open>owned\<close> says so.
  Floating point is a parameter: the type \<open>'d\<close> of doubles and, in the environment \<open>json_env\<close>,
  the library operations on it that the code calls.  \<open>mem\<close> says for which sizes an allocation
  succeeds.  The outer option of an object operation is that of \<open>Json_Object\<close>: an access to a
  freed item has no result.
\<close>

subsection \<open>Values\<close>

datatype json_value_type =
  JSONError | JSONNull | JSONString | JSONNumber | JSONObject | JSONArray | JSONBoolean

datatype 'v json_array = JSON_Array (items: "'v list") (capacity: nat)

datatype 'd json_value =
  JSON_Null | JSON_String string | JSON_Number 'd | JSON_Obj "'d json_value json_object"
  | JSON_Arr "'d json_value json_array" | JSON_Bool int

text \<open>
  \<open>num_near\<close> is \<open>fabs(a - b) < 0.000001\<close>, \<open>num_invalid\<close> is \<open>isnan || isinf\<close>, \<open>num_huge\<close> compares
  with \<open>HUGE_VAL\<close>; \<open>strtod\<close> gives the number, the characters it took and \<open>errno\<close>, and
  \<open>sprintf_num\<close> the text of a number in the float format.
\<close>

record 'd json_env =
  mem :: "nat \<Rightarrow> bool"
  num_zero :: 'd
  num_invalid :: "'d \<Rightarrow> bool"
  num_huge :: "'d \<Rightarrow> bool"
  num_near :: "'d \<Rightarrow> 'd \<Rightarrow> bool"
  strtod :: "string \<Rightarrow> 'd \<times> nat \<times> int"
  sprintf_num :: "'d \<Rightarrow> string"
  escape_slashes :: bool

text \<open>Structure sizes with 64-bit pointers.\<close>

definition sizeof_JSON_Value :: nat where "sizeof_JSON_Value = 32"
definition sizeof_JSON_Object :: nat where "sizeof_JSON_Object = 72"
definition sizeof_JSON_Array :: nat where "sizeof_JSON_Array = 32"
definition sizeof_pointer :: nat where "sizeof_pointer = 8"

definition table_mem :: "'d json_env \<Rightarrow> nat \<Rightarrow> bool" where
  "table_mem E cap \<longleftrightarrow> mem E (cap * sizeof_pointer) \<and> mem E (item_capacity_for cap * sizeof_pointer)"

subsection \<open>Accessors\<close>

definition json_value_get_type :: "'d json_value option \<Rightarrow> json_value_type" where
  "json_value_get_type v =
     (case v of None \<Rightarrow> JSONError | Some JSON_Null \<Rightarrow> JSONNull | Some (JSON_String _) \<Rightarrow> JSONString
      | Some (JSON_Number _) \<Rightarrow> JSONNumber | Some (JSON_Obj _) \<Rightarrow> JSONObject
      | Some (JSON_Arr _) \<Rightarrow> JSONArray | Some (JSON_Bool _) \<Rightarrow> JSONBoolean)"

definition json_value_get_object :: "'d json_value option \<Rightarrow> 'd json_value json_object option" where
  "json_value_get_object v = (case v of Some (JSON_Obj ob) \<Rightarrow> Some ob | _ \<Rightarrow> None)"

definition json_value_get_array :: "'d json_value option \<Rightarrow> 'd json_value json_array option" where
  "json_value_get_array v = (case v of Some (JSON_Arr a) \<Rightarrow> Some a | _ \<Rightarrow> None)"

definition json_value_get_string :: "'d json_value option \<Rightarrow> string option" where
  "json_value_get_string v = (case v of Some (JSON_String s) \<Rightarrow> Some s | _ \<Rightarrow> None)"

definition json_value_get_string_len :: "'d json_value option \<Rightarrow> nat" where
  "json_value_get_string_len v = (case v of Some (JSON_String s) \<Rightarrow> length s | _ \<Rightarrow> 0)"

definition json_value_get_number :: "'d json_env \<Rightarrow> 'd json_value option \<Rightarrow> 'd" where
  "json_value_get_number E v = (case v of Some (JSON_Number d) \<Rightarrow> d | _ \<Rightarrow> num_zero E)"

definition json_value_get_boolean :: "'d json_value option \<Rightarrow> int" where
  "json_value_get_boolean v = (case v of Some (JSON_Bool b) \<Rightarrow> b | _ \<Rightarrow> -1)"

text \<open>The short names.\<close>

definition json_type :: "'d json_value option \<Rightarrow> json_value_type" where
  "json_type value = json_value_get_type value"
definition json_object :: "'d json_value option \<Rightarrow> 'd json_value json_object option" where
  "json_object value = json_value_get_object value"
definition json_array :: "'d json_value option \<Rightarrow> 'd json_value json_array option" where
  "json_array value = json_value_get_array value"
definition json_string :: "'d json_value option \<Rightarrow> string option" where
  "json_string value = json_value_get_string value"
definition json_string_len :: "'d json_value option \<Rightarrow> nat" where
  "json_string_len value = json_value_get_string_len value"
definition json_number :: "'d json_env \<Rightarrow> 'd json_value option \<Rightarrow> 'd" where
  "json_number E value = json_value_get_number E value"
definition json_boolean :: "'d json_value option \<Rightarrow> int" where
  "json_boolean value = json_value_get_boolean value"

subsection \<open>Constructors\<close>

definition json_object_make :: "'d json_env \<Rightarrow> 'd json_value json_object option" where
  "json_object_make E =
     (if \<not> mem E sizeof_JSON_Object then None
      else let (res, ob) = json_object_init (table_mem E) 0
        in if res \<noteq> JSONSuccess then None else Some ob)"

definition json_array_make :: "'d json_env \<Rightarrow> 'd json_value json_array option" where
  "json_array_make E = (if \<not> mem E sizeof_JSON_Array then None else Some (JSON_Array [] 0))"

definition json_value_init_object :: "'d json_env \<Rightarrow> 'd json_value option" where
  "json_value_init_object E =
     (if \<not> mem E sizeof_JSON_Value then None else map_option JSON_Obj (json_object_make E))"

definition json_value_init_array :: "'d json_env \<Rightarrow> 'd json_value option" where
  "json_value_init_array E =
     (if \<not> mem E sizeof_JSON_Value then None else map_option JSON_Arr (json_array_make E))"

definition json_value_init_string_no_copy :: "'d json_env \<Rightarrow> string \<Rightarrow> 'd json_value option" where
  "json_value_init_string_no_copy E s =
     (if \<not> mem E sizeof_JSON_Value then None else Some (JSON_String s))"

definition parson_strndup :: "'d json_env \<Rightarrow> string \<Rightarrow> nat \<Rightarrow> string option" where
  "parson_strndup E s n = (if \<not> mem E (n + 1) then None else Some (take n s))"

definition parson_strdup :: "'d json_env \<Rightarrow> string \<Rightarrow> string option" where
  "parson_strdup E s = parson_strndup E s (length s)"

definition json_value_init_string_with_len :: "'d json_env \<Rightarrow> string option \<Rightarrow> nat \<Rightarrow> 'd json_value option" where
  "json_value_init_string_with_len E string len =
     (case string of
        None \<Rightarrow> None
      | Some s \<Rightarrow>
          if \<not> is_valid_utf8 s len then None
          else case parson_strndup E s len of
            None \<Rightarrow> None
          | Some copy \<Rightarrow> json_value_init_string_no_copy E copy)"

definition json_value_init_string :: "'d json_env \<Rightarrow> string option \<Rightarrow> 'd json_value option" where
  "json_value_init_string E string =
     (case string of None \<Rightarrow> None | Some s \<Rightarrow> json_value_init_string_with_len E (Some s) (length s))"

definition json_value_init_number :: "'d json_env \<Rightarrow> 'd \<Rightarrow> 'd json_value option" where
  "json_value_init_number E number =
     (if num_invalid E number then None
      else if \<not> mem E sizeof_JSON_Value then None else Some (JSON_Number number))"

definition json_value_init_boolean :: "'d json_env \<Rightarrow> int \<Rightarrow> 'd json_value option" where
  "json_value_init_boolean E boolean =
     (if \<not> mem E sizeof_JSON_Value then None else Some (JSON_Bool (if boolean \<noteq> 0 then 1 else 0)))"

definition json_value_init_null :: "'d json_env \<Rightarrow> 'd json_value option" where
  "json_value_init_null E = (if \<not> mem E sizeof_JSON_Value then None else Some JSON_Null)"

subsection \<open>Arrays\<close>

definition json_array_resize ::
    "'d json_env \<Rightarrow> 'd json_value json_array \<Rightarrow> nat \<Rightarrow> json_status \<times> 'd json_value json_array" where
  "json_array_resize E array new_capacity =
     (if new_capacity = 0 then (JSONFailure, array)
      else if \<not> mem E (new_capacity * sizeof_pointer) then (JSONFailure, array)
      else (JSONSuccess, JSON_Array (items array) new_capacity))"

definition json_array_add ::
    "'d json_env \<Rightarrow> 'd json_value json_array \<Rightarrow> 'd json_value \<Rightarrow> json_status \<times> 'd json_value json_array" where
  "json_array_add E array value =
     (let (res, array') =
        (if length (items array) \<ge> capacity array
         then json_array_resize E array (max (capacity array * 2) STARTING_CAPACITY)
         else (JSONSuccess, array))
      in if res \<noteq> JSONSuccess then (JSONFailure, array)
         else (JSONSuccess, JSON_Array (items array' @ [value]) (capacity array')))"

definition json_array_get_count :: "'d json_value json_array option \<Rightarrow> nat" where
  "json_array_get_count array = (case array of None \<Rightarrow> 0 | Some a \<Rightarrow> length (items a))"

definition json_array_get_value :: "'d json_value json_array option \<Rightarrow> nat \<Rightarrow> 'd json_value option" where
  "json_array_get_value array index =
     (case array of
        None \<Rightarrow> None
      | Some a \<Rightarrow> if index \<ge> json_array_get_count array then None else Some (items a ! index))"

definition json_array_remove ::
    "'d json_value json_array option \<Rightarrow> nat \<Rightarrow> json_status \<times> 'd json_value json_array option" where
  "json_array_remove array ix =
     (case array of
        None \<Rightarrow> (JSONFailure, None)
      | Some a \<Rightarrow>
          if ix \<ge> json_array_get_count array then (JSONFailure, array)
          else (JSONSuccess, Some (JSON_Array (take ix (items a) @ drop (ix + 1) (items a)) (capacity a))))"

definition json_array_replace_value ::
    "'d json_value json_array option \<Rightarrow> nat \<Rightarrow> 'd json_value option \<Rightarrow> bool \<Rightarrow>
     json_status \<times> 'd json_value json_array option" where
  "json_array_replace_value array ix value owned =
     (case (array, value) of
        (Some a, Some v) \<Rightarrow>
          if owned \<or> ix \<ge> json_array_get_count array then (JSONFailure, array)
          else (JSONSuccess, Some (JSON_Array ((items a)[ix := v]) (capacity a)))
      | _ \<Rightarrow> (JSONFailure, array))"

definition json_array_append_value ::
    "'d json_env \<Rightarrow> 'd json_value json_array option \<Rightarrow> 'd json_value option \<Rightarrow> bool \<Rightarrow>
     json_status \<times> 'd json_value json_array option" where
  "json_array_append_value E array value owned =
     (case (array, value) of
        (Some a, Some v) \<Rightarrow>
          if owned then (JSONFailure, array)
          else map_prod id Some (json_array_add E a v)
      | _ \<Rightarrow> (JSONFailure, array))"

definition json_array_clear ::
    "'d json_value json_array option \<Rightarrow> json_status \<times> 'd json_value json_array option" where
  "json_array_clear array =
     (case array of
        None \<Rightarrow> (JSONFailure, None)
      | Some a \<Rightarrow> (JSONSuccess, Some (JSON_Array [] (capacity a))))"

text \<open>
  The typed variants build the value first, and report a failure when they cannot; a value that
  was not taken over is freed again.
\<close>

definition json_array_replace_string ::
    "'d json_env \<Rightarrow> 'd json_value json_array option \<Rightarrow> nat \<Rightarrow> string option \<Rightarrow> json_status \<times> 'd json_value json_array option" where
  "json_array_replace_string E array i string =
     json_array_replace_value array i (json_value_init_string E string) False"

definition json_array_replace_string_with_len ::
    "'d json_env \<Rightarrow> 'd json_value json_array option \<Rightarrow> nat \<Rightarrow> string option \<Rightarrow> nat \<Rightarrow> json_status \<times> 'd json_value json_array option" where
  "json_array_replace_string_with_len E array i string len =
     json_array_replace_value array i (json_value_init_string_with_len E string len) False"

definition json_array_replace_number ::
    "'d json_env \<Rightarrow> 'd json_value json_array option \<Rightarrow> nat \<Rightarrow> 'd \<Rightarrow> json_status \<times> 'd json_value json_array option" where
  "json_array_replace_number E array i number =
     json_array_replace_value array i (json_value_init_number E number) False"

definition json_array_replace_boolean ::
    "'d json_env \<Rightarrow> 'd json_value json_array option \<Rightarrow> nat \<Rightarrow> int \<Rightarrow> json_status \<times> 'd json_value json_array option" where
  "json_array_replace_boolean E array i boolean =
     json_array_replace_value array i (json_value_init_boolean E boolean) False"

definition json_array_replace_null ::
    "'d json_env \<Rightarrow> 'd json_value json_array option \<Rightarrow> nat \<Rightarrow> json_status \<times> 'd json_value json_array option" where
  "json_array_replace_null E array i = json_array_replace_value array i (json_value_init_null E) False"

definition json_array_append_string ::
    "'d json_env \<Rightarrow> 'd json_value json_array option \<Rightarrow> string option \<Rightarrow> json_status \<times> 'd json_value json_array option" where
  "json_array_append_string E array string =
     json_array_append_value E array (json_value_init_string E string) False"

definition json_array_append_string_with_len ::
    "'d json_env \<Rightarrow> 'd json_value json_array option \<Rightarrow> string option \<Rightarrow> nat \<Rightarrow> json_status \<times> 'd json_value json_array option" where
  "json_array_append_string_with_len E array string len =
     json_array_append_value E array (json_value_init_string_with_len E string len) False"

definition json_array_append_number ::
    "'d json_env \<Rightarrow> 'd json_value json_array option \<Rightarrow> 'd \<Rightarrow> json_status \<times> 'd json_value json_array option" where
  "json_array_append_number E array number =
     json_array_append_value E array (json_value_init_number E number) False"

definition json_array_append_boolean ::
    "'d json_env \<Rightarrow> 'd json_value json_array option \<Rightarrow> int \<Rightarrow> json_status \<times> 'd json_value json_array option" where
  "json_array_append_boolean E array boolean =
     json_array_append_value E array (json_value_init_boolean E boolean) False"

definition json_array_append_null ::
    "'d json_env \<Rightarrow> 'd json_value json_array option \<Rightarrow> json_status \<times> 'd json_value json_array option" where
  "json_array_append_null E array = json_array_append_value E array (json_value_init_null E) False"

definition json_array_get_string :: "'d json_value json_array option \<Rightarrow> nat \<Rightarrow> string option" where
  "json_array_get_string array index = json_value_get_string (json_array_get_value array index)"

definition json_array_get_string_len :: "'d json_value json_array option \<Rightarrow> nat \<Rightarrow> nat" where
  "json_array_get_string_len array index = json_value_get_string_len (json_array_get_value array index)"

definition json_array_get_number :: "'d json_env \<Rightarrow> 'd json_value json_array option \<Rightarrow> nat \<Rightarrow> 'd" where
  "json_array_get_number E array index = json_value_get_number E (json_array_get_value array index)"

definition json_array_get_object :: "'d json_value json_array option \<Rightarrow> nat \<Rightarrow> 'd json_value json_object option" where
  "json_array_get_object array index = json_value_get_object (json_array_get_value array index)"

definition json_array_get_array :: "'d json_value json_array option \<Rightarrow> nat \<Rightarrow> 'd json_value json_array option" where
  "json_array_get_array array index = json_value_get_array (json_array_get_value array index)"

definition json_array_get_boolean :: "'d json_value json_array option \<Rightarrow> nat \<Rightarrow> int" where
  "json_array_get_boolean array index = json_value_get_boolean (json_array_get_value array index)"

subsection \<open>Objects by name\<close>

type_synonym 'd obj = "'d json_value json_object"

definition object_getn_value :: "'d obj option \<Rightarrow> string \<Rightarrow> nat \<Rightarrow> 'd json_value option option" where
  "object_getn_value object name name_len =
     (case object of None \<Rightarrow> Some None | Some ob \<Rightarrow> json_object_getn_value ob name name_len)"

definition object_get_value :: "'d obj option \<Rightarrow> string \<Rightarrow> 'd json_value option option" where
  "object_get_value object name =
     (case object of None \<Rightarrow> Some None | Some ob \<Rightarrow> json_object_get_value ob name)"

definition dot_position :: "string \<Rightarrow> nat option" where
  "dot_position name =
     (if CHR ''.'' \<in> set name then Some (length (takeWhile (\<lambda>c. c \<noteq> CHR ''.'') name)) else None)"

lemma dot_position_less: "dot_position name = Some n \<Longrightarrow> n < length name"
  by (auto simp: dot_position_def intro: length_takeWhile_stop split: if_splits)

function json_object_dotget_value :: "'d obj option \<Rightarrow> string \<Rightarrow> 'd json_value option option" where
  "json_object_dotget_value object name =
     (case dot_position name of
        None \<Rightarrow> object_get_value object name
      | Some n \<Rightarrow> object_getn_value object name n \<bind> (\<lambda>v.
          json_object_dotget_value (json_value_get_object v) (drop (n + 1) name)))"
  by pat_completeness auto
termination
  by (relation "measure (\<lambda>(ob, name). length name)") (auto dest: dot_position_less)

declare json_object_dotget_value.simps [simp del]

definition json_object_get_string ::
    "'d obj option \<Rightarrow> string \<Rightarrow> (string option) option" where
  "json_object_get_string object name = map_option (json_value_get_string) (object_get_value object name)"

definition json_object_get_string_len ::
    "'d obj option \<Rightarrow> string \<Rightarrow> nat option" where
  "json_object_get_string_len object name = map_option (json_value_get_string_len) (object_get_value object name)"

definition json_object_get_number ::
    "'d json_env \<Rightarrow> 'd obj option \<Rightarrow> string \<Rightarrow> 'd option" where
  "json_object_get_number E object name = map_option (json_value_get_number E) (object_get_value object name)"

definition json_object_get_object ::
    "'d obj option \<Rightarrow> string \<Rightarrow> ('d obj option) option" where
  "json_object_get_object object name = map_option (json_value_get_object) (object_get_value object name)"

definition json_object_get_array ::
    "'d obj option \<Rightarrow> string \<Rightarrow> ('d json_value json_array option) option" where
  "json_object_get_array object name = map_option (json_value_get_array) (object_get_value object name)"

definition json_object_get_boolean ::
    "'d obj option \<Rightarrow> string \<Rightarrow> int option" where
  "json_object_get_boolean object name = map_option (json_value_get_boolean) (object_get_value object name)"

definition json_object_dotget_string ::
    "'d obj option \<Rightarrow> string \<Rightarrow> (string option) option" where
  "json_object_dotget_string object name = map_option (json_value_get_string) (json_object_dotget_value object name)"

definition json_object_dotget_string_len ::
    "'d obj option \<Rightarrow> string \<Rightarrow> nat option" where
  "json_object_dotget_string_len object name = map_option (json_value_get_string_len) (json_object_dotget_value object name)"

definition json_object_dotget_number ::
    "'d json_env \<Rightarrow> 'd obj option \<Rightarrow> string \<Rightarrow> 'd option" where
  "json_object_dotget_number E object name = map_option (json_value_get_number E) (json_object_dotget_value object name)"

definition json_object_dotget_object ::
    "'d obj option \<Rightarrow> string \<Rightarrow> ('d obj option) option" where
  "json_object_dotget_object object name = map_option (json_value_get_object) (json_object_dotget_value object name)"

definition json_object_dotget_array ::
    "'d obj option \<Rightarrow> string \<Rightarrow> ('d json_value json_array option) option" where
  "json_object_dotget_array object name = map_option (json_value_get_array) (json_object_dotget_value object name)"

definition json_object_dotget_boolean ::
    "'d obj option \<Rightarrow> string \<Rightarrow> int option" where
  "json_object_dotget_boolean object name = map_option (json_value_get_boolean) (json_object_dotget_value object name)"

definition json_object_has_value ::
    "'d obj option \<Rightarrow> string \<Rightarrow> bool option" where
  "json_object_has_value object name = map_option (\<lambda>v. v \<noteq> None) (object_get_value object name)"

definition json_object_has_value_of_type ::
    "'d obj option \<Rightarrow> string \<Rightarrow> json_value_type \<Rightarrow> bool option" where
  "json_object_has_value_of_type object name type =
     map_option (\<lambda>v. v \<noteq> None \<and> json_value_get_type v = type) (object_get_value object name)"

definition json_object_dothas_value ::
    "'d obj option \<Rightarrow> string \<Rightarrow> bool option" where
  "json_object_dothas_value object name = map_option (\<lambda>v. v \<noteq> None) (json_object_dotget_value object name)"

definition json_object_dothas_value_of_type ::
    "'d obj option \<Rightarrow> string \<Rightarrow> json_value_type \<Rightarrow> bool option" where
  "json_object_dothas_value_of_type object name type =
     map_option (\<lambda>v. v \<noteq> None \<and> json_value_get_type v = type) (json_object_dotget_value object name)"

definition object_get_count :: "'d obj option \<Rightarrow> nat" where
  "object_get_count object = (case object of None \<Rightarrow> 0 | Some ob \<Rightarrow> json_object_get_count ob)"

definition object_get_name :: "'d obj option \<Rightarrow> nat \<Rightarrow> string option" where
  "object_get_name object index = (case object of None \<Rightarrow> None | Some ob \<Rightarrow> json_object_get_name ob index)"

definition object_get_value_at :: "'d obj option \<Rightarrow> nat \<Rightarrow> 'd json_value option" where
  "object_get_value_at object index =
     (case object of None \<Rightarrow> None | Some ob \<Rightarrow> json_object_get_value_at ob index)"

subsection \<open>Changing objects\<close>

definition json_object_set_value ::
    "'d json_env \<Rightarrow> 'd obj option \<Rightarrow> string \<Rightarrow> 'd json_value option \<Rightarrow> bool \<Rightarrow> (json_status \<times> 'd obj option) option" where
  "json_object_set_value E object name value owned =
     (case (object, value) of
        (Some ob, Some v) \<Rightarrow>
          if owned then Some (JSONFailure, object)
          else map_option (map_prod id Some)
                 (set_item (table_mem E) (parson_strdup E name \<noteq> None) ob name v)
      | _ \<Rightarrow> Some (JSONFailure, object))"

text \<open>The object behind a pointer into its parent: a change of it shows in the parent.\<close>

definition put_back :: "'d obj \<Rightarrow> string \<Rightarrow> 'd obj \<Rightarrow> 'd obj option" where
  "put_back ob key sub =
     json_object_get_cell_ix ob key (hash_string key) \<bind> (\<lambda>(cell_ix, found).
     cell_ix \<bind> (\<lambda>c. cells ob ! c \<bind> (\<lambda>item_ix.
       Some (JSON_Object (cells ob) (hashes ob) (names ob) ((vals ob)[item_ix := JSON_Obj sub])
               (cell_ixs ob) (item_capacity ob)))))"

function json_object_dotset_value ::
    "'d json_env \<Rightarrow> 'd obj option \<Rightarrow> string \<Rightarrow> 'd json_value option \<Rightarrow> bool \<Rightarrow> (json_status \<times> 'd obj option) option" where
  "json_object_dotset_value E object name value owned =
     (case (object, value) of
        (Some ob, Some v) \<Rightarrow>
          (case dot_position name of
             None \<Rightarrow> json_object_set_value E object name value owned
           | Some n \<Rightarrow>
               json_object_getn_value ob name n \<bind> (\<lambda>temp_value.
               case temp_value of
                 Some (JSON_Obj sub) \<Rightarrow>
                   json_object_dotset_value E (Some sub) (drop (n + 1) name) value owned \<bind> (\<lambda>(status, sub').
                   case sub' of
                     None \<Rightarrow> None
                   | Some sub' \<Rightarrow> map_option (\<lambda>ob'. (status, Some ob')) (put_back ob (take n name) sub'))
               | Some _ \<Rightarrow> Some (JSONFailure, object)
               | None \<Rightarrow>
                   (case json_value_init_object E of
                      None \<Rightarrow> Some (JSONFailure, object)
                    | Some new_value \<Rightarrow>
                        json_object_dotset_value E (json_value_get_object (Some new_value))
                          (drop (n + 1) name) value owned \<bind> (\<lambda>(status, new).
                        if status \<noteq> JSONSuccess then Some (JSONFailure, object)
                        else (case (parson_strndup E name n, new) of
                            (Some key, Some new_object) \<Rightarrow>
                              json_object_add (table_mem E) ob key (JSON_Obj new_object) \<bind> (\<lambda>(status, ob').
                              if status \<noteq> JSONSuccess then Some (JSONFailure, object)
                              else Some (JSONSuccess, Some ob'))
                          | _ \<Rightarrow> Some (JSONFailure, object))))))
      | _ \<Rightarrow> Some (JSONFailure, object))"
  by pat_completeness auto
termination
  by (relation "measure (\<lambda>(E, ob, name, v, owned). length name)") (auto dest: dot_position_less)

declare json_object_dotset_value.simps [simp del]

definition json_object_set_string ::
    "'d json_env \<Rightarrow> 'd obj option \<Rightarrow> string \<Rightarrow> string option \<Rightarrow> (json_status \<times> 'd obj option) option" where
  "json_object_set_string E object name string =
     json_object_set_value E object name (json_value_init_string E string) False"

definition json_object_set_string_with_len ::
    "'d json_env \<Rightarrow> 'd obj option \<Rightarrow> string \<Rightarrow> string option \<Rightarrow> nat \<Rightarrow> (json_status \<times> 'd obj option) option" where
  "json_object_set_string_with_len E object name string len =
     json_object_set_value E object name (json_value_init_string_with_len E string len) False"

definition json_object_set_number ::
    "'d json_env \<Rightarrow> 'd obj option \<Rightarrow> string \<Rightarrow> 'd \<Rightarrow> (json_status \<times> 'd obj option) option" where
  "json_object_set_number E object name number =
     json_object_set_value E object name (json_value_init_number E number) False"

definition json_object_set_boolean ::
    "'d json_env \<Rightarrow> 'd obj option \<Rightarrow> string \<Rightarrow> int \<Rightarrow> (json_status \<times> 'd obj option) option" where
  "json_object_set_boolean E object name boolean =
     json_object_set_value E object name (json_value_init_boolean E boolean) False"

definition json_object_set_null ::
    "'d json_env \<Rightarrow> 'd obj option \<Rightarrow> string \<Rightarrow> (json_status \<times> 'd obj option) option" where
  "json_object_set_null E object name =
     json_object_set_value E object name (json_value_init_null E) False"

definition json_object_dotset_string ::
    "'d json_env \<Rightarrow> 'd obj option \<Rightarrow> string \<Rightarrow> string option \<Rightarrow> (json_status \<times> 'd obj option) option" where
  "json_object_dotset_string E object name string =
     json_object_dotset_value E object name (json_value_init_string E string) False"

definition json_object_dotset_string_with_len ::
    "'d json_env \<Rightarrow> 'd obj option \<Rightarrow> string \<Rightarrow> string option \<Rightarrow> nat \<Rightarrow> (json_status \<times> 'd obj option) option" where
  "json_object_dotset_string_with_len E object name string len =
     json_object_dotset_value E object name (json_value_init_string_with_len E string len) False"

definition json_object_dotset_number ::
    "'d json_env \<Rightarrow> 'd obj option \<Rightarrow> string \<Rightarrow> 'd \<Rightarrow> (json_status \<times> 'd obj option) option" where
  "json_object_dotset_number E object name number =
     json_object_dotset_value E object name (json_value_init_number E number) False"

definition json_object_dotset_boolean ::
    "'d json_env \<Rightarrow> 'd obj option \<Rightarrow> string \<Rightarrow> int \<Rightarrow> (json_status \<times> 'd obj option) option" where
  "json_object_dotset_boolean E object name boolean =
     json_object_dotset_value E object name (json_value_init_boolean E boolean) False"

definition json_object_dotset_null ::
    "'d json_env \<Rightarrow> 'd obj option \<Rightarrow> string \<Rightarrow> (json_status \<times> 'd obj option) option" where
  "json_object_dotset_null E object name =
     json_object_dotset_value E object name (json_value_init_null E) False"

definition json_object_remove :: "'d obj option \<Rightarrow> string \<Rightarrow> (json_status \<times> 'd obj option) option" where
  "json_object_remove object name =
     (case object of
        None \<Rightarrow> Some (JSONFailure, None)
      | Some ob \<Rightarrow> map_option (map_prod id Some) (json_object_remove_internal ob name))"

function json_object_dotremove :: "'d obj option \<Rightarrow> string \<Rightarrow> (json_status \<times> 'd obj option) option" where
  "json_object_dotremove object name =
     (case dot_position name of
        None \<Rightarrow> json_object_remove object name
      | Some n \<Rightarrow>
          object_getn_value object name n \<bind> (\<lambda>temp_value.
          case (object, temp_value) of
            (Some ob, Some (JSON_Obj sub)) \<Rightarrow>
              json_object_dotremove (Some sub) (drop (n + 1) name) \<bind> (\<lambda>(status, sub').
              case sub' of
                None \<Rightarrow> None
              | Some sub' \<Rightarrow> map_option (\<lambda>ob'. (status, Some ob')) (put_back ob (take n name) sub'))
          | _ \<Rightarrow> Some (JSONFailure, object)))"
  by pat_completeness auto
termination
  by (relation "measure (\<lambda>(ob, name). length name)") (auto dest: dot_position_less)

declare json_object_dotremove.simps [simp del]

end
