(* ===== verification/Json_Tree.thy ===== *)
theory Json_Tree
  imports Json_Value
begin

text \<open>
  Whole trees of \<open>parson/src/parson.c\<close>: deep copy, equality and validation against a schema,
  each walking two trees at once.  The document a value stands for is its tree without the
  tables, and each walk is proved to compute the corresponding function of documents.
\<close>

subsection \<open>Sizes\<close>


lemma obj_size: "v \<in> set (vals ob) \<Longrightarrow> size v < size (JSON_Obj ob)"
  by (cases ob) (auto dest: size_list_estimation' [where f = size, OF _ order_refl])

lemma part_size [termination_simp]:
  fixes v :: "'d json_value" and w :: "'e json_value"
  shows "v \<in> set (vals ob) \<Longrightarrow> size v < Suc (size_json_object size ob)"
  "w \<in> set (items a) \<Longrightarrow> size w < Suc (size_json_array size a)"
proof -
  show "v \<in> set (vals ob) \<Longrightarrow> size v < Suc (size_json_object size ob)"
    using obj_size [of v ob] by simp
  show "w \<in> set (items a) \<Longrightarrow> size w < Suc (size_json_array size a)"
    by (cases a) (auto dest: size_list_estimation' [where f = size, OF _ order_refl])
qed

lemma object_get_value_in:
  assumes "object_get_value (Some ob) name = Some (Some v)"
  shows "v \<in> set (vals ob)"
proof -
  have "\<exists>i < length (vals ob). v = vals ob ! i"
    using assms
    by (auto simp: object_get_value_def json_object_get_value_def json_object_getn_value_def Let_def
      bind_Some_conv split: if_splits)
  then show ?thesis by auto
qed

lemma arr_size [termination_simp]:
  "size_list size (items a) < Suc (size_json_array size a)"
  "size_list size (items a) = Suc (size_json_array size a) \<longleftrightarrow> False"
  "items a = v # vs \<Longrightarrow> size v < Suc (size_json_array size a)"
  by (cases a; simp)+

lemma object_value_size [termination_simp]:
  "object_get_value (Some ob) name = Some (Some v) \<Longrightarrow> size v < Suc (size_json_object size ob)"
  "object_get_value (Some ob) name = Some (Some v) \<Longrightarrow> size v = Suc (size_json_object size ob) \<longleftrightarrow> False"
  "object_get_value (Some ob) name = Some w \<Longrightarrow> size_option size w < Suc (Suc (size_json_object size ob))"
  using obj_size [OF object_get_value_in, of ob name v] obj_size [OF object_get_value_in, of ob name]
  by (simp_all, cases w, auto)

subsection \<open>Deep copy\<close>

function copy_value :: "'d json_env \<Rightarrow> 'd json_value \<Rightarrow> 'd json_value option option"
  and copy_items :: "'d json_env \<Rightarrow> 'd json_value list \<Rightarrow> 'd json_value json_array \<Rightarrow> 'd json_value option option"
  and copy_members :: "'d json_env \<Rightarrow> 'd obj \<Rightarrow> string list \<Rightarrow> 'd obj \<Rightarrow> 'd json_value option option" where
  "copy_value E (JSON_Arr a) =
     (case json_value_get_array (json_value_init_array E) of
        None \<Rightarrow> Some None
      | Some copy \<Rightarrow> copy_items E (items a) copy)"
| "copy_value E (JSON_Obj ob) =
     (case json_value_get_object (json_value_init_object E) of
        None \<Rightarrow> Some None
      | Some copy \<Rightarrow> copy_members E ob (names ob) copy)"
| "copy_value E (JSON_Bool b) = Some (json_value_init_boolean E b)"
| "copy_value E (JSON_Number d) = Some (json_value_init_number E d)"
| "copy_value E (JSON_String s) =
     Some (case parson_strndup E s (length s) of
        None \<Rightarrow> None | Some copy \<Rightarrow> json_value_init_string_no_copy E copy)"
| "copy_value E JSON_Null = Some (json_value_init_null E)"
| "copy_items E [] copy = Some (Some (JSON_Arr copy))"
| "copy_items E (v # vs) copy =
     (case copy_value E v of
        None \<Rightarrow> None
      | Some None \<Rightarrow> Some None
      | Some (Some v') \<Rightarrow>
          (case json_array_add E copy v' of
             (JSONSuccess, copy') \<Rightarrow> copy_items E vs copy'
           | (JSONFailure, _) \<Rightarrow> Some None))"
| "copy_members E ob [] copy = Some (Some (JSON_Obj copy))"
| "copy_members E ob (key # ks) copy =
     (case object_get_value (Some ob) key of
        None \<Rightarrow> None
      | Some None \<Rightarrow> Some None
      | Some (Some v) \<Rightarrow>
          (case copy_value E v of
             None \<Rightarrow> None
           | Some None \<Rightarrow> Some None
           | Some (Some v') \<Rightarrow>
               (case parson_strdup E key of
                  None \<Rightarrow> Some None
                | Some key_copy \<Rightarrow>
                    (case json_object_add (table_mem E) copy key_copy v' of
                       None \<Rightarrow> None
                     | Some (JSONSuccess, copy') \<Rightarrow> copy_members E ob ks copy'
                     | Some (JSONFailure, _) \<Rightarrow> Some None))))"
  by pat_completeness auto
termination
  by (relation "measures [(\<lambda>x. case x of Inl (E, v) \<Rightarrow> size v | Inr (Inl (E, vs, a)) \<Rightarrow> size_list size vs
      | Inr (Inr (E, ob, ks, copy)) \<Rightarrow> size (JSON_Obj ob)),
    (\<lambda>x. case x of Inl _ \<Rightarrow> 1 | _ \<Rightarrow> 0),
    (\<lambda>x. case x of Inr (Inr (E, ob, ks, copy)) \<Rightarrow> length ks | _ \<Rightarrow> 0)]")
    (auto simp: arr_size object_value_size)


declare copy_value.simps copy_items.simps copy_members.simps [simp del]

definition json_value_deep_copy :: "'d json_env \<Rightarrow> 'd json_value option \<Rightarrow> 'd json_value option option" where
  "json_value_deep_copy E value = (case value of None \<Rightarrow> Some None | Some v \<Rightarrow> copy_value E v)"

subsection \<open>Equality\<close>

text \<open>The number of items is compared before the items, so that both lists have the same length.\<close>

function json_value_equals :: "'d json_env \<Rightarrow> 'd json_value option \<Rightarrow> 'd json_value option \<Rightarrow> bool option"
  and equal_items :: "'d json_env \<Rightarrow> 'd json_value list \<Rightarrow> 'd json_value list \<Rightarrow> bool option"
  and equal_members :: "'d json_env \<Rightarrow> 'd obj \<Rightarrow> 'd obj \<Rightarrow> string list \<Rightarrow> bool option" where
  "json_value_equals E a b =
     (if json_value_get_type a \<noteq> json_value_get_type b then Some False
      else case (a, b) of
        (Some (JSON_Arr x), Some (JSON_Arr y)) \<Rightarrow>
          if length (items x) \<noteq> length (items y) then Some False else equal_items E (items x) (items y)
      | (Some (JSON_Obj x), Some (JSON_Obj y)) \<Rightarrow>
          if length (names x) \<noteq> length (names y) then Some False else equal_members E x y (names x)
      | (Some (JSON_String s), Some (JSON_String t)) \<Rightarrow> Some (length s = length t \<and> s = t)
      | (Some (JSON_Bool x), Some (JSON_Bool y)) \<Rightarrow> Some (x = y)
      | (Some (JSON_Number x), Some (JSON_Number y)) \<Rightarrow> Some (num_near E x y)
      | _ \<Rightarrow> Some True)"
| "equal_items E (v # vs) (w # ws) =
     (case json_value_equals E (Some v) (Some w) of
        None \<Rightarrow> None | Some False \<Rightarrow> Some False | Some True \<Rightarrow> equal_items E vs ws)"
| "equal_items E [] ws = Some True"
| "equal_items E (v # vs) [] = Some True"
| "equal_members E x y [] = Some True"
| "equal_members E x y (key # ks) =
     (case object_get_value (Some x) key of
        None \<Rightarrow> None
      | Some v \<Rightarrow>
          (case object_get_value (Some y) key of
             None \<Rightarrow> None
           | Some w \<Rightarrow>
               (case json_value_equals E v w of
                  None \<Rightarrow> None | Some False \<Rightarrow> Some False | Some True \<Rightarrow> equal_members E x y ks)))"
  by pat_completeness auto
termination
  by (relation "measures [(\<lambda>x. case x of Inl (E, v, w) \<Rightarrow> size_option size v | Inr (Inl (E, vs, a)) \<Rightarrow> Suc (size_list size vs)
      | Inr (Inr (E, ob, y, ks)) \<Rightarrow> Suc (size (JSON_Obj ob))),
    (\<lambda>x. case x of Inl _ \<Rightarrow> 1 | _ \<Rightarrow> 0),
    (\<lambda>x. case x of Inr (Inr (E, ob, y, ks)) \<Rightarrow> length ks | _ \<Rightarrow> 0)]")
    (auto simp: arr_size object_value_size)

subsection \<open>Validation\<close>

function json_validate :: "'d json_value option \<Rightarrow> 'd json_value option \<Rightarrow> json_status option"
  and validate_items :: "'d json_value \<Rightarrow> 'd json_value list \<Rightarrow> json_status option"
  and validate_members :: "'d obj \<Rightarrow> 'd obj \<Rightarrow> string list \<Rightarrow> json_status option" where
  "json_validate schema value =
     (if schema = None \<or> value = None then Some JSONFailure
      else if json_value_get_type schema \<noteq> json_value_get_type value \<and> json_value_get_type schema \<noteq> JSONNull
      then Some JSONFailure
      else case (schema, value) of
        (Some (JSON_Arr s), Some (JSON_Arr v)) \<Rightarrow>
          (case items s of [] \<Rightarrow> Some JSONSuccess | t # _ \<Rightarrow> validate_items t (items v))
      | (Some (JSON_Obj s), Some (JSON_Obj v)) \<Rightarrow>
          if length (names s) = 0 then Some JSONSuccess
          else if length (names v) < length (names s) then Some JSONFailure
          else validate_members s v (names s)
      | _ \<Rightarrow> Some JSONSuccess)"
| "validate_items t [] = Some JSONSuccess"
| "validate_items t (v # vs) =
     (case json_validate (Some t) (Some v) of
        None \<Rightarrow> None | Some JSONFailure \<Rightarrow> Some JSONFailure | Some JSONSuccess \<Rightarrow> validate_items t vs)"
| "validate_members s v [] = Some JSONSuccess"
| "validate_members s v (key # ks) =
     (case object_get_value (Some s) key of
        None \<Rightarrow> None
      | Some t \<Rightarrow>
          (case object_get_value (Some v) key of
             None \<Rightarrow> None
           | Some None \<Rightarrow> Some JSONFailure
           | Some (Some w) \<Rightarrow>
               (case json_validate t (Some w) of
                  None \<Rightarrow> None
                | Some JSONFailure \<Rightarrow> Some JSONFailure
                | Some JSONSuccess \<Rightarrow> validate_members s v ks)))"
  by pat_completeness auto
termination
  by (relation "measures [(\<lambda>x. case x of Inl (v, w) \<Rightarrow> size_option size v | Inr (Inl (t, vs)) \<Rightarrow> Suc (size t)
      | Inr (Inr (ob, y, ks)) \<Rightarrow> Suc (size (JSON_Obj ob))),
    (\<lambda>x. case x of Inl _ \<Rightarrow> 1 | Inr (Inl _) \<Rightarrow> 2 | _ \<Rightarrow> 0),
    (\<lambda>x. case x of Inr (Inr (ob, y, ks)) \<Rightarrow> length ks | Inr (Inl (t, vs)) \<Rightarrow> length vs | _ \<Rightarrow> 0)]")
    (auto simp: arr_size object_value_size)

declare json_value_equals.simps equal_members.simps json_validate.simps validate_members.simps [simp del]

subsection \<open>Documents\<close>

datatype 'd document =
  Doc_Null | Doc_String string | Doc_Number 'd | Doc_Object "(string \<times> 'd document) list"
  | Doc_Array "'d document list" | Doc_Bool int

fun doc :: "'d json_value \<Rightarrow> 'd document" where
  "doc JSON_Null = Doc_Null"
| "doc (JSON_String s) = Doc_String s"
| "doc (JSON_Number d) = Doc_Number d"
| "doc (JSON_Bool b) = Doc_Bool b"
| "doc (JSON_Obj ob) = Doc_Object (zip (names ob) (map doc (vals ob)))"
| "doc (JSON_Arr a) = Doc_Array (map doc (items a))"

fun value_inv :: "'d json_value \<Rightarrow> bool" where
  "value_inv (JSON_Obj ob) \<longleftrightarrow> object_inv ob \<and> (\<forall>v \<in> set (vals ob). value_inv v)"
| "value_inv (JSON_Arr a) \<longleftrightarrow> (\<forall>v \<in> set (items a). value_inv v)"
| "value_inv (JSON_Bool b) \<longleftrightarrow> b = 0 \<or> b = 1"
| "value_inv _ \<longleftrightarrow> True"

lemma get_value_map: "object_inv ob \<Longrightarrow> object_get_value (Some ob) key = Some (object_map ob key)"
  using getn_value_spec [of ob key "length key"] by (simp add: object_get_value_def json_object_get_value_def)

lemma map_of_doc: "length ns = length vs \<Longrightarrow>
    map_of (zip ns (map doc vs)) key = map_option doc (map_of (zip ns vs) key)"
  by (induction ns vs rule: list_induct2) auto

lemma object_map_in: "object_map ob key = Some v \<Longrightarrow> v \<in> set (vals ob)"
  by (auto simp: object_map_def dest!: map_of_SomeD set_zip_rightD)

lemma value_inv_member: "value_inv (JSON_Obj ob) \<Longrightarrow> object_map ob key = Some v \<Longrightarrow> value_inv v"
  using object_map_in by fastforce

lemma members_zip:
  assumes "object_inv ob"
  shows "map (\<lambda>k. (k, doc (the (object_map ob k)))) (names ob) = zip (names ob) (map doc (vals ob))"
proof (rule nth_equalityI)
  show "length (map (\<lambda>k. (k, doc (the (object_map ob k)))) (names ob)) = length (zip (names ob) (map doc (vals ob)))"
    using assms by (simp add: object_inv_def)
next
  fix i assume "i < length (map (\<lambda>k. (k, doc (the (object_map ob k)))) (names ob))"
  then show "map (\<lambda>k. (k, doc (the (object_map ob k)))) (names ob) ! i = zip (names ob) (map doc (vals ob)) ! i"
    using assms object_map_nth [OF assms, of i] by (simp add: object_inv_def)
qed

lemma array_add_items:
  "json_array_add E a v = (JSONSuccess, a') \<Longrightarrow> items a' = items a @ [v]"
  by (auto simp: json_array_add_def json_array_resize_def Let_def split: if_splits)

lemma copy_spec:
  assumes "mem_bounded (table_mem E)"
  shows "value_inv v \<Longrightarrow> \<exists>r. copy_value E v = Some r \<and> (\<forall>c. r = Some c \<longrightarrow> value_inv c \<and> doc c = doc v)"
    and "\<forall>v \<in> set vs. value_inv v \<Longrightarrow> value_inv (JSON_Arr a) \<Longrightarrow>
      \<exists>r. copy_items E vs a = Some r \<and>
        (\<forall>c. r = Some c \<longrightarrow> value_inv c \<and> doc c = Doc_Array (map doc (items a) @ map doc vs))"
    and "value_inv (JSON_Obj ob) \<Longrightarrow> value_inv (JSON_Obj copy) \<Longrightarrow> set ks \<subseteq> set (names ob) \<Longrightarrow>
      \<exists>r. copy_members E ob ks copy = Some r \<and>
        (\<forall>c. r = Some c \<longrightarrow> value_inv c \<and>
          doc c = Doc_Object (zip (names copy) (map doc (vals copy)) @ map (\<lambda>k. (k, doc (the (object_map ob k)))) ks))"
  using assms
proof (induction E v and E vs a and E ob ks copy rule: copy_value_copy_items_copy_members.induct)
  case (1 E a)
  then show ?case
    by (auto simp: copy_value.simps json_value_get_array_def json_value_init_array_def
      json_array_make_def split: if_splits)
next
  case (2 E ob)
  then show ?case
    using members_zip [of ob]
    by (auto simp: copy_value.simps json_value_get_object_def json_value_init_object_def
      json_object_make_def json_object_init_def split: if_splits)
next
  case (3 E b)
  then show ?case by (auto simp: copy_value.simps json_value_init_boolean_def)
next
  case (4 E d)
  then show ?case by (auto simp: copy_value.simps json_value_init_number_def)
next
  case (5 E s)
  then show ?case
    by (auto simp: copy_value.simps parson_strndup_def json_value_init_string_no_copy_def)
next
  case (6 E)
  then show ?case by (auto simp: copy_value.simps json_value_init_null_def)
next
  case (7 E a)
  then show ?case by (auto simp: copy_items.simps)
next
  case (8 E v vs a)
  obtain r where r: "copy_value E v = Some r" "\<forall>c. r = Some c \<longrightarrow> value_inv c \<and> doc c = doc v"
    using 8(1,3,5) by auto
  show ?case
  proof (cases r)
    case None
    then show ?thesis using r by (simp add: copy_items.simps)
  next
    case (Some c)
    obtain st a' where a': "json_array_add E a c = (st, a')" by fastforce
    show ?thesis
    proof (cases st)
      case JSONSuccess
      then have it: "items a' = items a @ [c]" using array_add_items a' by blast
      have "value_inv c" "doc c = doc v" using r(2) Some by simp_all
      moreover have "value_inv (JSON_Arr a')" using it 8(4) calculation(1) by simp
      then obtain r' where "copy_items E vs a' = Some r'"
        "\<forall>c. r' = Some c \<longrightarrow> value_inv c \<and> doc c = Doc_Array (map doc (items a') @ map doc vs)"
        using 8(2) [OF r(1) Some, of JSONSuccess a'] 8(3,5) a' JSONSuccess by auto
      moreover have "copy_items E (v # vs) a = copy_items E vs a'"
        using r(1) Some a' JSONSuccess by (simp add: copy_items.simps)
      ultimately show ?thesis using it by simp
    qed (use r Some a' in \<open>simp add: copy_items.simps\<close>)
  qed
next
  case (9 E ob copy)
  then show ?case by (auto simp: copy_members.simps)
next
  case (10 E ob key ks copy)
  have inv: "object_inv ob" using 10(3) by simp
  have "key \<in> set (names ob)" using 10(5) by simp
  then obtain v where v: "object_map ob key = Some v" using object_map_None [OF inv, of key] by auto
  have g: "object_get_value (Some ob) key = Some (Some v)" using get_value_map [OF inv] v by simp
  obtain r where r: "copy_value E v = Some r" "\<forall>c. r = Some c \<longrightarrow> value_inv c \<and> doc c = doc v"
    using 10(1) [OF g refl value_inv_member [OF 10(3) v] 10(6)] by blast
  show ?case
  proof (cases "r = None \<or> parson_strdup E key = None")
    case True
    then show ?thesis using r(1) g by (cases r) (simp_all add: copy_members.simps)
  next
    case False
    then obtain c k' where c: "r = Some c" "parson_strdup E key = Some k'" by auto
    then have k: "k' = key" by (auto simp: parson_strdup_def parson_strndup_def split: if_splits)
    obtain st copy' where a: "json_object_add (table_mem E) copy key c = Some (st, copy')"
      "object_inv copy'" "st = JSONSuccess \<longrightarrow> names copy' = names copy @ [key] \<and> vals copy' = vals copy @ [c]"
      using add_spec [of copy "table_mem E" key c] 10(4,6) by (auto split: if_splits)
    show ?thesis
    proof (cases st)
      case JSONSuccess
      then have n: "names copy' = names copy @ [key]" "vals copy' = vals copy @ [c]" using a(3) by simp_all
      have cd: "value_inv c" "doc c = doc v" using r(2) c(1) by simp_all
      have "value_inv (JSON_Obj copy')" using a(2) 10(4) cd(1) n by simp
      moreover have len: "length (vals copy) = length (names copy)" using 10(4) by (simp add: object_inv_def)
      moreover have "set ks \<subseteq> set (names ob)" using 10(5) by simp
      ultimately obtain r' where "copy_members E ob ks copy' = Some r'"
        "\<forall>c. r' = Some c \<longrightarrow> value_inv c \<and> doc c =
          Doc_Object (zip (names copy') (map doc (vals copy')) @ map (\<lambda>k. (k, doc (the (object_map ob k)))) ks)"
        using 10(2) [OF g refl r(1) c(1) c(2), of "(JSONSuccess, copy')" JSONSuccess copy'] 10(3,6)
          a(1) k JSONSuccess by blast
      moreover have "copy_members E ob (key # ks) copy = copy_members E ob ks copy'"
        using r(1) c k a(1) g JSONSuccess by (simp add: copy_members.simps)
      ultimately show ?thesis using n cd(2) len v by simp
    qed (use r c k a g in \<open>simp add: copy_members.simps\<close>)
  qed
qed

text \<open>Memory for containers and texts of \<open>l\<close> parts.\<close>

definition roomy :: "'d json_env \<Rightarrow> nat \<Rightarrow> bool" where
  "roomy E l \<longleftrightarrow> (\<forall>n \<le> 64 * l + 1024. mem E n)"

lemma roomy_mem: "roomy E l \<Longrightarrow> n \<le> 64 * l + 1024 \<Longrightarrow> mem E n"
  by (simp add: roomy_def)

text \<open>Room for a text in tables of at most \<open>2 ^ 32\<close> cells keeps it far from the bound of \<open>int\<close>.\<close>

lemma roomy_short:
  assumes "roomy E l" "mem_bounded (table_mem E)"
  shows "l < 2 ^ 31"
proof -
  have "table_mem E (8 * l)"
    using roomy_mem [OF assms(1)] by (simp add: table_mem_def sizeof_pointer_def item_capacity_for_def)
  then have "8 * l < 2 ^ 32" using assms(2) by (simp add: mem_bounded_def)
  then show ?thesis by simp
qed

lemma array_add_room:
  assumes "roomy E L" "length (items a) \<le> L" "capacity a \<le> 2 * length (items a) + 16"
  shows "\<exists>a'. json_array_add E a v = (JSONSuccess, a') \<and> items a' = items a @ [v] \<and>
    capacity a' \<le> 2 * length (items a') + 16"
  using assms roomy_mem [OF assms(1), of "max (capacity a * 2) 16 * 8"]
  by (auto simp: json_array_add_def json_array_resize_def STARTING_CAPACITY_def sizeof_pointer_def Let_def)

lemma item_capacity_bounds: "item_capacity_for c \<le> n \<Longrightarrow> c \<le> 2 * n + 1" "item_capacity_for c \<le> c"
proof -
  assume "item_capacity_for c \<le> n"
  then have "c * 11744051 div 16777216 < n + 1" by (simp add: item_capacity_for_def)
  then have "c * 11744051 < (n + 1) * 16777216" by (subst (asm) div_less_iff_less_mult) simp_all
  then show "c \<le> 2 * n + 1" by simp
qed (simp add: item_capacity_for_def)

lemma object_add_room:
  assumes "roomy E L" "mem_bounded (table_mem E)" "object_inv ob" "length (names ob) \<le> L" "key \<notin> set (names ob)"
  shows "\<exists>ob'. json_object_add (table_mem E) ob key v = Some (JSONSuccess, ob') \<and> object_inv ob' \<and>
    names ob' = names ob @ [key] \<and> vals ob' = vals ob @ [v]"
proof -
  have "can_grow (table_mem E) ob"
  proof (cases "length (names ob) < item_capacity ob")
    case False
    then have "length (cells ob) \<le> 2 * length (names ob) + 1"
      using assms(3) item_capacity_bounds(1) by (simp add: object_inv_def)
    then have c: "grown_capacity (length (cells ob)) * 8 \<le> 64 * L + 1024"
      using assms(4) by (simp add: grown_capacity_def STARTING_CAPACITY_def)
    moreover have "item_capacity_for (grown_capacity (length (cells ob))) * 8 \<le> 64 * L + 1024"
      using c item_capacity_bounds(2) [of "grown_capacity (length (cells ob))"] by linarith
    ultimately show ?thesis using roomy_mem [OF assms(1)]
      by (simp add: can_grow_def table_mem_def sizeof_pointer_def)
  qed (simp add: can_grow_def)
  then show ?thesis using add_spec [OF assms(3,2), of key v] assms(5) by auto
qed

text \<open>
  When a copy is made: no number is one that \<open>json_value_init_number\<close> refuses, and there is memory
  for the largest container and the longest string.
\<close>

fun numbers_valid :: "'d json_env \<Rightarrow> 'd document \<Rightarrow> bool" where
  "numbers_valid E (Doc_Number d) \<longleftrightarrow> \<not> num_invalid E d"
| "numbers_valid E (Doc_Array ds) \<longleftrightarrow> (\<forall>d \<in> set ds. numbers_valid E d)"
| "numbers_valid E (Doc_Object ms) \<longleftrightarrow> (\<forall>m \<in> set ms. numbers_valid E (snd m))"
| "numbers_valid E _ \<longleftrightarrow> True"

fun doc_fits :: "nat \<Rightarrow> 'd document \<Rightarrow> bool" where
  "doc_fits L (Doc_String s) \<longleftrightarrow> length s \<le> L"
| "doc_fits L (Doc_Array ds) \<longleftrightarrow> length ds \<le> L \<and> (\<forall>d \<in> set ds. doc_fits L d)"
| "doc_fits L (Doc_Object ms) \<longleftrightarrow> length ms \<le> L \<and> (\<forall>m \<in> set ms. length (fst m) \<le> L \<and> doc_fits L (snd m))"
| "doc_fits L _ \<longleftrightarrow> True"

lemma object_members:
  assumes "object_inv ob"
  shows "(\<forall>m \<in> set (zip (names ob) (map doc (vals ob))). P (fst m) (snd m)) \<longleftrightarrow>
    (\<forall>k v. object_map ob k = Some v \<longrightarrow> P k (doc v))"
proof -
  have d: "distinct (names ob)" "length (vals ob) = length (names ob)" using assms by (auto simp: object_inv_def)
  then have "(k, d) \<in> set (zip (names ob) (map doc (vals ob))) \<longleftrightarrow> (\<exists>v. object_map ob k = Some v \<and> d = doc v)" for k d
    using map_of_doc [of "names ob" "vals ob" k] map_of_eq_Some_iff [of "zip (names ob) (map doc (vals ob))" k d]
    by (auto simp: object_map_def)
  then show ?thesis unfolding Ball_def split_paired_All by auto
qed

lemma copied_numbers:
  "copy_value E v = Some (Some c) \<Longrightarrow> value_inv v \<Longrightarrow> numbers_valid E (doc v)"
  "copy_items E vs a = Some r \<Longrightarrow> r \<noteq> None \<Longrightarrow> \<forall>v \<in> set vs. value_inv v \<Longrightarrow> \<forall>v \<in> set vs. numbers_valid E (doc v)"
  "copy_members E ob ks copy = Some r \<Longrightarrow> r \<noteq> None \<Longrightarrow> value_inv (JSON_Obj ob) \<Longrightarrow>
    \<forall>k \<in> set ks. \<forall>v. object_map ob k = Some v \<longrightarrow> numbers_valid E (doc v)"
proof (induction E v and E vs a and E ob ks copy arbitrary: c and r and r rule: copy_value_copy_items_copy_members.induct)
  case (1 E a)
  then show ?case by (auto simp: copy_value.simps split: option.splits)
next
  case (2 E ob)
  then have "object_inv ob" by simp
  then have "key \<in> set (names ob)" if "object_map ob key = Some v" for key v
    using object_map_None [of ob key] that by auto
  then show ?case
    using 2 object_members [OF \<open>object_inv ob\<close>, of "\<lambda>k d. numbers_valid E d"]
    by (fastforce simp: copy_value.simps split: option.splits)
next
  case (4 E d)
  then show ?case by (auto simp: copy_value.simps json_value_init_number_def split: if_splits)
next
  case (8 E v vs a)
  then show ?case by (auto simp: copy_items.simps split: option.splits prod.splits json_status.splits)
next
  case (10 E ob key ks copy)
  have g: "object_get_value (Some ob) key = Some (object_map ob key)" using 10(5) get_value_map by auto
  then obtain v where v: "object_map ob key = Some v"
    using 10(3,4) by (auto simp: copy_members.simps split: option.splits)
  then obtain c where c: "copy_value E v = Some (Some c)"
    using 10(3,4) g by (auto simp: copy_members.simps split: option.splits)
  obtain k' where k: "parson_strdup E key = Some k'"
    using 10(3,4) g v c by (auto simp: copy_members.simps split: option.splits)
  obtain copy' where a: "json_object_add (table_mem E) copy k' c = Some (JSONSuccess, copy')"
    using 10(3,4) g v c k by (auto simp: copy_members.simps split: option.splits prod.splits json_status.splits)
  have "copy_members E ob ks copy' = Some r" using 10(3) g v c k a by (simp add: copy_members.simps)
  then show ?case
    using 10(1) [OF g v c value_inv_member [OF 10(5) v]] 10(2) [OF g v c refl k a refl refl _ 10(4,5)] v by auto
qed simp_all
lemma copy_room:
  assumes "roomy E L" "mem_bounded (table_mem E)"
  shows "value_inv v \<Longrightarrow> numbers_valid E (doc v) \<Longrightarrow> doc_fits L (doc v) \<Longrightarrow> copy_value E v \<noteq> Some None"
    and "\<forall>v \<in> set vs. value_inv v \<and> numbers_valid E (doc v) \<and> doc_fits L (doc v) \<Longrightarrow>
      length (items a) + length vs \<le> L \<Longrightarrow> capacity a \<le> 2 * length (items a) + 16 \<Longrightarrow> copy_items E vs a \<noteq> Some None"
    and "value_inv (JSON_Obj ob) \<Longrightarrow> object_inv copy \<Longrightarrow> set ks \<subseteq> set (names ob) \<Longrightarrow>
      distinct (names copy @ ks) \<Longrightarrow> length (names copy) + length ks \<le> L \<Longrightarrow>
      \<forall>k v. object_map ob k = Some v \<longrightarrow> length k \<le> L \<and> numbers_valid E (doc v) \<and> doc_fits L (doc v) \<Longrightarrow>
      copy_members E ob ks copy \<noteq> Some None"
  using assms
proof (induction E v and E vs a and E ob ks copy rule: copy_value_copy_items_copy_members.induct)
  case (1 E a)
  note m = roomy_mem [OF 1(5)]
  then show ?case using 1
    by (auto simp: copy_value.simps json_value_get_array_def json_value_init_array_def
      json_array_make_def sizeof_JSON_Value_def sizeof_JSON_Array_def)
next
  case (2 E ob)
  note m = roomy_mem [OF 2(5)]
  have inv: "object_inv ob" using 2(2) by simp
  have "\<forall>k v. object_map ob k = Some v \<longrightarrow> length k \<le> L \<and> numbers_valid E (doc v) \<and> doc_fits L (doc v)"
    using 2(3,4) object_members [OF inv, of "\<lambda>k d. length k \<le> L \<and> numbers_valid E d \<and> doc_fits L d"] by auto
  moreover have "distinct (names ob)" "length (vals ob) = length (names ob)" using inv by (auto simp: object_inv_def)
  ultimately show ?case using 2 m
    by (auto simp: copy_value.simps json_value_get_object_def json_value_init_object_def
      json_object_make_def json_object_init_def sizeof_JSON_Value_def sizeof_JSON_Object_def)
next
  case (3 E b)
  then show ?case using roomy_mem [OF 3(4)]
    by (simp add: copy_value.simps json_value_init_boolean_def sizeof_JSON_Value_def)
next
  case (4 E d)
  then show ?case using roomy_mem [OF 4(4)]
    by (simp add: copy_value.simps json_value_init_number_def sizeof_JSON_Value_def)
next
  case (5 E s)
  then show ?case using roomy_mem [OF 5(4)]
    by (simp add: copy_value.simps parson_strndup_def json_value_init_string_no_copy_def sizeof_JSON_Value_def)
next
  case (6 E)
  then show ?case using roomy_mem [OF 6(4)]
    by (simp add: copy_value.simps json_value_init_null_def sizeof_JSON_Value_def)
next
  case (7 E a)
  then show ?case by (simp add: copy_items.simps)
next
  case (8 E v vs a)
  have ne: "copy_value E v \<noteq> Some None" using 8(1,3,6,7) by simp
  show ?case
  proof (cases "copy_value E v")
    case None
    then show ?thesis by (simp add: copy_items.simps)
  next
    case (Some r)
    then obtain c where c: "copy_value E v = Some (Some c)" using ne by (cases r) auto
    obtain a' where a: "json_array_add E a c = (JSONSuccess, a')" "items a' = items a @ [c]"
        "capacity a' \<le> 2 * length (items a') + 16"
      using array_add_room [OF 8(6) _ 8(5), of c] 8(4) by auto
    have "copy_items E vs a' \<noteq> Some None"
      using 8(2) [OF c refl a(1) [symmetric] refl] 8(3,4,6,7) a(2,3) by simp
    then show ?thesis using c a(1) by (simp add: copy_items.simps)
  qed
next
  case (9 E ob copy)
  then show ?case by (simp add: copy_members.simps)
next
  case (10 E ob key ks copy)
  have inv: "object_inv ob" using 10(3) by simp
  have "key \<in> set (names ob)" using 10(5) by simp
  then obtain v where v: "object_map ob key = Some v" using object_map_None [OF inv, of key] by auto
  have g: "object_get_value (Some ob) key = Some (Some v)" using get_value_map [OF inv] v by simp
  have vp: "length key \<le> L" "numbers_valid E (doc v)" "doc_fits L (doc v)" using 10(8) v by blast+
  have ne: "copy_value E v \<noteq> Some None"
    using 10(1) [OF g refl value_inv_member [OF 10(3) v] vp(2,3) 10(9,10)] .
  show ?case
  proof (cases "copy_value E v")
    case None
    then show ?thesis using g by (simp add: copy_members.simps)
  next
    case (Some r)
    then obtain c where c: "copy_value E v = Some (Some c)" using ne by (cases r) auto
    have k: "parson_strdup E key = Some key"
      using vp(1) roomy_mem [OF 10(9)] by (simp add: parson_strdup_def parson_strndup_def)
    have "key \<notin> set (names copy)" "length (names copy) \<le> L" using 10(6,7) by auto
    from object_add_room [OF 10(9,10,4) this(2,1), of c]
    obtain copy' where a: "json_object_add (table_mem E) copy key c = Some (JSONSuccess, copy')" "object_inv copy'"
      "names copy' = names copy @ [key]" "vals copy' = vals copy @ [c]" by blast
    have "copy_members E ob ks copy' \<noteq> Some None"
      using 10(2) [OF g refl c refl k a(1) refl refl 10(3) a(2)] 10(5-10) a(3) by simp
    then show ?thesis using c k a(1) g by (simp add: copy_members.simps)
  qed
qed
subsection \<open>Equality of documents\<close>

lemma member_size [termination_simp]: "p \<in> set ms \<Longrightarrow> size (snd p) < Suc (size_list (size_prod (\<lambda>_. 0) size) ms)"
  by (induction ms) (auto simp: prod.size_gen(1))

lemma zip_size [termination_simp]: "p \<in> set (zip xs ys) \<Longrightarrow> size (fst p) < Suc (size_list size xs)"
  by (induction xs ys rule: list_induct2') auto

fun doc_equal :: "('d \<Rightarrow> 'd \<Rightarrow> bool) \<Rightarrow> 'd document \<Rightarrow> 'd document \<Rightarrow> bool" where
  "doc_equal near (Doc_Array xs) (Doc_Array ys) \<longleftrightarrow>
     length xs = length ys \<and> (\<forall>p \<in> set (zip xs ys). doc_equal near (fst p) (snd p))"
| "doc_equal near (Doc_Object ms) (Doc_Object ns) \<longleftrightarrow>
     length ms = length ns \<and>
     (\<forall>p \<in> set ms. case map_of ns (fst p) of None \<Rightarrow> False | Some w \<Rightarrow> doc_equal near (snd p) w)"
| "doc_equal near (Doc_String s) (Doc_String t) \<longleftrightarrow> s = t"
| "doc_equal near (Doc_Bool b) (Doc_Bool c) \<longleftrightarrow> b = c"
| "doc_equal near (Doc_Number x) (Doc_Number y) \<longleftrightarrow> near x y"
| "doc_equal near Doc_Null Doc_Null \<longleftrightarrow> True"
| "doc_equal near _ _ \<longleftrightarrow> False"

fun conforms :: "'d document \<Rightarrow> 'd document \<Rightarrow> bool" where
  "conforms Doc_Null v \<longleftrightarrow> True"
| "conforms (Doc_Array ss) (Doc_Array vs) \<longleftrightarrow>
     (case ss of [] \<Rightarrow> True | t # _ \<Rightarrow> \<forall>v \<in> set vs. conforms t v)"
| "conforms (Doc_Object ms) (Doc_Object ns) \<longleftrightarrow>
     ms = [] \<or> length ms \<le> length ns \<and>
       (\<forall>p \<in> set ms. case map_of ns (fst p) of None \<Rightarrow> False | Some w \<Rightarrow> conforms (snd p) w)"
| "conforms (Doc_String _) (Doc_String _) \<longleftrightarrow> True"
| "conforms (Doc_Bool _) (Doc_Bool _) \<longleftrightarrow> True"
| "conforms (Doc_Number _) (Doc_Number _) \<longleftrightarrow> True"
| "conforms _ _ \<longleftrightarrow> False"

lemma doc_members:
  assumes "object_inv ob"
  shows "doc (JSON_Obj ob) = Doc_Object (map (\<lambda>k. (k, doc (the (object_map ob k)))) (names ob))"
    and "map_of (map (\<lambda>k. (k, doc (the (object_map ob k)))) (names ob)) key = map_option doc (object_map ob key)"
  using assms map_of_doc [of "names ob" "vals ob" key]
  unfolding members_zip [OF assms] by (simp_all add: object_inv_def object_map_def)

lemma equals_types:
  "json_value_get_type a \<noteq> json_value_get_type b \<Longrightarrow> json_value_equals E a b = Some False"
  by (subst json_value_equals.simps) simp

lemma equals_scalars:
  "json_value_equals E (Some JSON_Null) (Some JSON_Null) = Some True"
  "json_value_equals E (Some (JSON_String s)) (Some (JSON_String t)) = Some (s = t)"
  "json_value_equals E (Some (JSON_Bool b)) (Some (JSON_Bool c)) = Some (b = c)"
  "json_value_equals E (Some (JSON_Number x)) (Some (JSON_Number y)) = Some (num_near E x y)"
  by (subst json_value_equals.simps, auto simp: json_value_get_type_def)+

lemma equals_spec:
  shows "\<And>v w. a = Some v \<Longrightarrow> b = Some w \<Longrightarrow> value_inv v \<Longrightarrow> value_inv w \<Longrightarrow>
      json_value_equals E a b = Some (doc_equal (num_near E) (doc v) (doc w))"
    and "length vs = length ws \<Longrightarrow> \<forall>v \<in> set vs. value_inv v \<Longrightarrow> \<forall>w \<in> set ws. value_inv w \<Longrightarrow>
      equal_items E vs ws = Some (\<forall>p \<in> set (zip (map doc vs) (map doc ws)). doc_equal (num_near E) (fst p) (snd p))"
    and "value_inv (JSON_Obj x) \<Longrightarrow> value_inv (JSON_Obj y) \<Longrightarrow> set ks \<subseteq> set (names x) \<Longrightarrow>
      equal_members E x y ks = Some (\<forall>k \<in> set ks. case object_map y k of None \<Rightarrow> False
        | Some w \<Rightarrow> doc_equal (num_near E) (doc (the (object_map x k))) (doc w))"
proof (induction E a b and E vs ws and E x y ks rule: json_value_equals_equal_items_equal_members.induct)
  case (1 E a b)
  show ?case
  proof (cases "json_value_get_type a = json_value_get_type b")
    case True
    show ?thesis
    proof (cases v)
      case (JSON_Obj x)
      then obtain y where w: "w = JSON_Obj y"
        using True 1(3,4) by (cases w) (auto simp: json_value_get_type_def)
      have inv: "object_inv x" "object_inv y" using 1(5,6) JSON_Obj w by simp_all
      have eq: "json_value_equals E a b =
          (if length (names x) \<noteq> length (names y) then Some False else equal_members E x y (names x))"
        using True 1(3,4) JSON_Obj w by (simp add: json_value_equals.simps)
      have "equal_members E x y (names x) = Some (\<forall>k \<in> set (names x). case object_map y k of None \<Rightarrow> False
          | Some w \<Rightarrow> doc_equal (num_near E) (doc (the (object_map x k))) (doc w))"
        if "length (names x) = length (names y)"
        using 1(1) [of a b "JSON_Obj x" x "JSON_Obj y" y] True 1(3-6) JSON_Obj w that by blast
      then show ?thesis
        unfolding eq JSON_Obj w doc_members(1) [OF inv(1)] doc_members(1) [OF inv(2)] doc_equal.simps
        by (auto simp: doc_members(2) [OF inv(2)] option.case_eq_if)
    next
      case (JSON_Arr x)
      then obtain y where w: "w = JSON_Arr y"
        using True 1(3,4) by (cases w) (auto simp: json_value_get_type_def)
      have eq: "json_value_equals E a b =
          (if length (items x) \<noteq> length (items y) then Some False else equal_items E (items x) (items y))"
        using True 1(3,4) JSON_Arr w by (simp add: json_value_equals.simps)
      show ?thesis
        using 1(2) [of a b "JSON_Arr x" x "JSON_Arr y" y] True 1(3-6) JSON_Arr w
        unfolding eq by auto
    next
      case JSON_Null
      then show ?thesis using True 1(3,4)
        by (cases w) (auto simp: equals_scalars json_value_get_type_def)
    next
      case (JSON_String s)
      then show ?thesis using True 1(3,4)
        by (cases w) (auto simp: equals_scalars json_value_get_type_def)
    next
      case (JSON_Number d)
      then show ?thesis using True 1(3,4)
        by (cases w) (auto simp: equals_scalars json_value_get_type_def)
    next
      case (JSON_Bool c)
      then show ?thesis using True 1(3,4)
        by (cases w) (auto simp: equals_scalars json_value_get_type_def)
    qed
  next
    case False
    then show ?thesis using 1(3,4) equals_types [OF False]
      by (cases v; cases w) (simp_all add: json_value_get_type_def)
  qed
next
  case (2 E v vs w ws)
  then show ?case by (auto split: bool.splits)
next
  case (6 E x y key ks)
  have inv: "object_inv x" "object_inv y" using 6(3,4) by simp_all
  have "key \<in> set (names x)" using 6(5) by simp
  then obtain v where v: "object_map x key = Some v" using object_map_None [OF inv(1), of key] by auto
  show ?case
    using 6 v get_value_map [OF inv(1), of key] get_value_map [OF inv(2), of key]
      value_inv_member [OF 6(3) v] value_inv_member [OF 6(4)]
    by (cases "object_map y key")
      (auto simp: equal_members.simps(2) json_value_equals.simps [of E _ None] json_value_get_type_def
        split: bool.splits json_value.splits simp del: value_inv.simps(1))
qed (simp_all add: equal_members.simps)

lemma validate_types:
  "json_validate (Some JSON_Null) (Some v) = Some JSONSuccess"
  "json_value_get_type (Some s) \<noteq> json_value_get_type (Some v) \<Longrightarrow> s \<noteq> JSON_Null \<Longrightarrow>
   json_validate (Some s) (Some v) = Some JSONFailure"
  "json_validate (Some (JSON_String x)) (Some (JSON_String y)) = Some JSONSuccess"
  "json_validate (Some (JSON_Bool b)) (Some (JSON_Bool c)) = Some JSONSuccess"
  "json_validate (Some (JSON_Number d)) (Some (JSON_Number e)) = Some JSONSuccess"
  by (subst json_validate.simps; cases s; cases v; simp add: json_value_get_type_def)+

abbreviation status_of :: "bool \<Rightarrow> json_status" where
  "status_of b \<equiv> (if b then JSONSuccess else JSONFailure)"

lemma validate_spec:
  fixes schema "value" :: "'d json_value option" and t :: "'d json_value" and x y :: "'d obj"
  shows "\<And>s v. schema = Some s \<Longrightarrow> value = Some v \<Longrightarrow> value_inv s \<Longrightarrow> value_inv v \<Longrightarrow>
      json_validate schema value = Some (status_of (conforms (doc s) (doc v)))"
    and "value_inv t \<Longrightarrow> \<forall>v \<in> set vs. value_inv v \<Longrightarrow>
      validate_items t vs = Some (status_of (\<forall>v \<in> set vs. conforms (doc t) (doc v)))"
    and "value_inv (JSON_Obj x) \<Longrightarrow> value_inv (JSON_Obj y) \<Longrightarrow> set ks \<subseteq> set (names x) \<Longrightarrow>
      validate_members x y ks = Some (status_of (\<forall>k \<in> set ks. case object_map y k of None \<Rightarrow> False
        | Some w \<Rightarrow> conforms (doc (the (object_map x k))) (doc w)))"
proof (induction schema "value" and t vs and x y ks rule: json_validate_validate_items_validate_members.induct)
  case (1 schema "value")
  show ?case
  proof (cases "json_value_get_type (Some s) = json_value_get_type (Some v)")
    case True
    show ?thesis
    proof (cases s)
      case (JSON_Obj x)
      then obtain y where v: "v = JSON_Obj y"
        using True by (cases v) (auto simp: json_value_get_type_def)
      have inv: "object_inv x" "object_inv y" using 1(5,6) JSON_Obj v by simp_all
      have eq: "json_validate schema value =
          (if length (names x) = 0 then Some JSONSuccess
           else if length (names y) < length (names x) then Some JSONFailure
           else validate_members x y (names x))"
        using 1(3,4) JSON_Obj v by (simp add: json_validate.simps json_value_get_type_def)
      have "validate_members x y (names x) = Some (status_of (\<forall>k \<in> set (names x). case object_map y k of
            None \<Rightarrow> False | Some w \<Rightarrow> conforms (doc (the (object_map x k))) (doc w)))"
        if "length (names x) \<noteq> 0" "\<not> length (names y) < length (names x)"
        using 1(1) [of schema "value" "JSON_Obj x" x "JSON_Obj y" y] 1(3-6) JSON_Obj v that True by blast
      then show ?thesis
        unfolding eq JSON_Obj v doc_members(1) [OF inv(1)] doc_members(1) [OF inv(2)] conforms.simps
        by (auto simp: doc_members(2) [OF inv(2)] option.case_eq_if)
    next
      case (JSON_Arr x)
      then obtain y where v: "v = JSON_Arr y"
        using True by (cases v) (auto simp: json_value_get_type_def)
      have eq: "json_validate schema value =
          (case items x of [] \<Rightarrow> Some JSONSuccess | t # _ \<Rightarrow> validate_items t (items y))"
        using 1(3,4) JSON_Arr v by (simp add: json_validate.simps json_value_get_type_def)
      show ?thesis
      proof (cases "items x")
        case (Cons t ts)
        then have "validate_items t (items y) = Some (status_of (\<forall>v \<in> set (items y). conforms (doc t) (doc v)))"
          using 1(2) [of schema "value" "JSON_Arr x" x "JSON_Arr y" y t ts] 1(3-6) JSON_Arr v True by auto
        then show ?thesis unfolding eq JSON_Arr v by (simp add: Cons)
      next
        case Nil
        then show ?thesis unfolding eq JSON_Arr v by simp
      qed
    next
      case JSON_Null
      then show ?thesis using 1(3,4) by (simp add: validate_types(1) json_value_get_type_def)
    next
      case (JSON_String c)
      then show ?thesis using True 1(3,4)
        by (cases v) (auto simp: validate_types json_value_get_type_def)
    next
      case (JSON_Number c)
      then show ?thesis using True 1(3,4)
        by (cases v) (auto simp: validate_types json_value_get_type_def)
    next
      case (JSON_Bool c)
      then show ?thesis using True 1(3,4)
        by (cases v) (auto simp: validate_types json_value_get_type_def)
    qed
  next
    case False
    then show ?thesis using 1(3,4) validate_types(2) [of s v]
      by (cases s; cases v) (auto simp: validate_types(1) json_value_get_type_def)
  qed
next
  case (3 t v vs)
  then show ?case by (auto split: json_status.splits if_splits)
next
  case (5 x y key ks)
  have inv: "object_inv x" "object_inv y" using 5(3,4) by simp_all
  have "key \<in> set (names x)" using 5(5) by simp
  then obtain v where v: "object_map x key = Some v" using object_map_None [OF inv(1), of key] by auto
  show ?case
    using 5 v get_value_map [OF inv(1), of key] get_value_map [OF inv(2), of key]
      value_inv_member [OF 5(3) v] value_inv_member [OF 5(4)]
    by (cases "object_map y key")
      (auto simp: validate_members.simps(2) split: if_splits simp del: value_inv.simps(1))
qed (simp_all add: validate_members.simps)

subsection \<open>Dotted names\<close>

lemma put_back_spec:
  assumes inv: "object_inv ob" and key: "object_map ob key = Some w"
  shows "\<exists>ob'. put_back ob key sub = Some ob' \<and> object_inv ob' \<and>
    object_map ob' = (object_map ob)(key \<mapsto> JSON_Obj sub) \<and>
    set (vals ob') \<subseteq> insert (JSON_Obj sub) (set (vals ob))"
proof -
  have "key \<in> set (names ob)" using key object_map_None [OF inv, of key] by auto
  then obtain x where x: "x < length (names ob)" "names ob ! x = key" by (auto simp: in_set_conv_nth)
  let ?ob = "JSON_Object (cells ob) (hashes ob) (names ob) ((vals ob)[x := JSON_Obj sub]) (cell_ixs ob) (item_capacity ob)"
  have "put_back ob key sub = Some ?ob"
    using get_cell_ix_hit [OF inv x(1)] object_inv_item(2) [OF inv x(1)] x(2) by (simp add: put_back_def)
  moreover have "object_inv ?ob" using object_inv_vals [OF inv, of "(vals ob)[x := JSON_Obj sub]"] by simp
  moreover have "object_map ?ob = (object_map ob)(key \<mapsto> JSON_Obj sub)"
    using map_of_zip_update [of "names ob" "vals ob" x "JSON_Obj sub"] inv x
    by (simp add: object_map_def object_inv_def)
  ultimately show ?thesis using set_update_subset_insert [of "vals ob" x "JSON_Obj sub"] by auto
qed

lemma set_item_vals:
  assumes inv: "object_inv ob" and M: "mem_bounded M"
    and set: "set_item M dup ob name v = Some (res, ob')"
  shows "set (vals ob') \<subseteq> insert v (set (vals ob))"
proof (cases "name \<in> set (names ob)")
  case True
  then obtain x where "x < length (names ob)" "names ob ! x = name" by (auto simp: in_set_conv_nth)
  then have "vals ob' = (vals ob)[x := v]" using set_item_present [OF inv, of x M dup v] set by auto
  then show ?thesis using set_update_subset_insert by fastforce
next
  case False
  then show ?thesis using set_item_absent [OF inv M False, of dup v] set by (auto split: if_splits)
qed

lemma fresh_object:
  "json_value_init_object E = Some nv \<Longrightarrow> nv = JSON_Obj (JSON_Object [] [] [] [] [] 0)"
  by (auto simp: json_value_init_object_def json_object_make_def json_object_init_def split: if_splits)

lemma getn_map: "object_inv ob \<Longrightarrow> json_object_getn_value ob name n = Some (object_map ob (take n name))"
  by (rule getn_value_spec)

lemma dotset_spec:
  assumes M: "mem_bounded (table_mem E)"
  shows "value_inv (JSON_Obj ob) \<Longrightarrow> value_inv v \<Longrightarrow>
    \<exists>st ob'. json_object_dotset_value E (Some ob) name (Some v) False = Some (st, Some ob') \<and>
      value_inv (JSON_Obj ob') \<and>
      (st = JSONSuccess \<longrightarrow> json_object_dotget_value (Some ob') name = Some (Some v))"
proof (induction "length name" arbitrary: ob name rule: less_induct)
  case less
  have inv: "object_inv ob" using less.prems(1) by simp
  note D = json_object_dotset_value.simps [of E "Some ob" name "Some v" False]
  show ?case
  proof (cases "dot_position name")
    case None
    obtain res ob' where set: "set_item (table_mem E) (parson_strdup E name \<noteq> None) ob name v = Some (res, ob')"
      "object_inv ob'" "res = JSONSuccess \<longrightarrow> object_map ob' = (object_map ob)(name \<mapsto> v)"
      using set_item_map [OF inv M, of "parson_strdup E name \<noteq> None" name v] by (auto split: if_splits)
    have "value_inv (JSON_Obj ob')"
      using set(2) set_item_vals [OF inv M set(1)] less.prems by auto
    then show ?thesis
      using set None get_value_map [OF set(2), of name]
      by (auto simp: D json_object_set_value_def json_object_dotget_value.simps)
  next
    case (Some n)
    let ?key = "take n name" and ?rest = "drop (n + 1) name"
    have rest: "length ?rest < length name" using dot_position_less [OF Some] by simp
    have get: "json_object_getn_value ob name n = Some (object_map ob ?key)" by (rule getn_map [OF inv])
    have dotget: "json_object_dotget_value (Some ob') name = json_object_dotget_value (Some sub) ?rest"
      if "object_inv ob'" "object_map ob' ?key = Some (JSON_Obj sub)" for ob' :: "'a obj" and sub
      using that Some getn_map [OF that(1), of name n]
      by (subst json_object_dotget_value.simps) (simp add: object_getn_value_def json_value_get_object_def)
    show ?thesis
    proof (cases "object_map ob ?key")
      case None
      show ?thesis
      proof (cases "json_value_init_object E")
        case (Some nv)
        note nv = fresh_object [OF this]
        let ?new = "JSON_Object [] [] [] [] [] 0 :: 'a obj"
        obtain st new where new: "json_object_dotset_value E (Some ?new) ?rest (Some v) False = Some (st, Some new)"
          "value_inv (JSON_Obj new)"
          "st = JSONSuccess \<longrightarrow> json_object_dotget_value (Some new) ?rest = Some (Some v)"
          using less.hyps [OF rest, of ?new] less.prems(2) by auto
        show ?thesis
        proof (cases "st = JSONSuccess \<and> parson_strndup E name n \<noteq> None")
          case True
          then have key: "parson_strndup E name n = Some ?key" by (auto simp: parson_strndup_def split: if_splits)
          obtain res ob' where add: "json_object_add (table_mem E) ob ?key (JSON_Obj new) = Some (res, ob')"
            "object_inv ob'" "res = JSONSuccess \<longrightarrow> ?key \<notin> set (names ob) \<and>
              names ob' = names ob @ [?key] \<and> vals ob' = vals ob @ [JSON_Obj new]"
            using add_spec [OF inv M, of ?key "JSON_Obj new"] by (auto split: if_splits)
          show ?thesis
          proof (cases res)
            case JSONSuccess
            then have m: "object_map ob' ?key = Some (JSON_Obj new)"
              using add(3) map_of_zip_snoc [of "names ob" "vals ob" ?key "JSON_Obj new"] inv
              by (simp add: object_map_def object_inv_def)
            have "value_inv (JSON_Obj ob')" using add(2,3) JSONSuccess less.prems(1) new(2) by auto
            then show ?thesis
              using dotget [OF add(2) m] True key add(1) new None Some nv JSONSuccess \<open>dot_position name = Some n\<close> get
              by (simp add: D json_value_get_object_def)
          qed (use True key add(1) new(1) None Some nv \<open>dot_position name = Some n\<close> get less.prems(1) in
            \<open>simp add: D json_value_get_object_def\<close>)
        qed (use new(1) None Some nv \<open>dot_position name = Some n\<close> get less.prems(1) in
          \<open>auto simp: D json_value_get_object_def split: option.splits\<close>)
      qed (use None \<open>dot_position name = Some n\<close> get less.prems(1) in \<open>simp add: D\<close>)
    next
      case (Some w)
      note w = Some
      show ?thesis
      proof (cases "\<exists>sub. w = JSON_Obj sub")
        case True
        then obtain sub where sub: "w = JSON_Obj sub" by auto
        have "value_inv (JSON_Obj sub)" using value_inv_member [OF less.prems(1) w] sub by simp
        then obtain st sub' where s: "json_object_dotset_value E (Some sub) ?rest (Some v) False = Some (st, Some sub')"
          "value_inv (JSON_Obj sub')"
          "st = JSONSuccess \<longrightarrow> json_object_dotget_value (Some sub') ?rest = Some (Some v)"
          using less.hyps [OF rest] less.prems(2) by blast
        obtain ob' where ob': "put_back ob ?key sub' = Some ob'" "object_inv ob'"
          "object_map ob' = (object_map ob)(?key \<mapsto> JSON_Obj sub')"
          "set (vals ob') \<subseteq> insert (JSON_Obj sub') (set (vals ob))"
          using put_back_spec [OF inv w] by blast
        have "value_inv (JSON_Obj ob')" using ob'(2,4) less.prems(1) s(2) by auto
        then show ?thesis
          using dotget [OF ob'(2), of sub'] ob'(1,3) s w sub \<open>dot_position name = Some n\<close> get
          by (simp add: D)
      next
        case False
        then show ?thesis using w \<open>dot_position name = Some n\<close> get less.prems(1)
          by (cases w) (simp_all add: D)
      qed
    qed
  qed
qed

subsection \<open>Properties\<close>

text \<open>An environment whose numbers are integers, for closed instances.\<close>

definition int_env :: "int json_env" where
  "int_env = \<lparr>mem = (\<lambda>n. n < 2 ^ 32), num_zero = 0, num_invalid = (\<lambda>_. False), num_huge = (\<lambda>_. False),
     num_near = (=), strtod = (\<lambda>s. (0, 0, 0)), sprintf_num = (\<lambda>_. ''0''), escape_slashes = True\<rparr>"

lemma int_env_bounded [simp]: "mem_bounded (table_mem int_env)"
  by (auto simp: mem_bounded_def table_mem_def int_env_def sizeof_pointer_def)

definition empty_object :: "int json_value" where
  "empty_object = JSON_Obj (JSON_Object [] [] [] [] [] 0)"

lemma empty_object_inv [simp]: "value_inv empty_object"
  by (simp add: empty_object_def)

text \<open>
  C26: A deep copy stands for the same document as the original: it is a well-formed tree of its
  own with the same members in the same order and the same elements.  There is one whenever every
  number is valid and there is memory for containers and strings of the size of the largest one of
  the document; there is none when a number is invalid.  The copy never reads a freed item.
\<close>

theorem deep_copy_same_document:
  assumes "value_inv v" "mem_bounded (table_mem E)"
  shows "\<exists>r. json_value_deep_copy E (Some v) = Some r \<and>
    (\<forall>c. r = Some c \<longrightarrow> value_inv c \<and> doc c = doc v \<and> numbers_valid E (doc v)) \<and>
    (\<forall>L. numbers_valid E (doc v) \<and> doc_fits L (doc v) \<and> roomy E L \<longrightarrow> r \<noteq> None)"
  using copy_spec(1) [OF assms(2,1)] copy_room(1) [OF _ assms(2,1)] copied_numbers(1) [OF _ assms(1)]
  by (fastforce simp: json_value_deep_copy_def)

theorem deep_copy_same_document_witness:
  "\<exists>c. json_value_deep_copy int_env (Some (JSON_Arr (JSON_Array [empty_object, JSON_Number 7] 16))) = Some (Some c) \<and>
    value_inv c \<and> doc c = Doc_Array [Doc_Object [], Doc_Number 7]"
proof -
  define v where "v = JSON_Arr (JSON_Array [empty_object, JSON_Number 7] 16)"
  have d: "doc v = Doc_Array [Doc_Object [], Doc_Number 7]" by (simp add: v_def empty_object_def)
  have "numbers_valid int_env (doc v) \<and> doc_fits 2 (doc v) \<and> roomy int_env 2"
    unfolding d by (simp add: roomy_def int_env_def)
  note room = this
  have inv: "value_inv v" by (simp add: v_def)
  obtain r where r: "json_value_deep_copy int_env (Some v) = Some r \<and>
      (\<forall>c. r = Some c \<longrightarrow> value_inv c \<and> doc c = doc v \<and> numbers_valid int_env (doc v)) \<and>
      (\<forall>L. numbers_valid int_env (doc v) \<and> doc_fits L (doc v) \<and> roomy int_env L \<longrightarrow> r \<noteq> None)"
    by (rule exE [OF deep_copy_same_document [OF inv int_env_bounded]])
  note some = conjunct2 [OF conjunct2 [OF r], rule_format, OF room]
  obtain c where c: "r = Some c" using some by (cases r) simp_all
  show ?thesis
    using conjunct1 [OF r] conjunct1 [OF conjunct2 [OF r], rule_format, OF c]
    unfolding c v_def [symmetric] d by (intro exI [of _ c]) simp
qed

text \<open>
  C27: Equality of values is equality of documents: arrays element by element, objects as maps
  whatever the order of their members, strings byte by byte, numbers up to the tolerance; the
  walk through both hash tables finds every member.
\<close>

theorem equals_is_document_equality:
  assumes "value_inv v" "value_inv w"
  shows "json_value_equals E (Some v) (Some w) = Some (doc_equal (num_near E) (doc v) (doc w))"
  by (rule equals_spec(1) [OF refl refl assms])

theorem equals_is_document_equality_witness:
  "json_value_equals int_env (Some empty_object) (Some empty_object) = Some True"
  by (subst equals_is_document_equality) (simp_all add: empty_object_def)

text \<open>
  C28: Validation decides conformance of documents: null in a schema stands for any value, an
  empty array or object for any array or object, a non-empty array for arrays whose elements all
  conform to its first element, and an object for objects that have each of its names with a
  conforming value.
\<close>

theorem validate_is_conformance:
  assumes "value_inv s" "value_inv v"
  shows "json_validate (Some s) (Some v) =
    Some (if conforms (doc s) (doc v) then JSONSuccess else JSONFailure)"
  by (rule validate_spec(1) [OF refl refl assms])

theorem validate_is_conformance_witness:
  "json_validate (Some (JSON_Arr (JSON_Array [JSON_Null] 16)))
     (Some (JSON_Arr (JSON_Array [empty_object, JSON_Bool 1] 16))) = Some JSONSuccess"
  by (subst validate_is_conformance) simp_all

text \<open>
  What \<open>json_object_dotset_value\<close> stores under a dotted path, \<open>json_object_dotget_value\<close>
  finds there, whether the objects on the path existed or were made on the way; the call always
  ends, and leaves a well-formed tree also when it fails.
\<close>

theorem dotset_then_dotget:
  assumes "value_inv (JSON_Obj ob)" "value_inv v" "mem_bounded (table_mem E)"
  shows "\<exists>st ob'. json_object_dotset_value E (Some ob) name (Some v) False = Some (st, Some ob') \<and>
    value_inv (JSON_Obj ob') \<and>
    (st = JSONSuccess \<longrightarrow> json_object_dotget_value (Some ob') name = Some (Some v))"
  by (rule dotset_spec [OF assms(3,1,2)])

theorem dotset_then_dotget_witness:
  "\<exists>st ob'. json_object_dotset_value int_env (Some (JSON_Object [] [] [] [] [] 0)) ''a.b''
      (Some (JSON_Bool 1)) False = Some (st, Some ob') \<and>
    value_inv (JSON_Obj ob') \<and>
    (st = JSONSuccess \<longrightarrow> json_object_dotget_value (Some ob') ''a.b'' = Some (Some (JSON_Bool 1)))"
  by (rule dotset_then_dotget) simp_all

end
