(* ===== verification/Json_Parse.thy ===== *)
theory Json_Parse
  imports Json_Tree
begin

text \<open>
  The parser and the serializer of \<open>parson/src/parson.c\<close>.

  The parser's pointer into the text is the rest of the text.  Its functions call each other
  without a bound the code writes down; they take a fuel here, of which two steps for every
  character and one more are always enough (\<open>parse_total\<close>), and \<open>json_parse_string\<close>
  provides that.  \<open>Null\<close> is the null pointer the code returns for a text it rejects;
  \<open>No_Result\<close> marks an access to a freed item and fuel that ran out, neither of which happens.
  The serializer writes through a count and an optional buffer, as \<open>json_serialize_to_buffer_r\<close>
  does; the count is an \<open>int\<close>, and a text that overflows it has no result.  A number is printed into the
  buffer or, when only the size is asked for, into 64 bytes on the stack, enough for the default
  format; \<open>sprintf\<close> does not fail for these formats.
\<close>

subsection \<open>The parser\<close>

datatype 'a parsed = No_Result | Null | Value 'a string

definition MAX_NESTING :: nat where "MAX_NESTING = 2048"
definition ERANGE :: int where "ERANGE = 34"

definition isspace :: "char \<Rightarrow> bool" where
  "isspace c \<longleftrightarrow> c \<in> {CHR '' '', CHR 0x09, CHR 0x0A, CHR 0x0B, CHR 0x0C, CHR 0x0D}"

definition skip_ws :: "string \<Rightarrow> string" where
  "skip_ws s = dropWhile isspace s"

definition is_digit :: "char \<Rightarrow> bool" where
  "is_digit c \<longleftrightarrow> c \<in> set ''0123456789''"

definition of_option :: "string \<Rightarrow> 'a option \<Rightarrow> 'a parsed" where
  "of_option s r = (case r of None \<Rightarrow> Null | Some v \<Rightarrow> Value v s)"

definition parse_string_value :: "'d json_env \<Rightarrow> string \<Rightarrow> 'd json_value parsed" where
  "parse_string_value E s =
     (case get_quoted_string (mem E) s of
        None \<Rightarrow> Null
      | Some (str, t) \<Rightarrow> of_option t (json_value_init_string_no_copy E str))"

definition parse_boolean_value :: "'d json_env \<Rightarrow> string \<Rightarrow> 'd json_value parsed" where
  "parse_boolean_value E s =
     (if take 4 s = ''true'' then of_option (drop 4 s) (json_value_init_boolean E 1)
      else if take 5 s = ''false'' then of_option (drop 5 s) (json_value_init_boolean E 0)
      else Null)"

definition parse_number_value :: "'d json_env \<Rightarrow> string \<Rightarrow> 'd json_value parsed" where
  "parse_number_value E s =
     (let (number, len, errno) = strtod E s
      in if errno = ERANGE \<and> num_huge E number then Null
         else if (errno \<noteq> 0 \<and> errno \<noteq> ERANGE) \<or> \<not> is_decimal s len then Null
         else of_option (drop len s) (json_value_init_number E number))"

definition parse_null_value :: "'d json_env \<Rightarrow> string \<Rightarrow> 'd json_value parsed" where
  "parse_null_value E s =
     (if take 4 s = ''null'' then of_option (drop 4 s) (json_value_init_null E) else Null)"

text \<open>The ends of the two loops, behind the last member or element.\<close>

definition close_object :: "'d obj \<Rightarrow> string \<Rightarrow> 'd json_value parsed" where
  "close_object ob s =
     (let s = skip_ws s in if peek s \<noteq> CHR ''}'' then Null else Value (JSON_Obj ob) (drop 1 s))"

definition close_array :: "'d json_env \<Rightarrow> 'd json_value json_array \<Rightarrow> string \<Rightarrow> 'd json_value parsed" where
  "close_array E a s =
     (let s = skip_ws s; (res, a') = json_array_resize E a (json_array_get_count (Some a))
      in if peek s \<noteq> CHR '']'' \<or> res \<noteq> JSONSuccess then Null else Value (JSON_Arr a') (drop 1 s))"

text \<open>
  The calls of one recursion, and the functions with the calls they make as a parameter.
\<close>

datatype 'd call =
  Parse_Value nat string | Parse_Members nat "'d obj" string
  | Parse_Elements nat "'d json_value json_array" string

definition parse_object_value ::
    "'d json_env \<Rightarrow> ('d call \<Rightarrow> 'd json_value parsed) \<Rightarrow> nat \<Rightarrow> string \<Rightarrow> 'd json_value parsed" where
  "parse_object_value E rec nesting s =
     (case json_value_get_object (json_value_init_object E) of
        None \<Rightarrow> Null
      | Some ob \<Rightarrow>
          if peek s \<noteq> CHR ''{'' then Null
          else let s = skip_ws (drop 1 s)
            in if peek s = CHR ''}'' then Value (JSON_Obj ob) (drop 1 s)
               else rec (Parse_Members nesting ob s))"

definition parse_array_value ::
    "'d json_env \<Rightarrow> ('d call \<Rightarrow> 'd json_value parsed) \<Rightarrow> nat \<Rightarrow> string \<Rightarrow> 'd json_value parsed" where
  "parse_array_value E rec nesting s =
     (case json_value_get_array (json_value_init_array E) of
        None \<Rightarrow> Null
      | Some a \<Rightarrow>
          if peek s \<noteq> CHR ''['' then Null
          else let s = skip_ws (drop 1 s)
            in if peek s = CHR '']'' then Value (JSON_Arr a) (drop 1 s)
               else rec (Parse_Elements nesting a s))"

definition parse_value_body ::
    "'d json_env \<Rightarrow> ('d call \<Rightarrow> 'd json_value parsed) \<Rightarrow> nat \<Rightarrow> string \<Rightarrow> 'd json_value parsed" where
  "parse_value_body E rec nesting s =
     (if nesting > MAX_NESTING then Null
      else let s = skip_ws s; c = peek s
        in if c = CHR ''{'' then parse_object_value E rec (nesting + 1) s
           else if c = CHR ''['' then parse_array_value E rec (nesting + 1) s
           else if c = DQ then parse_string_value E s
           else if c = CHR ''f'' \<or> c = CHR ''t'' then parse_boolean_value E s
           else if c = CHR ''-'' \<or> is_digit c then parse_number_value E s
           else if c = CHR ''n'' then parse_null_value E s
           else Null)"

text \<open>The loop of \<open>parse_object_value\<close> over the members, and that of \<open>parse_array_value\<close>.\<close>

definition parse_members_body ::
    "'d json_env \<Rightarrow> ('d call \<Rightarrow> 'd json_value parsed) \<Rightarrow> nat \<Rightarrow> 'd obj \<Rightarrow> string \<Rightarrow> 'd json_value parsed" where
  "parse_members_body E rec nesting ob s =
     (if s = [] then close_object ob s
      else case get_quoted_string (mem E) s of
        None \<Rightarrow> Null
      | Some (key, s) \<Rightarrow>
          if \<not> c_string key then Null
          else let s = skip_ws s
            in if peek s \<noteq> CHR '':'' then Null
               else case rec (Parse_Value nesting (drop 1 s)) of
                 No_Result \<Rightarrow> No_Result
               | Null \<Rightarrow> Null
               | Value v s \<Rightarrow>
                   (case json_object_add (table_mem E) ob key v of
                      None \<Rightarrow> No_Result
                    | Some (JSONFailure, _) \<Rightarrow> Null
                    | Some (JSONSuccess, ob) \<Rightarrow>
                        let s = skip_ws s
                        in if peek s \<noteq> CHR '','' then close_object ob s
                           else rec (Parse_Members nesting ob (skip_ws (drop 1 s)))))"

definition parse_elements_body ::
    "'d json_env \<Rightarrow> ('d call \<Rightarrow> 'd json_value parsed) \<Rightarrow> nat \<Rightarrow> 'd json_value json_array \<Rightarrow> string \<Rightarrow> 'd json_value parsed" where
  "parse_elements_body E rec nesting a s =
     (if s = [] then close_array E a s
      else case rec (Parse_Value nesting s) of
        No_Result \<Rightarrow> No_Result
      | Null \<Rightarrow> Null
      | Value v s \<Rightarrow>
          (case json_array_add E a v of
             (JSONFailure, _) \<Rightarrow> Null
           | (JSONSuccess, a) \<Rightarrow>
               let s = skip_ws s
               in if peek s \<noteq> CHR '','' then close_array E a s
                  else rec (Parse_Elements nesting a (skip_ws (drop 1 s)))))"

primrec parse_call :: "'d json_env \<Rightarrow> nat \<Rightarrow> 'd call \<Rightarrow> 'd json_value parsed" where
  "parse_call E 0 c = No_Result"
| "parse_call E (Suc n) c =
     (case c of
        Parse_Value nesting s \<Rightarrow> parse_value_body E (parse_call E n) nesting s
      | Parse_Members nesting ob s \<Rightarrow> parse_members_body E (parse_call E n) nesting ob s
      | Parse_Elements nesting a s \<Rightarrow> parse_elements_body E (parse_call E n) nesting a s)"

definition parse_value :: "'d json_env \<Rightarrow> nat \<Rightarrow> nat \<Rightarrow> string \<Rightarrow> 'd json_value parsed" where
  "parse_value E fuel nesting s = parse_call E fuel (Parse_Value nesting s)"

definition parse_fuel :: "string \<Rightarrow> nat" where
  "parse_fuel s = 2 * length s + 1"

definition json_parse_string :: "'d json_env \<Rightarrow> string option \<Rightarrow> 'd json_value parsed" where
  "json_parse_string E string =
     (case string of
        None \<Rightarrow> Null
      | Some s \<Rightarrow>
          let s = (if take 3 s = [chr 0xEF, chr 0xBB, chr 0xBF] then drop 3 s else s)
          in parse_value E (parse_fuel s) 0 s)"

definition json_parse_string_with_comments :: "'d json_env \<Rightarrow> string \<Rightarrow> 'd json_value parsed" where
  "json_parse_string_with_comments E string =
     (case parson_strdup E string of
        None \<Rightarrow> Null
      | Some copy \<Rightarrow>
          let s = remove_comments (remove_comments copy ''/*'' ''*/'') ''//'' [CHR 0x0A]
          in parse_value E (parse_fuel s) 0 s)"

subsection \<open>The serializer\<close>

lemma obj_vals_size: "size_list size (vals ob) < Suc (size_json_object size ob)"
  by (cases ob) simp

text \<open>\<open>out_if b f\<close> stands for the statement \<open>if (b) f;\<close> of the writer.\<close>

definition out_if :: "bool \<Rightarrow> (out \<Rightarrow> out) \<Rightarrow> out \<Rightarrow> out" where
  "out_if b f w = (if b then f w else w)"

function serialize_value :: "'d json_env \<Rightarrow> bool \<Rightarrow> nat \<Rightarrow> 'd json_value \<Rightarrow> out \<Rightarrow> out"
  and serialize_items :: "'d json_env \<Rightarrow> bool \<Rightarrow> nat \<Rightarrow> 'd json_value list \<Rightarrow> out \<Rightarrow> out"
  and serialize_members :: "'d json_env \<Rightarrow> bool \<Rightarrow> nat \<Rightarrow> string list \<Rightarrow> 'd json_value list \<Rightarrow> out \<Rightarrow> out"
where
  "serialize_value E is_pretty level (JSON_Arr a) =
     (\<lambda>w. let w = append_string ''['' w;
              w = out_if (items a \<noteq> [] \<and> is_pretty) (append_string [CHR 0x0A]) w;
              w = serialize_items E is_pretty level (items a) w;
              w = out_if (items a \<noteq> [] \<and> is_pretty) (append_indent level) w
          in append_string '']'' w)"
| "serialize_value E is_pretty level (JSON_Obj ob) =
     (\<lambda>w. let w = append_string ''{'' w;
              w = out_if (names ob \<noteq> [] \<and> is_pretty) (append_string [CHR 0x0A]) w;
              w = serialize_members E is_pretty level (names ob) (vals ob) w;
              w = out_if (names ob \<noteq> [] \<and> is_pretty) (append_indent level) w
          in append_string ''}'' w)"
| "serialize_value E is_pretty level (JSON_String s) = json_serialize_string (escape_slashes E) s"
| "serialize_value E is_pretty level (JSON_Bool b) =
     (if b \<noteq> 0 then append_string ''true'' else append_string ''false'')"
| "serialize_value E is_pretty level (JSON_Number d) = append_string (sprintf_num E d)"
| "serialize_value E is_pretty level JSON_Null = append_string ''null''"
| "serialize_items E is_pretty level [] = (\<lambda>w. w)"
| "serialize_items E is_pretty level (v # vs) =
     (\<lambda>w. let w = out_if is_pretty (append_indent (level + 1)) w;
              w = serialize_value E is_pretty (level + 1) v w;
              w = out_if (vs \<noteq> []) (append_string '','') w;
              w = out_if is_pretty (append_string [CHR 0x0A]) w
          in serialize_items E is_pretty level vs w)"
| "serialize_members E is_pretty level (key # ks) (v # vs) =
     (\<lambda>w. let w = out_if is_pretty (append_indent (level + 1)) w;
              w = json_serialize_string (escape_slashes E) key w;
              w = append_string '':'' w;
              w = out_if is_pretty (append_string '' '') w;
              w = serialize_value E is_pretty (level + 1) v w;
              w = out_if (ks \<noteq> []) (append_string '','') w;
              w = out_if is_pretty (append_string [CHR 0x0A]) w
          in serialize_members E is_pretty level ks vs w)"
| "serialize_members E is_pretty level [] vs = (\<lambda>w. w)"
| "serialize_members E is_pretty level ks [] = (\<lambda>w. w)"
  by pat_completeness auto
termination
  by (relation "measure (\<lambda>x. case x of Inl (E, p, l, v) \<Rightarrow> size v
      | Inr (Inl (E, p, l, vs)) \<Rightarrow> size_list size vs
      | Inr (Inr (E, p, l, ks, vs)) \<Rightarrow> size_list size vs)")
    (auto simp: arr_size obj_vals_size)

declare serialize_value.simps serialize_items.simps serialize_members.simps [simp del]

text \<open>
  A negative result stands for the failure the code reports for a null value.  \<open>None\<close> is the undefined
  result of a total that overflows: a text of \<open>2 ^ 31\<close> characters or more.
\<close>

definition json_serialize_to_buffer_r ::
    "'d json_env \<Rightarrow> 'd json_value option \<Rightarrow> string option \<Rightarrow> nat \<Rightarrow> bool \<Rightarrow> out" where
  "json_serialize_to_buffer_r E value buf level is_pretty =
     (case value of None \<Rightarrow> (Some (-1), buf) | Some v \<Rightarrow> serialize_value E is_pretty level v (Some 0, buf))"

definition serialization_size :: "'d json_env \<Rightarrow> bool \<Rightarrow> 'd json_value option \<Rightarrow> nat option" where
  "serialization_size E is_pretty value =
     (case fst (json_serialize_to_buffer_r E value None 0 is_pretty) of
        None \<Rightarrow> None
      | Some res \<Rightarrow> Some (if res < 0 then 0 else nat res + 1))"

definition serialize_to_buffer ::
    "'d json_env \<Rightarrow> bool \<Rightarrow> 'd json_value option \<Rightarrow> nat \<Rightarrow> (json_status \<times> string option) option" where
  "serialize_to_buffer E is_pretty value buf_size =
     (case serialization_size E is_pretty value of
        None \<Rightarrow> None
      | Some needed_size \<Rightarrow>
          if needed_size = 0 \<or> buf_size < needed_size then Some (JSONFailure, None)
          else case json_serialize_to_buffer_r E value (Some []) 0 is_pretty of
              (None, buf) \<Rightarrow> None
            | (Some written, buf) \<Rightarrow> Some (if written < 0 then (JSONFailure, None) else (JSONSuccess, buf)))"

definition serialize_to_string :: "'d json_env \<Rightarrow> bool \<Rightarrow> 'd json_value option \<Rightarrow> string option option" where
  "serialize_to_string E is_pretty value =
     (case serialization_size E is_pretty value of
        None \<Rightarrow> None
      | Some buf_size \<Rightarrow>
          if buf_size = 0 then Some None
          else if \<not> mem E buf_size then Some None
          else case serialize_to_buffer E is_pretty value buf_size of
              None \<Rightarrow> None
            | Some (res, buf) \<Rightarrow> Some (if res \<noteq> JSONSuccess then None else buf))"

definition json_serialization_size :: "'d json_env \<Rightarrow> 'd json_value option \<Rightarrow> nat option" where
  "json_serialization_size E = serialization_size E False"
definition json_serialization_size_pretty :: "'d json_env \<Rightarrow> 'd json_value option \<Rightarrow> nat option" where
  "json_serialization_size_pretty E = serialization_size E True"
definition json_serialize_to_buffer ::
    "'d json_env \<Rightarrow> 'd json_value option \<Rightarrow> nat \<Rightarrow> (json_status \<times> string option) option" where
  "json_serialize_to_buffer E = serialize_to_buffer E False"
definition json_serialize_to_buffer_pretty ::
    "'d json_env \<Rightarrow> 'd json_value option \<Rightarrow> nat \<Rightarrow> (json_status \<times> string option) option" where
  "json_serialize_to_buffer_pretty E = serialize_to_buffer E True"
definition json_serialize_to_string :: "'d json_env \<Rightarrow> 'd json_value option \<Rightarrow> string option option" where
  "json_serialize_to_string E = serialize_to_string E False"
definition json_serialize_to_string_pretty :: "'d json_env \<Rightarrow> 'd json_value option \<Rightarrow> string option option" where
  "json_serialize_to_string_pretty E = serialize_to_string E True"


subsection \<open>Files\<close>

text \<open>
  A file is the bytes it holds, or nothing when it cannot be opened, measured or read; the
  contents are read as a C string, up to the first zero byte.  Writing a file gives the status and
  the text handed to \<open>fputs\<close>; \<open>opened\<close>, \<open>put\<close> and \<open>closed\<close> say which library calls succeed.
\<close>

definition read_file :: "'d json_env \<Rightarrow> string option \<Rightarrow> string option" where
  "read_file E file =
     (case file of
        None \<Rightarrow> None
      | Some bytes \<Rightarrow>
          if \<not> mem E (length bytes + 1) then None
          else if length bytes = 0 then None
          else Some (takeWhile (\<lambda>c. c \<noteq> NUL) bytes))"

definition json_parse_file :: "'d json_env \<Rightarrow> string option \<Rightarrow> 'd json_value parsed" where
  "json_parse_file E file =
     (case read_file E file of None \<Rightarrow> Null | Some contents \<Rightarrow> json_parse_string E (Some contents))"

definition json_parse_file_with_comments :: "'d json_env \<Rightarrow> string option \<Rightarrow> 'd json_value parsed" where
  "json_parse_file_with_comments E file =
     (case read_file E file of None \<Rightarrow> Null | Some contents \<Rightarrow> json_parse_string_with_comments E contents)"

definition serialize_to_file ::
    "'d json_env \<Rightarrow> bool \<Rightarrow> 'd json_value option \<Rightarrow> bool \<Rightarrow> bool \<Rightarrow> bool \<Rightarrow>
     (json_status \<times> string option) option" where
  "serialize_to_file E is_pretty value opened put closed =
     (case serialize_to_string E is_pretty value of
        None \<Rightarrow> None
      | Some None \<Rightarrow> Some (JSONFailure, None)
      | Some (Some serialized_string) \<Rightarrow>
          if \<not> opened then Some (JSONFailure, None)
          else let return_code = JSONSuccess;
                   return_code = (if \<not> put then JSONFailure else return_code);
                   return_code = (if \<not> closed then JSONFailure else return_code)
            in Some (return_code, Some serialized_string))"

definition json_serialize_to_file ::
    "'d json_env \<Rightarrow> 'd json_value option \<Rightarrow> bool \<Rightarrow> bool \<Rightarrow> bool \<Rightarrow> (json_status \<times> string option) option" where
  "json_serialize_to_file E = serialize_to_file E False"
definition json_serialize_to_file_pretty ::
    "'d json_env \<Rightarrow> 'd json_value option \<Rightarrow> bool \<Rightarrow> bool \<Rightarrow> bool \<Rightarrow> (json_status \<times> string option) option" where
  "json_serialize_to_file_pretty E = serialize_to_file E True"

end
