(* ===== verification/Json_Total.thy ===== *)
theory Json_Total
  imports Json_Parse "HOL-Library.Sublist"
begin

text \<open>
  The parser of \<open>parson/src/parson.c\<close> always answers.  A call made with two units of fuel for
  every character of its text gives either the null pointer or a well-formed value nested no
  deeper than the limit, and the position behind it in the same text; a call of one of the loops
  needs one unit more.  The bodies of the parser's functions are proved one by one against what
  they may assume of the calls they make.
\<close>

subsection \<open>What the parser returns\<close>

text \<open>How many values a value has on its longest path, itself included, is at most \<open>n\<close>.\<close>

fun nested_within :: "'d json_value \<Rightarrow> nat \<Rightarrow> bool" where
  "nested_within (JSON_Obj ob) n \<longleftrightarrow> 0 < n \<and> (\<forall>v \<in> set (vals ob). nested_within v (n - 1))"
| "nested_within (JSON_Arr a) n \<longleftrightarrow> 0 < n \<and> (\<forall>v \<in> set (items a). nested_within v (n - 1))"
| "nested_within v n \<longleftrightarrow> 0 < n"

definition accepted :: "nat \<Rightarrow> string \<Rightarrow> 'd json_value parsed \<Rightarrow> bool" where
  "accepted d s r \<longleftrightarrow> (case r of No_Result \<Rightarrow> False | Null \<Rightarrow> True
     | Value v t \<Rightarrow> value_inv v \<and> nested_within v d \<and> suffix t s)"

named_theorems accepts \<open>what the parsers return\<close>

lemma accepted_simps [simp]: "\<not> accepted d s No_Result" "accepted d s Null"
  "accepted d s (Value v t) \<longleftrightarrow> value_inv v \<and> nested_within v d \<and> suffix t s"
  by (simp_all add: accepted_def)

lemma accepted_suffix: "accepted d t r \<Longrightarrow> suffix t s \<Longrightarrow> accepted d s r"
  by (cases r) (auto intro: suffix_order.trans)

lemma suffix_skip [simp]: "suffix (skip_ws s) s"
  by (simp add: skip_ws_def suffix_dropWhile)

lemma suffix_skip_trans: "suffix s t \<Longrightarrow> suffix (skip_ws s) t"
  using suffix_skip suffix_order.trans by blast

lemma accepted_of_option: "(\<And>v. r = Some v \<Longrightarrow> value_inv v \<and> nested_within v d) \<Longrightarrow> suffix t s \<Longrightarrow>
    accepted d s (of_option t r)"
  by (cases r) (auto simp: of_option_def)

lemma skip_quoted_suffix: "skip_quoted s = Some t \<Longrightarrow> strict_suffix t s"
proof (induction s rule: skip_quoted.induct)
  case (2 c s)
  then show ?case
    by (auto simp: strict_suffix_def suffix_def split: if_splits list.splits)
qed simp

lemma get_quoted_suffix: "get_quoted_string M s = Some (x, t) \<Longrightarrow> strict_suffix t s"
  unfolding get_quoted_string_def skip_quotes_def
  by (auto split: option.splits if_splits dest!: skip_quoted_suffix
     intro: suffix_order.less_le_trans suffix_drop)

lemma parse_string_accepted [accepts]: "0 < d \<Longrightarrow> accepted d s (parse_string_value E s)"
  by (auto simp: parse_string_value_def json_value_init_string_no_copy_def split: option.splits if_splits
    intro!: accepted_of_option dest!: get_quoted_suffix)

lemma parse_boolean_accepted [accepts]: "0 < d \<Longrightarrow> accepted d s (parse_boolean_value E s)"
  by (auto simp: parse_boolean_value_def json_value_init_boolean_def suffix_drop split: if_splits
    intro!: accepted_of_option)

lemma parse_null_accepted [accepts]: "0 < d \<Longrightarrow> accepted d s (parse_null_value E s)"
  by (auto simp: parse_null_value_def json_value_init_null_def suffix_drop split: if_splits
    intro!: accepted_of_option)

lemma parse_number_accepted [accepts]: "0 < d \<Longrightarrow> accepted d s (parse_number_value E s)"
  by (auto simp: parse_number_value_def json_value_init_number_def suffix_drop Let_def
    split: prod.splits if_splits intro!: accepted_of_option)

lemma close_object_accepted:
  "value_inv (JSON_Obj ob) \<Longrightarrow> nested_within (JSON_Obj ob) d \<Longrightarrow> suffix s t \<Longrightarrow> accepted d t (close_object ob s)"
  by (auto simp: close_object_def Let_def intro: suffix_order.trans [OF suffix_drop] suffix_skip_trans)

lemma close_array_accepted:
  "value_inv (JSON_Arr a) \<Longrightarrow> nested_within (JSON_Arr a) d \<Longrightarrow> suffix s t \<Longrightarrow> accepted d t (close_array E a s)"
  by (auto simp: close_array_def json_array_resize_def Let_def split: if_splits
    intro: suffix_order.trans [OF suffix_drop] suffix_skip_trans)

text \<open>What a call may be given, the fuel it needs, and what it answers.\<close>

fun call_ok :: "'d call \<Rightarrow> bool" where
  "call_ok (Parse_Value n s) \<longleftrightarrow> True"
| "call_ok (Parse_Members n ob s) \<longleftrightarrow> value_inv (JSON_Obj ob) \<and> nested_within (JSON_Obj ob) (Suc (2049 - n))"
| "call_ok (Parse_Elements n a s) \<longleftrightarrow> value_inv (JSON_Arr a) \<and> nested_within (JSON_Arr a) (Suc (2049 - n))"

fun call_fuel :: "'d call \<Rightarrow> nat" where
  "call_fuel (Parse_Value n s) = parse_fuel s"
| "call_fuel (Parse_Members n ob s) = Suc (parse_fuel s)"
| "call_fuel (Parse_Elements n a s) = Suc (parse_fuel s)"

fun answered :: "'d call \<Rightarrow> 'd json_value parsed \<Rightarrow> bool" where
  "answered (Parse_Value n s) r \<longleftrightarrow> accepted (2049 - n) s r"
| "answered (Parse_Members n ob s) r \<longleftrightarrow> accepted (Suc (2049 - n)) s r"
| "answered (Parse_Elements n a s) r \<longleftrightarrow> accepted (Suc (2049 - n)) s r"

lemma new_object:
  "json_value_get_object (json_value_init_object E) = Some ob \<Longrightarrow> ob = JSON_Object [] [] [] [] [] 0"
  by (auto simp: json_value_get_object_def json_value_init_object_def json_object_make_def
    json_object_init_def item_capacity_for_def split: if_splits)

lemma new_array:
  "json_value_get_array (json_value_init_array E) = Some a \<Longrightarrow> a = JSON_Array [] 0"
  by (auto simp: json_value_get_array_def json_value_init_array_def json_array_make_def split: if_splits)

lemma shorter: "suffix t s \<Longrightarrow> parse_fuel t \<le> parse_fuel s"
  by (auto simp: parse_fuel_def dest: suffix_length_le)

lemma shorter_skip: "s \<noteq> [] \<Longrightarrow> Suc (Suc (parse_fuel (skip_ws (drop 1 s)))) \<le> parse_fuel s"
  using suffix_length_le [OF suffix_skip [of "drop 1 s"]] by (cases s) (simp_all add: parse_fuel_def)

lemma inside:
  assumes "peek (skip_ws s) \<noteq> NUL" "parse_fuel s \<le> Suc n"
  shows "Suc (parse_fuel (skip_ws (drop (Suc 0) (skip_ws s)))) \<le> n"
    "suffix (skip_ws (drop (Suc 0) (skip_ws s))) s" "suffix (drop (Suc 0) (skip_ws s)) s"
proof -
  have "skip_ws s \<noteq> []" using assms(1) by auto
  then show "Suc (parse_fuel (skip_ws (drop (Suc 0) (skip_ws s)))) \<le> n"
    using shorter_skip [of "skip_ws s"] shorter [OF suffix_skip, of s] assms(2) by simp
  show "suffix (skip_ws (drop (Suc 0) (skip_ws s))) s" "suffix (drop (Suc 0) (skip_ws s)) s"
    by (intro suffix_skip_trans suffix_order.trans [OF suffix_drop] suffix_skip)+
qed

lemma accepted_behind:
  "accepted d (skip_ws (drop (Suc 0) (skip_ws w))) r \<Longrightarrow> suffix w s \<Longrightarrow> accepted d s r"
  by (erule accepted_suffix)
    (meson suffix_skip suffix_drop suffix_order.trans)

lemma value_body_answered:
  assumes rec: "\<And>c. call_ok c \<Longrightarrow> call_fuel c \<le> n \<Longrightarrow> answered c (rec c)"
    and fuel: "parse_fuel s \<le> Suc n"
  shows "accepted (2049 - k) s (parse_value_body E rec k s)"
proof (cases "k > MAX_NESTING")
  case False
  then have k: "2049 - k = Suc (2049 - Suc k)" by (simp add: MAX_NESTING_def)
  let ?s = "skip_ws s"
  let ?t = "skip_ws (drop (Suc 0) ?s)"
  have obj: "accepted (2049 - k) s (parse_object_value E rec (k + 1) ?s)" if "peek ?s = CHR ''{''"
    using rec [of "Parse_Members (Suc k) (JSON_Object [] [] [] [] [] 0) ?t"] inside [of s, OF _ fuel]
      accepted_suffix [of _ ?t _ s] suffix_order.trans [OF suffix_drop, of ?t s] k that
    by (auto simp: parse_object_value_def Let_def split: option.splits dest!: new_object)
  have arr: "accepted (2049 - k) s (parse_array_value E rec (k + 1) ?s)" if "peek ?s = CHR ''[''"
    using rec [of "Parse_Elements (Suc k) (JSON_Array [] 0) ?t"] inside [of s, OF _ fuel]
      accepted_suffix [of _ ?t _ s] suffix_order.trans [OF suffix_drop, of ?t s] k that
    by (auto simp: parse_array_value_def Let_def split: option.splits dest!: new_array)
  have "0 < 2049 - k" using False by (simp add: MAX_NESTING_def)
  note leaf = accepts [OF this, THEN accepted_suffix, OF suffix_skip]
  show ?thesis using obj arr leaf
    by (auto simp: parse_value_body_def Let_def)
qed (simp add: parse_value_body_def)

lemma member_added:
  assumes "json_object_add (table_mem E) ob key v = r" "mem_bounded (table_mem E)"
    "value_inv (JSON_Obj ob)" "nested_within (JSON_Obj ob) (Suc d)" "value_inv v" "nested_within v d"
  shows "\<exists>st ob'. r = Some (st, ob') \<and> (st = JSONSuccess \<longrightarrow>
    value_inv (JSON_Obj ob') \<and> nested_within (JSON_Obj ob') (Suc d))"
  using add_spec [of ob "table_mem E" key v] assms by (auto split: if_splits)

lemma members_body_answered:
  assumes rec: "\<And>c. call_ok c \<Longrightarrow> call_fuel c \<le> n \<Longrightarrow> answered c (rec c)"
    and fuel: "Suc (parse_fuel s) \<le> Suc n" and M: "mem_bounded (table_mem E)"
    and ob: "value_inv (JSON_Obj ob)" "nested_within (JSON_Obj ob) (Suc (2049 - k))"
  shows "accepted (Suc (2049 - k)) s (parse_members_body E rec k ob s)"
proof (cases "get_quoted_string (mem E) s")
  case None
  then show ?thesis using close_object_accepted [OF ob, of s s]
    by (cases "s = []") (simp_all add: parse_members_body_def)
next
  case (Some q)
  obtain key t where q: "q = (key, t)" by fastforce
  then have t: "strict_suffix t s" using Some get_quoted_suffix by fast
  then have ne: "s \<noteq> []" by auto
  let ?u = "drop (Suc 0) (skip_ws t)"
  have u: "suffix ?u s" "parse_fuel ?u \<le> n"
    using suffix_order.trans [OF suffix_drop suffix_order.trans [OF suffix_skip, of t s]] t fuel shorter [of ?u s]
    by auto
  have body: "accepted (Suc (2049 - k)) s (parse_members_body E rec k ob s)"
    if r: "accepted (2049 - k) ?u (rec (Parse_Value k ?u))"
  proof (cases "rec (Parse_Value k ?u)")
    case (Value v w)
    have w: "suffix w s" using r Value u(1) suffix_order.trans by auto
    obtain st ob' where add: "json_object_add (table_mem E) ob key v = Some (st, ob')"
      "st = JSONSuccess \<longrightarrow> value_inv (JSON_Obj ob') \<and> nested_within (JSON_Obj ob') (Suc (2049 - k))"
      using member_added [OF refl M ob, of v key] r Value by (metis accepted_simps(3))
    have f: "parse_fuel w \<le> Suc n" using shorter [OF w] fuel by simp
    have "accepted (Suc (2049 - k)) s (rec (Parse_Members k ob' (skip_ws (drop (Suc 0) (skip_ws w)))))"
      if "peek (skip_ws w) \<noteq> NUL" "st = JSONSuccess"
      using rec [of "Parse_Members k ob' (skip_ws (drop (Suc 0) (skip_ws w)))"] inside [OF that(1) f]
        add(2) that(2) accepted_behind [OF _ w] by auto
    moreover have "accepted (Suc (2049 - k)) s (close_object ob' (skip_ws w))" if "st = JSONSuccess"
      using close_object_accepted [of ob' _ "skip_ws w" s] add(2) that w suffix_skip_trans by blast
    ultimately show ?thesis using ne Some q Value add(1)
      by (cases st; cases "peek (skip_ws w) = CHR '',''") (auto simp: parse_members_body_def Let_def)
  qed (use Some q ne r in \<open>auto simp: parse_members_body_def Let_def\<close>)
  show ?thesis using body rec [of "Parse_Value k ?u"] u by simp
qed

lemma elements_body_answered:
  assumes rec: "\<And>c. call_ok c \<Longrightarrow> call_fuel c \<le> n \<Longrightarrow> answered c (rec c)"
    and fuel: "Suc (parse_fuel s) \<le> Suc n"
    and a: "value_inv (JSON_Arr a)" "nested_within (JSON_Arr a) (Suc (2049 - k))"
  shows "accepted (Suc (2049 - k)) s (parse_elements_body E rec k a s)"
proof (cases "s = []")
  case True
  then show ?thesis using close_array_accepted [OF a, of s s E] by (simp add: parse_elements_body_def)
next
  case False
  have r: "accepted (2049 - k) s (rec (Parse_Value k s))" using rec [of "Parse_Value k s"] fuel by simp
  show ?thesis
  proof (cases "rec (Parse_Value k s)")
    case (Value v w)
    have w: "suffix w s" using r Value by simp
    obtain st a' where add: "json_array_add E a v = (st, a')" by fastforce
    then have a': "value_inv (JSON_Arr a') \<and> nested_within (JSON_Arr a') (Suc (2049 - k))" if "st = JSONSuccess"
      using that array_add_items [of E a v a'] a r Value by auto
    have f: "parse_fuel w \<le> Suc n" using shorter [OF w] fuel by simp
    have "accepted (Suc (2049 - k)) s (rec (Parse_Elements k a' (skip_ws (drop (Suc 0) (skip_ws w)))))"
      if "peek (skip_ws w) \<noteq> NUL" "st = JSONSuccess"
      using rec [of "Parse_Elements k a' (skip_ws (drop (Suc 0) (skip_ws w)))"] inside [OF that(1) f]
        a' that(2) accepted_behind [OF _ w] by auto
    moreover have "accepted (Suc (2049 - k)) s (close_array E a' (skip_ws w))" if "st = JSONSuccess"
      using close_array_accepted [of a' _ "skip_ws w" s] a' that w suffix_skip_trans by blast
    ultimately show ?thesis using False Value add
      by (cases st; cases "peek (skip_ws w) = CHR '',''") (auto simp: parse_elements_body_def Let_def)
  qed (use False r in \<open>auto simp: parse_elements_body_def\<close>)
qed

lemma parse_call_answered:
  assumes "mem_bounded (table_mem E)"
  shows "call_ok c \<Longrightarrow> call_fuel c \<le> n \<Longrightarrow> answered c (parse_call E n c)"
proof (induction n arbitrary: c)
  case 0
  then show ?case by (cases c) (auto simp: parse_fuel_def)
next
  case (Suc n)
  note IH = Suc.IH
  show ?case
    using Suc.prems value_body_answered [OF IH] members_body_answered [OF IH _ assms] elements_body_answered [OF IH]
    by (cases c) simp_all
qed

lemma parse_string_total:
  assumes "mem_bounded (table_mem E)"
  shows "accepted 2049 s (json_parse_string E (Some s))"
  using parse_call_answered [OF assms, of "Parse_Value 0 t" "parse_fuel t" for t] suffix_drop [of 3 s]
  by (auto simp: json_parse_string_def parse_value_def Let_def intro: accepted_suffix)

subsection \<open>More fuel changes nothing\<close>

definition refines :: "('c \<Rightarrow> 'a parsed) \<Rightarrow> ('c \<Rightarrow> 'a parsed) \<Rightarrow> bool" where
  "refines rec rec' \<longleftrightarrow> (\<forall>c. rec c \<noteq> No_Result \<longrightarrow> rec' c = rec c)"

lemma value_body_refines:
  assumes "refines rec rec'" "parse_value_body E rec k s \<noteq> No_Result"
  shows "parse_value_body E rec' k s = parse_value_body E rec k s"
  using assms unfolding refines_def
  by (auto simp: parse_value_body_def parse_object_value_def parse_array_value_def Let_def split: option.splits)

lemma members_body_refines:
  assumes "refines rec rec'" "parse_members_body E rec k ob s \<noteq> No_Result"
  shows "parse_members_body E rec' k ob s = parse_members_body E rec k ob s"
proof (cases "get_quoted_string (mem E) s")
  case (Some q)
  obtain key t where q: "q = (key, t)" by fastforce
  let ?c = "Parse_Value k (drop 1 (skip_ws t))"
  show ?thesis
  proof (cases "s = [] \<or> \<not> c_string key \<or> peek (skip_ws t) \<noteq> CHR '':''")
    case False
    then have "rec ?c \<noteq> No_Result" using assms(2) Some q by (auto simp: parse_members_body_def)
    then have "rec' ?c = rec ?c" using assms(1) by (simp add: refines_def)
    then show ?thesis using assms Some q False
      by (cases "rec ?c")
        (auto simp: parse_members_body_def refines_def Let_def split: option.splits json_status.splits)
  qed (use Some q in \<open>auto simp: parse_members_body_def\<close>)
qed (simp add: parse_members_body_def)

lemma elements_body_refines:
  assumes "refines rec rec'" "parse_elements_body E rec k a s \<noteq> No_Result"
  shows "parse_elements_body E rec' k a s = parse_elements_body E rec k a s"
proof (cases "s = []")
  case False
  then have "rec (Parse_Value k s) \<noteq> No_Result" using assms(2) by (auto simp: parse_elements_body_def)
  then have "rec' (Parse_Value k s) = rec (Parse_Value k s)" using assms(1) by (simp add: refines_def)
  then show ?thesis using assms False
    by (cases "rec (Parse_Value k s)")
      (auto simp: parse_elements_body_def refines_def Let_def split: prod.splits json_status.splits)
qed (simp add: parse_elements_body_def)

lemma parse_call_refines: "refines (parse_call E n) (parse_call E (Suc n))"
proof (induction n)
  case 0
  show ?case by (simp add: refines_def)
next
  case (Suc n)
  note b = value_body_refines [OF Suc] members_body_refines [OF Suc] elements_body_refines [OF Suc]
  show ?case unfolding refines_def
  proof (intro allI impI)
    fix c assume "parse_call E (Suc n) c \<noteq> No_Result"
    then show "parse_call E (Suc (Suc n)) c = parse_call E (Suc n) c"
      using b unfolding parse_call.simps(2) [of E "Suc n"] parse_call.simps(2) [of E n]
      by (cases c) (simp_all del: parse_call.simps)
  qed
qed

lemma parse_call_more:
  assumes "parse_call E n c \<noteq> No_Result" "n \<le> m"
  shows "parse_call E m c = parse_call E n c"
  using assms(2)
proof (induction m rule: dec_induct)
  case (step m)
  then have "parse_call E m c \<noteq> No_Result" using assms(1) by simp
  then show ?case using parse_call_refines [of E m] step.IH unfolding refines_def by metis
qed simp

lemma int_env_mem [simp]: "mem int_env n \<longleftrightarrow> n < 2 ^ 32"
  by (simp add: int_env_def)

subsection \<open>Properties\<close>

text \<open>
  C2: Parsing ends.  With at least two units of fuel for every character and one more the parser
  gives an answer, and the answer does not depend on the fuel: it is the one the unbounded
  recursion of the code gives, at every nesting depth and for every text.
\<close>

theorem parse_value_terminates:
  assumes "mem_bounded (table_mem E)" "2 * length s + 1 \<le> n"
  shows "parse_value E n nesting s \<noteq> No_Result \<and>
    parse_value E n nesting s = parse_value E (parse_fuel s) nesting s"
proof -
  have "parse_call E (parse_fuel s) (Parse_Value nesting s) \<noteq> No_Result"
    using parse_call_answered [OF assms(1), of "Parse_Value nesting s"] by fastforce
  then show ?thesis
    using parse_call_more [of E "parse_fuel s" "Parse_Value nesting s" n] assms(2)
    by (simp add: parse_value_def parse_fuel_def)
qed

theorem parse_value_terminates_witness:
  "parse_value int_env 100 0 ''[[], true]'' \<noteq> No_Result \<and>
   parse_value int_env 100 0 ''[[], true]'' = parse_value int_env (parse_fuel ''[[], true]'') 0 ''[[], true]''"
  by (rule parse_value_terminates) simp_all

text \<open>
  C3: What the parser returns is a well-formed value: every object in it is a consistent hash
  table without duplicate names, every boolean is 0 or 1, and the position handed back lies in
  the text that was parsed.
\<close>

theorem parse_gives_well_formed:
  assumes "mem_bounded (table_mem E)" "json_parse_string E (Some s) = Value v t"
  shows "value_inv v \<and> suffix t s"
  using parse_string_total [OF assms(1), of s] assms(2) by simp

lemma parse_call_numeral:
  "parse_call E (numeral m) c =
     (case c of
        Parse_Value nesting s \<Rightarrow> parse_value_body E (parse_call E (pred_numeral m)) nesting s
      | Parse_Members nesting ob s \<Rightarrow> parse_members_body E (parse_call E (pred_numeral m)) nesting ob s
      | Parse_Elements nesting a s \<Rightarrow> parse_elements_body E (parse_call E (pred_numeral m)) nesting a s)"
  by (simp only: numeral_eq_Suc parse_call.simps)

lemma parse_example:
  "json_parse_string int_env (Some ''[true]'') = Value (JSON_Arr (JSON_Array [JSON_Bool 1] 1)) []"
proof -
  note scan = skip_ws_def isspace_def is_digit_def Let_def
  have v: "parse_value_body int_env rec (Suc 0) ''true]'' = Value (JSON_Bool 1) '']''" for rec
    by (simp add: parse_value_body_def parse_boolean_value_def json_value_init_boolean_def of_option_def
      MAX_NESTING_def sizeof_JSON_Value_def scan)
  have e: "parse_elements_body int_env rec (Suc 0) (JSON_Array [] 0) ''true]'' =
      Value (JSON_Arr (JSON_Array [JSON_Bool 1] 1)) []"
    if "rec (Parse_Value (Suc 0) ''true]'') = Value (JSON_Bool 1) '']''" for rec
    using that
    by (simp add: parse_elements_body_def json_array_add_def json_array_resize_def close_array_def
      json_array_get_count_def sizeof_pointer_def STARTING_CAPACITY_def scan)
  have a: "parse_value_body int_env rec 0 ''[true]'' = rec (Parse_Elements (Suc 0) (JSON_Array [] 0) ''true]'')" for rec
    by (simp add: parse_value_body_def parse_array_value_def json_value_init_array_def json_array_make_def
      json_value_get_array_def MAX_NESTING_def sizeof_JSON_Value_def sizeof_JSON_Array_def scan)
  have "CHR ''['' \<noteq> chr 0xEF"
  proof
    assume "CHR ''['' = chr 0xEF"
    then have "ord CHR ''['' = ord (chr 0xEF)" by (rule arg_cong)
    then show False by (simp, simp add: ord_def)
  qed
  then show ?thesis
    by (simp add: json_parse_string_def parse_value_def parse_fuel_def parse_call_numeral a e v)
qed

theorem parse_gives_well_formed_witness:
  "value_inv (JSON_Arr (JSON_Array [JSON_Bool 1 :: int json_value] 1)) \<and> suffix [] ''[true]''"
  by (rule parse_gives_well_formed [OF int_env_bounded parse_example])

text \<open>
  C4: The nesting limit holds: whatever the text, no value the parser returns has more than 2049
  values on a path from its root to a leaf, so the recursion of the functions that walk values is
  bounded by that number too.
\<close>

theorem parse_nesting_bounded:
  assumes "mem_bounded (table_mem E)" "json_parse_string E (Some s) = Value v t"
  shows "nested_within v (MAX_NESTING + 1)"
  using parse_string_total [OF assms(1), of s] assms(2) by (simp add: MAX_NESTING_def)

theorem parse_nesting_bounded_witness:
  "nested_within (JSON_Arr (JSON_Array [JSON_Bool 1 :: int json_value] 1)) (MAX_NESTING + 1)"
  by (rule parse_nesting_bounded [OF int_env_bounded parse_example])

text \<open>
  A lone minus sign is taken for the number zero: \<open>strtod\<close> finds no number there, gives zero
  and takes no character, and the parser asks only whether the characters taken look decimal.
\<close>

theorem lone_minus_is_zero:
  assumes "strtod E ''-'' = (num_zero E, 0, 0)" "\<not> num_invalid E (num_zero E)" "mem E sizeof_JSON_Value"
  shows "json_parse_string E (Some ''-'') = Value (JSON_Number (num_zero E)) ''-''"
  using assms
  by (simp add: json_parse_string_def parse_value_def parse_fuel_def parse_value_body_def
    parse_number_value_def is_decimal_def json_value_init_number_def of_option_def skip_ws_def isspace_def
    Let_def MAX_NESTING_def ERANGE_def numeral_2_eq_2)

theorem lone_minus_is_zero_witness:
  "json_parse_string int_env (Some ''-'') = Value (JSON_Number (num_zero int_env)) ''-''"
  by (rule lone_minus_is_zero) (simp_all add: int_env_def sizeof_JSON_Value_def)

end
