(* ===== verification/Json_Render.thy ===== *)
theory Json_Render
  imports Json_Total
begin

text \<open>
  The serializer of \<open>parson/src/parson.c\<close> as a function of documents.  \<open>render\<close> is the text of a
  document; every pass of the serializer, the one that only counts and the one that writes, is
  proved to append exactly that text, as long as its length is an \<open>int\<close>.
\<close>

subsection \<open>The text of a document\<close>

fun render :: "'d json_env \<Rightarrow> bool \<Rightarrow> nat \<Rightarrow> 'd document \<Rightarrow> string"
  and render_items :: "'d json_env \<Rightarrow> bool \<Rightarrow> nat \<Rightarrow> 'd document list \<Rightarrow> string"
  and render_members :: "'d json_env \<Rightarrow> bool \<Rightarrow> nat \<Rightarrow> (string \<times> 'd document) list \<Rightarrow> string"
where
  "render E p l Doc_Null = ''null''"
| "render E p l (Doc_Bool b) = (if b \<noteq> 0 then ''true'' else ''false'')"
| "render E p l (Doc_Number d) = sprintf_num E d"
| "render E p l (Doc_String s) = quoted (escape_slashes E) s"
| "render E p l (Doc_Array ds) = ''['' @ (if ds \<noteq> [] \<and> p then [CHR 0x0A] else []) @
     render_items E p l ds @ (if ds \<noteq> [] \<and> p then replicate (4 * l) CHR '' '' else []) @ '']''"
| "render E p l (Doc_Object ms) = ''{'' @ (if ms \<noteq> [] \<and> p then [CHR 0x0A] else []) @
     render_members E p l ms @ (if ms \<noteq> [] \<and> p then replicate (4 * l) CHR '' '' else []) @ ''}''"
| "render_items E p l [] = []"
| "render_items E p l (d # ds) = (if p then replicate (4 * (l + 1)) CHR '' '' else []) @
     render E p (l + 1) d @ (if ds \<noteq> [] then '','' else []) @ (if p then [CHR 0x0A] else []) @
     render_items E p l ds"
| "render_members E p l [] = []"
| "render_members E p l (m # ms) = (if p then replicate (4 * (l + 1)) CHR '' '' else []) @
     quoted (escape_slashes E) (fst m) @ '':'' @ (if p then '' '' else []) @
     render E p (l + 1) (snd m) @ (if ms \<noteq> [] then '','' else []) @ (if p then [CHR 0x0A] else []) @
     render_members E p l ms"

lemma written_eqs [simp]:
  "append_indent l = append_string (replicate (4 * l) CHR '' '')"
  "json_serialize_string b s = append_string (quoted b s)"
  "out_if c (append_string s) = append_string (if c then s else [])"
  using emits_indent [of l] emits_serialize_string [of b s]
  by (simp_all add: emits_def out_if_def fun_eq_iff)

lemma serialize_renders:
  shows "value_inv v \<Longrightarrow> serialize_value E p l v = append_string (render E p l (doc v))"
    and "\<forall>v \<in> set vs. value_inv v \<Longrightarrow> serialize_items E p l vs = append_string (render_items E p l (map doc vs))"
    and "length ks = length vs \<Longrightarrow> \<forall>v \<in> set vs. value_inv v \<Longrightarrow>
      serialize_members E p l ks vs = append_string (render_members E p l (zip ks (map doc vs)))"
proof (induction E p l v and E p l vs and E p l ks vs rule: serialize_value_serialize_items_serialize_members.induct)
  case (2 E p l ob)
  then have len: "length (vals ob) = length (names ob)" by (simp add: object_inv_def)
  then have "zip (names ob) (map doc (vals ob)) = [] \<longleftrightarrow> names ob = []" by (cases "names ob") auto
  moreover have "serialize_members E p l (names ob) (vals ob) =
      append_string (render_members E p l (zip (names ob) (map doc (vals ob))))"
    using 2 len by simp
  ultimately show ?case by (intro ext) (simp add: serialize_value.simps Let_def)
next
  case (9 E p l key ks v vs)
  then have "zip ks (map doc vs) = [] \<longleftrightarrow> ks = []" by (cases ks) auto
  moreover have "serialize_value E p (l + 1) v = append_string (render E p (l + 1) (doc v))"
    "serialize_members E p l ks vs = append_string (render_members E p l (zip ks (map doc vs)))"
    using 9 by simp_all
  ultimately show ?case by (intro ext) (simp add: serialize_members.simps Let_def)
next
  case (8 E p l v vs)
  have "serialize_value E p (l + 1) v = append_string (render E p (l + 1) (doc v))"
    "serialize_items E p l vs = append_string (render_items E p l (map doc vs))"
    using 8 by simp_all
  then show ?case by (intro ext) (simp add: serialize_items.simps Let_def)
qed (auto simp add: serialize_value.simps serialize_items.simps serialize_members.simps Let_def intro!: ext)

lemma serialization_size_renders:
  assumes "value_inv v"
  shows "serialization_size E p (Some v) =
    (if length (render E p 0 (doc v)) < 2 ^ 31 then Some (length (render E p 0 (doc v)) + 1) else None)"
  using serialize_renders(1) [OF assms, of E p 0]
  by (simp add: serialization_size_def json_serialize_to_buffer_r_def append_from_start)

lemma serialize_to_buffer_renders:
  assumes "value_inv v" "length (render E p 0 (doc v)) < 2 ^ 31"
  shows "serialize_to_buffer E p (Some v) n = Some
    (if length (render E p 0 (doc v)) < n then (JSONSuccess, Some (render E p 0 (doc v))) else (JSONFailure, None))"
  using serialize_renders(1) [OF assms(1), of E p 0] assms(2)
  by (auto simp: serialize_to_buffer_def serialization_size_renders [OF assms(1)]
    json_serialize_to_buffer_r_def append_from_start)

lemma serialize_to_string_renders:
  assumes "value_inv v"
  shows "serialize_to_string E p (Some v) =
    (if length (render E p 0 (doc v)) < 2 ^ 31
     then Some (if mem E (length (render E p 0 (doc v)) + 1) then Some (render E p 0 (doc v)) else None)
     else None)"
  using serialize_to_buffer_renders [OF assms, of E p "length (render E p 0 (doc v)) + 1"]
  by (simp add: serialize_to_string_def serialization_size_renders [OF assms])

subsection \<open>Properties\<close>

text \<open>
  C5: The serializer fills a buffer exactly as far as it said.  As long as the text of the document has
  fewer than \<open>2 ^ 31\<close> characters, \<open>json_serialization_size\<close> reports the length of that text and its
  terminator, and writing succeeds, with exactly that text, if and only if the buffer has that size;
  nothing is written to a buffer that is too small.  From \<open>2 ^ 31\<close> characters on the \<open>int\<close> that counts
  them overflows, and neither function has a defined result.
\<close>

theorem serialize_fits_buffer:
  assumes "value_inv v"
  shows "(serialization_size E is_pretty (Some v), serialize_to_buffer E is_pretty (Some v) buf_size) =
    (let text = render E is_pretty 0 (doc v)
     in if length text < 2 ^ 31
        then (Some (length text + 1),
          Some (if length text + 1 \<le> buf_size then (JSONSuccess, Some text) else (JSONFailure, None)))
        else (None, None))"
  using serialize_to_buffer_renders [OF assms, of E is_pretty buf_size]
  by (simp add: serialization_size_renders [OF assms] serialize_to_buffer_def Suc_le_eq Let_def)

theorem serialize_fits_buffer_witness:
  "(serialization_size int_env False (Some (JSON_Bool 1)), serialize_to_buffer int_env False (Some (JSON_Bool 1)) 4) =
   (Some 5, Some (JSONFailure, None))"
  using serialize_fits_buffer [of "JSON_Bool 1" int_env False 4] by simp

text \<open>
  C6: The text of a value depends on its document alone: not on the layout of its hash tables, the
  capacities of its arrays or the history of operations that built them.
\<close>

theorem serialize_only_document:
  assumes "value_inv v" "value_inv w" "doc v = doc w"
  shows "serialize_to_string E is_pretty (Some v) = serialize_to_string E is_pretty (Some w)"
  using serialize_to_string_renders [OF assms(1), of E is_pretty]
    serialize_to_string_renders [OF assms(2), of E is_pretty] assms(3) by simp

theorem serialize_only_document_witness:
  "serialize_to_string int_env True (Some (JSON_Arr (JSON_Array [empty_object] 1))) =
   serialize_to_string int_env True (Some (JSON_Arr (JSON_Array [empty_object] 16)))"
  by (rule serialize_only_document) simp_all

end
