(* ===== verification/Json_Roundtrip.thy ===== *)
theory Json_Roundtrip
  imports Json_Render
begin

text \<open>
  Parsing what was serialized.  The calls of the parser on rendered text are followed with an
  arbitrary amount of fuel: either it runs out or they read the document back; \<open>Json_Total\<close>
  excludes the former.
\<close>

subsection \<open>Reading the text back\<close>

definition delimited :: "string \<Rightarrow> bool" where
  "delimited t \<longleftrightarrow> t = [] \<or> peek t \<in> {CHR '','', CHR 0x0A, CHR '']'', CHR ''}''}"

definition number_io :: "'d json_env \<Rightarrow> 'd \<Rightarrow> bool" where
  "number_io E d \<longleftrightarrow> \<not> num_invalid E d \<and>
     (let s = sprintf_num E d
      in (peek s = CHR ''-'' \<or> is_digit (peek s)) \<and> c_string s \<and> is_decimal s (length s) \<and>
         (\<forall>t. delimited t \<longrightarrow> strtod E (s @ t) = (d, length s, 0)))"

fun printable :: "'d json_env \<Rightarrow> nat \<Rightarrow> 'd document \<Rightarrow> bool" where
  "printable E n (Doc_Array ds) \<longleftrightarrow> 0 < n \<and> (\<forall>d \<in> set ds. printable E (n - 1) d)"
| "printable E n (Doc_Object ms) \<longleftrightarrow> 0 < n \<and> distinct (map fst ms) \<and>
     (\<forall>m \<in> set ms. c_string (fst m) \<and> printable E (n - 1) (snd m))"
| "printable E n (Doc_Bool b) \<longleftrightarrow> 0 < n \<and> b \<in> {0, 1}"
| "printable E n (Doc_Number d) \<longleftrightarrow> 0 < n \<and> number_io E d"
| "printable E n _ \<longleftrightarrow> 0 < n"

definition reads :: "'d json_value parsed \<Rightarrow> 'd document \<Rightarrow> string \<Rightarrow> bool" where
  "reads r d t \<longleftrightarrow> r = No_Result \<or> (\<exists>v. r = Value v t \<and> doc v = d)"

lemma readsI: "doc v = d \<Longrightarrow> reads (Value v t) d t" "reads No_Result d t"
  by (simp_all add: reads_def)

definition blank :: "string \<Rightarrow> bool" where
  "blank u \<longleftrightarrow> (\<forall>c \<in> set u. isspace c)"

lemma blank_simps [simp]: "blank []" "blank (replicate n CHR '' '')" "blank [CHR 0x0A]"
  "blank (u @ w) \<longleftrightarrow> blank u \<and> blank w" "blank '' ''"
  by (auto simp: blank_def isspace_def)

lemma blank_if [simp]: "blank u \<Longrightarrow> blank (if b then u else [])"
  by simp

lemma skip_blank [simp]: "blank u \<Longrightarrow> skip_ws (u @ t) = skip_ws t"
  by (auto simp: skip_ws_def blank_def dropWhile_append2)

lemma skip_solid: "\<not> isspace (peek t) \<Longrightarrow> skip_ws t = t"
  by (cases t) (simp_all add: skip_ws_def)

definition starts_value :: "char \<Rightarrow> bool" where
  "starts_value c \<longleftrightarrow> c \<in> set ''{[ntf-0123456789'' \<or> c = DQ"

lemma starts_value_solid: "starts_value c \<Longrightarrow> \<not> isspace c \<and> c \<notin> {CHR '']'', CHR ''}'', NUL}"
  by (auto simp: starts_value_def isspace_def)

lemma render_starts: "printable E n d \<Longrightarrow> starts_value (peek (render E p l d @ t))"
proof (cases d)
  case (Doc_Number x)
  assume "printable E n d"
  then have "peek (sprintf_num E x) = CHR ''-'' \<or> is_digit (peek (sprintf_num E x))"
    using Doc_Number by (simp add: number_io_def Let_def)
  then show ?thesis using Doc_Number
    by (cases "sprintf_num E x") (auto simp: starts_value_def is_digit_def)
qed (auto simp: starts_value_def quoted_def)

lemma skip_render: "printable E n d \<Longrightarrow> skip_ws (render E p l d @ t) = render E p l d @ t"
  using render_starts starts_value_solid skip_solid by blast

lemma skip_quoted_text [simp]: "skip_ws (quoted b s @ t) = quoted b s @ t"
  by (simp add: quoted_def skip_ws_def isspace_def)

lemma peek_quoted [simp]: "peek (quoted b s @ t) = DQ"
  by (simp add: quoted_def)

lemma is_decimal_append:
  assumes "is_decimal s (length s)"
  shows "is_decimal (s @ t) (length s)"
  using assms by (cases s; cases "tl s"; cases "tl (tl s)") (auto simp: is_decimal_def numeral_2_eq_2 split: if_splits)

lemma read_number:
  assumes "number_io E d" "delimited t" "mem E sizeof_JSON_Value"
  shows "parse_number_value E (sprintf_num E d @ t) = Value (JSON_Number d) t"
  using assms is_decimal_append [of "sprintf_num E d" t]
  by (simp add: number_io_def Let_def parse_number_value_def ERANGE_def json_value_init_number_def of_option_def)

definition reads_values :: "'d json_env \<Rightarrow> bool \<Rightarrow> nat \<Rightarrow> ('d call \<Rightarrow> 'd json_value parsed) \<Rightarrow> bool" where
  "reads_values E p L rec \<longleftrightarrow> (\<forall>k l d u t. blank u \<longrightarrow> printable E (2049 - k) d \<longrightarrow> delimited t \<longrightarrow>
     length (render E p l d) \<le> L \<longrightarrow> reads (rec (Parse_Value k (u @ render E p l d @ t))) d t)"

definition reads_elements :: "'d json_env \<Rightarrow> bool \<Rightarrow> nat \<Rightarrow> ('d call \<Rightarrow> 'd json_value parsed) \<Rightarrow> bool" where
  "reads_elements E p L rec \<longleftrightarrow> (\<forall>k l a d ds u t. blank u \<longrightarrow> p \<or> u = [] \<longrightarrow> (\<forall>x \<in> set (d # ds). printable E (2049 - k) x) \<longrightarrow>
     length (items a) + length (d # ds) \<le> L \<longrightarrow> length (render_items E p l (d # ds)) \<le> L \<longrightarrow>
     capacity a \<le> 2 * length (items a) + 16 \<longrightarrow>
     reads (rec (Parse_Elements k a (skip_ws (render_items E p l (d # ds) @ u @ CHR '']'' # t))))
       (Doc_Array (map doc (items a) @ d # ds)) t)"

definition reads_members :: "'d json_env \<Rightarrow> bool \<Rightarrow> nat \<Rightarrow> ('d call \<Rightarrow> 'd json_value parsed) \<Rightarrow> bool" where
  "reads_members E p L rec \<longleftrightarrow> (\<forall>k l ob m ms u t. blank u \<longrightarrow> p \<or> u = [] \<longrightarrow>
     (\<forall>x \<in> set (m # ms). c_string (fst x) \<and> printable E (2049 - k) (snd x)) \<longrightarrow>
     object_inv ob \<longrightarrow> distinct (names ob @ map fst (m # ms)) \<longrightarrow>
     length (names ob) + length (m # ms) \<le> L \<longrightarrow> length (render_members E p l (m # ms)) \<le> L \<longrightarrow>
     reads (rec (Parse_Members k ob (skip_ws (render_members E p l (m # ms) @ u @ CHR ''}'' # t))))
       (Doc_Object (zip (names ob) (map doc (vals ob)) @ m # ms)) t)"

lemma reads_elementsD:
  assumes "reads_elements E p L rec" "blank u" "p \<or> u = []" "ds \<noteq> []" "\<forall>x \<in> set ds. printable E (2049 - k) x"
    "length (items a) + length ds \<le> L" "length (render_items E p l ds) \<le> L" "capacity a \<le> 2 * length (items a) + 16"
  shows "reads (rec (Parse_Elements k a (skip_ws (render_items E p l ds @ u @ CHR '']'' # t))))
       (Doc_Array (map doc (items a) @ ds)) t"
proof -
  obtain d ds' where "ds = d # ds'" using assms(4) by (cases ds) auto
  then show ?thesis using assms unfolding reads_elements_def by blast
qed

lemma reads_membersD:
  assumes "reads_members E p L rec" "blank u" "p \<or> u = []" "ms \<noteq> []"
    "\<forall>x \<in> set ms. c_string (fst x) \<and> printable E (2049 - k) (snd x)" "object_inv ob"
    "distinct (names ob @ map fst ms)" "length (names ob) + length ms \<le> L" "length (render_members E p l ms) \<le> L"
  shows "reads (rec (Parse_Members k ob (skip_ws (render_members E p l ms @ u @ CHR ''}'' # t))))
       (Doc_Object (zip (names ob) (map doc (vals ob)) @ ms)) t"
proof -
  obtain m ms' where "ms = m # ms'" using assms(4) by (cases ms) auto
  then show ?thesis using assms unfolding reads_members_def by blast
qed

lemma reads_cases:
  assumes "reads r d t"
  obtains "r = No_Result" | v where "r = Value v t" "doc v = d"
  using assms by (auto simp: reads_def)

lemma delimited_simps [simp]:
  "delimited (CHR '','' # t)" "delimited (CHR '']'' # t)" "delimited (CHR ''}'' # t)" "delimited (CHR 0x0A # t)"
  by (simp_all add: delimited_def)

lemma skip_char: "\<not> isspace c \<Longrightarrow> skip_ws (c # t) = c # t"
  by (simp add: skip_ws_def)

lemma isspace_simps [simp]: "\<not> isspace CHR '',''" "\<not> isspace CHR '']''" "\<not> isspace CHR ''}''"
  "\<not> isspace CHR '':''" "isspace CHR 0x0A" "isspace CHR '' ''"
  by (simp_all add: isspace_def)

lemma elements_step:
  fixes E :: "'d json_env"
  assumes V: "reads_values E p L rec" and R: "reads_elements E p L rec" and M: "roomy E L"
  shows "reads_elements E p L (\<lambda>c. case c of Parse_Elements k a s \<Rightarrow> parse_elements_body E rec k a s | _ \<Rightarrow> No_Result)"
  unfolding reads_elements_def
proof (intro allI impI, simp only: call.case)
  fix k l and a :: "'d json_value json_array" and d ds u t
  assume u: "blank u" "p \<or> u = []" and pr: "\<forall>x \<in> set (d # ds). printable E (2049 - k) x"
    and len: "length (items a) + length (d # ds) \<le> L" "length (render_items E p l (d # ds)) \<le> L"
    and cap: "capacity a \<le> 2 * length (items a) + 16"
  let ?nl = "if p then [CHR 0x0A] else []"
  let ?w = "(if ds \<noteq> [] then '','' else []) @ ?nl @ render_items E p l ds @ u @ CHR '']'' # t"
  let ?s = "render E p (l + 1) d @ ?w"
  have s: "skip_ws (render_items E p l (d # ds) @ u @ CHR '']'' # t) = ?s"
    using pr skip_render [of E "2049 - k" d p "l + 1"] by simp
  have ne: "?s \<noteq> []" using render_starts [of E "2049 - k" d p "l + 1" ?w] pr starts_value_solid by force
  have "delimited ?w" using u by (cases ds; cases p) simp_all
  then have "reads (rec (Parse_Value k ?s)) d ?w"
    using V [unfolded reads_values_def, rule_format, of "[]" k d ?w "l + 1"] pr len(2) by simp
  then show "reads (parse_elements_body E rec k a (skip_ws (render_items E p l (d # ds) @ u @ CHR '']'' # t)))
      (Doc_Array (map doc (items a) @ d # ds)) t"
  proof (cases rule: reads_cases)
    case 1
    then show ?thesis unfolding s using ne by (simp add: parse_elements_body_def reads_def)
  next
    case (2 v)
    obtain a' where a': "json_array_add E a v = (JSONSuccess, a')" "items a' = items a @ [v]"
      "capacity a' \<le> 2 * length (items a') + 16"
      using array_add_room [OF M _ cap, of v] len(1) by auto
    show ?thesis
    proof (cases ds)
      case Nil
      have "skip_ws ?w = CHR '']'' # t" using u Nil by (simp add: skip_char)
      moreover have "mem E (length (items a') * sizeof_pointer)"
        using roomy_mem [OF M] len(1) a'(2) by (simp add: sizeof_pointer_def)
      ultimately show ?thesis unfolding s using ne 2 a' Nil
        by (simp add: parse_elements_body_def Let_def close_array_def json_array_resize_def
          json_array_get_count_def skip_char reads_def del: append.simps)
    next
      case (Cons d' ds')
      have "skip_ws ?w = ?w" using Cons by (simp add: skip_char)
      moreover have "skip_ws (drop 1 ?w) = skip_ws (render_items E p l ds @ u @ CHR '']'' # t)"
        using Cons by simp
      moreover have "reads (rec (Parse_Elements k a' (skip_ws (render_items E p l ds @ u @ CHR '']'' # t))))
          (Doc_Array (map doc (items a') @ ds)) t"
        using R [unfolded reads_elements_def, rule_format, of u d' ds' k a' l t] u pr len a'(2,3) Cons by simp
      ultimately show ?thesis unfolding s using ne 2 a' Cons
        by (simp add: parse_elements_body_def Let_def)
    qed
  qed
qed

lemma members_step:
  fixes E :: "'d json_env"
  assumes V: "reads_values E p L rec" and R: "reads_members E p L rec" and M: "roomy E L" "mem_bounded (table_mem E)"
  shows "reads_members E p L (\<lambda>c. case c of Parse_Members k ob s \<Rightarrow> parse_members_body E rec k ob s | _ \<Rightarrow> No_Result)"
  unfolding reads_members_def
proof (intro allI impI, simp only: call.case)
  fix k l and ob :: "'d obj" and m ms u t
  assume u: "blank u" "p \<or> u = []"
    and pr: "\<forall>x \<in> set (m # ms). c_string (fst x) \<and> printable E (2049 - k) (snd x)"
    and inv: "object_inv ob" and dist: "distinct (names ob @ map fst (m # ms))"
    and len: "length (names ob) + length (m # ms) \<le> L" "length (render_members E p l (m # ms)) \<le> L"
  let ?nl = "if p then [CHR 0x0A] else []"
  let ?sp = "if p then '' '' else []"
  let ?q = "quoted (escape_slashes E) (fst m)"
  let ?w = "(if ms \<noteq> [] then '','' else []) @ ?nl @ render_members E p l ms @ u @ CHR ''}'' # t"
  let ?v = "?sp @ render E p (l + 1) (snd m) @ ?w"
  let ?s = "?q @ CHR '':'' # ?v"
  have s: "skip_ws (render_members E p l (m # ms) @ u @ CHR ''}'' # t) = ?s" by simp
  have ne: "?s \<noteq> []" by simp
  have key: "get_quoted_string (mem E) ?s = Some (fst m, CHR '':'' # ?v)"
    using len(2) roomy_mem [OF M(1)] by (intro get_quoted_back) simp
  have "delimited ?w" using u by (cases ms; cases p) simp_all
  then have "reads (rec (Parse_Value k ?v)) (snd m) ?w"
    using V [unfolded reads_values_def, rule_format, of ?sp k "snd m" ?w "l + 1"] pr len(2) by simp
  then show "reads (parse_members_body E rec k ob (skip_ws (render_members E p l (m # ms) @ u @ CHR ''}'' # t)))
      (Doc_Object (zip (names ob) (map doc (vals ob)) @ m # ms)) t"
  proof (cases rule: reads_cases)
    case 1
    then show ?thesis unfolding s using ne key pr by (simp add: parse_members_body_def reads_def skip_char)
  next
    case (2 v)
    obtain ob' where ob': "json_object_add (table_mem E) ob (fst m) v = Some (JSONSuccess, ob')" "object_inv ob'"
      "names ob' = names ob @ [fst m]" "vals ob' = vals ob @ [v]"
      using object_add_room [OF M inv, of "fst m" v] len(1) dist by auto
    have d: "zip (names ob') (map doc (vals ob')) = zip (names ob) (map doc (vals ob)) @ [m]"
      using ob'(3,4) inv 2(2) by (simp add: object_inv_def)
    have body: "parse_members_body E rec k ob ?s =
        (let s = skip_ws ?w in if peek s \<noteq> CHR '','' then close_object ob' s
           else rec (Parse_Members k ob' (skip_ws (drop 1 s))))"
      using ne key pr 2(1) ob'(1) by (simp add: parse_members_body_def skip_char)
    show ?thesis
    proof (cases ms)
      case Nil
      have "skip_ws ?w = CHR ''}'' # t" using u Nil by (simp add: skip_char)
      then show ?thesis unfolding s body using Nil d
        by (simp add: close_object_def skip_char reads_def Let_def)
    next
      case (Cons m' ms')
      have "skip_ws ?w = ?w" using Cons by (simp add: skip_char)
      moreover have "skip_ws (drop 1 ?w) = skip_ws (render_members E p l ms @ u @ CHR ''}'' # t)"
        using Cons by simp
      moreover have "reads (rec (Parse_Members k ob' (skip_ws (render_members E p l ms @ u @ CHR ''}'' # t))))
          (Doc_Object (zip (names ob') (map doc (vals ob')) @ ms)) t"
        using R [unfolded reads_members_def, rule_format, of u m' ms' k ob' l t] u pr len ob'(2,3) dist Cons by simp
      ultimately show ?thesis unfolding s body using Cons d by (simp add: Let_def)
    qed
  qed
qed

text \<open>The values.\<close>

lemma items_length: "length ds \<le> length (render_items E p l ds)" if "\<forall>d \<in> set ds. printable E n d"
  using that
proof (induction ds)
  case (Cons d ds)
  have "render E p (l + 1) d \<noteq> []"
    using render_starts [of E n d p "l + 1" "[]"] Cons.prems starts_value_solid by force
  then show ?case using Cons by (cases "render E p (l + 1) d") auto
qed simp

lemma members_length: "length ms \<le> length (render_members E p l ms)"
  by (induction ms) auto

lemma new_containers:
  assumes "roomy E L"
  shows "json_value_init_object E = Some (JSON_Obj (JSON_Object [] [] [] [] [] 0))"
    "json_value_init_array E = Some (JSON_Arr (JSON_Array [] 0))"
    "mem E sizeof_JSON_Value"
  using roomy_mem [OF assms]
  by (simp_all add: json_value_init_object_def json_object_make_def json_object_init_def item_capacity_for_def
    json_value_init_array_def json_array_make_def sizeof_JSON_Value_def sizeof_JSON_Object_def sizeof_JSON_Array_def)

lemma values_step:
  fixes E :: "'d json_env"
  assumes A: "reads_elements E p L rec" and O: "reads_members E p L rec" and M: "roomy E L"
  shows "reads_values E p L (\<lambda>c. case c of Parse_Value k s \<Rightarrow> parse_value_body E rec k s | _ \<Rightarrow> No_Result)"
  unfolding reads_values_def
proof (intro allI impI, simp only: call.case)
  fix k l d u t
  assume u: "blank u" and pr: "printable E (2049 - k) d" and del: "delimited t"
    and len: "length (render E p l d) \<le> L"
  have k: "\<not> MAX_NESTING < k" "2049 - k - 1 = 2049 - (k + 1)"
    using pr by (cases d; simp add: MAX_NESTING_def)+
  have s: "skip_ws (u @ render E p l d @ t) = render E p l d @ t"
    using u skip_render [OF pr] by simp
  note new = new_containers [OF M]
  show "reads (parse_value_body E rec k (u @ render E p l d @ t)) d t"
  proof (cases d)
    case (Doc_Array ds)
    show ?thesis
    proof (cases ds)
      case Nil
      then show ?thesis using k(1) s Doc_Array new
        by (simp add: parse_value_body_def parse_array_value_def Let_def json_value_get_array_def reads_def skip_char)
    next
      case (Cons d' ds')
      let ?u = "if p then replicate (4 * l) CHR '' '' else []"
      let ?x = "(if p then [CHR 0x0A] else []) @ render_items E p l ds @ ?u @ CHR '']'' # t"
      have x: "skip_ws ?x = skip_ws (render_items E p l ds @ ?u @ CHR '']'' # t)" by simp
      have "printable E (2049 - (k + 1)) d'" using pr Doc_Array Cons k(2) by simp
      from starts_value_solid [OF render_starts [OF this]] skip_render [OF this]
      have "peek (skip_ws ?x) \<noteq> CHR '']''" using Cons by simp
      then have "parse_value_body E rec k (u @ render E p l d @ t) =
          rec (Parse_Elements (k + 1) (JSON_Array [] 0) (skip_ws ?x))"
        using k(1) s Doc_Array new Cons
        by (simp add: parse_value_body_def parse_array_value_def Let_def json_value_get_array_def)
      moreover have u': "blank ?u" "p \<or> ?u = []" by simp_all
      moreover have all: "\<forall>x \<in> set ds. printable E (2049 - (k + 1)) x" "length (render_items E p l ds) \<le> L"
        "length ds \<le> L"
        using pr k(2) Doc_Array len items_length [of ds E "2049 - k - 1" p l] by auto
      moreover have "reads (rec (Parse_Elements (k + 1) (JSON_Array [] 0)
          (skip_ws (render_items E p l ds @ ?u @ CHR '']'' # t)))) (Doc_Array ds) t"
        using reads_elementsD [OF A u' _ all(1), of "JSON_Array [] 0" l t] all(2,3) Cons by simp
      ultimately show ?thesis unfolding x using Doc_Array by simp
    qed
  next
    case (Doc_Object ms)
    show ?thesis
    proof (cases ms)
      case Nil
      then show ?thesis using k(1) s Doc_Object new
        by (simp add: parse_value_body_def parse_object_value_def Let_def json_value_get_object_def reads_def skip_char)
    next
      case (Cons m ms')
      let ?u = "if p then replicate (4 * l) CHR '' '' else []"
      let ?x = "(if p then [CHR 0x0A] else []) @ render_members E p l ms @ ?u @ CHR ''}'' # t"
      have x: "skip_ws ?x = skip_ws (render_members E p l ms @ ?u @ CHR ''}'' # t)" by simp
      have "peek (skip_ws ?x) \<noteq> CHR ''}''" using Cons by simp
      then have "parse_value_body E rec k (u @ render E p l d @ t) =
          rec (Parse_Members (k + 1) (JSON_Object [] [] [] [] [] 0) (skip_ws ?x))"
        using k(1) s Doc_Object new Cons
        by (simp add: parse_value_body_def parse_object_value_def Let_def json_value_get_object_def)
      moreover have u': "blank ?u" "p \<or> ?u = []" by simp_all
      moreover have all: "\<forall>x \<in> set ms. c_string (fst x) \<and> printable E (2049 - (k + 1)) (snd x)"
        "length (render_members E p l ms) \<le> L" "length ms \<le> L" "distinct (map fst ms)"
        using pr k(2) Doc_Object len members_length [of ms E p l] by auto
      moreover have "reads (rec (Parse_Members (k + 1) (JSON_Object [] [] [] [] [] 0)
          (skip_ws (render_members E p l ms @ ?u @ CHR ''}'' # t)))) (Doc_Object ms) t"
        using reads_membersD [OF O u' _ all(1), of "JSON_Object [] [] [] [] [] 0" l t] all(2-4) Cons by simp
      ultimately show ?thesis unfolding x using Doc_Object by simp
    qed
  next
    case (Doc_Number x)
    then have "peek (sprintf_num E x @ t) = CHR ''-'' \<or> is_digit (peek (sprintf_num E x @ t))"
      using pr render_starts [OF pr, of p l t] by (cases "sprintf_num E x") (auto simp: number_io_def Let_def is_digit_def)
    then have "parse_value_body E rec k (u @ render E p l d @ t) = parse_number_value E (sprintf_num E x @ t)"
      using k(1) s Doc_Number
      by (auto simp: parse_value_body_def Let_def is_digit_def)
    then show ?thesis using read_number [of E x t] pr del new Doc_Number by (simp add: reads_def)
  next
    case (Doc_String x)
    then have "parse_value_body E rec k (u @ render E p l d @ t) = parse_string_value E (quoted (escape_slashes E) x @ t)"
      using k(1) s by (simp add: parse_value_body_def Let_def quoted_def)
    moreover have "get_quoted_string (mem E) (quoted (escape_slashes E) x @ t) = Some (x, t)"
      using len Doc_String roomy_mem [OF M] by (intro get_quoted_back) simp
    ultimately show ?thesis using new Doc_String
      by (simp add: parse_string_value_def json_value_init_string_no_copy_def of_option_def reads_def)
  next
    case (Doc_Bool b)
    then show ?thesis using k(1) s pr new
      by (auto simp: parse_value_body_def Let_def parse_boolean_value_def json_value_init_boolean_def
        of_option_def reads_def)
  next
    case Doc_Null
    then show ?thesis using k(1) s new
      by (simp add: parse_value_body_def Let_def is_digit_def parse_null_value_def json_value_init_null_def
        of_option_def reads_def)
  qed
qed


lemma reads_all:
  assumes "roomy E L" "mem_bounded (table_mem E)"
  shows "reads_values E p L (parse_call E n) \<and> reads_elements E p L (parse_call E n) \<and>
    reads_members E p L (parse_call E n)"
proof (induction n)
  case 0
  show ?case by (simp add: reads_values_def reads_elements_def reads_members_def reads_def)
next
  case (Suc n)
  then have V: "reads_values E p L (parse_call E n)" and A: "reads_elements E p L (parse_call E n)"
    and O: "reads_members E p L (parse_call E n)" by simp_all
  show ?case
    using values_step [OF A O assms(1)] elements_step [OF V A assms(1)] members_step [OF V O assms]
    by (simp add: reads_values_def reads_elements_def reads_members_def)
qed

lemma escape_c_string: "c_string (escape_char b c)"
proof -
  have "hex_digit n \<noteq> NUL" if "n < 16" for n
    using that unfolding upto_16 by (auto simp: hex_digit_def)
  note digit = this
  have "hex_digit (ord c div 16) \<noteq> NUL" "hex_digit (ord c mod 16) \<noteq> NUL"
    using ord_less [of c] by (intro digit; simp add: div_less_iff_less_mult)+
  moreover have "\<not> ord c < 32 \<longrightarrow> c \<noteq> NUL" by (auto simp: ord_def)
  ultimately show ?thesis by (simp add: escape_char_def)
qed

lemma quoted_c_string [simp]: "c_string (quoted b s)"
  using escape_c_string by (induction s) (simp_all add: quoted_def)

lemma replicate_c_string [simp]: "c_string (replicate n CHR '' '')"
  by (induction n) simp_all

lemma render_c_string:
  "printable E n d \<Longrightarrow> c_string (render E p l d)"
  "\<forall>d \<in> set ds. printable E n d \<Longrightarrow> c_string (render_items E p l ds)"
  "\<forall>m \<in> set ms. printable E n (snd m) \<Longrightarrow> c_string (render_members E p l ms)"
proof (induction E p l d and E p l ds and E p l ms arbitrary: n and n and n
    rule: render_render_items_render_members.induct)
  case (3 E p l d)
  then show ?case by (simp add: number_io_def Let_def)
next
  case (5 E p l ds)
  then have "c_string (render_items E p l ds)" by auto
  then show ?case by (cases p) simp_all
next
  case (6 E p l ms)
  then have "c_string (render_members E p l ms)" by auto
  then show ?case by (cases p) simp_all
qed auto

lemma starts_value_ascii: "starts_value c \<Longrightarrow> c \<noteq> chr 0xEF"
proof
  assume "starts_value c" "c = chr 0xEF"
  moreover have "ord (chr 0xEF) = 0xEF" by simp
  ultimately show False by (auto simp: starts_value_def ord_def)
qed

subsection \<open>Properties\<close>

text \<open>
  C1: What the serializer writes, the parser reads back: for every well-formed value, compact or
  pretty, the text holds no zero byte and parsing it gives, with nothing left over, a well-formed
  value that stands for the same document.  The numbers are those that the library's printing and
  reading functions carry over, the nesting is within the parser's limit, and the memory needed
  is linear in the length of the text.
\<close>

theorem print_then_parse:
  assumes "value_inv v" "printable E 2049 (doc v)" "mem_bounded (table_mem E)"
    "roomy E (length (render E p 0 (doc v)))"
  shows "\<exists>text v'. serialize_to_string E p (Some v) = Some (Some text) \<and> c_string text \<and>
    json_parse_string E (Some text) = Value v' [] \<and> value_inv v' \<and> doc v' = doc v"
proof -
  let ?t = "render E p 0 (doc v)"
  have "take 3 ?t \<noteq> [chr 0xEF, chr 0xBB, chr 0xBF]"
    using starts_value_ascii [OF render_starts [OF assms(2), of p 0 "[]"]]
    by (cases ?t) auto
  then have eq: "json_parse_string E (Some ?t) = parse_call E (parse_fuel ?t) (Parse_Value 0 ([] @ ?t @ []))"
    by (simp add: json_parse_string_def parse_value_def Let_def)
  have "reads (json_parse_string E (Some ?t)) (doc v) []"
    unfolding eq using conjunct1 [OF reads_all [OF assms(4,3), of p "parse_fuel ?t"]] assms(2)
    by (auto simp: reads_values_def delimited_def simp del: append_Nil append_Nil2)
  moreover have "serialize_to_string E p (Some v) = Some (Some ?t)"
    using serialize_to_string_renders [OF assms(1)] roomy_mem [OF assms(4)] roomy_short [OF assms(4,3)] by simp
  ultimately show ?thesis
    using parse_string_total [OF assms(3), of ?t] render_c_string(1) [OF assms(2)] by (auto simp: reads_def)
qed


text \<open>An environment of one-digit numbers for a closed instance.\<close>

definition digit_env :: "nat json_env" where
  "digit_env = \<lparr>mem = (\<lambda>n. n < 2 ^ 32), num_zero = 0, num_invalid = (\<lambda>n. n > 9), num_huge = (\<lambda>_. False),
     num_near = (=), strtod = (\<lambda>s. if is_digit (peek s) then (ord (peek s) - 48, 1, 0) else (0, 0, 0)),
     sprintf_num = (\<lambda>n. [''0123456789'' ! n]), escape_slashes = True\<rparr>"

lemma digit_env_bounded: "mem_bounded (table_mem digit_env)"
  by (auto simp: mem_bounded_def table_mem_def digit_env_def sizeof_pointer_def)

lemma digit_env_number: "number_io digit_env 7"
  by (simp add: number_io_def digit_env_def Let_def is_digit_def is_decimal_def ord_def)

definition sample :: "nat json_value" where
  "sample = JSON_Arr (JSON_Array [JSON_Number 7, JSON_String [CHR ''a'', DQ, CHR ''/'', CHR 0x0A, NUL], JSON_Bool 1,
     JSON_Arr (JSON_Array [] 0), JSON_Obj (JSON_Object [] [] [] [] [] 0)] 16)"

theorem print_then_parse_witness:
  "\<exists>text v'. serialize_to_string digit_env True (Some sample) = Some (Some text) \<and> c_string text \<and>
    json_parse_string digit_env (Some text) = Value v' [] \<and> value_inv v' \<and> doc v' = doc sample"
  by (rule print_then_parse)
    (simp_all add: digit_env_bounded digit_env_number sample_def roomy_def,
     simp add: digit_env_def quoted_def escape_char_def ord_def hex_digit_def)

end
