(* ===== verification/Http_Url.thy ===== *)
theory Http_Url
  imports Prelude
begin

unbundle bit_operations_syntax

text \<open>
  The URL parser of \<open>httpclient/src/http_parser.c\<close>: the character classes, the automaton
  \<open>parse_url_char\<close> that the message parser shares, and \<open>http_parser_parse_url\<close> with its parser of
  the host part.  The build is the default one, with \<open>HTTP_PARSER_STRICT\<close> set.

  A bit mask of fields is the set of its bits.  Offsets and lengths are kept at the width of their
  16-bit members.  The text of the buffer is a list of characters; the C string may go on behind
  the part that is parsed, which only the conversion of the port can see.
\<close>

subsection \<open>States\<close>

datatype (plugins only: code) state =
    s_dead | s_start_req_or_res | s_res_or_resp_H | s_start_res | s_res_H | s_res_HT | s_res_HTT | s_res_HTTP
  | s_res_first_http_major | s_res_http_major | s_res_first_http_minor | s_res_http_minor
  | s_res_first_status_code | s_res_status_code | s_res_status_start | s_res_status | s_res_line_almost_done
  | s_start_req | s_req_method | s_req_spaces_before_url | s_req_schema | s_req_schema_slash
  | s_req_schema_slash_slash | s_req_server_start | s_req_server | s_req_server_with_at | s_req_path
  | s_req_query_string_start | s_req_query_string | s_req_fragment_start | s_req_fragment | s_req_http_start
  | s_req_http_H | s_req_http_HT | s_req_http_HTT | s_req_http_HTTP | s_req_first_http_major | s_req_http_major
  | s_req_first_http_minor | s_req_http_minor | s_req_line_almost_done | s_header_field_start | s_header_field
  | s_header_value_discard_ws | s_header_value_discard_ws_almost_done | s_header_value_discard_lws
  | s_header_value_start | s_header_value | s_header_value_lws | s_header_almost_done
  | s_chunk_size_start | s_chunk_size | s_chunk_parameters | s_chunk_size_almost_done
  | s_headers_almost_done | s_headers_done | s_chunk_data | s_chunk_data_almost_done | s_chunk_data_done
  | s_body_identity | s_body_identity_eof | s_message_done

datatype http_host_state =
    s_http_host_dead | s_http_userinfo_start | s_http_userinfo | s_http_host_start | s_http_host_v6_start
  | s_http_host | s_http_host_v6 | s_http_host_v6_end | s_http_host_v6_zone_start | s_http_host_v6_zone
  | s_http_host_port_start | s_http_host_port

subsection \<open>Character classes\<close>

abbreviation CR :: char where "CR \<equiv> CHR 0x0D"
abbreviation LF :: char where "LF \<equiv> CHR 0x0A"

definition LOWER :: "char \<Rightarrow> char" where
  "LOWER c = chr (ord c OR 0x20)"

definition IS_ALPHA :: "char \<Rightarrow> bool" where
  "IS_ALPHA c \<longleftrightarrow> ord CHR ''a'' \<le> ord (LOWER c) \<and> ord (LOWER c) \<le> ord CHR ''z''"

definition IS_NUM :: "char \<Rightarrow> bool" where
  "IS_NUM c \<longleftrightarrow> ord CHR ''0'' \<le> ord c \<and> ord c \<le> ord CHR ''9''"

definition IS_ALPHANUM :: "char \<Rightarrow> bool" where
  "IS_ALPHANUM c \<longleftrightarrow> IS_ALPHA c \<or> IS_NUM c"

definition IS_HEX :: "char \<Rightarrow> bool" where
  "IS_HEX c \<longleftrightarrow> IS_NUM c \<or> (ord CHR ''a'' \<le> ord (LOWER c) \<and> ord (LOWER c) \<le> ord CHR ''f'')"

definition IS_MARK :: "char \<Rightarrow> bool" where
  "IS_MARK c \<longleftrightarrow> c \<in> {CHR ''-'', CHR ''_'', CHR ''.'', CHR ''!'', CHR ''~'', CHR ''*'', CHR 0x27, CHR ''('', CHR '')''}"

definition IS_USERINFO_CHAR :: "char \<Rightarrow> bool" where
  "IS_USERINFO_CHAR c \<longleftrightarrow> IS_ALPHANUM c \<or> IS_MARK c \<or>
     c \<in> {CHR ''%'', CHR '';'', CHR '':'', CHR ''&'', CHR ''='', CHR ''+'', CHR ''$'', CHR '',''}"

definition IS_HOST_CHAR :: "char \<Rightarrow> bool" where
  "IS_HOST_CHAR c \<longleftrightarrow> IS_ALPHANUM c \<or> c = CHR ''.'' \<or> c = CHR ''-''"

text \<open>The bit table has a bit for every printing character but the two that end a path.\<close>

definition normal_url_char :: "char \<Rightarrow> bool" where
  "normal_url_char c \<longleftrightarrow> 33 \<le> ord c \<and> ord c \<le> 126 \<and> c \<noteq> CHR ''#'' \<and> c \<noteq> CHR ''?''"

definition IS_URL_CHAR :: "char \<Rightarrow> bool" where
  "IS_URL_CHAR c \<longleftrightarrow> normal_url_char c"

subsection \<open>The automaton of URLs\<close>

definition parse_url_server :: "char \<Rightarrow> state" where
  "parse_url_server ch =
     (if ch = CHR ''/'' then s_req_path
      else if ch = CHR ''?'' then s_req_query_string_start
      else if ch = CHR ''@'' then s_req_server_with_at
      else if IS_USERINFO_CHAR ch \<or> ch = CHR ''['' \<or> ch = CHR '']'' then s_req_server
      else s_dead)"

definition parse_url_char :: "state \<Rightarrow> char \<Rightarrow> state" where
  "parse_url_char s ch =
     (if ch = CHR '' '' \<or> ch = CR \<or> ch = LF then s_dead
      else if ch = CHR 0x09 \<or> ch = CHR 0x0C then s_dead
      else case s of
        s_req_spaces_before_url \<Rightarrow>
          if ch = CHR ''/'' \<or> ch = CHR ''*'' then s_req_path
          else if IS_ALPHA ch then s_req_schema
          else s_dead
      | s_req_schema \<Rightarrow>
          if IS_ALPHA ch then s
          else if ch = CHR '':'' then s_req_schema_slash
          else s_dead
      | s_req_schema_slash \<Rightarrow> if ch = CHR ''/'' then s_req_schema_slash_slash else s_dead
      | s_req_schema_slash_slash \<Rightarrow> if ch = CHR ''/'' then s_req_server_start else s_dead
      | s_req_server_with_at \<Rightarrow> if ch = CHR ''@'' then s_dead else parse_url_server ch
      | s_req_server_start \<Rightarrow> parse_url_server ch
      | s_req_server \<Rightarrow> parse_url_server ch
      | s_req_path \<Rightarrow>
          if IS_URL_CHAR ch then s
          else if ch = CHR ''?'' then s_req_query_string_start
          else if ch = CHR ''#'' then s_req_fragment_start
          else s_dead
      | s_req_query_string_start \<Rightarrow>
          if IS_URL_CHAR ch then s_req_query_string
          else if ch = CHR ''?'' then s_req_query_string
          else if ch = CHR ''#'' then s_req_fragment_start
          else s_dead
      | s_req_query_string \<Rightarrow>
          if IS_URL_CHAR ch then s_req_query_string
          else if ch = CHR ''?'' then s_req_query_string
          else if ch = CHR ''#'' then s_req_fragment_start
          else s_dead
      | s_req_fragment_start \<Rightarrow>
          if IS_URL_CHAR ch then s_req_fragment
          else if ch = CHR ''?'' then s_req_fragment
          else if ch = CHR ''#'' then s
          else s_dead
      | s_req_fragment \<Rightarrow>
          if IS_URL_CHAR ch then s
          else if ch = CHR ''?'' \<or> ch = CHR ''#'' then s
          else s_dead
      | _ \<Rightarrow> s_dead)"

subsection \<open>The fields of a URL\<close>

datatype http_parser_url_fields =
  UF_SCHEMA | UF_HOST | UF_PORT | UF_PATH | UF_QUERY | UF_FRAGMENT | UF_USERINFO | UF_MAX

record http_parser_url =
  field_set :: "http_parser_url_fields set"
  port :: "16 word"
  off :: "http_parser_url_fields \<Rightarrow> 16 word"
  len :: "http_parser_url_fields \<Rightarrow> 16 word"

text \<open>A field starts at a position with the given length, or gets one character longer.\<close>

definition start_field :: "http_parser_url_fields \<Rightarrow> nat \<Rightarrow> 16 word \<Rightarrow> http_parser_url \<Rightarrow> http_parser_url" where
  "start_field uf p n u =
     u\<lparr>off := (off u)(uf := of_nat p), len := (len u)(uf := n), field_set := insert uf (field_set u)\<rparr>"

definition more_field :: "http_parser_url_fields \<Rightarrow> http_parser_url \<Rightarrow> http_parser_url" where
  "more_field uf u = u\<lparr>len := (len u)(uf := len u uf + 1)\<rparr>"

subsection \<open>The host part\<close>

definition http_parse_host_char :: "http_host_state \<Rightarrow> char \<Rightarrow> http_host_state" where
  "http_parse_host_char s ch =
     (if s = s_http_userinfo \<or> s = s_http_userinfo_start then
        if ch = CHR ''@'' then s_http_host_start
        else if IS_USERINFO_CHAR ch then s_http_userinfo
        else s_http_host_dead
      else if s = s_http_host_start then
        if ch = CHR ''['' then s_http_host_v6_start
        else if IS_HOST_CHAR ch then s_http_host
        else s_http_host_dead
      else if s = s_http_host \<or> s = s_http_host_v6_end then
        if s = s_http_host \<and> IS_HOST_CHAR ch then s_http_host
        else if ch = CHR '':'' then s_http_host_port_start
        else s_http_host_dead
      else if s = s_http_host_v6 \<or> s = s_http_host_v6_start then
        if s = s_http_host_v6 \<and> ch = CHR '']'' then s_http_host_v6_end
        else if IS_HEX ch \<or> ch = CHR '':'' \<or> ch = CHR ''.'' then s_http_host_v6
        else if s = s_http_host_v6 \<and> ch = CHR ''%'' then s_http_host_v6_zone_start
        else s_http_host_dead
      else if s = s_http_host_v6_zone \<or> s = s_http_host_v6_zone_start then
        if s = s_http_host_v6_zone \<and> ch = CHR '']'' then s_http_host_v6_end
        else if IS_ALPHANUM ch \<or> ch \<in> {CHR ''%'', CHR ''.'', CHR ''-'', CHR ''_'', CHR ''~''} then s_http_host_v6_zone
        else s_http_host_dead
      else if s = s_http_host_port \<or> s = s_http_host_port_start then
        if IS_NUM ch then s_http_host_port else s_http_host_dead
      else s_http_host_dead)"

definition host_char_seen :: "http_host_state \<Rightarrow> http_host_state \<Rightarrow> nat \<Rightarrow> http_parser_url \<Rightarrow> http_parser_url" where
  "host_char_seen s new_s p u =
     (case new_s of
        s_http_host \<Rightarrow>
          more_field UF_HOST (if s \<noteq> s_http_host then u\<lparr>off := (off u)(UF_HOST := of_nat p)\<rparr> else u)
      | s_http_host_v6 \<Rightarrow>
          more_field UF_HOST (if s \<noteq> s_http_host_v6 then u\<lparr>off := (off u)(UF_HOST := of_nat p)\<rparr> else u)
      | s_http_host_v6_zone_start \<Rightarrow> more_field UF_HOST u
      | s_http_host_v6_zone \<Rightarrow> more_field UF_HOST u
      | s_http_host_port \<Rightarrow>
          more_field UF_PORT (if s \<noteq> s_http_host_port then start_field UF_PORT p 0 u else u)
      | s_http_userinfo \<Rightarrow>
          more_field UF_USERINFO (if s \<noteq> s_http_userinfo then start_field UF_USERINFO p 0 u else u)
      | _ \<Rightarrow> u)"

fun host_loop :: "nat \<Rightarrow> http_host_state \<Rightarrow> http_parser_url \<Rightarrow> string \<Rightarrow> (http_host_state \<times> http_parser_url) option" where
  "host_loop p s u [] = Some (s, u)"
| "host_loop p s u (ch # cs) =
     (let new_s = http_parse_host_char s ch
      in if new_s = s_http_host_dead then None
         else host_loop (p + 1) new_s (host_char_seen s new_s p u) cs)"

definition http_parse_host :: "string \<Rightarrow> http_parser_url \<Rightarrow> bool \<Rightarrow> http_parser_url option" where
  "http_parse_host buf u found_at =
     (let start = unat (off u UF_HOST);
          buflen = start + unat (len u UF_HOST);
          u = u\<lparr>len := (len u)(UF_HOST := 0)\<rparr>;
          s = (if found_at then s_http_userinfo_start else s_http_host_start)
      in case host_loop start s u (drop start (take buflen buf)) of
        None \<Rightarrow> None
      | Some (s, u) \<Rightarrow>
          if s \<in> {s_http_host_start, s_http_host_v6_start, s_http_host_v6, s_http_host_v6_zone_start,
                  s_http_host_v6_zone, s_http_host_port_start, s_http_userinfo, s_http_userinfo_start}
          then None else Some u)"

subsection \<open>The whole URL\<close>

text \<open>What the switch over the new state does: it rejects, skips a delimiter or names a field.\<close>

datatype url_switch = Reject | Skip | Field http_parser_url_fields

definition url_field :: "state \<Rightarrow> url_switch" where
  "url_field s =
     (case s of
        s_dead \<Rightarrow> Reject
      | s_req_schema_slash \<Rightarrow> Skip
      | s_req_schema_slash_slash \<Rightarrow> Skip
      | s_req_server_start \<Rightarrow> Skip
      | s_req_query_string_start \<Rightarrow> Skip
      | s_req_fragment_start \<Rightarrow> Skip
      | s_req_schema \<Rightarrow> Field UF_SCHEMA
      | s_req_server_with_at \<Rightarrow> Field UF_HOST
      | s_req_server \<Rightarrow> Field UF_HOST
      | s_req_path \<Rightarrow> Field UF_PATH
      | s_req_query_string \<Rightarrow> Field UF_QUERY
      | s_req_fragment \<Rightarrow> Field UF_FRAGMENT
      | _ \<Rightarrow> Reject)"

fun url_loop ::
    "nat \<Rightarrow> state \<Rightarrow> http_parser_url_fields \<Rightarrow> bool \<Rightarrow> http_parser_url \<Rightarrow> string \<Rightarrow> (bool \<times> http_parser_url) option" where
  "url_loop p s old_uf found_at u [] = Some (found_at, u)"
| "url_loop p s old_uf found_at u (ch # cs) =
     (let s = parse_url_char s ch
      in case url_field s of
        Reject \<Rightarrow> None
      | Skip \<Rightarrow> url_loop (p + 1) s old_uf found_at u cs
      | Field uf \<Rightarrow>
          let found_at = (found_at \<or> s = s_req_server_with_at)
          in if uf = old_uf then url_loop (p + 1) s old_uf found_at (more_field uf u) cs
             else url_loop (p + 1) s uf found_at (start_field uf p 1 u) cs)"

text \<open>\<open>strtoul\<close> of the C library, base 10, on a C string: blanks, a sign, digits; it saturates.\<close>

definition ULONG_MAX :: nat where "ULONG_MAX = 2 ^ 64 - 1"

definition decimal :: "string \<Rightarrow> nat" where
  "decimal ds = foldl (\<lambda>v c. v * 10 + (ord c - ord CHR ''0'')) 0 ds"

definition strtoul_10 :: "string \<Rightarrow> nat" where
  "strtoul_10 s =
     (let s = dropWhile (\<lambda>c. c \<in> {CHR '' '', CHR 0x09, CHR 0x0A, CHR 0x0B, CHR 0x0C, CHR 0x0D}) s;
          neg = (peek s = CHR ''-'');
          s = (if peek s = CHR ''-'' \<or> peek s = CHR ''+'' then drop 1 s else s);
          v = decimal (takeWhile IS_NUM s)
      in if v > ULONG_MAX then ULONG_MAX else if neg then (ULONG_MAX + 1 - v) mod (ULONG_MAX + 1) else v)"

definition http_parser_parse_url :: "string \<Rightarrow> nat \<Rightarrow> bool \<Rightarrow> http_parser_url \<Rightarrow> http_parser_url option" where
  "http_parser_parse_url buf buflen is_connect u =
     (let u = u\<lparr>port := 0, field_set := {}\<rparr>;
          s = (if is_connect then s_req_server_start else s_req_spaces_before_url)
      in case url_loop 0 s UF_MAX False u (take buflen buf) of
        None \<Rightarrow> None
      | Some (found_at, u) \<Rightarrow>
          if UF_SCHEMA \<in> field_set u \<and> UF_HOST \<notin> field_set u then None
          else case (if UF_HOST \<in> field_set u then http_parse_host buf u found_at else Some u) of
            None \<Rightarrow> None
          | Some u \<Rightarrow>
              if is_connect \<and> field_set u \<noteq> {UF_HOST, UF_PORT} then None
              else if UF_PORT \<in> field_set u then
                (let v = strtoul_10 (drop (unat (off u UF_PORT)) buf)
                 in if v > 0xffff then None else Some (u\<lparr>port := of_nat v\<rparr>))
              else Some u)"

end
