(* ===== verification/Http_Url_Fields.thy ===== *)
theory Http_Url_Fields
  imports Http_Url
begin

text \<open>
  The positions of the fields that the URL parser of \<open>httpclient/src/http_parser.c\<close> reports: an
  invariant of its loop over the text, one of the loop over the authority, and what both give
  together.  The last section shows what the 16-bit lengths do to longer texts.
\<close>

subsection \<open>Where the fields lie\<close>

definition field_end :: "http_parser_url \<Rightarrow> http_parser_url_fields \<Rightarrow> nat" where
  "field_end u f = unat (off u f) + unat (len u f)"

definition nonempty_before :: "nat \<Rightarrow> http_parser_url \<Rightarrow> bool" where
  "nonempty_before p u \<longleftrightarrow> (\<forall>f \<in> field_set u. 0 < unat (len u f) \<and> field_end u f \<le> p)"

definition apart :: "http_parser_url \<Rightarrow> bool" where
  "apart u \<longleftrightarrow> (\<forall>f \<in> field_set u. \<forall>g \<in> field_set u. f \<noteq> g \<longrightarrow>
     field_end u f \<le> unat (off u g) \<or> field_end u g \<le> unat (off u f))"

lemma unat_16: "n < 2 ^ 16 \<Longrightarrow> unat (of_nat n :: 16 word) = n"
  by (simp add: unsigned_of_nat take_bit_nat_eq_self)

lemma unat_16_Suc: "unat (w :: 16 word) + 1 < 2 ^ 16 \<Longrightarrow> unat (w + 1) = unat w + 1"
  using unat_add_lem [of w 1] by simp

lemma start_field_simps [simp]:
  "field_set (start_field f p n u) = insert f (field_set u)"
  "off (start_field f p n u) = (off u)(f := of_nat p)" "len (start_field f p n u) = (len u)(f := n)"
  by (simp_all add: start_field_def)

lemma more_field_simps [simp]:
  "field_set (more_field f u) = field_set u" "off (more_field f u) = off u"
  "len (more_field f u) = (len u)(f := len u f + 1)"
  by (simp_all add: more_field_def)

text \<open>The fields that may have been seen in a state of the URL automaton, in their order.\<close>

definition seen_fields :: "state \<Rightarrow> http_parser_url_fields set" where
  "seen_fields s =
     (case s of
        s_req_schema \<Rightarrow> {UF_SCHEMA}
      | s_req_schema_slash \<Rightarrow> {UF_SCHEMA}
      | s_req_schema_slash_slash \<Rightarrow> {UF_SCHEMA}
      | s_req_server_start \<Rightarrow> {UF_SCHEMA}
      | s_req_server \<Rightarrow> {UF_SCHEMA, UF_HOST}
      | s_req_server_with_at \<Rightarrow> {UF_SCHEMA, UF_HOST}
      | s_req_path \<Rightarrow> {UF_SCHEMA, UF_HOST, UF_PATH}
      | s_req_query_string_start \<Rightarrow> {UF_SCHEMA, UF_HOST, UF_PATH}
      | s_req_query_string \<Rightarrow> {UF_SCHEMA, UF_HOST, UF_PATH, UF_QUERY}
      | s_req_fragment_start \<Rightarrow> {UF_SCHEMA, UF_HOST, UF_PATH, UF_QUERY}
      | s_req_fragment \<Rightarrow> {UF_SCHEMA, UF_HOST, UF_PATH, UF_QUERY, UF_FRAGMENT}
      | _ \<Rightarrow> {})"

text \<open>A character of a field continues the field of the state or starts one not seen before.\<close>

definition url_step_ok :: "state \<Rightarrow> state \<Rightarrow> bool" where
  "url_step_ok s s' \<longleftrightarrow> seen_fields s \<subseteq> seen_fields s' \<and>
     (case url_field s' of
        Field uf \<Rightarrow> uf \<in> seen_fields s' \<and> uf \<notin> {UF_PORT, UF_USERINFO, UF_MAX} \<and> (url_field s = Field uf \<or> uf \<notin> seen_fields s)
      | _ \<Rightarrow> True)"

lemma url_step: "url_field (parse_url_char s ch) \<noteq> Reject \<Longrightarrow> url_step_ok s (parse_url_char s ch)"
  unfolding parse_url_char_def
  by (cases s; simp add: url_step_ok_def parse_url_server_def url_field_def seen_fields_def split: if_splits)

definition url_inv :: "nat \<Rightarrow> state \<Rightarrow> http_parser_url_fields \<Rightarrow> http_parser_url \<Rightarrow> bool" where
  "url_inv p s old u \<longleftrightarrow> nonempty_before p u \<and> apart u \<and> field_set u \<subseteq> seen_fields s \<and>
     (old = UF_MAX \<or> old \<in> field_set u) \<and>
     (\<forall>f. url_field s = Field f \<longrightarrow> f = old \<and> f \<in> field_set u \<and> field_end u f = p)"

lemma nonempty_later: "nonempty_before p u \<Longrightarrow> p \<le> q \<Longrightarrow> nonempty_before q u"
  by (auto simp: nonempty_before_def)

lemma start_apart:
  assumes "nonempty_before p u" "apart u" "f \<notin> field_set u" "p + 1 < 2 ^ 16"
  shows "nonempty_before (p + 1) (start_field f p 1 u)" "apart (start_field f p 1 u)"
    "field_end (start_field f p 1 u) f = p + 1"
  using assms by (auto simp: nonempty_before_def apart_def field_end_def unat_16)

lemma more_apart:
  assumes "nonempty_before p u" "apart u" "f \<in> field_set u" "field_end u f = p" "p + 1 < 2 ^ 16"
  shows "nonempty_before (p + 1) (more_field f u)" "apart (more_field f u)"
    "field_end (more_field f u) f = p + 1"
proof -
  have l: "unat (len u f + 1) = unat (len u f) + 1"
    using assms(4,5) by (intro unat_16_Suc) (simp add: field_end_def)
  show "nonempty_before (p + 1) (more_field f u)" "field_end (more_field f u) f = p + 1"
    using assms(1,4) l by (auto simp: nonempty_before_def field_end_def)
  have "field_end u g \<le> unat (off u f)" if "g \<in> field_set u" "g \<noteq> f" for g
    using assms(1-4) that unfolding nonempty_before_def apart_def field_end_def by fastforce
  then show "apart (more_field f u)" using assms(2) l
    by (auto simp: apart_def field_end_def)
qed

lemma url_loop_inv:
  assumes "url_loop p s old found u cs = Some (found', u')" "url_inv p s old u" "p + length cs < 2 ^ 16"
  shows "\<exists>s' old'. url_inv (p + length cs) s' old' u'"
  using assms
proof (induction cs arbitrary: p s old found u)
  case (Cons ch cs)
  let ?s = "parse_url_char s ch"
  note inv = Cons.prems(2) [unfolded url_inv_def]
  have "url_field ?s \<noteq> Reject" using Cons.prems(1) by auto
  then have step: "url_step_ok s ?s" by (rule url_step)
  show ?case
  proof (cases "url_field ?s")
    case Skip
    then have "url_inv (p + 1) ?s old u"
      using inv step nonempty_later [of p u "p + 1"] by (auto simp: url_inv_def url_step_ok_def)
    then show ?thesis using Cons.IH [of "p + 1" ?s old found u] Cons.prems(1,3) Skip by simp
  next
    case (Field uf)
    have uf: "uf \<in> seen_fields ?s" "uf \<noteq> UF_MAX" "url_field s = Field uf \<or> uf \<notin> seen_fields s"
      using step Field by (auto simp: url_step_ok_def)
    have p: "p + 1 < 2 ^ 16" using Cons.prems(3) by simp
    show ?thesis
    proof (cases "uf = old")
      case True
      then have "url_field s = Field uf" using uf(2,3) inv by auto
      then have "url_inv (p + 1) ?s old (more_field uf u)"
        using inv step more_apart [of p u uf] p True Field by (auto simp: url_inv_def url_step_ok_def)
      then show ?thesis using Cons.IH [of "p + 1" ?s old _ "more_field uf u"] Cons.prems(1,3) Field True
        by (auto simp: Let_def)
    next
      case False
      then have "uf \<notin> field_set u" using uf(3) inv by auto
      then have "url_inv (p + 1) ?s uf (start_field uf p 1 u)"
        using inv step start_apart [of p u uf] p Field by (auto simp: url_inv_def url_step_ok_def)
      then show ?thesis using Cons.IH [of "p + 1" ?s uf _ "start_field uf p 1 u"] Cons.prems(1,3) Field False
        by (auto simp: Let_def)
    qed
  qed (use Cons.prems(1) in simp)
qed auto

text \<open>The host part from position \<open>h\<close> on, seen before in the record \<open>w\<close>.\<close>

definition host_inv :: "nat \<Rightarrow> http_parser_url \<Rightarrow> nat \<Rightarrow> http_host_state \<Rightarrow> http_parser_url \<Rightarrow> bool" where
  "host_inv h w p s u \<longleftrightarrow> h \<le> p \<and> UF_HOST \<in> field_set u \<and>
     (\<forall>f. f \<notin> {UF_HOST, UF_PORT, UF_USERINFO} \<longrightarrow>
        off u f = off w f \<and> len u f = len w f \<and> (f \<in> field_set u \<longleftrightarrow> f \<in> field_set w)) \<and>
     (if s \<in> {s_http_userinfo_start, s_http_userinfo, s_http_host_start, s_http_host_v6_start}
      then len u UF_HOST = 0
      else 0 < unat (len u UF_HOST) \<and> h \<le> unat (off u UF_HOST) \<and> field_end u UF_HOST \<le> p \<and>
        (UF_USERINFO \<in> field_set u \<longrightarrow> field_end u UF_USERINFO \<le> unat (off u UF_HOST))) \<and>
     (s \<in> {s_http_host, s_http_host_v6, s_http_host_v6_zone_start, s_http_host_v6_zone} \<longrightarrow>
        field_end u UF_HOST = p) \<and>
     (UF_USERINFO \<in> field_set u \<longrightarrow>
        h \<le> unat (off u UF_USERINFO) \<and> 0 < unat (len u UF_USERINFO) \<and> field_end u UF_USERINFO \<le> p) \<and>
     (s = s_http_userinfo \<longrightarrow> UF_USERINFO \<in> field_set u \<and> field_end u UF_USERINFO = p) \<and>
     (s = s_http_userinfo_start \<longrightarrow> UF_USERINFO \<notin> field_set u) \<and>
     (UF_PORT \<in> field_set u \<longleftrightarrow> s = s_http_host_port) \<and>
     (s = s_http_host_port \<longrightarrow> h \<le> unat (off u UF_PORT) \<and> 0 < unat (len u UF_PORT) \<and>
        field_end u UF_PORT = p \<and> field_end u UF_HOST \<le> unat (off u UF_PORT))"

lemma host_step:
  assumes "host_inv h w p s u" "http_parse_host_char s ch \<noteq> s_http_host_dead" "p + 1 < 2 ^ 16"
  shows "host_inv h w (p + 1) (http_parse_host_char s ch) (host_char_seen s (http_parse_host_char s ch) p u)"
proof -
  have w: "unat (x + 1) = unat x + 1" if "unat x \<le> p" for x :: "16 word"
    using that assms(3) by (intro unat_16_Suc) simp
  show ?thesis
    using assms
    by (cases s; simp add: http_parse_host_char_def host_char_seen_def split: if_splits;
      simp add: host_inv_def field_end_def unat_16 w; intro conjI impI; elim conjE; simp)
qed

lemma host_loop_inv:
  assumes "host_loop p s u cs = Some (s', u')" "host_inv h w p s u" "p + length cs < 2 ^ 16"
  shows "host_inv h w (p + length cs) s' u'"
  using assms
proof (induction cs arbitrary: p s u)
  case (Cons ch cs)
  then show ?case
    using host_step [of h w p s u ch] Cons.IH [of "p + 1"] by (auto simp: Let_def split: if_splits)
qed simp

lemma inside_apart:
  assumes "host_inv h w p s u" "s \<notin> {s_http_userinfo_start, s_http_userinfo, s_http_host_start, s_http_host_v6_start}"
    and "f \<in> {UF_HOST, UF_PORT, UF_USERINFO}" "f \<in> field_set u"
  shows "h \<le> unat (off u f)" "0 < unat (len u f)" "field_end u f \<le> p"
    "g \<in> {UF_HOST, UF_PORT, UF_USERINFO} \<Longrightarrow> g \<in> field_set u \<Longrightarrow> f \<noteq> g \<Longrightarrow>
      field_end u f \<le> unat (off u g) \<or> field_end u g \<le> unat (off u f)"
proof -
  have H: "0 < unat (len u UF_HOST)" "h \<le> unat (off u UF_HOST)" "field_end u UF_HOST \<le> p"
    "UF_USERINFO \<in> field_set u \<longrightarrow> field_end u UF_USERINFO \<le> unat (off u UF_HOST)"
    and U: "UF_USERINFO \<in> field_set u \<longrightarrow>
      h \<le> unat (off u UF_USERINFO) \<and> 0 < unat (len u UF_USERINFO) \<and> field_end u UF_USERINFO \<le> p"
    and P: "UF_PORT \<in> field_set u \<longrightarrow> h \<le> unat (off u UF_PORT) \<and> 0 < unat (len u UF_PORT) \<and>
        field_end u UF_PORT = p \<and> field_end u UF_HOST \<le> unat (off u UF_PORT)"
    using assms(1,2) by (simp_all add: host_inv_def)
  have "unat (off u UF_HOST) \<le> field_end u UF_HOST" by (simp add: field_end_def)
  then show "h \<le> unat (off u f)" "0 < unat (len u f)" "field_end u f \<le> p"
    "g \<in> {UF_HOST, UF_PORT, UF_USERINFO} \<Longrightarrow> g \<in> field_set u \<Longrightarrow> f \<noteq> g \<Longrightarrow>
      field_end u f \<le> unat (off u g) \<or> field_end u g \<le> unat (off u f)"
    using assms(3,4) H U P by auto
qed

lemma parse_host_fields:
  assumes "http_parse_host buf w found = Some u" "nonempty_before n w" "apart w" "UF_HOST \<in> field_set w"
    "UF_PORT \<notin> field_set w" "UF_USERINFO \<notin> field_set w" "n \<le> length buf" "n < 2 ^ 16"
  shows "nonempty_before n u" "apart u"
proof -
  let ?h = "unat (off w UF_HOST)" and ?e = "field_end w UF_HOST"
  let ?w = "w\<lparr>len := (len w)(UF_HOST := 0)\<rparr>"
  let ?s = "if found then s_http_userinfo_start else s_http_host_start"
  let ?bad = "{s_http_userinfo_start, s_http_userinfo, s_http_host_start, s_http_host_v6_start}"
  have e: "?h \<le> ?e" "?e \<le> n" using assms(2,4) by (auto simp: nonempty_before_def field_end_def)
  obtain s where s: "host_loop ?h ?s ?w (drop ?h (take ?e buf)) = Some (s, u)" "s \<notin> ?bad"
    using assms(1) by (auto simp: http_parse_host_def field_end_def Let_def split: option.splits if_splits)
  have "host_inv ?h w ?h ?s ?w" using assms(4-6) by (simp add: host_inv_def)
  then have inv: "host_inv ?h w ?e s u"
    using host_loop_inv [OF s(1), of ?h w] e assms(7,8) by simp
  note in_host = inside_apart [OF inv s(2)]
  have out: "off u f = off w f" "len u f = len w f" "f \<in> field_set w" "field_end u f \<le> ?h \<or> ?e \<le> unat (off u f)"
    if "f \<in> field_set u" "f \<notin> {UF_HOST, UF_PORT, UF_USERINFO}" for f
    using inv that assms(3,4) by (auto simp: host_inv_def apart_def field_end_def)
  show "nonempty_before n u" unfolding nonempty_before_def
  proof
    fix f assume f: "f \<in> field_set u"
    show "0 < unat (len u f) \<and> field_end u f \<le> n"
    proof (cases "f \<in> {UF_HOST, UF_PORT, UF_USERINFO}")
      case True
      then show ?thesis using in_host(2,3) [OF True f] e by simp
    next
      case False
      then show ?thesis using out [OF f False] assms(2) by (simp add: nonempty_before_def field_end_def)
    qed
  qed
  show "apart u" unfolding apart_def
  proof (intro ballI impI)
    fix f g assume fg: "f \<in> field_set u" "g \<in> field_set u" "f \<noteq> g"
    let ?H = "{UF_HOST, UF_PORT, UF_USERINFO}"
    show "field_end u f \<le> unat (off u g) \<or> field_end u g \<le> unat (off u f)"
    proof (cases "f \<in> ?H"; cases "g \<in> ?H")
      assume "f \<in> ?H" "g \<in> ?H"
      then show ?thesis using in_host(4) fg by blast
    next
      assume "f \<in> ?H" "g \<notin> ?H"
      then show ?thesis using in_host(1,3) [of f] out(4) [of g] fg by linarith
    next
      assume "f \<notin> ?H" "g \<in> ?H"
      then show ?thesis using in_host(1,3) [of g] out(4) [of f] fg by linarith
    next
      assume "f \<notin> ?H" "g \<notin> ?H"
      then show ?thesis using out(1-3) fg assms(3) by (simp add: apart_def field_end_def)
    qed
  qed
qed

lemma seen_fields_top: "seen_fields s \<inter> {UF_PORT, UF_USERINFO, UF_MAX} = {}"
  by (cases s; simp add: seen_fields_def)

subsection \<open>Properties\<close>

definition no_url :: http_parser_url where
  "no_url = \<lparr>field_set = {}, port = 0, off = (\<lambda>_. 0), len = (\<lambda>_. 0)\<rparr>"

lemma url_example: "http_parser_parse_url ''http://me@h/p?q#f'' 17 False no_url \<noteq> None"
  by code_simp

text \<open>
  C29: The fields of a parsed URL lie in its text: every field that is set is non-empty and ends
  within the buffer, and no two of them overlap, the user, host and port within the authority
  included.  The buffer has to be shorter than 65536 characters, the range of the 16-bit offsets.
\<close>

theorem url_fields_lie_in_text:
  assumes "http_parser_parse_url buf buflen is_connect u0 = Some u" "buflen \<le> length buf" "buflen < 2 ^ 16"
  shows "(\<forall>f \<in> field_set u. 0 < unat (len u f) \<and> unat (off u f) + unat (len u f) \<le> buflen) \<and>
    (\<forall>f \<in> field_set u. \<forall>g \<in> field_set u. f \<noteq> g \<longrightarrow>
       unat (off u f) + unat (len u f) \<le> unat (off u g) \<or> unat (off u g) + unat (len u g) \<le> unat (off u f))"
proof -
  let ?u = "u0\<lparr>port := 0, field_set := {}\<rparr>"
  let ?s = "if is_connect then s_req_server_start else s_req_spaces_before_url"
  obtain found w where w: "url_loop 0 ?s UF_MAX False ?u (take buflen buf) = Some (found, w)"
    using assms(1) by (auto simp: http_parser_parse_url_def Let_def split: option.splits)
  have "url_inv 0 ?s UF_MAX ?u"
    by (simp add: url_inv_def nonempty_before_def apart_def url_field_def)
  then obtain s old where inv: "url_inv buflen s old w"
    using url_loop_inv [OF w] assms(2,3) by auto
  then have p: "nonempty_before buflen w" "apart w" "UF_PORT \<notin> field_set w" "UF_USERINFO \<notin> field_set w"
    using seen_fields_top [of s] by (auto simp: url_inv_def)
  let ?r = "if UF_HOST \<in> field_set w then http_parse_host buf w found else Some w"
  obtain v where v: "?r = Some v"
    using assms(1) w by (cases ?r) (simp_all add: http_parser_parse_url_def Let_def split: if_splits)
  then have "u = v \<or> (\<exists>x. u = v\<lparr>port := x\<rparr>)"
    using assms(1) w by (simp add: http_parser_parse_url_def Let_def split: if_splits) blast+
  then have same: "field_set u = field_set v" "off u = off v" "len u = len v" by auto
  have "nonempty_before buflen v" "apart v"
    using parse_host_fields [of buf w found v buflen] p assms(2,3) v by (simp_all split: if_splits)
  then show ?thesis using same by (auto simp: nonempty_before_def apart_def field_end_def)
qed

theorem url_fields_lie_in_text_witness:
  "\<exists>u. http_parser_parse_url ''http://me@h/p?q#f'' 17 False no_url = Some u \<and>
    (\<forall>f \<in> field_set u. 0 < unat (len u f) \<and> unat (off u f) + unat (len u f) \<le> 17) \<and>
    (\<forall>f \<in> field_set u. \<forall>g \<in> field_set u. f \<noteq> g \<longrightarrow>
       unat (off u f) + unat (len u f) \<le> unat (off u g) \<or> unat (off u g) + unat (len u g) \<le> unat (off u f))"
proof -
  obtain u where u: "http_parser_parse_url ''http://me@h/p?q#f'' 17 False no_url = Some u"
    using url_example by auto
  then show ?thesis using url_fields_lie_in_text [OF u] by simp
qed

subsection \<open>Texts that are too long\<close>

lemma path_loop:
  "url_loop p s_req_path UF_PATH found u (replicate k CHR ''/'') =
   Some (found, u\<lparr>len := (len u)(UF_PATH := len u UF_PATH + of_nat k)\<rparr>)"
proof (induction k arbitrary: p u)
  case (Suc k)
  have "parse_url_char s_req_path CHR ''/'' = s_req_path"
    by (simp add: parse_url_char_def IS_URL_CHAR_def normal_url_char_def ord_def)
  then show ?case using Suc
    by (cases u) (simp add: url_field_def more_field_def Let_def add.assoc fun_eq_iff)
qed simp

lemma path_length:
  assumes "0 < n"
  shows "\<exists>u. http_parser_parse_url (replicate n CHR ''/'') n False no_url = Some u \<and>
    UF_PATH \<in> field_set u \<and> len u UF_PATH = of_nat n"
proof -
  obtain k where k: "n = Suc k" using assms by (cases n) auto
  have "parse_url_char s_req_spaces_before_url CHR ''/'' = s_req_path"
    by (simp add: parse_url_char_def)
  then show ?thesis
    by (simp add: k http_parser_parse_url_def no_url_def url_field_def path_loop Let_def)
qed

text \<open>A path of 65536 characters counts as set and is reported with length zero.\<close>

lemma long_path_has_no_length:
  "\<exists>u. http_parser_parse_url (replicate 65536 CHR ''/'') 65536 False no_url = Some u \<and>
    UF_PATH \<in> field_set u \<and> len u UF_PATH = 0"
proof -
  have "(of_nat 65536 :: 16 word) = 0" by (simp only: word_of_nat_eq_0_iff) simp
  then show ?thesis using path_length [of 65536] by (simp only:)
qed

end
