(* ===== verification/Http_Parser.thy ===== *)
theory Http_Parser
  imports Http_Url
begin

text \<open>
  The message parser of \<open>httpclient/src/http_parser.c\<close>: the structures, the macros that call back
  and that end the call, and the branches of the switch in \<open>http_parser_execute\<close>, one definition for
  every few of them.

  The bit mask of flags is the set of its bits.  A callback is a function of the parser that gives
  its result and the parser as it left it; data callbacks also get the bytes they are handed.
  The local variables of the call, which is what \<open>p_state\<close> and the marks are, form the record
  \<open>run\<close>; positions are offsets into the text of the call.  A branch ends in one of four ways:
  \<open>Continue\<close> goes on to the next character, \<open>Again\<close> is the jump to \<open>reexecute\<close>, \<open>Return\<close> ends the
  call, and \<open>Abort\<close> is a failed assertion or a read outside the text.  \<open>Spin\<close> marks fuel that ran
  out.
\<close>

subsection \<open>Structures\<close>

datatype (plugins only: code) http_method =
    HTTP_DELETE | HTTP_GET | HTTP_HEAD | HTTP_POST | HTTP_PUT | HTTP_CONNECT | HTTP_OPTIONS | HTTP_TRACE
  | HTTP_COPY | HTTP_LOCK | HTTP_MKCOL | HTTP_MOVE | HTTP_PROPFIND | HTTP_PROPPATCH | HTTP_SEARCH
  | HTTP_UNLOCK | HTTP_BIND | HTTP_REBIND | HTTP_UNBIND | HTTP_ACL | HTTP_REPORT | HTTP_MKACTIVITY
  | HTTP_CHECKOUT | HTTP_MERGE | HTTP_MSEARCH | HTTP_NOTIFY | HTTP_SUBSCRIBE | HTTP_UNSUBSCRIBE
  | HTTP_PATCH | HTTP_PURGE | HTTP_MKCALENDAR

datatype (plugins only: code) http_errno =
    HPE_OK | HPE_CB_message_begin | HPE_CB_url | HPE_CB_header_field | HPE_CB_header_value
  | HPE_CB_headers_complete | HPE_CB_body | HPE_CB_message_complete | HPE_CB_status | HPE_CB_chunk_header
  | HPE_CB_chunk_complete | HPE_INVALID_EOF_STATE | HPE_HEADER_OVERFLOW | HPE_CLOSED_CONNECTION
  | HPE_INVALID_VERSION | HPE_INVALID_STATUS | HPE_INVALID_METHOD | HPE_INVALID_URL | HPE_INVALID_HOST
  | HPE_INVALID_PORT | HPE_INVALID_PATH | HPE_INVALID_QUERY_STRING | HPE_INVALID_FRAGMENT
  | HPE_LF_EXPECTED | HPE_INVALID_HEADER_TOKEN | HPE_INVALID_CONTENT_LENGTH | HPE_INVALID_CHUNK_SIZE
  | HPE_INVALID_CONSTANT | HPE_INVALID_INTERNAL_STATE | HPE_STRICT | HPE_PAUSED | HPE_UNKNOWN

datatype http_parser_type = HTTP_REQUEST | HTTP_RESPONSE | HTTP_BOTH

datatype http_flag =
  F_CHUNKED | F_CONNECTION_KEEP_ALIVE | F_CONNECTION_CLOSE | F_CONNECTION_UPGRADE | F_TRAILING | F_UPGRADE
  | F_SKIPBODY

datatype (plugins only: code) header_states =
    h_general | h_C | h_CO | h_CON | h_matching_connection | h_matching_proxy_connection
  | h_matching_content_length | h_matching_transfer_encoding | h_matching_upgrade | h_connection
  | h_content_length | h_transfer_encoding | h_upgrade | h_matching_transfer_encoding_chunked
  | h_matching_connection_token_start | h_matching_connection_keep_alive | h_matching_connection_close
  | h_matching_connection_upgrade | h_matching_connection_token | h_transfer_encoding_chunked
  | h_connection_keep_alive | h_connection_close | h_connection_upgrade

record 'u http_parser =
  parser_type :: http_parser_type
  flags :: "http_flag set"
  state :: state
  header_state :: header_states
  index :: nat
  nread :: "32 word"
  content_length :: "64 word"
  http_major :: nat
  http_minor :: nat
  status_code :: nat
  http_method :: http_method
  http_errno :: http_errno
  upgrade :: bool
  data :: 'u

type_synonym 'u http_cb = "'u http_parser \<Rightarrow> int \<times> 'u http_parser"
type_synonym 'u http_data_cb = "'u http_parser \<Rightarrow> string \<Rightarrow> int \<times> 'u http_parser"

record 'u http_parser_settings =
  on_message_begin :: "'u http_cb option"
  on_url :: "'u http_data_cb option"
  on_status :: "'u http_data_cb option"
  on_header_field :: "'u http_data_cb option"
  on_header_value :: "'u http_data_cb option"
  on_headers_complete :: "'u http_cb option"
  on_body :: "'u http_data_cb option"
  on_message_complete :: "'u http_cb option"
  on_chunk_header :: "'u http_cb option"
  on_chunk_complete :: "'u http_cb option"

datatype mark = Header_Field | Header_Value | Url | Body | Status

record 'u run =
  parser :: "'u http_parser"
  p_state :: state
  marks :: "mark \<Rightarrow> nat option"

datatype 'u outcome = Continue nat "'u run" | Again nat char "'u run" | Return nat "'u http_parser" | Abort | Spin

definition ULLONG_MAX :: "64 word" where "ULLONG_MAX = -1"
definition HTTP_MAX_HEADER_SIZE :: nat where "HTTP_MAX_HEADER_SIZE = 80 * 1024"

subsection \<open>Tables\<close>

definition tokens :: "char \<Rightarrow> char" where
  "tokens c =
     (if c \<in> set ''!#$%&*+-.0123456789^_abcdefghijklmnopqrstuvwxyz|~'' \<or> c = CHR 0x27 \<or> c = CHR 0x60 then c
      else if ord CHR ''A'' \<le> ord c \<and> ord c \<le> ord CHR ''Z'' then chr (ord c + 32)
      else NUL)"

text \<open>The table spells out 128 of its 256 entries; the C language makes the others zero.\<close>

definition unhex :: "char \<Rightarrow> int" where
  "unhex c =
     (if IS_NUM c then int (ord c) - int (ord CHR ''0'')
      else if ord CHR ''A'' \<le> ord c \<and> ord c \<le> ord CHR ''F'' then int (ord c) - int (ord CHR ''A'') + 10
      else if ord CHR ''a'' \<le> ord c \<and> ord c \<le> ord CHR ''f'' then int (ord c) - int (ord CHR ''a'') + 10
      else if ord c < 128 then -1
      else 0)"

definition method_strings :: "http_method \<Rightarrow> string" where
  "method_strings m =
     (case m of
        HTTP_DELETE \<Rightarrow> ''DELETE'' | HTTP_GET \<Rightarrow> ''GET'' | HTTP_HEAD \<Rightarrow> ''HEAD'' | HTTP_POST \<Rightarrow> ''POST''
      | HTTP_PUT \<Rightarrow> ''PUT'' | HTTP_CONNECT \<Rightarrow> ''CONNECT'' | HTTP_OPTIONS \<Rightarrow> ''OPTIONS'' | HTTP_TRACE \<Rightarrow> ''TRACE''
      | HTTP_COPY \<Rightarrow> ''COPY'' | HTTP_LOCK \<Rightarrow> ''LOCK'' | HTTP_MKCOL \<Rightarrow> ''MKCOL'' | HTTP_MOVE \<Rightarrow> ''MOVE''
      | HTTP_PROPFIND \<Rightarrow> ''PROPFIND'' | HTTP_PROPPATCH \<Rightarrow> ''PROPPATCH'' | HTTP_SEARCH \<Rightarrow> ''SEARCH''
      | HTTP_UNLOCK \<Rightarrow> ''UNLOCK'' | HTTP_BIND \<Rightarrow> ''BIND'' | HTTP_REBIND \<Rightarrow> ''REBIND'' | HTTP_UNBIND \<Rightarrow> ''UNBIND''
      | HTTP_ACL \<Rightarrow> ''ACL'' | HTTP_REPORT \<Rightarrow> ''REPORT'' | HTTP_MKACTIVITY \<Rightarrow> ''MKACTIVITY''
      | HTTP_CHECKOUT \<Rightarrow> ''CHECKOUT'' | HTTP_MERGE \<Rightarrow> ''MERGE'' | HTTP_MSEARCH \<Rightarrow> ''M-SEARCH''
      | HTTP_NOTIFY \<Rightarrow> ''NOTIFY'' | HTTP_SUBSCRIBE \<Rightarrow> ''SUBSCRIBE'' | HTTP_UNSUBSCRIBE \<Rightarrow> ''UNSUBSCRIBE''
      | HTTP_PATCH \<Rightarrow> ''PATCH'' | HTTP_PURGE \<Rightarrow> ''PURGE'' | HTTP_MKCALENDAR \<Rightarrow> ''MKCALENDAR'')"

text \<open>A C string constant read at an index: the terminator is there, nothing behind it is.\<close>

definition string_at :: "string \<Rightarrow> nat \<Rightarrow> char option" where
  "string_at s i = (if i < length s then Some (s ! i) else if i = length s then Some NUL else None)"

definition bump_index :: "'u http_parser \<Rightarrow> 'u http_parser" where
  "bump_index P = P\<lparr>index := (index P + 1) mod 256\<rparr>"

definition PARSING_HEADER :: "state \<Rightarrow> bool" where
  "PARSING_HEADER s \<longleftrightarrow> s \<notin> {s_chunk_data, s_chunk_data_almost_done, s_chunk_data_done, s_body_identity,
     s_body_identity_eof, s_message_done}"

subsection \<open>Queries and initialisation\<close>

definition http_message_needs_eof :: "'u http_parser \<Rightarrow> bool" where
  "http_message_needs_eof P =
     (if parser_type P = HTTP_REQUEST then False
      else if status_code P div 100 = 1 \<or> status_code P = 204 \<or> status_code P = 304 \<or> F_SKIPBODY \<in> flags P
      then False
      else if F_CHUNKED \<in> flags P \<or> content_length P \<noteq> ULLONG_MAX then False
      else True)"

definition http_should_keep_alive :: "'u http_parser \<Rightarrow> bool" where
  "http_should_keep_alive P =
     (if http_major P > 0 \<and> http_minor P > 0 then
        if F_CONNECTION_CLOSE \<in> flags P then False else \<not> http_message_needs_eof P
      else if F_CONNECTION_KEEP_ALIVE \<notin> flags P then False else \<not> http_message_needs_eof P)"

definition http_method_str :: "http_method \<Rightarrow> string" where
  "http_method_str m = method_strings m"

definition http_parser_init :: "'u http_parser \<Rightarrow> http_parser_type \<Rightarrow> 'u http_parser" where
  "http_parser_init P t =
     \<lparr>parser_type = t, flags = {},
      state = (if t = HTTP_REQUEST then s_start_req else if t = HTTP_RESPONSE then s_start_res
               else s_start_req_or_res),
      header_state = h_general, index = 0, nread = 0, content_length = 0, http_major = 0, http_minor = 0,
      status_code = 0, http_method = HTTP_DELETE, http_errno = HPE_OK, upgrade = False, data = data P\<rparr>"

definition http_parser_settings_init :: "'u http_parser_settings" where
  "http_parser_settings_init =
     \<lparr>on_message_begin = None, on_url = None, on_status = None, on_header_field = None, on_header_value = None,
      on_headers_complete = None, on_body = None, on_message_complete = None, on_chunk_header = None,
      on_chunk_complete = None\<rparr>"

text \<open>No result: the assertion against pausing a parser in an error state.\<close>

definition http_parser_pause :: "'u http_parser \<Rightarrow> bool \<Rightarrow> 'u http_parser option" where
  "http_parser_pause P paused =
     (if http_errno P = HPE_OK \<or> http_errno P = HPE_PAUSED
      then Some (P\<lparr>http_errno := (if paused then HPE_PAUSED else HPE_OK)\<rparr>) else None)"

definition http_body_is_final :: "'u http_parser \<Rightarrow> bool" where
  "http_body_is_final P \<longleftrightarrow> state P = s_message_done"

definition start_state :: "'u http_parser \<Rightarrow> state" where
  "start_state P = (if parser_type P = HTTP_REQUEST then s_start_req else s_start_res)"

definition NEW_MESSAGE :: "'u run \<Rightarrow> state" where
  "NEW_MESSAGE r = (if http_should_keep_alive (parser r) then start_state (parser r) else s_dead)"

subsection \<open>Ends of a branch\<close>

definition RETURN :: "nat \<Rightarrow> 'u run \<Rightarrow> 'u outcome" where
  "RETURN n r = Return n ((parser r)\<lparr>state := p_state r\<rparr>)"

definition SET_ERRNO :: "http_errno \<Rightarrow> 'u run \<Rightarrow> 'u run" where
  "SET_ERRNO e r = r\<lparr>parser := (parser r)\<lparr>http_errno := e\<rparr>\<rparr>"

definition goto_error :: "nat \<Rightarrow> 'u run \<Rightarrow> 'u outcome" where
  "goto_error p r = RETURN p (if http_errno (parser r) = HPE_OK then SET_ERRNO HPE_UNKNOWN r else r)"

definition fail :: "http_errno \<Rightarrow> nat \<Rightarrow> 'u run \<Rightarrow> 'u outcome" where
  "fail e p r = goto_error p (SET_ERRNO e r)"

definition STRICT_CHECK :: "bool \<Rightarrow> nat \<Rightarrow> 'u run \<Rightarrow> 'u outcome \<Rightarrow> 'u outcome" where
  "STRICT_CHECK cond p r k = (if cond then fail HPE_STRICT p r else k)"

definition COUNT_HEADER_SIZE :: "nat \<Rightarrow> nat \<Rightarrow> 'u run \<Rightarrow> ('u run \<Rightarrow> 'u outcome) \<Rightarrow> 'u outcome" where
  "COUNT_HEADER_SIZE v p r k =
     (let r = r\<lparr>parser := (parser r)\<lparr>nread := nread (parser r) + of_nat v\<rparr>\<rparr>
      in if nread (parser r) > of_nat HTTP_MAX_HEADER_SIZE then fail HPE_HEADER_OVERFLOW p r else k r)"

definition CALLBACK_NOTIFY ::
    "'u http_cb option \<Rightarrow> http_errno \<Rightarrow> nat \<Rightarrow> 'u run \<Rightarrow> ('u run \<Rightarrow> 'u outcome) \<Rightarrow> 'u outcome" where
  "CALLBACK_NOTIFY cb e er r k =
     (if http_errno (parser r) \<noteq> HPE_OK then Abort
      else case cb of
        None \<Rightarrow> k r
      | Some f \<Rightarrow>
          let (res, P) = f ((parser r)\<lparr>state := p_state r\<rparr>);
              P = (if res \<noteq> 0 then P\<lparr>http_errno := e\<rparr> else P)
          in if http_errno P \<noteq> HPE_OK then Return er P else k (r\<lparr>parser := P, p_state := state P\<rparr>))"

definition data_callback :: "'u http_parser_settings \<Rightarrow> mark \<Rightarrow> 'u http_data_cb option" where
  "data_callback S m =
     (case m of Header_Field \<Rightarrow> on_header_field S | Header_Value \<Rightarrow> on_header_value S | Url \<Rightarrow> on_url S
      | Body \<Rightarrow> on_body S | Status \<Rightarrow> on_status S)"

definition data_errno :: "mark \<Rightarrow> http_errno" where
  "data_errno m =
     (case m of Header_Field \<Rightarrow> HPE_CB_header_field | Header_Value \<Rightarrow> HPE_CB_header_value | Url \<Rightarrow> HPE_CB_url
      | Body \<Rightarrow> HPE_CB_body | Status \<Rightarrow> HPE_CB_status)"

text \<open>The bytes from the mark up to the position \<open>stop\<close> are handed over.\<close>

definition CALLBACK_DATA ::
    "'u http_parser_settings \<Rightarrow> string \<Rightarrow> mark \<Rightarrow> nat \<Rightarrow> nat \<Rightarrow> 'u run \<Rightarrow> ('u run \<Rightarrow> 'u outcome) \<Rightarrow> 'u outcome" where
  "CALLBACK_DATA S text m stop er r k =
     (if http_errno (parser r) \<noteq> HPE_OK then Abort
      else case marks r m of
        None \<Rightarrow> k r
      | Some at \<Rightarrow>
          (case data_callback S m of
             None \<Rightarrow> k (r\<lparr>marks := (marks r)(m := None)\<rparr>)
           | Some f \<Rightarrow>
               let (res, P) = f ((parser r)\<lparr>state := p_state r\<rparr>) (take (stop - at) (drop at text));
                   P = (if res \<noteq> 0 then P\<lparr>http_errno := data_errno m\<rparr> else P)
               in if http_errno P \<noteq> HPE_OK then Return er P
                  else k (r\<lparr>parser := P, p_state := state P, marks := (marks r)(m := None)\<rparr>)))"

definition MARK :: "mark \<Rightarrow> nat \<Rightarrow> 'u run \<Rightarrow> 'u run" where
  "MARK m p r = (if marks r m = None then r\<lparr>marks := (marks r)(m := Some p)\<rparr> else r)"

text \<open>The updates of the parser that the branches make.\<close>

abbreviation set_parser :: "('u http_parser \<Rightarrow> 'u http_parser) \<Rightarrow> 'u run \<Rightarrow> 'u run" where
  "set_parser f r \<equiv> r\<lparr>parser := f (parser r)\<rparr>"

abbreviation goto :: "state \<Rightarrow> 'u run \<Rightarrow> 'u run" where
  "goto s r \<equiv> r\<lparr>p_state := s\<rparr>"

definition digit :: "char \<Rightarrow> nat" where
  "digit ch = ord ch - ord CHR ''0''"

end
