(* ===== verification/Http_Execute.thy ===== *)
theory Http_Execute
  imports Http_Parser
begin

text \<open>
  \<open>http_parser_execute\<close> of \<open>httpclient/src/http_parser.c\<close>: one definition for each few branches of its
  switch, the two inner loops over header names and values, the jump to \<open>reexecute\<close> and the loop
  over the text.
\<close>

subsection \<open>Start of a message\<close>

definition exec_start ::
    "'u http_parser_settings \<Rightarrow> string \<Rightarrow> nat \<Rightarrow> char \<Rightarrow> 'u run \<Rightarrow> 'u outcome" where
  "exec_start S text p ch r =
     (case p_state r of
        s_dead \<Rightarrow>
          if ch = CR \<or> ch = LF then Continue p r else fail HPE_CLOSED_CONNECTION p r
      | s_start_req_or_res \<Rightarrow>
          if ch = CR \<or> ch = LF then Continue p r
          else let r = set_parser (\<lambda>P. P\<lparr>flags := {}, content_length := ULLONG_MAX\<rparr>) r
            in if ch = CHR ''H''
               then CALLBACK_NOTIFY (on_message_begin S) HPE_CB_message_begin (p + 1) (goto s_res_or_resp_H r)
                      (Continue p)
               else Again p ch (goto s_start_req (set_parser (\<lambda>P. P\<lparr>parser_type := HTTP_REQUEST\<rparr>) r))
      | s_res_or_resp_H \<Rightarrow>
          if ch = CHR ''T''
          then Continue p (goto s_res_HT (set_parser (\<lambda>P. P\<lparr>parser_type := HTTP_RESPONSE\<rparr>) r))
          else if ch \<noteq> CHR ''E'' then fail HPE_INVALID_CONSTANT p r
          else Continue p (goto s_req_method (set_parser
                 (\<lambda>P. P\<lparr>parser_type := HTTP_REQUEST, http_method := HTTP_HEAD, index := 2\<rparr>) r))
      | s_start_res \<Rightarrow>
          (let r = set_parser (\<lambda>P. P\<lparr>flags := {}, content_length := ULLONG_MAX\<rparr>) r
           in if ch = CHR ''H''
              then CALLBACK_NOTIFY (on_message_begin S) HPE_CB_message_begin (p + 1) (goto s_res_H r) (Continue p)
              else if ch = CR \<or> ch = LF
              then CALLBACK_NOTIFY (on_message_begin S) HPE_CB_message_begin (p + 1) r (Continue p)
              else fail HPE_INVALID_CONSTANT p r)
      | s_res_H \<Rightarrow> STRICT_CHECK (ch \<noteq> CHR ''T'') p r (Continue p (goto s_res_HT r))
      | s_res_HT \<Rightarrow> STRICT_CHECK (ch \<noteq> CHR ''T'') p r (Continue p (goto s_res_HTT r))
      | s_res_HTT \<Rightarrow> STRICT_CHECK (ch \<noteq> CHR ''P'') p r (Continue p (goto s_res_HTTP r))
      | s_res_HTTP \<Rightarrow> STRICT_CHECK (ch \<noteq> CHR ''/'') p r (Continue p (goto s_res_first_http_major r))
      | _ \<Rightarrow> Abort)"

subsection \<open>The status line\<close>

definition exec_status_line ::
    "'u http_parser_settings \<Rightarrow> string \<Rightarrow> nat \<Rightarrow> char \<Rightarrow> 'u run \<Rightarrow> 'u outcome" where
  "exec_status_line S text p ch r =
     (case p_state r of
        s_res_first_http_major \<Rightarrow>
          if \<not> IS_NUM ch then fail HPE_INVALID_VERSION p r
          else Continue p (goto s_res_http_major (set_parser (\<lambda>P. P\<lparr>http_major := digit ch\<rparr>) r))
      | s_res_http_major \<Rightarrow>
          if ch = CHR ''.'' then Continue p (goto s_res_first_http_minor r)
          else if \<not> IS_NUM ch then fail HPE_INVALID_VERSION p r
          else let r = set_parser (\<lambda>P. P\<lparr>http_major := http_major P * 10 + digit ch\<rparr>) r
            in if http_major (parser r) > 999 then fail HPE_INVALID_VERSION p r else Continue p r
      | s_res_first_http_minor \<Rightarrow>
          if \<not> IS_NUM ch then fail HPE_INVALID_VERSION p r
          else Continue p (goto s_res_http_minor (set_parser (\<lambda>P. P\<lparr>http_minor := digit ch\<rparr>) r))
      | s_res_http_minor \<Rightarrow>
          if ch = CHR '' '' then Continue p (goto s_res_first_status_code r)
          else if \<not> IS_NUM ch then fail HPE_INVALID_VERSION p r
          else let r = set_parser (\<lambda>P. P\<lparr>http_minor := http_minor P * 10 + digit ch\<rparr>) r
            in if http_minor (parser r) > 999 then fail HPE_INVALID_VERSION p r else Continue p r
      | s_res_first_status_code \<Rightarrow>
          if \<not> IS_NUM ch then if ch = CHR '' '' then Continue p r else fail HPE_INVALID_STATUS p r
          else Continue p (goto s_res_status_code (set_parser (\<lambda>P. P\<lparr>status_code := digit ch\<rparr>) r))
      | s_res_status_code \<Rightarrow>
          if \<not> IS_NUM ch then
            if ch = CHR '' '' then Continue p (goto s_res_status_start r)
            else if ch = CR then Continue p (goto s_res_line_almost_done r)
            else if ch = LF then Continue p (goto s_header_field_start r)
            else fail HPE_INVALID_STATUS p r
          else let r = set_parser (\<lambda>P. P\<lparr>status_code := status_code P * 10 + digit ch\<rparr>) r
            in if status_code (parser r) > 999 then fail HPE_INVALID_STATUS p r else Continue p r
      | s_res_status_start \<Rightarrow>
          if ch = CR then Continue p (goto s_res_line_almost_done r)
          else if ch = LF then Continue p (goto s_header_field_start r)
          else Continue p (set_parser (\<lambda>P. P\<lparr>index := 0\<rparr>) (goto s_res_status (MARK Status p r)))
      | s_res_status \<Rightarrow>
          if ch = CR then CALLBACK_DATA S text Status p (p + 1) (goto s_res_line_almost_done r) (Continue p)
          else if ch = LF then CALLBACK_DATA S text Status p (p + 1) (goto s_header_field_start r) (Continue p)
          else Continue p r
      | s_res_line_almost_done \<Rightarrow> STRICT_CHECK (ch \<noteq> LF) p r (Continue p (goto s_header_field_start r))
      | _ \<Rightarrow> Abort)"

subsection \<open>The method of a request\<close>

definition first_method :: "char \<Rightarrow> http_method option" where
  "first_method ch =
     (if ch = CHR ''A'' then Some HTTP_ACL
      else if ch = CHR ''B'' then Some HTTP_BIND
      else if ch = CHR ''C'' then Some HTTP_CONNECT
      else if ch = CHR ''D'' then Some HTTP_DELETE
      else if ch = CHR ''G'' then Some HTTP_GET
      else if ch = CHR ''H'' then Some HTTP_HEAD
      else if ch = CHR ''L'' then Some HTTP_LOCK
      else if ch = CHR ''M'' then Some HTTP_MKCOL
      else if ch = CHR ''N'' then Some HTTP_NOTIFY
      else if ch = CHR ''O'' then Some HTTP_OPTIONS
      else if ch = CHR ''P'' then Some HTTP_POST
      else if ch = CHR ''R'' then Some HTTP_REPORT
      else if ch = CHR ''S'' then Some HTTP_SUBSCRIBE
      else if ch = CHR ''T'' then Some HTTP_TRACE
      else if ch = CHR ''U'' then Some HTTP_UNLOCK
      else None)"

definition exec_start_req ::
    "'u http_parser_settings \<Rightarrow> string \<Rightarrow> nat \<Rightarrow> char \<Rightarrow> 'u run \<Rightarrow> 'u outcome" where
  "exec_start_req S text p ch r =
     (if ch = CR \<or> ch = LF then Continue p r
      else let r = set_parser (\<lambda>P. P\<lparr>flags := {}, content_length := ULLONG_MAX\<rparr>) r
        in if \<not> IS_ALPHA ch then fail HPE_INVALID_METHOD p r
           else let r = set_parser (\<lambda>P. P\<lparr>http_method := HTTP_DELETE, index := 1\<rparr>) r
             in case first_method ch of
                  None \<Rightarrow> fail HPE_INVALID_METHOD p r
                | Some m \<Rightarrow>
                    CALLBACK_NOTIFY (on_message_begin S) HPE_CB_message_begin (p + 1)
                      (goto s_req_method (set_parser (\<lambda>P. P\<lparr>http_method := m\<rparr>) r)) (Continue p))"

text \<open>Which method a character that differs from the expected one turns the method into.\<close>

definition switch_method :: "http_method \<Rightarrow> nat \<Rightarrow> char \<Rightarrow> http_method option" where
  "switch_method m i ch =
     (if m = HTTP_CONNECT then
        if i = 1 \<and> ch = CHR ''H'' then Some HTTP_CHECKOUT
        else if i = 2 \<and> ch = CHR ''P'' then Some HTTP_COPY
        else None
      else if m = HTTP_MKCOL then
        if i = 1 \<and> ch = CHR ''O'' then Some HTTP_MOVE
        else if i = 1 \<and> ch = CHR ''E'' then Some HTTP_MERGE
        else if i = 1 \<and> ch = CHR ''-'' then Some HTTP_MSEARCH
        else if i = 2 \<and> ch = CHR ''A'' then Some HTTP_MKACTIVITY
        else if i = 3 \<and> ch = CHR ''A'' then Some HTTP_MKCALENDAR
        else None
      else if m = HTTP_SUBSCRIBE then
        if i = 1 \<and> ch = CHR ''E'' then Some HTTP_SEARCH else None
      else if m = HTTP_REPORT then
        if i = 2 \<and> ch = CHR ''B'' then Some HTTP_REBIND else None
      else if i = 1 \<and> m = HTTP_POST then
        if ch = CHR ''R'' then Some HTTP_PROPFIND
        else if ch = CHR ''U'' then Some HTTP_PUT
        else if ch = CHR ''A'' then Some HTTP_PATCH
        else None
      else if i = 2 then
        if m = HTTP_PUT then if ch = CHR ''R'' then Some HTTP_PURGE else None
        else if m = HTTP_UNLOCK then
          if ch = CHR ''S'' then Some HTTP_UNSUBSCRIBE
          else if ch = CHR ''B'' then Some HTTP_UNBIND
          else None
        else None
      else if i = 4 \<and> m = HTTP_PROPFIND \<and> ch = CHR ''P'' then Some HTTP_PROPPATCH
      else None)"

definition exec_req_method :: "nat \<Rightarrow> char \<Rightarrow> 'u run \<Rightarrow> 'u outcome" where
  "exec_req_method p ch r =
     (if ch = NUL then fail HPE_INVALID_METHOD p r
      else let m = http_method (parser r); i = index (parser r)
        in case string_at (method_strings m) i of
          None \<Rightarrow> Abort
        | Some expected \<Rightarrow>
            if ch = CHR '' '' \<and> expected = NUL
            then Continue p (set_parser bump_index (goto s_req_spaces_before_url r))
            else if ch = expected then Continue p (set_parser bump_index r)
            else (case switch_method m i ch of
                None \<Rightarrow> fail HPE_INVALID_METHOD p r
              | Some m' \<Rightarrow> Continue p (set_parser bump_index (set_parser (\<lambda>P. P\<lparr>http_method := m'\<rparr>) r))))"

subsection \<open>The URL of a request\<close>

definition next_url_state :: "nat \<Rightarrow> char \<Rightarrow> 'u run \<Rightarrow> 'u outcome" where
  "next_url_state p ch r =
     (let r = goto (parse_url_char (p_state r) ch) r
      in if p_state r = s_dead then fail HPE_INVALID_URL p r else Continue p r)"

definition exec_url ::
    "'u http_parser_settings \<Rightarrow> string \<Rightarrow> nat \<Rightarrow> char \<Rightarrow> 'u run \<Rightarrow> 'u outcome" where
  "exec_url S text p ch r =
     (if p_state r = s_req_spaces_before_url then
        if ch = CHR '' '' then Continue p r
        else let r = MARK Url p r
          in next_url_state p ch (if http_method (parser r) = HTTP_CONNECT then goto s_req_server_start r else r)
      else if p_state r \<in> {s_req_schema, s_req_schema_slash, s_req_schema_slash_slash, s_req_server_start} then
        if ch = CHR '' '' \<or> ch = CR \<or> ch = LF then fail HPE_INVALID_URL p r
        else next_url_state p ch r
      else
        if ch = CHR '' '' then CALLBACK_DATA S text Url p (p + 1) (goto s_req_http_start r) (Continue p)
        else if ch = CR \<or> ch = LF then
          CALLBACK_DATA S text Url p (p + 1)
            (goto (if ch = CR then s_req_line_almost_done else s_header_field_start)
              (set_parser (\<lambda>P. P\<lparr>http_major := 0, http_minor := 9\<rparr>) r)) (Continue p)
        else next_url_state p ch r)"

subsection \<open>The version of a request\<close>

definition exec_req_version :: "nat \<Rightarrow> char \<Rightarrow> 'u run \<Rightarrow> 'u outcome" where
  "exec_req_version p ch r =
     (case p_state r of
        s_req_http_start \<Rightarrow>
          if ch = CHR ''H'' then Continue p (goto s_req_http_H r)
          else if ch = CHR '' '' then Continue p r
          else fail HPE_INVALID_CONSTANT p r
      | s_req_http_H \<Rightarrow> STRICT_CHECK (ch \<noteq> CHR ''T'') p r (Continue p (goto s_req_http_HT r))
      | s_req_http_HT \<Rightarrow> STRICT_CHECK (ch \<noteq> CHR ''T'') p r (Continue p (goto s_req_http_HTT r))
      | s_req_http_HTT \<Rightarrow> STRICT_CHECK (ch \<noteq> CHR ''P'') p r (Continue p (goto s_req_http_HTTP r))
      | s_req_http_HTTP \<Rightarrow> STRICT_CHECK (ch \<noteq> CHR ''/'') p r (Continue p (goto s_req_first_http_major r))
      | s_req_first_http_major \<Rightarrow>
          if ord ch < ord CHR ''1'' \<or> ord ch > ord CHR ''9'' then fail HPE_INVALID_VERSION p r
          else Continue p (goto s_req_http_major (set_parser (\<lambda>P. P\<lparr>http_major := digit ch\<rparr>) r))
      | s_req_http_major \<Rightarrow>
          if ch = CHR ''.'' then Continue p (goto s_req_first_http_minor r)
          else if \<not> IS_NUM ch then fail HPE_INVALID_VERSION p r
          else let r = set_parser (\<lambda>P. P\<lparr>http_major := http_major P * 10 + digit ch\<rparr>) r
            in if http_major (parser r) > 999 then fail HPE_INVALID_VERSION p r else Continue p r
      | s_req_first_http_minor \<Rightarrow>
          if \<not> IS_NUM ch then fail HPE_INVALID_VERSION p r
          else Continue p (goto s_req_http_minor (set_parser (\<lambda>P. P\<lparr>http_minor := digit ch\<rparr>) r))
      | s_req_http_minor \<Rightarrow>
          if ch = CR then Continue p (goto s_req_line_almost_done r)
          else if ch = LF then Continue p (goto s_header_field_start r)
          else if \<not> IS_NUM ch then fail HPE_INVALID_VERSION p r
          else let r = set_parser (\<lambda>P. P\<lparr>http_minor := http_minor P * 10 + digit ch\<rparr>) r
            in if http_minor (parser r) > 999 then fail HPE_INVALID_VERSION p r else Continue p r
      | s_req_line_almost_done \<Rightarrow>
          if ch \<noteq> LF then fail HPE_LF_EXPECTED p r else Continue p (goto s_header_field_start r)
      | _ \<Rightarrow> Abort)"

subsection \<open>Header names\<close>

definition TOKEN :: "char \<Rightarrow> char" where
  "TOKEN c = tokens c"

definition exec_header_field_start :: "nat \<Rightarrow> char \<Rightarrow> 'u run \<Rightarrow> 'u outcome" where
  "exec_header_field_start p ch r =
     (if ch = CR then Continue p (goto s_headers_almost_done r)
      else if ch = LF then Again p ch (goto s_headers_almost_done r)
      else let c = TOKEN ch
        in if c = NUL then fail HPE_INVALID_HEADER_TOKEN p r
           else let r = goto s_header_field (set_parser (\<lambda>P. P\<lparr>index := 0\<rparr>) (MARK Header_Field p r))
             in Continue p (set_parser (\<lambda>P. P\<lparr>header_state :=
                  (if c = CHR ''c'' then h_C
                   else if c = CHR ''p'' then h_matching_proxy_connection
                   else if c = CHR ''t'' then h_matching_transfer_encoding
                   else if c = CHR ''u'' then h_matching_upgrade
                   else h_general)\<rparr>) r))"

text \<open>
  One character matched against a name: the index goes up, a character that differs gives up, and
  the last one of the name leads to \<open>found\<close>.  No result is a read behind the terminator.
\<close>

definition match_char ::
    "string \<Rightarrow> header_states \<Rightarrow> header_states \<Rightarrow> header_states \<Rightarrow> char \<Rightarrow> nat \<Rightarrow> (header_states \<times> nat) option" where
  "match_char name going found lost c i =
     (let i = (i + 1) mod 256
      in if i > length name then Some (lost, i)
         else case string_at name i of
           None \<Rightarrow> None
         | Some e \<Rightarrow>
             if c \<noteq> e then Some (lost, i)
             else if i = length name - 1 then Some (found, i)
             else Some (going, i))"

definition field_char :: "char \<Rightarrow> char \<Rightarrow> header_states \<Rightarrow> nat \<Rightarrow> (header_states \<times> nat) option" where
  "field_char ch c h i =
     (if h = h_general then Some (h, i)
      else if h = h_C then Some (if c = CHR ''o'' then h_CO else h_general, (i + 1) mod 256)
      else if h = h_CO then Some (if c = CHR ''n'' then h_CON else h_general, (i + 1) mod 256)
      else if h = h_CON then
        Some (if c = CHR ''n'' then h_matching_connection
              else if c = CHR ''t'' then h_matching_content_length
              else h_general, (i + 1) mod 256)
      else if h = h_matching_connection then match_char ''connection'' h h_connection h_general c i
      else if h = h_matching_proxy_connection then match_char ''proxy-connection'' h h_connection h_general c i
      else if h = h_matching_content_length then match_char ''content-length'' h h_content_length h_general c i
      else if h = h_matching_transfer_encoding then
        match_char ''transfer-encoding'' h h_transfer_encoding h_general c i
      else if h = h_matching_upgrade then match_char ''upgrade'' h h_upgrade h_general c i
      else if h \<in> {h_connection, h_content_length, h_transfer_encoding, h_upgrade} then
        Some (if ch \<noteq> CHR '' '' then h_general else h, i)
      else None)"

fun field_loop ::
    "nat \<Rightarrow> char \<Rightarrow> header_states \<Rightarrow> nat \<Rightarrow> string \<Rightarrow> (nat \<times> char \<times> header_states \<times> nat) option" where
  "field_loop p ch h i [] = Some (p, ch, h, i)"
| "field_loop p _ h i (ch # s) =
     (let c = TOKEN ch
      in if c = NUL then Some (p, ch, h, i)
         else case field_char ch c h i of
           None \<Rightarrow> None
         | Some (h, i) \<Rightarrow> field_loop (p + 1) ch h i s)"

definition exec_header_field ::
    "'u http_parser_settings \<Rightarrow> string \<Rightarrow> nat \<Rightarrow> char \<Rightarrow> 'u run \<Rightarrow> 'u outcome" where
  "exec_header_field S text p ch r =
     (case field_loop p ch (header_state (parser r)) (index (parser r)) (drop p text) of
        None \<Rightarrow> Abort
      | Some (q, ch, h, i) \<Rightarrow>
          COUNT_HEADER_SIZE (q - p) q (set_parser (\<lambda>P. P\<lparr>header_state := h, index := i\<rparr>) r) (\<lambda>r.
          if q = length text then Continue (q - 1) r
          else if ch = CHR '':'' then
            CALLBACK_DATA S text Header_Field q (q + 1) (goto s_header_value_discard_ws r) (Continue q)
          else fail HPE_INVALID_HEADER_TOKEN q r))"

subsection \<open>Header values\<close>

definition exec_header_value_start :: "nat \<Rightarrow> char \<Rightarrow> 'u run \<Rightarrow> 'u outcome" where
  "exec_header_value_start p ch r =
     (let r = set_parser (\<lambda>P. P\<lparr>index := 0\<rparr>) (goto s_header_value (MARK Header_Value p r));
          c = LOWER ch;
          h = header_state (parser r)
      in if h = h_upgrade then
           Continue p (set_parser (\<lambda>P. P\<lparr>flags := insert F_UPGRADE (flags P), header_state := h_general\<rparr>) r)
         else if h = h_transfer_encoding then
           Continue p (set_parser (\<lambda>P. P\<lparr>header_state :=
             (if c = CHR ''c'' then h_matching_transfer_encoding_chunked else h_general)\<rparr>) r)
         else if h = h_content_length then
           if \<not> IS_NUM ch then fail HPE_INVALID_CONTENT_LENGTH p r
           else Continue p (set_parser (\<lambda>P. P\<lparr>content_length := of_nat (digit ch)\<rparr>) r)
         else if h = h_connection then
           Continue p (set_parser (\<lambda>P. P\<lparr>header_state :=
             (if c = CHR ''k'' then h_matching_connection_keep_alive
              else if c = CHR ''c'' then h_matching_connection_close
              else if c = CHR ''u'' then h_matching_connection_upgrade
              else h_matching_connection_token)\<rparr>) r)
         else if h = h_matching_connection_token_start then Continue p r
         else Continue p (set_parser (\<lambda>P. P\<lparr>header_state := h_general\<rparr>) r))"

definition exec_header_value_discard_ws :: "nat \<Rightarrow> char \<Rightarrow> 'u run \<Rightarrow> 'u outcome" where
  "exec_header_value_discard_ws p ch r =
     (if ch = CHR '' '' \<or> ch = CHR 0x09 then Continue p r
      else if ch = CR then Continue p (goto s_header_value_discard_ws_almost_done r)
      else if ch = LF then Continue p (goto s_header_value_discard_lws r)
      else exec_header_value_start p ch r)"

text \<open>The flag that the header state at the end of a token of \<open>Connection\<close> stands for.\<close>

definition token_flag :: "header_states \<Rightarrow> http_flag set" where
  "token_flag h =
     (if h = h_connection_keep_alive then {F_CONNECTION_KEEP_ALIVE}
      else if h = h_connection_close then {F_CONNECTION_CLOSE}
      else if h = h_connection_upgrade then {F_CONNECTION_UPGRADE}
      else {})"

datatype 'u value_step = Value_Abort | Value_Error http_errno | Value_Next header_states "'u run"

definition match_value ::
    "string \<Rightarrow> header_states \<Rightarrow> header_states \<Rightarrow> header_states \<Rightarrow> char \<Rightarrow> 'u run \<Rightarrow> 'u value_step" where
  "match_value name going found lost c r =
     (case match_char name going found lost c (index (parser r)) of
        None \<Rightarrow> Value_Abort
      | Some (h, i) \<Rightarrow> Value_Next h (set_parser (\<lambda>P. P\<lparr>index := i\<rparr>) r))"

definition content_length_char :: "char \<Rightarrow> 'u run \<Rightarrow> 'u value_step" where
  "content_length_char ch r =
     (if ch = CHR '' '' then Value_Next h_content_length r
      else if \<not> IS_NUM ch then Value_Error HPE_INVALID_CONTENT_LENGTH
      else let t = content_length (parser r) * 10 + of_nat (digit ch)
        in if (ULLONG_MAX - 10) div 10 < content_length (parser r) then Value_Error HPE_INVALID_CONTENT_LENGTH
           else Value_Next h_content_length (set_parser (\<lambda>P. P\<lparr>content_length := t\<rparr>) r))"

text \<open>One character of a value, in a header state other than \<open>h_general\<close>.\<close>

definition value_char :: "char \<Rightarrow> header_states \<Rightarrow> 'u run \<Rightarrow> 'u value_step" where
  "value_char ch h r =
     (let c = LOWER ch
      in if h = h_connection \<or> h = h_transfer_encoding then Value_Abort
         else if h = h_content_length then content_length_char ch r
         else if h = h_matching_transfer_encoding_chunked then
           match_value ''chunked'' h h_transfer_encoding_chunked h_general c r
         else if h = h_matching_connection_token_start then
           Value_Next
             (if c = CHR ''k'' then h_matching_connection_keep_alive
              else if c = CHR ''c'' then h_matching_connection_close
              else if c = CHR ''u'' then h_matching_connection_upgrade
              else if tokens c \<noteq> NUL then h_matching_connection_token
              else if c = CHR '' '' \<or> c = CHR 0x09 then h
              else h_general) r
         else if h = h_matching_connection_keep_alive then
           match_value ''keep-alive'' h h_connection_keep_alive h_matching_connection_token c r
         else if h = h_matching_connection_close then
           match_value ''close'' h h_connection_close h_matching_connection_token c r
         else if h = h_matching_connection_upgrade then
           match_value ''upgrade'' h h_connection_upgrade h_matching_connection_token c r
         else if h = h_matching_connection_token then
           if ch = CHR '','' then Value_Next h_matching_connection_token_start (set_parser (\<lambda>P. P\<lparr>index := 0\<rparr>) r)
           else Value_Next h r
         else if h = h_transfer_encoding_chunked then
           Value_Next (if ch \<noteq> CHR '' '' then h_general else h) r
         else if h \<in> {h_connection_keep_alive, h_connection_close, h_connection_upgrade} then
           if ch = CHR '','' then
             Value_Next h_matching_connection_token_start
               (set_parser (\<lambda>P. P\<lparr>flags := flags P \<union> token_flag h, index := 0\<rparr>) r)
           else if ch \<noteq> CHR '' '' then Value_Next h_matching_connection_token r
           else Value_Next h r
         else Value_Next h_general (goto s_header_value r))"

text \<open>How far a value of no interest reaches: to a line end within the limit, or to the end.\<close>

definition is_eol :: "char \<Rightarrow> bool" where
  "is_eol c \<longleftrightarrow> c = CR \<or> c = LF"

definition general_span :: "string \<Rightarrow> nat" where
  "general_span s =
     (let l = take HTTP_MAX_HEADER_SIZE s
      in if \<exists>c \<in> set l. is_eol c then length (takeWhile (\<lambda>c. \<not> is_eol c) l) else length s)"

definition value_done :: "string \<Rightarrow> nat \<Rightarrow> nat \<Rightarrow> header_states \<Rightarrow> 'u run \<Rightarrow> 'u outcome" where
  "value_done text start p h r =
     COUNT_HEADER_SIZE (p - start) p (set_parser (\<lambda>P. P\<lparr>header_state := h\<rparr>) r) (\<lambda>r.
     Continue (if p = length text then p - 1 else p) r)"

lemma general_span_pos: "c \<noteq> CR \<Longrightarrow> c \<noteq> LF \<Longrightarrow> 0 < general_span (c # s)"
  by (cases "HTTP_MAX_HEADER_SIZE") (auto simp: general_span_def is_eol_def HTTP_MAX_HEADER_SIZE_def Let_def)

function value_loop ::
    "'u http_parser_settings \<Rightarrow> string \<Rightarrow> nat \<Rightarrow> nat \<Rightarrow> header_states \<Rightarrow> 'u run \<Rightarrow> string \<Rightarrow> 'u outcome" where
  "value_loop S text start p h r [] = value_done text start p h r"
| "value_loop S text start p h r (ch # s) =
     (if ch = CR then
        CALLBACK_DATA S text Header_Value p (p + 1)
          (set_parser (\<lambda>P. P\<lparr>header_state := h\<rparr>) (goto s_header_almost_done r)) (value_done text start p h)
      else if ch = LF then
        COUNT_HEADER_SIZE (p - start) p (goto s_header_almost_done r) (\<lambda>r.
        CALLBACK_DATA S text Header_Value p p (set_parser (\<lambda>P. P\<lparr>header_state := h\<rparr>) r) (Again p ch))
      else if h = h_general then
        value_loop S text start (p + general_span (ch # s)) h r (drop (general_span (ch # s)) (ch # s))
      else (case value_char ch h r of
          Value_Abort \<Rightarrow> Abort
        | Value_Error e \<Rightarrow> fail e p (set_parser (\<lambda>P. P\<lparr>header_state := h\<rparr>) r)
        | Value_Next h' r' \<Rightarrow> value_loop S text start (p + 1) h' r' s))"
  by pat_completeness auto
termination
  by (relation "measure (\<lambda>(S, text, start, p, h, r, s). length s)")
    (auto dest: general_span_pos intro!: diff_less)

definition exec_header_value ::
    "'u http_parser_settings \<Rightarrow> string \<Rightarrow> nat \<Rightarrow> char \<Rightarrow> 'u run \<Rightarrow> 'u outcome" where
  "exec_header_value S text p ch r =
     value_loop S text p p (header_state (parser r)) r (drop p text)"

text \<open>The ends of values: the line end, folded lines, and values without a character.\<close>

definition end_flag :: "header_states \<Rightarrow> http_flag set" where
  "end_flag h = (if h = h_transfer_encoding_chunked then {F_CHUNKED} else token_flag h)"

definition exec_header_value_end ::
    "'u http_parser_settings \<Rightarrow> string \<Rightarrow> nat \<Rightarrow> char \<Rightarrow> 'u run \<Rightarrow> 'u outcome" where
  "exec_header_value_end S text p ch r =
     (case p_state r of
        s_header_almost_done \<Rightarrow> STRICT_CHECK (ch \<noteq> LF) p r (Continue p (goto s_header_value_lws r))
      | s_header_value_lws \<Rightarrow>
          if ch = CHR '' '' \<or> ch = CHR 0x09 then Again p ch (goto s_header_value_start r)
          else Again p ch (goto s_header_field_start
                 (set_parser (\<lambda>P. P\<lparr>flags := flags P \<union> end_flag (header_state P)\<rparr>) r))
      | s_header_value_discard_ws_almost_done \<Rightarrow>
          STRICT_CHECK (ch \<noteq> LF) p r (Continue p (goto s_header_value_discard_lws r))
      | s_header_value_discard_lws \<Rightarrow>
          if ch = CHR '' '' \<or> ch = CHR 0x09 then Continue p (goto s_header_value_discard_ws r)
          else CALLBACK_DATA S text Header_Value p p
                 (goto s_header_field_start (MARK Header_Value p
                   (set_parser (\<lambda>P. P\<lparr>flags := flags P \<union> end_flag (header_state P)\<rparr>) r)))
                 (Again p ch)
      | _ \<Rightarrow> Abort)"

subsection \<open>The end of the headers\<close>

definition exec_headers_almost_done ::
    "'u http_parser_settings \<Rightarrow> nat \<Rightarrow> char \<Rightarrow> 'u run \<Rightarrow> 'u outcome" where
  "exec_headers_almost_done S p ch r =
     STRICT_CHECK (ch \<noteq> LF) p r
       (if F_TRAILING \<in> flags (parser r)
        then CALLBACK_NOTIFY (on_chunk_complete S) HPE_CB_chunk_complete p (goto s_message_done r) (Again p ch)
        else
          let r = set_parser (\<lambda>P. P\<lparr>upgrade :=
                ({F_UPGRADE, F_CONNECTION_UPGRADE} \<subseteq> flags P \<or> http_method P = HTTP_CONNECT)\<rparr>) (goto s_headers_done r);
              (res, P) = (case on_headers_complete S of None \<Rightarrow> (0, parser r) | Some f \<Rightarrow> f (parser r))
          in if res \<noteq> 0 \<and> res \<noteq> 1 then RETURN p (SET_ERRNO HPE_CB_headers_complete (r\<lparr>parser := P\<rparr>))
             else let r = r\<lparr>parser := (if res = 1 then P\<lparr>flags := insert F_SKIPBODY (flags P)\<rparr> else P)\<rparr>
               in if http_errno (parser r) \<noteq> HPE_OK then RETURN p r else Again p ch r)"

definition exec_headers_done ::
    "'u http_parser_settings \<Rightarrow> nat \<Rightarrow> char \<Rightarrow> 'u run \<Rightarrow> 'u outcome" where
  "exec_headers_done S p ch r =
     STRICT_CHECK (ch \<noteq> LF) p r
       (let r = set_parser (\<lambda>P. P\<lparr>nread := 0\<rparr>) r;
            P = parser r;
            hasBody = (F_CHUNKED \<in> flags P \<or> (content_length P > 0 \<and> content_length P \<noteq> ULLONG_MAX));
            complete = CALLBACK_NOTIFY (on_message_complete S) HPE_CB_message_complete (p + 1)
                         (goto (NEW_MESSAGE r) r)
        in if upgrade P \<and> (http_method P = HTTP_CONNECT \<or> F_SKIPBODY \<in> flags P \<or> \<not> hasBody)
           then complete (RETURN (p + 1))
           else if F_SKIPBODY \<in> flags P then complete (Continue p)
           else if F_CHUNKED \<in> flags P then Continue p (goto s_chunk_size_start r)
           else if content_length P = 0 then complete (Continue p)
           else if content_length P \<noteq> ULLONG_MAX then Continue p (goto s_body_identity r)
           else if \<not> http_message_needs_eof P then complete (Continue p)
           else Continue p (goto s_body_identity_eof r))"

subsection \<open>The body\<close>

definition exec_body ::
    "'u http_parser_settings \<Rightarrow> string \<Rightarrow> nat \<Rightarrow> char \<Rightarrow> 'u run \<Rightarrow> 'u outcome" where
  "exec_body S text p ch r =
     (case p_state r of
        s_body_identity \<Rightarrow>
          if content_length (parser r) = 0 \<or> content_length (parser r) = ULLONG_MAX then Abort
          else let to_read = min (unat (content_length (parser r))) (length text - p);
              r = set_parser (\<lambda>P. P\<lparr>content_length := content_length P - of_nat to_read\<rparr>) (MARK Body p r);
              q = p + to_read - 1
            in if content_length (parser r) = 0
               then CALLBACK_DATA S text Body (q + 1) q (goto s_message_done r) (Again q ch)
               else Continue q r
      | s_body_identity_eof \<Rightarrow> Continue (length text - 1) (MARK Body p r)
      | s_message_done \<Rightarrow>
          CALLBACK_NOTIFY (on_message_complete S) HPE_CB_message_complete (p + 1) (goto (NEW_MESSAGE r) r) (\<lambda>r.
          if upgrade (parser r) then RETURN (p + 1) r else Continue p r)
      | _ \<Rightarrow> Abort)"

subsection \<open>Chunks\<close>

definition exec_chunk_size :: "nat \<Rightarrow> char \<Rightarrow> 'u run \<Rightarrow> 'u outcome" where
  "exec_chunk_size p ch r =
     (if F_CHUNKED \<notin> flags (parser r) then Abort
      else case p_state r of
        s_chunk_size_start \<Rightarrow>
          if nread (parser r) \<noteq> 1 then Abort
          else if unhex ch = -1 then fail HPE_INVALID_CHUNK_SIZE p r
          else Continue p (goto s_chunk_size (set_parser (\<lambda>P. P\<lparr>content_length := of_int (unhex ch)\<rparr>) r))
      | s_chunk_size \<Rightarrow>
          if ch = CR then Continue p (goto s_chunk_size_almost_done r)
          else if unhex ch = -1 then
            if ch = CHR '';'' \<or> ch = CHR '' '' then Continue p (goto s_chunk_parameters r)
            else fail HPE_INVALID_CHUNK_SIZE p r
          else let t = content_length (parser r) * 16 + of_int (unhex ch)
            in if (ULLONG_MAX - 16) div 16 < content_length (parser r) then fail HPE_INVALID_CONTENT_LENGTH p r
               else Continue p (set_parser (\<lambda>P. P\<lparr>content_length := t\<rparr>) r)
      | s_chunk_parameters \<Rightarrow>
          if ch = CR then Continue p (goto s_chunk_size_almost_done r) else Continue p r
      | _ \<Rightarrow> Abort)"

definition exec_chunk_data ::
    "'u http_parser_settings \<Rightarrow> string \<Rightarrow> nat \<Rightarrow> char \<Rightarrow> 'u run \<Rightarrow> 'u outcome" where
  "exec_chunk_data S text p ch r =
     (if F_CHUNKED \<notin> flags (parser r) then Abort
      else case p_state r of
        s_chunk_size_almost_done \<Rightarrow>
          STRICT_CHECK (ch \<noteq> LF) p r
            (let r = set_parser (\<lambda>P. P\<lparr>nread := 0\<rparr>) r;
                 r = (if content_length (parser r) = 0
                      then goto s_header_field_start (set_parser (\<lambda>P. P\<lparr>flags := insert F_TRAILING (flags P)\<rparr>) r)
                      else goto s_chunk_data r)
             in CALLBACK_NOTIFY (on_chunk_header S) HPE_CB_chunk_header (p + 1) r (Continue p))
      | s_chunk_data \<Rightarrow>
          if content_length (parser r) = 0 \<or> content_length (parser r) = ULLONG_MAX then Abort
          else let to_read = min (unat (content_length (parser r))) (length text - p);
              r = set_parser (\<lambda>P. P\<lparr>content_length := content_length P - of_nat to_read\<rparr>) (MARK Body p r);
              q = p + to_read - 1
            in Continue q (if content_length (parser r) = 0 then goto s_chunk_data_almost_done r else r)
      | s_chunk_data_almost_done \<Rightarrow>
          if content_length (parser r) \<noteq> 0 then Abort
          else STRICT_CHECK (ch \<noteq> CR) p r
                 (CALLBACK_DATA S text Body p (p + 1) (goto s_chunk_data_done r) (Continue p))
      | s_chunk_data_done \<Rightarrow>
          STRICT_CHECK (ch \<noteq> LF) p r
            (CALLBACK_NOTIFY (on_chunk_complete S) HPE_CB_chunk_complete (p + 1)
              (goto s_chunk_size_start (set_parser (\<lambda>P. P\<lparr>nread := 0\<rparr>) r)) (Continue p))
      | _ \<Rightarrow> Abort)"

subsection \<open>The loop over the text\<close>

definition exec_state ::
    "'u http_parser_settings \<Rightarrow> string \<Rightarrow> nat \<Rightarrow> char \<Rightarrow> 'u run \<Rightarrow> 'u outcome" where
  "exec_state S text p ch r =
     (let s = p_state r
      in if s \<in> {s_dead, s_start_req_or_res, s_res_or_resp_H, s_start_res, s_res_H, s_res_HT, s_res_HTT, s_res_HTTP}
         then exec_start S text p ch r
         else if s \<in> {s_res_first_http_major, s_res_http_major, s_res_first_http_minor, s_res_http_minor,
                s_res_first_status_code, s_res_status_code, s_res_status_start, s_res_status, s_res_line_almost_done}
         then exec_status_line S text p ch r
         else if s = s_start_req then exec_start_req S text p ch r
         else if s = s_req_method then exec_req_method p ch r
         else if s \<in> {s_req_spaces_before_url, s_req_schema, s_req_schema_slash, s_req_schema_slash_slash,
                s_req_server_start, s_req_server, s_req_server_with_at, s_req_path, s_req_query_string_start,
                s_req_query_string, s_req_fragment_start, s_req_fragment}
         then exec_url S text p ch r
         else if s \<in> {s_req_http_start, s_req_http_H, s_req_http_HT, s_req_http_HTT, s_req_http_HTTP,
                s_req_first_http_major, s_req_http_major, s_req_first_http_minor, s_req_http_minor,
                s_req_line_almost_done}
         then exec_req_version p ch r
         else if s = s_header_field_start then exec_header_field_start p ch r
         else if s = s_header_field then exec_header_field S text p ch r
         else if s = s_header_value_discard_ws then exec_header_value_discard_ws p ch r
         else if s = s_header_value_start then exec_header_value_start p ch r
         else if s = s_header_value then exec_header_value S text p ch r
         else if s \<in> {s_header_almost_done, s_header_value_lws, s_header_value_discard_ws_almost_done,
                s_header_value_discard_lws}
         then exec_header_value_end S text p ch r
         else if s = s_headers_almost_done then exec_headers_almost_done S p ch r
         else if s = s_headers_done then exec_headers_done S p ch r
         else if s \<in> {s_body_identity, s_body_identity_eof, s_message_done} then exec_body S text p ch r
         else if s \<in> {s_chunk_size_start, s_chunk_size, s_chunk_parameters} then exec_chunk_size p ch r
         else exec_chunk_data S text p ch r)"

text \<open>
  One character, with the jumps back to \<open>reexecute\<close>.  Six of them are always enough when the
  callbacks leave the state alone: the longest chain goes from an empty value over the end of the
  headers to the end of the message.
\<close>

primrec exec_char ::
    "nat \<Rightarrow> 'u http_parser_settings \<Rightarrow> string \<Rightarrow> nat \<Rightarrow> char \<Rightarrow> 'u run \<Rightarrow> 'u outcome" where
  "exec_char 0 S text p ch r = Spin"
| "exec_char (Suc n) S text p ch r =
     (case exec_state S text p ch r of Again q ch r \<Rightarrow> exec_char n S text q ch r | res \<Rightarrow> res)"

definition REEXECUTIONS :: nat where "REEXECUTIONS = 6"

definition exec_at :: "'u http_parser_settings \<Rightarrow> string \<Rightarrow> nat \<Rightarrow> 'u run \<Rightarrow> 'u outcome" where
  "exec_at S text p r =
     (if PARSING_HEADER (p_state r)
      then COUNT_HEADER_SIZE 1 p r (exec_char REEXECUTIONS S text p (text ! p))
      else exec_char REEXECUTIONS S text p (text ! p) r)"

text \<open>Behind the loop: at most one mark is left, and its bytes are handed over.\<close>

definition exec_end :: "'u http_parser_settings \<Rightarrow> string \<Rightarrow> 'u run \<Rightarrow> 'u outcome" where
  "exec_end S text r =
     (let n = length text
      in if length (filter (\<lambda>m. marks r m \<noteq> None) [Header_Field, Header_Value, Url, Body, Status]) > 1 then Abort
         else CALLBACK_DATA S text Header_Field n n r (\<lambda>r.
              CALLBACK_DATA S text Header_Value n n r (\<lambda>r.
              CALLBACK_DATA S text Url n n r (\<lambda>r.
              CALLBACK_DATA S text Body n n r (\<lambda>r.
              CALLBACK_DATA S text Status n n r (RETURN n))))))"

primrec exec_loop :: "nat \<Rightarrow> 'u http_parser_settings \<Rightarrow> string \<Rightarrow> nat \<Rightarrow> 'u run \<Rightarrow> 'u outcome" where
  "exec_loop 0 S text p r = Spin"
| "exec_loop (Suc n) S text p r =
     (if p = length text then exec_end S text r
      else if p > length text then Abort
      else case exec_at S text p r of Continue q r \<Rightarrow> exec_loop n S text (q + 1) r | res \<Rightarrow> res)"

definition exec_marks :: "state \<Rightarrow> mark \<Rightarrow> nat option" where
  "exec_marks s m =
     (if (m = Header_Field \<and> s = s_header_field) \<or> (m = Header_Value \<and> s = s_header_value) \<or>
         (m = Url \<and> s \<in> {s_req_path, s_req_schema, s_req_schema_slash, s_req_schema_slash_slash,
            s_req_server_start, s_req_server, s_req_server_with_at, s_req_query_string_start,
            s_req_query_string, s_req_fragment_start, s_req_fragment}) \<or>
         (m = Status \<and> s = s_res_status)
      then Some 0 else None)"

text \<open>The number of characters parsed and the parser; an empty text stands for the end of the input.\<close>

definition http_parser_execute :: "'u http_parser_settings \<Rightarrow> 'u http_parser \<Rightarrow> string \<Rightarrow> 'u outcome" where
  "http_parser_execute S P text =
     (let r = \<lparr>parser = P, p_state = state P, marks = (\<lambda>_. None)\<rparr>
      in if http_errno P \<noteq> HPE_OK then Return 0 P
         else if length text = 0 then
           (if p_state r = s_body_identity_eof
            then CALLBACK_NOTIFY (on_message_complete S) HPE_CB_message_complete 0 r (\<lambda>r. Return 0 (parser r))
            else if p_state r \<in> {s_dead, s_start_req_or_res, s_start_res, s_start_req} then Return 0 P
            else Return 1 (parser (SET_ERRNO HPE_INVALID_EOF_STATE r)))
         else exec_loop (length text + 1) S text 0 (r\<lparr>marks := exec_marks (state P)\<rparr>))"

end
