(* ===== verification/Http_Invariant.thy ===== *)
theory Http_Invariant
  imports Http_Execute
begin

text \<open>
  What holds of the message parser between two characters, and that the branches of the first part of
  the switch keep it: start lines, URLs, versions and header names.

  The invariant ties the state to the other fields: an index inside the name of the method, a header
  state that the state knows, a content length that is not used up, the chunked flag, the byte count at
  the start of a chunk size.  A mark is only set in the states that read its text.  Callbacks may change
  the error number and their own data.
\<close>

subsection \<open>The invariant\<close>

definition FIELD_STATES :: "header_states set" where
  "FIELD_STATES = {h_general, h_C, h_CO, h_CON, h_matching_connection, h_matching_proxy_connection,
     h_matching_content_length, h_matching_transfer_encoding, h_matching_upgrade, h_connection,
     h_content_length, h_transfer_encoding, h_upgrade}"

definition mark_of :: "state \<Rightarrow> mark option" where
  "mark_of s =
     (if s = s_header_field then Some Header_Field
      else if s = s_header_value then Some Header_Value
      else if s \<in> {s_req_schema, s_req_schema_slash, s_req_schema_slash_slash, s_req_server_start, s_req_server,
          s_req_server_with_at, s_req_path, s_req_query_string_start, s_req_query_string, s_req_fragment_start,
          s_req_fragment} then Some Url
      else if s \<in> {s_body_identity, s_body_identity_eof, s_chunk_data, s_chunk_data_almost_done} then Some Body
      else if s = s_res_status then Some Status
      else None)"

definition CHUNK_STATES :: "state set" where
  "CHUNK_STATES = {s_chunk_size_start, s_chunk_size, s_chunk_parameters, s_chunk_size_almost_done, s_chunk_data,
     s_chunk_data_almost_done, s_chunk_data_done}"

definition state_ok :: "32 word \<Rightarrow> state \<Rightarrow> 'u http_parser \<Rightarrow> bool" where
  "state_ok k s P \<longleftrightarrow>
     (s = s_req_method \<longrightarrow> index P \<le> length (method_strings (http_method P))) \<and>
     (s = s_header_field \<longrightarrow> header_state P \<in> FIELD_STATES) \<and>
     (s = s_header_value \<longrightarrow> header_state P \<noteq> h_connection \<and> header_state P \<noteq> h_transfer_encoding) \<and>
     (s \<in> {s_body_identity, s_chunk_data} \<longrightarrow> content_length P \<noteq> 0) \<and>
     (s \<in> {s_body_identity, s_chunk_data, s_chunk_size, s_chunk_parameters, s_chunk_size_almost_done} \<longrightarrow>
        content_length P \<noteq> ULLONG_MAX) \<and>
     (s = s_chunk_data_almost_done \<longrightarrow> content_length P = 0) \<and>
     (s \<in> CHUNK_STATES \<longrightarrow> F_CHUNKED \<in> flags P) \<and>
     (s = s_chunk_size_start \<longrightarrow> nread P = k)"

definition marks_ok :: "nat \<Rightarrow> state \<Rightarrow> (mark \<Rightarrow> nat option) \<Rightarrow> bool" where
  "marks_ok p s marked \<longleftrightarrow> (\<forall>m a. marked m = Some a \<longrightarrow> mark_of s = Some m \<and> a \<le> p)"

definition run_ok :: "32 word \<Rightarrow> nat \<Rightarrow> 'u run \<Rightarrow> bool" where
  "run_ok k p r \<longleftrightarrow>
     state_ok k (p_state r) (parser r) \<and> http_errno (parser r) = HPE_OK \<and> marks_ok p (p_state r) (marks r)"

definition parser_ok :: "'u http_parser \<Rightarrow> bool" where
  "parser_ok P \<longleftrightarrow> (http_errno P = HPE_OK \<or> http_errno P = HPE_PAUSED \<longrightarrow> state_ok 0 (state P) P)"

text \<open>How many branches one character can still go through.\<close>

definition rank :: "state \<Rightarrow> nat" where
  "rank s =
     (if s = s_header_value_lws \<or> s = s_header_value_discard_lws then 4
      else if s = s_header_field_start then 3
      else if s \<in> {s_headers_almost_done, s_start_req_or_res, s_header_value, s_body_identity} then 2
      else 1)"

text \<open>What a branch at position \<open>p\<close> of a text of \<open>n\<close> characters has to give.\<close>

fun good :: "nat \<Rightarrow> nat \<Rightarrow> nat \<Rightarrow> 'u outcome \<Rightarrow> bool" where
  "good n p k (Continue q r) \<longleftrightarrow> p \<le> q \<and> q < n \<and> run_ok 0 (Suc q) r"
| "good n p k (Again q c r) \<longleftrightarrow> p \<le> q \<and> q < n \<and> run_ok 1 q r \<and> rank (p_state r) < k"
| "good n p k (Return m P) \<longleftrightarrow>
     m \<le> n \<and> parser_ok P \<and> (http_errno P = HPE_OK \<longrightarrow> upgrade P \<or> m = n)"
| "good n p k Abort \<longleftrightarrow> False"
| "good n p k Spin \<longleftrightarrow> False"

definition tame_cb :: "'u http_cb option \<Rightarrow> bool" where
  "tame_cb cb \<longleftrightarrow> (\<forall>f P. cb = Some f \<longrightarrow> (\<exists>e d. snd (f P) = P\<lparr>http_errno := e, data := d\<rparr>))"

definition tame_data_cb :: "'u http_data_cb option \<Rightarrow> bool" where
  "tame_data_cb cb \<longleftrightarrow> (\<forall>f P s. cb = Some f \<longrightarrow> (\<exists>e d. snd (f P s) = P\<lparr>http_errno := e, data := d\<rparr>))"

definition tame :: "'u http_parser_settings \<Rightarrow> bool" where
  "tame S \<longleftrightarrow>
     tame_cb (on_message_begin S) \<and> tame_cb (on_headers_complete S) \<and> tame_cb (on_message_complete S) \<and>
     tame_cb (on_chunk_header S) \<and> tame_cb (on_chunk_complete S) \<and>
     (\<forall>m. tame_data_cb (data_callback S m))"

subsection \<open>The macros\<close>

lemma state_ok_ignores [simp]:
  "state_ok k s (P\<lparr>state := s'\<rparr>) = state_ok k s P"
  "state_ok k s (P\<lparr>http_errno := e\<rparr>) = state_ok k s P"
  "state_ok k s (P\<lparr>data := d\<rparr>) = state_ok k s P"
  by (simp_all add: state_ok_def)

lemma NEW_MESSAGE_states: "NEW_MESSAGE r \<in> {s_start_req, s_start_res, s_dead}"
  by (simp add: NEW_MESSAGE_def start_state_def)

lemma NEW_MESSAGE_ok [simp]: "state_ok k (NEW_MESSAGE r) P"
  using NEW_MESSAGE_states [of r] by (auto simp: state_ok_def CHUNK_STATES_def)

lemma marks_ok_none [simp]: "marks_ok p s (\<lambda>_. None)"
  by (simp add: marks_ok_def)

lemma marks_none: "marks_ok p s marked \<Longrightarrow> mark_of s = None \<Longrightarrow> marked = (\<lambda>_. None)"
  by (force simp: marks_ok_def)

lemma fail_good: "e \<noteq> HPE_OK \<Longrightarrow> e \<noteq> HPE_PAUSED \<Longrightarrow> q \<le> n \<Longrightarrow> good n p k (fail e q r)"
  by (simp add: fail_def goto_error_def RETURN_def SET_ERRNO_def parser_ok_def)

lemma STRICT_CHECK_good: "q \<le> n \<Longrightarrow> (\<not> c \<Longrightarrow> good n p k K) \<Longrightarrow> good n p k (STRICT_CHECK c q r K)"
  by (simp add: STRICT_CHECK_def fail_good)

lemma COUNT_good:
  assumes "q \<le> n" "\<And>v. good n p k (K (r\<lparr>parser := (parser r)\<lparr>nread := v\<rparr>\<rparr>))"
  shows "good n p k (COUNT_HEADER_SIZE c q r K)"
  using assms by (simp add: COUNT_HEADER_SIZE_def Let_def fail_good)

lemma CALLBACK_NOTIFY_good:
  assumes "tame_cb cb" "http_errno (parser r) = HPE_OK" "state_ok 0 (p_state r) (parser r)" "er \<le> n" "e \<noteq> HPE_OK"
    and rest: "\<And>s d. good n p k (K (r\<lparr>parser := (parser r)\<lparr>state := s, data := d\<rparr>\<rparr>))"
  shows "good n p k (CALLBACK_NOTIFY cb e er r K)"
proof (cases cb)
  case None
  have "good n p k (K r)"
    using rest [where s = "state (parser r)" and d = "data (parser r)"] by simp
  then show ?thesis
    using None assms(2) by (simp add: CALLBACK_NOTIFY_def)
next
  case (Some f)
  let ?P = "(parser r)\<lparr>state := p_state r\<rparr>"
  obtain x d where fP: "snd (f ?P) = ?P\<lparr>http_errno := x, data := d\<rparr>"
    using assms(1) Some unfolding tame_cb_def by blast
  obtain res P where f: "f ?P = (res, P)" by fastforce
  have P: "P = ?P\<lparr>http_errno := x, data := d\<rparr>"
    using fP f by simp
  have same: "(parser r)\<lparr>state := p_state r, http_errno := HPE_OK, data := d\<rparr> = (parser r)\<lparr>state := p_state r, data := d\<rparr>"
    using assms(2) by (cases "parser r") simp
  show ?thesis
    using assms(2-5) rest [where s = "p_state r" and d = d] Some
    by (auto simp: CALLBACK_NOTIFY_def f P parser_ok_def same Let_def)
qed

lemma data_errno_not_ok [simp]: "data_errno m \<noteq> HPE_OK"
  by (cases m) (simp_all add: data_errno_def)

lemma CALLBACK_DATA_good:
  assumes "tame S" "http_errno (parser r) = HPE_OK" "state_ok 0 (p_state r) (parser r)" "er \<le> n"
    and rest: "\<And>s d. good n p k (K (r\<lparr>parser := (parser r)\<lparr>state := s, data := d\<rparr>, marks := (marks r)(m := None)\<rparr>))"
  shows "good n p k (CALLBACK_DATA S text m stop er r K)"
proof (cases "marks r m = None \<or> data_callback S m = None")
  case True
  have "good n p k (K (r\<lparr>marks := (marks r)(m := None)\<rparr>))"
    using rest [where s = "state (parser r)" and d = "data (parser r)"] by simp
  moreover have "r\<lparr>marks := (marks r)(m := None)\<rparr> = r" if "marks r m = None"
    using that by (cases r) auto
  ultimately show ?thesis
    using True assms(2) by (auto simp: CALLBACK_DATA_def split: option.split)
next
  case False
  then obtain f a where fa: "data_callback S m = Some f" "marks r m = Some a" by auto
  let ?P = "(parser r)\<lparr>state := p_state r\<rparr>" and ?bytes = "take (stop - a) (drop a text)"
  obtain x d where fP: "snd (f ?P ?bytes) = ?P\<lparr>http_errno := x, data := d\<rparr>"
    using assms(1) fa(1) unfolding tame_def tame_data_cb_def by blast
  obtain res P where f: "f ?P ?bytes = (res, P)" by fastforce
  have P: "P = ?P\<lparr>http_errno := x, data := d\<rparr>"
    using fP f by simp
  have same: "(parser r)\<lparr>state := p_state r, http_errno := HPE_OK, data := d\<rparr> = (parser r)\<lparr>state := p_state r, data := d\<rparr>"
    using assms(2) by (cases "parser r") simp
  show ?thesis
    using assms(2-4) rest [where s = "p_state r" and d = d] fa
    by (auto simp: CALLBACK_DATA_def f P parser_ok_def same Let_def)
qed

lemmas ok_defs = run_ok_def state_ok_def CHUNK_STATES_def

lemma marks_ok_MARK:
  "marks_ok p s (marks r) \<Longrightarrow> mark_of s = Some m \<Longrightarrow> marks_ok p s (marks (MARK m p r))"
  by (auto simp: marks_ok_def MARK_def)

lemma MARK_fields [simp]: "p_state (MARK m p r) = p_state r" "parser (MARK m p r) = parser r"
  by (simp_all add: MARK_def)

lemma marks_start:
  assumes "run_ok k p r" "mark_of (p_state r) = None"
  shows "marks r = (\<lambda>_. None)"
  using assms marks_none unfolding run_ok_def by blast

subsection \<open>The branches\<close>

lemma exec_start_good:
  assumes "tame S" "run_ok 1 p r" "p < n"
    and s: "p_state r \<in> {s_dead, s_start_req_or_res, s_res_or_resp_H, s_start_res, s_res_H, s_res_HT, s_res_HTT, s_res_HTTP}"
  shows "good n p (rank (p_state r)) (exec_start S text p ch r)"
proof -
  have m: "marks r = (\<lambda>_. None)"
    by (rule marks_start [OF assms(2)]) (use s in \<open>elim insertE; simp add: mark_of_def\<close>)
  have cb: "tame_cb (on_message_begin S)" and ok: "http_errno (parser r) = HPE_OK"
    using assms(1,2) by (simp_all add: tame_def run_ok_def)
  from s show ?thesis
    using assms(3)
    by (elim insertE; simp add: exec_start_def Let_def; intro impI conjI STRICT_CHECK_good fail_good CALLBACK_NOTIFY_good cb;
        simp add: ok_defs ok m rank_def method_strings_def)
qed

lemmas good_rules = STRICT_CHECK_good fail_good CALLBACK_NOTIFY_good CALLBACK_DATA_good COUNT_good

lemma run_facts:
  assumes "tame S" "run_ok k p r"
  shows "http_errno (parser r) = HPE_OK" "state_ok k (p_state r) (parser r)" "marks_ok p (p_state r) (marks r)"
    "tame_cb (on_message_begin S)" "tame_cb (on_headers_complete S)" "tame_cb (on_message_complete S)"
    "tame_cb (on_chunk_header S)" "tame_cb (on_chunk_complete S)" "\<And>m. tame_data_cb (data_callback S m)"
  using assms by (simp_all add: tame_def run_ok_def)

lemma marks_ok_single [simp]:
  "marks_ok q s ((\<lambda>_. None)(m := x)) \<longleftrightarrow> (\<forall>a. x = Some a \<longrightarrow> mark_of s = Some m \<and> a \<le> q)"
  by (auto simp: marks_ok_def)

lemma marks_single:
  assumes "run_ok k p r" "mark_of (p_state r) = Some m"
  obtains x where "marks r = (\<lambda>_. None)(m := x)" "\<And>a. x = Some a \<Longrightarrow> a \<le> p"
proof
  have "marks r i = None" if "i \<noteq> m" for i
    using assms that by (auto simp: run_ok_def marks_ok_def) (metis not_None_eq)
  then show "marks r = (\<lambda>_. None)(m := marks r m)" by auto
  show "a \<le> p" if "marks r m = Some a" for a
    using assms(1) that by (auto simp: run_ok_def marks_ok_def)
qed

lemma no_mark_update [simp]: "(\<lambda>_. None)(m := None) = (\<lambda>_. None)"
  by auto

lemma exec_status_line_good:
  assumes "tame S" "run_ok 1 p r" "p < n"
    and s: "p_state r \<in> {s_res_first_http_major, s_res_http_major, s_res_first_http_minor, s_res_http_minor,
                s_res_first_status_code, s_res_status_code, s_res_status_start, s_res_status, s_res_line_almost_done}"
  shows "good n p (rank (p_state r)) (exec_status_line S text p ch r)"
proof -
  note f = run_facts [OF assms(1,2)]
  have m: "marks r = (\<lambda>_. None)" if "p_state r \<noteq> s_res_status"
    by (rule marks_start [OF assms(2)]) (use s that in \<open>elim insertE; simp add: mark_of_def\<close>)
  from s show ?thesis
  proof (elim insertE)
    assume s: "p_state r = s_res_status"
    with marks_single [OF assms(2)] obtain x where
      "marks r = (\<lambda>_. None)(Status := x)" "\<And>a. x = Some a \<Longrightarrow> a \<le> p" by (auto simp: mark_of_def)
    then show ?thesis
      using assms(3) s
      by (simp add: exec_status_line_def; intro impI conjI good_rules assms(1);
          simp add: ok_defs f(1) le_SucI mark_of_def rank_def)
  qed (use assms(3) in \<open>simp add: exec_status_line_def Let_def; intro impI conjI good_rules assms(1);
        simp add: ok_defs f(1) m MARK_def mark_of_def\<close>)+
qed

lemma exec_start_req_good:
  assumes "tame S" "run_ok 1 p r" "p < n" and s: "p_state r = s_start_req"
  shows "good n p (rank (p_state r)) (exec_start_req S text p ch r)"
proof -
  note f = run_facts [OF assms(1,2)]
  have m: "marks r = (\<lambda>_. None)"
    by (rule marks_start [OF assms(2)]) (simp add: s mark_of_def)
  show ?thesis
    using assms(3) s
    by (simp add: exec_start_req_def Let_def first_method_def; intro impI conjI good_rules f;
        simp add: ok_defs f(1) m method_strings_def; intro impI conjI good_rules f;
        simp add: ok_defs f(1) m method_strings_def)
qed

lemma string_at_bound: "i \<le> length s \<Longrightarrow> \<exists>c. string_at s i = Some c"
  by (cases "i = length s") (simp_all add: string_at_def)

lemma string_at_inside: "string_at s i = Some c \<Longrightarrow> c \<noteq> NUL \<Longrightarrow> i < length s"
  by (auto simp: string_at_def split: if_splits)

lemma method_strings_short: "length (method_strings m) \<le> 11"
  by (cases m) (simp_all add: method_strings_def)

lemma switch_method_longer: "switch_method m i ch = Some m' \<Longrightarrow> i < length (method_strings m')"
  by (simp add: switch_method_def split: if_splits) (auto simp: method_strings_def)

lemma exec_req_method_good:
  assumes "tame S" "run_ok 1 p r" "p < n" and s: "p_state r = s_req_method"
  shows "good n p (rank (p_state r)) (exec_req_method p ch r)"
proof -
  note f = run_facts [OF assms(1,2)]
  have m: "marks r = (\<lambda>_. None)"
    by (rule marks_start [OF assms(2)]) (simp add: s mark_of_def)
  define i where "i = index (parser r)"
  define meth where "meth = http_method (parser r)"
  have i: "i \<le> length (method_strings meth)"
    using f(2) s by (simp add: state_ok_def i_def meth_def)
  then obtain c where c: "string_at (method_strings meth) i = Some c"
    using string_at_bound by blast
  have short: "(j + 1) mod 256 \<le> length (method_strings m')" if "j < length (method_strings m')" for j m'
    using that method_strings_short [of m'] by simp
  have next_index: "run_ok 0 (Suc p) (r\<lparr>parser := (bump_index ((parser r)\<lparr>http_method := m'\<rparr>))\<rparr>)"
    if "i < length (method_strings m')" for m'
    using short [OF that] by (simp add: ok_defs s m f(1) bump_index_def i_def)
  have next_index_same: "run_ok 0 (Suc p) (r\<lparr>parser := (bump_index (parser r))\<rparr>)"
    if "i < length (method_strings meth)"
    using short [OF that] by (simp add: ok_defs s m f(1) bump_index_def i_def meth_def)
  show ?thesis
    using assms(3) c string_at_inside [OF c]
    by (auto simp: exec_req_method_def Let_def i_def [symmetric] meth_def [symmetric] intro!: fail_good next_index_same
        next_index [simplified] split: option.split dest!: switch_method_longer)
      (simp_all add: ok_defs bump_index_def f(1) m)
qed

lemma parse_url_char_states: "parse_url_char s ch = s_dead \<or> mark_of (parse_url_char s ch) = Some Url"
  by (cases s; simp add: parse_url_char_def parse_url_server_def mark_of_def)

lemma url_state_ok: "mark_of s = Some Url \<Longrightarrow> state_ok k s P"
  by (cases s; simp add: mark_of_def state_ok_def CHUNK_STATES_def)

lemma next_url_state_good:
  assumes "http_errno (parser r) = HPE_OK" "p < n" "marks r = (\<lambda>_. None)(Url := x)" "\<And>a. x = Some a \<Longrightarrow> a \<le> p"
  shows "good n p j (next_url_state p ch r)"
proof (cases "parse_url_char (p_state r) ch = s_dead")
  case True
  then show ?thesis
    using assms(2) by (simp add: next_url_state_def Let_def fail_good)
next
  case False
  then have "mark_of (parse_url_char (p_state r) ch) = Some Url"
    using parse_url_char_states by blast
  then show ?thesis
    using False assms by (auto simp: next_url_state_def Let_def run_ok_def url_state_ok le_SucI)
qed

lemma exec_url_good:
  assumes "tame S" "run_ok 1 p r" "p < n" and s: "p_state r = s_req_spaces_before_url \<or> mark_of (p_state r) = Some Url"
  shows "good n p (rank (p_state r)) (exec_url S text p ch r)"
proof (cases "p_state r = s_req_spaces_before_url")
  case True
  note f = run_facts [OF assms(1,2)]
  have m: "marks r = (\<lambda>_. None)"
    by (rule marks_start [OF assms(2)]) (simp add: True mark_of_def)
  show ?thesis
    using assms(3) True
    by (simp add: exec_url_def Let_def; intro impI conjI next_url_state_good [where x = "Some p"];
        simp add: MARK_def m ok_defs f(1) rank_def)
next
  case False
  note f = run_facts [OF assms(1,2)]
  have url: "mark_of (p_state r) = Some Url"
    using False s by simp
  obtain x where m: "marks r = (\<lambda>_. None)(Url := x)" and x: "\<And>a. x = Some a \<Longrightarrow> a \<le> p"
    using marks_single [OF assms(2) url] by auto
  have goto_ok: "state_ok 0 s_req_http_start P" "state_ok 0 s_req_line_almost_done P"
      "state_ok 0 s_header_field_start P" for P :: "'a http_parser"
    by (simp_all add: state_ok_def CHUNK_STATES_def)
  show ?thesis
    using assms(3) False
    by (auto simp: exec_url_def run_ok_def goto_ok f(1) m
        intro!: good_rules next_url_state_good [OF f(1) assms(3) m x] assms(1))
qed

lemma exec_req_version_good:
  assumes "tame S" "run_ok 1 p r" "p < n"
    and s: "p_state r \<in> {s_req_http_start, s_req_http_H, s_req_http_HT, s_req_http_HTT, s_req_http_HTTP,
                s_req_first_http_major, s_req_http_major, s_req_first_http_minor, s_req_http_minor,
                s_req_line_almost_done}"
  shows "good n p (rank (p_state r)) (exec_req_version p ch r)"
proof -
  note f = run_facts [OF assms(1,2)]
  have m: "marks r = (\<lambda>_. None)"
    by (rule marks_start [OF assms(2)]) (use s in \<open>elim insertE; simp add: mark_of_def\<close>)
  from s show ?thesis
    using assms(3)
    by (elim insertE; simp add: exec_req_version_def Let_def; intro impI conjI good_rules; simp add: ok_defs f(1) m)
qed

lemma exec_header_field_start_good:
  assumes "tame S" "run_ok 1 p r" "p < n" and s: "p_state r = s_header_field_start"
  shows "good n p (rank (p_state r)) (exec_header_field_start p ch r)"
proof -
  note f = run_facts [OF assms(1,2)]
  have m: "marks r = (\<lambda>_. None)"
    by (rule marks_start [OF assms(2)]) (simp add: s mark_of_def)
  show ?thesis
    using assms(3) s
    by (simp add: exec_header_field_start_def Let_def; intro impI conjI good_rules;
        simp add: ok_defs f(1) m MARK_def mark_of_def rank_def FIELD_STATES_def)
qed

lemma match_char_total: "\<exists>h j. match_char name going found lost c i = Some (h, j) \<and> h \<in> {going, found, lost}"
proof (cases "(i + 1) mod 256 > length name")
  case False
  then obtain e where "string_at name ((i + 1) mod 256) = Some e"
    using string_at_bound [of "(i + 1) mod 256" name] by auto
  then show ?thesis
    using False by (simp add: match_char_def Let_def)
qed (simp add: match_char_def Let_def)

lemma FIELD_STATES_members [simp]:
  "h_general \<in> FIELD_STATES" "h_C \<in> FIELD_STATES" "h_CO \<in> FIELD_STATES" "h_CON \<in> FIELD_STATES"
  "h_matching_connection \<in> FIELD_STATES" "h_matching_proxy_connection \<in> FIELD_STATES"
  "h_matching_content_length \<in> FIELD_STATES" "h_matching_transfer_encoding \<in> FIELD_STATES"
  "h_matching_upgrade \<in> FIELD_STATES" "h_connection \<in> FIELD_STATES" "h_content_length \<in> FIELD_STATES"
  "h_transfer_encoding \<in> FIELD_STATES" "h_upgrade \<in> FIELD_STATES"
  by (simp_all add: FIELD_STATES_def)

lemma field_char_stays:
  assumes "h \<in> FIELD_STATES"
  shows "\<exists>h' j. field_char ch c h i = Some (h', j) \<and> h' \<in> FIELD_STATES"
proof -
  have match: "\<exists>h'. (\<exists>j. match_char name going found h_general c i = Some (h', j)) \<and> h' \<in> FIELD_STATES"
    if "going \<in> FIELD_STATES" "found \<in> FIELD_STATES" for name going found
    using match_char_total [of name going found h_general c i] that by (auto simp: FIELD_STATES_def)
  show ?thesis
    using assms by (cases h; simp add: field_char_def match; simp add: FIELD_STATES_def)
qed

lemma field_loop_stays:
  "h \<in> FIELD_STATES \<Longrightarrow>
   \<exists>ch' h' i' q. field_loop p ch h i s = Some (q, ch', h', i') \<and> h' \<in> FIELD_STATES \<and> p \<le> q \<and> q \<le> p + length s"
proof (induction s arbitrary: p ch h i)
  case Nil
  then show ?case by simp
next
  case (Cons c s)
  obtain h' j where step: "field_char c (TOKEN c) h i = Some (h', j)" "h' \<in> FIELD_STATES"
    using field_char_stays [OF Cons.prems] by blast
  obtain ch' h'' i' q where "field_loop (p + 1) c h' j s = Some (q, ch', h'', i')" "h'' \<in> FIELD_STATES"
      "p + 1 \<le> q" "q \<le> p + 1 + length s"
    using Cons.IH [OF step(2)] by blast
  then show ?case
    using step(1) Cons.prems by (auto simp: Let_def)
qed

lemma exec_header_field_good:
  assumes "tame S" "run_ok 1 p r" "p < n" "n = length text" and s: "p_state r = s_header_field"
  shows "good n p (rank (p_state r)) (exec_header_field S text p ch r)"
proof -
  note f = run_facts [OF assms(1,2)]
  obtain x where m: "marks r = (\<lambda>_. None)(Header_Field := x)" and x: "\<And>a. x = Some a \<Longrightarrow> a \<le> p"
    using marks_single [OF assms(2), of Header_Field] s by (auto simp: mark_of_def)
  have "header_state (parser r) \<in> FIELD_STATES"
    using f(2) s by (simp add: state_ok_def)
  from field_loop_stays [OF this]
  obtain ch' h i q where loop: "field_loop p ch (header_state (parser r)) (index (parser r)) (drop p text)
      = Some (q, ch', h, i)" and h: "h \<in> FIELD_STATES" and q: "p \<le> q" "q \<le> n"
    using assms(3,4) by (metis (no_types) le_add_diff_inverse length_drop less_imp_le)
  show ?thesis
  proof (cases "q = n")
    case True
    have "a \<le> Suc (n - 1)" if "x = Some a" for a
      using x [OF that] assms(3) by simp
    then show ?thesis
      unfolding exec_header_field_def loop using True assms(3)
      by (simp add: assms(4) [symmetric]; intro good_rules; simp add: s h f(1) ok_defs m mark_of_def)
  next
    case False
    then show ?thesis
      unfolding exec_header_field_def loop using q assms(3)
      by (simp add: assms(4) [symmetric]; intro good_rules; simp add: s h f(1); intro good_rules impI conjI assms(1);
          simp add: f(1) ok_defs m)
  qed
qed

end
