(* ===== verification/Http_Safe.thy ===== *)
theory Http_Safe
  imports Http_Invariant
begin

text \<open>
  The invariant of the message parser over the rest of the switch (header values, the end of the headers,
  bodies and chunks) and over the loop: a call with well-behaved callbacks is safe and total.
\<close>

subsection \<open>Header values\<close>

lemma exec_header_value_start_good:
  assumes "tame S" "run_ok 1 p r" "p < n"
    and s: "p_state r = s_header_value_start \<or> p_state r = s_header_value_discard_ws"
  shows "good n p (rank (p_state r)) (exec_header_value_start p ch r)"
proof -
  note f = run_facts [OF assms(1,2)]
  have m: "marks r = (\<lambda>_. None)"
    by (rule marks_start [OF assms(2)]) (use s in \<open>elim disjE; simp add: mark_of_def\<close>)
  from s show ?thesis
    using assms(3)
    by (elim disjE; simp add: exec_header_value_start_def Let_def; intro impI conjI good_rules;
        simp add: ok_defs f(1) m MARK_def mark_of_def)
qed

lemma exec_header_value_discard_ws_good:
  assumes "tame S" "run_ok 1 p r" "p < n" and s: "p_state r = s_header_value_discard_ws"
  shows "good n p (rank (p_state r)) (exec_header_value_discard_ws p ch r)"
proof -
  note f = run_facts [OF assms(1,2)]
  have m: "marks r = (\<lambda>_. None)"
    by (rule marks_start [OF assms(2)]) (simp add: s mark_of_def)
  show ?thesis
    using exec_header_value_start_good [OF assms(1-3)] assms(3) s
    by (simp add: exec_header_value_discard_ws_def; intro impI conjI; simp add: ok_defs f(1) m)
qed

definition VALUE_STATES :: "header_states set" where
  "VALUE_STATES = {h. h \<noteq> h_connection \<and> h \<noteq> h_transfer_encoding}"

lemma match_value_next:
  "\<exists>h' i. match_value name going found lost c r = Value_Next h' (r\<lparr>parser := (parser r)\<lparr>index := i\<rparr>\<rparr>) \<and>
     h' \<in> {going, found, lost}"
  using match_char_total [of name going found lost c "index (parser r)"] by (auto simp: match_value_def)

definition value_step_ok :: "'u run \<Rightarrow> 'u value_step \<Rightarrow> bool" where
  "value_step_ok r v \<longleftrightarrow>
     (case v of
        Value_Abort \<Rightarrow> False
      | Value_Error e \<Rightarrow> e = HPE_INVALID_CONTENT_LENGTH
      | Value_Next h r' \<Rightarrow> h \<in> VALUE_STATES \<and> p_state r' = s_header_value \<and> marks r' = marks r \<and>
          http_errno (parser r') = http_errno (parser r))"

lemma value_char_ok:
  assumes "h \<in> VALUE_STATES" "p_state r = s_header_value"
  shows "value_step_ok r (value_char ch h r)"
proof -
  have match: "value_step_ok r (match_value name going found lost c r)"
    if "{going, found, lost} \<subseteq> VALUE_STATES" for name going found lost c
    using match_value_next [of name going found lost c r] that assms(2) by (auto simp: value_step_ok_def)
  have number: "value_step_ok r (content_length_char ch r)"
    using assms(2) by (simp add: content_length_char_def value_step_ok_def VALUE_STATES_def Let_def)
  show ?thesis
    using assms
    by (cases h; simp add: value_char_def Let_def number; (intro match)?; simp add: value_step_ok_def VALUE_STATES_def)
qed

lemma value_done_good:
  assumes "http_errno (parser r) = HPE_OK" "start < n" "start \<le> p" "p \<le> n" "n = length input"
    and "p_state r = s_header_almost_done \<and> marks r = (\<lambda>_. None) \<or>
         p_state r = s_header_value \<and> h \<in> VALUE_STATES \<and> marks r = (\<lambda>_. None)(Header_Value := x) \<and>
           (\<forall>a. x = Some a \<longrightarrow> a \<le> start)"
  shows "good n start k (value_done input start p h r)"
  using assms unfolding value_done_def
  by (intro good_rules; elim disjE conjE; fastforce simp: ok_defs mark_of_def VALUE_STATES_def)

lemma general_span_length: "general_span s \<le> length s"
proof -
  have "length (takeWhile P (take k s)) \<le> length s" for P k
    using length_takeWhile_le [of P "take k s"] by simp
  then show ?thesis
    by (simp add: general_span_def Let_def)
qed

lemma value_loop_good:
  assumes "tame S"
  shows "\<lbrakk>p_state r = s_header_value; h \<in> VALUE_STATES; http_errno (parser r) = HPE_OK;
     marks r = (\<lambda>_. None)(Header_Value := x); \<forall>a. x = Some a \<longrightarrow> a \<le> start; start < length input; start \<le> p;
     p + length s = length input\<rbrakk> \<Longrightarrow> good (length input) start 2 (value_loop S input start p h r s)"
  using assms
proof (induction S input start p h r s rule: value_loop.induct)
  case (1 S input start p h r)
  show ?case
    unfolding value_loop.simps
    by (rule value_done_good [OF "1"(3) "1"(6,7)]) (use "1"(1,2,4,5,8) in \<open>simp, simp, blast\<close>)
next
  case (2 S input start p h r ch s)
  note prems = "2.prems"
  have cleared: "(marks r)(Header_Value := None) = (\<lambda>_. None)"
    unfolding prems(4) by (rule ext) simp
  consider "ch = CR" | "ch = LF" "ch \<noteq> CR" | "ch \<noteq> CR" "ch \<noteq> LF" "h = h_general"
    | "ch \<noteq> CR" "ch \<noteq> LF" "h \<noteq> h_general" by blast
  then show ?case
  proof cases
    case 1
    then show ?thesis
      using prems(1-3,5-) cleared
      by (simp; intro good_rules; (intro value_done_good)?; simp add: ok_defs)
  next
    case 2
    then show ?thesis
      using prems(1-3,5-) cleared
      by (simp; intro good_rules; simp add: ok_defs rank_def)
  next
    case 3
    have "general_span (ch # s) \<le> length (ch # s)"
      by (rule general_span_length)
    then show ?thesis
      using prems 3 "2.IH"(1) [OF 3] by simp
  next
    case 4
    have step: "value_step_ok r (value_char ch h r)"
      using prems by (intro value_char_ok)
    show ?thesis
    proof (cases "value_char ch h r")
      case (Value_Next h' r')
      then show ?thesis
        using prems 4 "2.IH"(2) [OF 4 Value_Next] step by (simp add: value_step_ok_def)
    qed (use step prems 4 in \<open>simp_all add: value_step_ok_def fail_good\<close>)
  qed
qed

lemma exec_header_value_good:
  assumes "tame S" "run_ok 1 p r" "p < n" "n = length input" and s: "p_state r = s_header_value"
  shows "good n p (rank (p_state r)) (exec_header_value S input p ch r)"
proof -
  note f = run_facts [OF assms(1,2)]
  obtain x where m: "marks r = (\<lambda>_. None)(Header_Value := x)" and x: "\<And>a. x = Some a \<Longrightarrow> a \<le> p"
    using marks_single [OF assms(2), of Header_Value] s by (auto simp: mark_of_def)
  have "good (length input) p 2 (value_loop S input p p (header_state (parser r)) r (drop p input))"
    by (rule value_loop_good [OF assms(1) s _ _ m])
      (use f(1,2) s x assms(3,4) in \<open>simp_all add: state_ok_def VALUE_STATES_def\<close>)
  then show ?thesis
    by (simp add: exec_header_value_def s assms(4) rank_def)
qed

lemma exec_header_value_end_good:
  assumes "tame S" "run_ok 1 p r" "p < n"
    and s: "p_state r \<in> {s_header_almost_done, s_header_value_lws, s_header_value_discard_ws_almost_done,
                s_header_value_discard_lws}"
  shows "good n p (rank (p_state r)) (exec_header_value_end S input p ch r)"
proof -
  note f = run_facts [OF assms(1,2)]
  have m: "marks r = (\<lambda>_. None)"
    by (rule marks_start [OF assms(2)]) (use s in \<open>elim insertE; simp add: mark_of_def\<close>)
  from s show ?thesis
    using assms(3)
    by (elim insertE; simp add: exec_header_value_end_def; intro impI conjI good_rules assms(1);
        simp add: ok_defs f(1) m MARK_def rank_def)
qed

subsection \<open>The end of the headers\<close>

lemma exec_headers_almost_done_good:
  assumes "tame S" "run_ok 1 p r" "p < n" and s: "p_state r = s_headers_almost_done"
  shows "good n p (rank (p_state r)) (exec_headers_almost_done S p ch r)"
proof -
  note f = run_facts [OF assms(1,2)]
  have m: "marks r = (\<lambda>_. None)"
    by (rule marks_start [OF assms(2)]) (simp add: s mark_of_def)
  show ?thesis
  proof (cases "F_TRAILING \<in> flags (parser r)")
    case True
    then show ?thesis
      using assms(3) s
      by (simp add: exec_headers_almost_done_def; intro good_rules f; simp add: ok_defs f(1) m rank_def)
  next
    case False
    let ?P = "(parser r)\<lparr>upgrade := ({F_UPGRADE, F_CONNECTION_UPGRADE} \<subseteq> flags (parser r) \<or>
                  http_method (parser r) = HTTP_CONNECT)\<rparr>"
    have ok: "state_ok k s_headers_done P'" for k and P' :: "'a http_parser"
      by (simp add: state_ok_def CHUNK_STATES_def)
    show ?thesis
    proof (cases "on_headers_complete S")
      case None
      then show ?thesis
        using assms(3) s False
        by (simp add: exec_headers_almost_done_def Let_def f(1); intro good_rules; simp add: run_ok_def ok f(1) m rank_def)
    next
      case (Some h)
      obtain res P where call: "h ?P = (res, P)" by fastforce
      obtain e d where P: "P = ?P\<lparr>http_errno := e, data := d\<rparr>"
        using f(5) Some call unfolding tame_cb_def by (metis snd_conv)
      show ?thesis
        using assms(3) s False Some call
        by (simp add: exec_headers_almost_done_def Let_def; intro impI conjI good_rules;
            simp add: run_ok_def ok m rank_def RETURN_def SET_ERRNO_def parser_ok_def P)

    qed
  qed
qed


lemma state_ok_at:
  "state_ok k s_chunk_size_start P \<longleftrightarrow> F_CHUNKED \<in> flags P \<and> nread P = k"
  "state_ok k s_body_identity P \<longleftrightarrow> content_length P \<noteq> 0 \<and> content_length P \<noteq> ULLONG_MAX"
  "state_ok k s_body_identity_eof P"
  by (auto simp: state_ok_def CHUNK_STATES_def)

lemma exec_headers_done_good:
  assumes "tame S" "run_ok 1 p r" "p < n" and s: "p_state r = s_headers_done"
  shows "good n p (rank (p_state r)) (exec_headers_done S p ch r)"
proof -
  note f = run_facts [OF assms(1,2)]
  have m: "marks r = (\<lambda>_. None)"
    by (rule marks_start [OF assms(2)]) (simp add: s mark_of_def)
  show ?thesis
    using assms(3) s
    by (simp add: exec_headers_done_def Let_def; intro good_rules impI conjI f; (simp only: f(1))?;
        simp add: run_ok_def state_ok_at f(1) m RETURN_def parser_ok_def)
qed

subsection \<open>Bodies\<close>

lemma unat_minus_read:
  fixes c :: "64 word"
  shows "unat (c - of_nat (min (unat c) k)) = unat c - min (unat c) k"
proof -
  let ?j = "min (unat c) k"
  have "unat c < 2 ^ 64"
    using unsigned_less [of c, where 'a = nat] by simp
  then have "?j < 2 ^ 64" by simp
  then have "unat (of_nat ?j :: 64 word) = ?j"
    by (simp add: unsigned_of_nat take_bit_nat_eq_self)
  then show ?thesis
    by (simp add: unat_sub word_le_nat_alt)
qed

lemma left_over_not_max:
  fixes c :: "64 word"
  assumes "c \<noteq> ULLONG_MAX"
  shows "c - of_nat (min (unat c) k) \<noteq> ULLONG_MAX"
proof
  assume "c - of_nat (min (unat c) k) = ULLONG_MAX"
  then have "unat c - min (unat c) k = unat (ULLONG_MAX :: 64 word)"
    using unat_minus_read [of c k] by simp
  moreover have "unat c \<noteq> unat (ULLONG_MAX :: 64 word)" "unat c \<le> unat (ULLONG_MAX :: 64 word)"
    using assms by (auto simp: ULLONG_MAX_def word_le_nat_alt [symmetric] dest: unsigned_word_eqI)
  ultimately show False by arith
qed

lemma exec_body_good:
  assumes "tame S" "run_ok 1 p r" "p < n" "n = length input"
    and s: "p_state r \<in> {s_body_identity, s_body_identity_eof, s_message_done}"
  shows "good n p (rank (p_state r)) (exec_body S input p ch r)"
  using s
proof (elim insertE)
  note f = run_facts [OF assms(1,2)]
  assume s: "p_state r = s_body_identity"
  let ?c = "content_length (parser r)"
  define k where "k = min (unat ?c) (n - p)"
  obtain x where m: "marks r = (\<lambda>_. None)(Body := x)" and x: "\<And>a. x = Some a \<Longrightarrow> a \<le> p"
    using marks_single [OF assms(2), of Body] s by (auto simp: mark_of_def)
  have c: "?c \<noteq> 0" "?c \<noteq> ULLONG_MAX"
    using f(2) s by (simp_all add: state_ok_def)
  then have "0 < k" "k \<le> n - p"
    using assms(3) by (auto simp: k_def unat_gt_0)
  then have k: "0 < k" "p + k \<le> n" "p \<le> p + k - Suc 0" "p + k - Suc 0 < n"
    using assms(3) by simp_all
  obtain y where m': "marks (MARK Body p r) = (\<lambda>_. None)(Body := Some y)" "y \<le> p"
    using m x by (cases x) (auto simp: MARK_def fun_upd_def)
  show ?thesis
    using assms(3) s c k m'(2) left_over_not_max [OF c(2), of "n - p", folded k_def]
    by (simp add: exec_body_def Let_def assms(4) [symmetric] k_def [symmetric]; intro impI conjI good_rules assms(1);
        simp add: ok_defs f(1) m'(1) rank_def mark_of_def le_SucI trans_le_add1)
next
  note f = run_facts [OF assms(1,2)]
  assume s: "p_state r = s_body_identity_eof"
  obtain x where m: "marks r = (\<lambda>_. None)(Body := x)" and x: "\<And>a. x = Some a \<Longrightarrow> a \<le> p"
    using marks_single [OF assms(2), of Body] s by (auto simp: mark_of_def)
  obtain y where m': "marks (MARK Body p r) = (\<lambda>_. None)(Body := Some y)" "y \<le> p"
    using m x by (cases x) (auto simp: MARK_def fun_upd_def)
  show ?thesis
    using assms(3) s m'(2) by (simp add: exec_body_def assms(4) [symmetric]) (simp add: ok_defs f(1) m'(1) mark_of_def)
next
  note f = run_facts [OF assms(1,2)]
  assume s: "p_state r = s_message_done"
  have m: "marks r = (\<lambda>_. None)"
    by (rule marks_start [OF assms(2)]) (simp add: s mark_of_def)
  show ?thesis
    using assms(3) s
    by (simp add: exec_body_def; intro good_rules f; simp add: f(1); simp add: run_ok_def f(1) m RETURN_def parser_ok_def)
qed simp

subsection \<open>Chunks\<close>

lemma unhex_digit: "unhex c \<noteq> -1 \<Longrightarrow> 0 \<le> unhex c \<and> unhex c \<le> 15"
  by (simp add: unhex_def IS_NUM_def ord_def split: if_splits)

lemma small_number_not_max: "m < 18446744073709551615 \<Longrightarrow> (of_nat m :: 64 word) \<noteq> ULLONG_MAX"
proof
  assume m: "m < 18446744073709551615" and "(of_nat m :: 64 word) = ULLONG_MAX"
  then have "unat (of_nat m :: 64 word) = unat (ULLONG_MAX :: 64 word)" by simp
  moreover have "unat (of_nat m :: 64 word) = m"
    using m by (simp add: unsigned_of_nat take_bit_nat_eq_self)
  moreover have "unat (ULLONG_MAX :: 64 word) = 18446744073709551615"
    by (simp add: ULLONG_MAX_def unsigned_minus_1_eq_mask mask_eq_exp_minus_1)
  ultimately show False
    using m by simp
qed

lemma hex_not_max:
  assumes "0 \<le> u" "u \<le> 15"
  shows "(word_of_int u :: 64 word) \<noteq> ULLONG_MAX"
proof -
  have "(word_of_int u :: 64 word) = of_nat (nat u)"
    using assms by simp
  then show ?thesis
    using small_number_not_max [of "nat u"] assms by simp
qed

lemma more_hex_not_max:
  fixes c :: "64 word"
  assumes "\<not> (ULLONG_MAX - 16) div 16 < c" "0 \<le> u" "u \<le> 15"
  shows "c * 16 + word_of_int u \<noteq> ULLONG_MAX"
proof -
  have "(ULLONG_MAX - 16) div 16 = (1152921504606846974 :: 64 word)"
    by (simp add: ULLONG_MAX_def)
  then have "c \<le> 1152921504606846974"
    using assms(1) by (simp add: not_less)
  then have "unat c \<le> 1152921504606846974"
    by (simp add: word_le_nat_alt)
  then have "of_nat (unat c * 16 + nat u) \<noteq> (ULLONG_MAX :: 64 word)"
    using assms by (intro small_number_not_max) simp
  then show ?thesis
    using assms(2) by simp
qed

lemma exec_chunk_size_good:
  assumes "tame S" "run_ok 1 p r" "p < n"
    and s: "p_state r \<in> {s_chunk_size_start, s_chunk_size, s_chunk_parameters}"
  shows "good n p (rank (p_state r)) (exec_chunk_size p ch r)"
proof -
  note f = run_facts [OF assms(1,2)]
  have m: "marks r = (\<lambda>_. None)"
    by (rule marks_start [OF assms(2)]) (use s in \<open>elim insertE; simp add: mark_of_def\<close>)
  have c: "F_CHUNKED \<in> flags (parser r)"
    using f(2) s by (auto simp: state_ok_def CHUNK_STATES_def)
  from s show ?thesis
    using assms(3) f(2) c unhex_digit [of ch]
    by (elim insertE; simp add: exec_chunk_size_def Let_def; intro impI conjI good_rules;
        simp add: ok_defs f(1) m hex_not_max more_hex_not_max)
qed

lemma exec_chunk_data_good:
  assumes "tame S" "run_ok 1 p r" "p < n" "n = length input"
    and s: "p_state r \<in> {s_chunk_size_almost_done, s_chunk_data, s_chunk_data_almost_done, s_chunk_data_done}"
  shows "good n p (rank (p_state r)) (exec_chunk_data S input p ch r)"
proof -
  note f = run_facts [OF assms(1,2)]
  have ch: "F_CHUNKED \<in> flags (parser r)"
    using f(2) s by (auto simp: state_ok_def CHUNK_STATES_def)
  from s show ?thesis
  proof (elim insertE)
    assume s: "p_state r = s_chunk_data"
    let ?c = "content_length (parser r)"
    define k where "k = min (unat ?c) (n - p)"
    obtain x where m: "marks r = (\<lambda>_. None)(Body := x)" and x: "\<And>a. x = Some a \<Longrightarrow> a \<le> p"
      using marks_single [OF assms(2), of Body] s by (auto simp: mark_of_def)
    have c: "?c \<noteq> 0" "?c \<noteq> ULLONG_MAX"
      using f(2) s by (simp_all add: state_ok_def)
    then have "0 < k" "k \<le> n - p"
      using assms(3) by (auto simp: k_def unat_gt_0)
    then have k: "0 < k" "p + k \<le> n" "p \<le> p + k - Suc 0" "p + k - Suc 0 < n"
      using assms(3) by simp_all
    obtain y where m': "marks (MARK Body p r) = (\<lambda>_. None)(Body := Some y)" "y \<le> p"
      using m x by (cases x) (auto simp: MARK_def fun_upd_def)
    show ?thesis
      using assms(3) s c k m'(2) ch left_over_not_max [OF c(2), of "n - p", folded k_def]
      by (simp add: exec_chunk_data_def Let_def assms(4) [symmetric] k_def [symmetric]; intro impI conjI;
          simp add: ok_defs f(1) m'(1) mark_of_def le_SucI trans_le_add1)
  next
    assume s: "p_state r = s_chunk_data_almost_done"
    obtain x where m: "marks r = (\<lambda>_. None)(Body := x)" and x: "\<And>a. x = Some a \<Longrightarrow> a \<le> p"
      using marks_single [OF assms(2), of Body] s by (auto simp: mark_of_def)
    have c: "content_length (parser r) = 0"
      using f(2) s by (simp add: state_ok_def)
    show ?thesis
      using assms(3) s c ch
      by (simp add: exec_chunk_data_def; intro good_rules assms(1); simp add: ok_defs f(1) m mark_of_def)
  next
    assume s: "p_state r = s_chunk_size_almost_done"
    have m: "marks r = (\<lambda>_. None)"
      by (rule marks_start [OF assms(2)]) (simp add: s mark_of_def)
    show ?thesis
      using assms(3) s f(2) ch
      by (simp add: exec_chunk_data_def Let_def; intro impI conjI good_rules f; simp add: ok_defs f(1) m)
  next
    assume s: "p_state r = s_chunk_data_done"
    have m: "marks r = (\<lambda>_. None)"
      by (rule marks_start [OF assms(2)]) (simp add: s mark_of_def)
    show ?thesis
      using assms(3) s ch
      by (simp add: exec_chunk_data_def Let_def; intro good_rules f; simp add: ok_defs f(1) m)
  qed simp
qed

subsection \<open>The loop over the text\<close>

lemma if_good: "(c \<Longrightarrow> good n p k a) \<Longrightarrow> (\<not> c \<Longrightarrow> good n p k b) \<Longrightarrow> good n p k (if c then a else b)"
  by simp

lemma other_states:
  assumes "s \<notin> {s_dead, s_start_req_or_res, s_res_or_resp_H, s_start_res, s_res_H, s_res_HT, s_res_HTT, s_res_HTTP}"
    "s \<notin> {s_res_first_http_major, s_res_http_major, s_res_first_http_minor, s_res_http_minor,
                s_res_first_status_code, s_res_status_code, s_res_status_start, s_res_status, s_res_line_almost_done}"
    "s \<noteq> s_start_req" "s \<noteq> s_req_method"
    "s \<notin> {s_req_spaces_before_url, s_req_schema, s_req_schema_slash, s_req_schema_slash_slash,
                s_req_server_start, s_req_server, s_req_server_with_at, s_req_path, s_req_query_string_start,
                s_req_query_string, s_req_fragment_start, s_req_fragment}"
    "s \<notin> {s_req_http_start, s_req_http_H, s_req_http_HT, s_req_http_HTT, s_req_http_HTTP,
                s_req_first_http_major, s_req_http_major, s_req_first_http_minor, s_req_http_minor,
                s_req_line_almost_done}"
    "s \<noteq> s_header_field_start" "s \<noteq> s_header_field" "s \<noteq> s_header_value_discard_ws"
    "s \<noteq> s_header_value_start" "s \<noteq> s_header_value"
    "s \<notin> {s_header_almost_done, s_header_value_lws, s_header_value_discard_ws_almost_done,
                s_header_value_discard_lws}"
    "s \<noteq> s_headers_almost_done" "s \<noteq> s_headers_done"
    "s \<notin> {s_body_identity, s_body_identity_eof, s_message_done}"
    "s \<notin> {s_chunk_size_start, s_chunk_size, s_chunk_parameters}"
  shows "s \<in> {s_chunk_size_almost_done, s_chunk_data, s_chunk_data_almost_done, s_chunk_data_done}"
  using assms by (cases s; simp)

lemma exec_state_good:
  assumes "tame S" "run_ok 1 p r" "p < n" "n = length input"
  shows "good n p (rank (p_state r)) (exec_state S input p ch r)"
proof -
  note A = assms(1-3) and B = assms
  have url: "p_state r = s_req_spaces_before_url \<or> mark_of (p_state r) = Some Url"
    if "p_state r \<in> {s_req_spaces_before_url, s_req_schema, s_req_schema_slash, s_req_schema_slash_slash,
          s_req_server_start, s_req_server, s_req_server_with_at, s_req_path, s_req_query_string_start,
          s_req_query_string, s_req_fragment_start, s_req_fragment}"
    using that by (elim insertE; simp add: mark_of_def)
  show ?thesis
    unfolding exec_state_def Let_def
    by (intro if_good;
        (erule exec_start_good [OF A] exec_status_line_good [OF A] exec_start_req_good [OF A]
           exec_req_method_good [OF A] exec_req_version_good [OF A] exec_header_field_start_good [OF A]
           exec_header_field_good [OF B] exec_header_value_discard_ws_good [OF A] exec_header_value_good [OF B]
           exec_header_value_end_good [OF A] exec_headers_almost_done_good [OF A] exec_headers_done_good [OF A]
           exec_body_good [OF B] exec_chunk_size_good [OF A]
         | (rule exec_url_good [OF A], erule url)
         | (rule exec_header_value_start_good [OF A], erule disjI1)
         | (rule exec_chunk_data_good [OF B], rule other_states; assumption)))
qed

lemma good_later: "good n q k out \<Longrightarrow> p \<le> q \<Longrightarrow> good n p k out"
  by (cases out) auto

lemma exec_char_good:
  assumes "tame S" "n = length input"
  shows "\<lbrakk>run_ok 1 p r; p < n; rank (p_state r) \<le> k\<rbrakk> \<Longrightarrow>
     good n p 0 (exec_char k S input p ch r)"
proof (induction k arbitrary: p r ch)
  case 0
  then show ?case
    by (simp add: rank_def split: if_splits)
next
  case (Suc k)
  have step: "good n p (rank (p_state r)) (exec_state S input p ch r)"
    using exec_state_good [OF assms(1) Suc.prems(1,2) assms(2)] .
  show ?case
  proof (cases "exec_state S input p ch r")
    case (Again q c r')
    then have "good n q 0 (exec_char k S input q c r')"
      using step Suc.prems by (intro Suc.IH) auto
    then show ?thesis
      using Again step good_later by fastforce
  qed (use step in auto)
qed

lemma rank_le_REEXECUTIONS: "rank s \<le> REEXECUTIONS"
  by (simp add: rank_def REEXECUTIONS_def)

lemma state_ok_step: "state_ok 0 s P \<Longrightarrow> state_ok 1 s (P\<lparr>nread := nread P + 1\<rparr>)"
  by (simp add: state_ok_def)

lemma state_ok_other: "\<not> PARSING_HEADER s \<Longrightarrow> state_ok k s P \<longleftrightarrow> state_ok k' s P"
  by (cases "s = s_chunk_size_start"; simp add: PARSING_HEADER_def state_ok_def)

lemma exec_at_good:
  assumes "tame S" "n = length input" "run_ok 0 p r" "p < n"
  shows "good n p 0 (exec_at S input p r)"
proof -
  have start: "run_ok 1 p (set_parser (\<lambda>P. P\<lparr>nread := nread (parser r) + of_nat 1\<rparr>) r)"
    using assms(3) by (simp add: run_ok_def state_ok_step)
  have other: "run_ok 1 p r" if "\<not> PARSING_HEADER (p_state r)"
    using assms(3) state_ok_other [OF that, of 0 "parser r" 1] by (simp add: run_ok_def)
  show ?thesis
  proof (cases "PARSING_HEADER (p_state r)")
    case True
    have "good n p 0 (exec_char REEXECUTIONS S input p (input ! p)
        (set_parser (\<lambda>P. P\<lparr>nread := nread (parser r) + of_nat 1\<rparr>) r))"
      by (rule exec_char_good [OF assms(1,2) start assms(4)]) (simp add: rank_le_REEXECUTIONS)
    then show ?thesis
      unfolding exec_at_def COUNT_HEADER_SIZE_def Let_def if_P [OF True]
      using assms(4) by (intro if_good fail_good) simp_all
  next
    case False
    then show ?thesis
      unfolding exec_at_def if_not_P [OF False]
      by (intro exec_char_good [OF assms(1,2) other assms(4) rank_le_REEXECUTIONS])
  qed
qed

lemma exec_end_good:
  assumes "tame S" "n = length input" "run_ok 0 n r"
  shows "good n p k (exec_end S input r)"
proof -
  note f = run_facts [OF assms(1,3)]
  have few: "\<not> length (filter (\<lambda>m. marks r m \<noteq> None) [Header_Field, Header_Value, Url, Body, Status]) > 1"
  proof (cases "mark_of (p_state r)")
    case None
    then show ?thesis
      using marks_start [OF assms(3)] by simp
  next
    case (Some m)
    from marks_single [OF assms(3) this] obtain x where "marks r = (\<lambda>_. None)(m := x)" by auto
    then show ?thesis by (cases m) simp_all
  qed
  show ?thesis
    unfolding exec_end_def Let_def if_not_P [OF few] assms(2) [symmetric]
    by (intro CALLBACK_DATA_good assms(1); simp add: f(1,2) RETURN_def parser_ok_def)
qed

lemma good_at_end: "good n n k out \<Longrightarrow> \<exists>m P. out = Return m P \<and> good n q j out"
  by (cases out) auto

lemma exec_loop_good:
  assumes "tame S" "n = length input"
  shows "\<lbrakk>run_ok 0 p r; p \<le> n; n < p + k\<rbrakk> \<Longrightarrow>
     \<exists>m P. exec_loop k S input p r = Return m P \<and> good n 0 0 (Return m P)"
proof (induction k arbitrary: p r)
  case 0
  then show ?case by simp
next
  case (Suc k)
  show ?case
  proof (cases "p = n")
    case True
    then have "good n n 0 (exec_end S input r)"
      using exec_end_good [OF assms] Suc.prems by simp
    then show ?thesis
      using good_at_end True assms(2) by fastforce
  next
    case False
    then have step: "good n p 0 (exec_at S input p r)"
      using Suc.prems by (intro exec_at_good [OF assms]) simp_all
    show ?thesis
    proof (cases "exec_at S input p r")
      case (Continue q r')
      then have "\<exists>m P. exec_loop k S input (q + 1) r' = Return m P \<and> good n 0 0 (Return m P)"
        using step Suc.prems by (intro Suc.IH) auto
      then show ?thesis
        using Continue False Suc.prems assms(2) by simp
    qed (use step False Suc.prems assms(2) in auto)
  qed
qed

lemma exec_marks_ok: "marks_ok 0 s (exec_marks s)"
proof -
  have "mark_of s = Some m" if "exec_marks s m = Some a" for m a
    using that by (cases m; cases s; simp add: exec_marks_def mark_of_def)
  moreover have "a = 0" if "exec_marks s m = Some a" for m a
    using that by (simp add: exec_marks_def split: if_splits)
  ultimately show ?thesis
    by (simp add: marks_ok_def)
qed

subsection \<open>The call\<close>

lemma init_ok: "parser_ok (http_parser_init P t)"
  by (cases t) (simp_all add: http_parser_init_def parser_ok_def state_ok_def CHUNK_STATES_def)

lemma pause_ok: "parser_ok P \<Longrightarrow> http_parser_pause P b = Some P' \<Longrightarrow> parser_ok P'"
  by (auto simp: http_parser_pause_def parser_ok_def split: if_splits)

lemma execute_end_of_input:
  assumes "tame S" "parser_ok P" "http_errno P = HPE_OK"
  shows "\<exists>k P'. http_parser_execute S P [] = Return k P' \<and> parser_ok P'"
proof -
  have P: "state_ok 0 (state P) P"
    using assms(2,3) by (simp add: parser_ok_def)
  consider "state P = s_body_identity_eof" "on_message_complete S = None"
    | f where "state P = s_body_identity_eof" "on_message_complete S = Some f"
    | "state P \<noteq> s_body_identity_eof" by blast
  then show ?thesis
  proof cases
    case 1
    then show ?thesis
      using assms by (simp add: http_parser_execute_def CALLBACK_NOTIFY_def Let_def)
  next
    case (2 f)
    obtain res P' where call: "f (P\<lparr>state := s_body_identity_eof\<rparr>) = (res, P')" by fastforce
    have "tame_cb (on_message_complete S)"
      using assms(1) by (simp add: tame_def)
    then obtain e d where "P' = P\<lparr>state := s_body_identity_eof, http_errno := e, data := d\<rparr>"
      using 2(2) call unfolding tame_cb_def by (metis snd_conv)
    then show ?thesis
      using 2 assms(3) P call
      by (simp add: http_parser_execute_def CALLBACK_NOTIFY_def Let_def parser_ok_def)
  next
    case 3
    then show ?thesis
      using assms(2,3) by (simp add: http_parser_execute_def SET_ERRNO_def parser_ok_def Let_def)
  qed
qed

text \<open>
  C7: A call of the parser is safe and total.  With callbacks that change nothing but the error number
  and their own data, on a parser as \<open>http_parser_init\<close>, a call or \<open>http_parser_pause\<close> left it: whatever
  the bytes of the text and wherever it is cut, no assertion fails, no character outside the text or
  behind a name constant is read, the jumps back end, and the call leaves such a parser again.  It
  reports no more characters than it got, and all of them unless there is an error or an upgrade.
\<close>

theorem http_execute_safe:
  assumes "tame S" "parser_ok P"
  shows "parser_ok (http_parser_init Q t) \<and>
    (\<forall>b P'. http_parser_pause P b = Some P' \<longrightarrow> parser_ok P') \<and>
    (\<exists>k P'. http_parser_execute S P input = Return k P' \<and> parser_ok P' \<and>
       (input \<noteq> [] \<longrightarrow> k \<le> length input) \<and>
       (input \<noteq> [] \<longrightarrow> http_errno P = HPE_OK \<longrightarrow> http_errno P' = HPE_OK \<longrightarrow> upgrade P' \<or> k = length input))"
proof (intro conjI init_ok allI impI)
  show "parser_ok P'" if "http_parser_pause P b = Some P'" for b P'
    using pause_ok assms(2) that .
  let ?r = "\<lparr>parser = P, p_state = state P, marks = exec_marks (state P)\<rparr> :: 'a run"
  consider "http_errno P \<noteq> HPE_OK" | "http_errno P = HPE_OK" "input = []" | "http_errno P = HPE_OK" "input \<noteq> []"
    by blast
  then show "\<exists>k P'. http_parser_execute S P input = Return k P' \<and> parser_ok P' \<and>
       (input \<noteq> [] \<longrightarrow> k \<le> length input) \<and>
       (input \<noteq> [] \<longrightarrow> http_errno P = HPE_OK \<longrightarrow> http_errno P' = HPE_OK \<longrightarrow> upgrade P' \<or> k = length input)"
  proof cases
    case 1
    then show ?thesis
      using assms(2) by (simp add: http_parser_execute_def Let_def)
  next
    case 2
    then show ?thesis
      using execute_end_of_input [OF assms] by auto
  next
    case 3
    then have "run_ok 0 0 ?r"
      using assms(2) exec_marks_ok by (simp add: run_ok_def parser_ok_def)
    then obtain m P' where "exec_loop (length input + 1) S input 0 ?r = Return m P'"
        "good (length input) 0 0 (Return m P')"
      using exec_loop_good [OF assms(1) refl, of 0 ?r input "length input + 1"] by auto
    then show ?thesis
      using 3 by (simp add: http_parser_execute_def Let_def)
  qed
qed

text \<open>Settings that collect the body in the data of the parser.\<close>

definition body_recorder :: "string http_parser_settings" where
  "body_recorder = http_parser_settings_init\<lparr>on_body := Some (\<lambda>P s. (0, P\<lparr>data := data P @ s\<rparr>))\<rparr>"

lemma body_recorder_tame: "tame body_recorder"
proof -
  have "\<exists>e d. P\<lparr>data := data P @ s\<rparr> = P\<lparr>http_errno := e, data := d\<rparr>" for P :: "string http_parser" and s
    by (intro exI [of _ "http_errno P"] exI [of _ "data P @ s"]) (cases P, simp)
  then show ?thesis
    by (simp add: body_recorder_def http_parser_settings_init_def tame_def tame_cb_def tame_data_cb_def
        data_callback_def split: mark.split)
qed

definition fresh_parser :: "string http_parser" where
  "fresh_parser = http_parser_init
     \<lparr>parser_type = HTTP_BOTH, flags = {}, state = s_dead, header_state = h_general, index = 0, nread = 0,
      content_length = 0, http_major = 0, http_minor = 0, status_code = 0, http_method = HTTP_DELETE,
      http_errno = HPE_OK, upgrade = False, data = []\<rparr> HTTP_REQUEST"

theorem http_execute_safe_witness:
  "\<exists>k P'. http_parser_execute body_recorder fresh_parser (''GET / HTTP/1.1'' @ [CR, LF, CR, LF]) = Return k P' \<and>
     k \<le> 18 \<and> parser_ok P'"
proof -
  have "parser_ok fresh_parser"
    by (simp add: fresh_parser_def init_ok)
  from http_execute_safe [OF body_recorder_tame this, where Q = fresh_parser and t = HTTP_REQUEST
      and input = "''GET / HTTP/1.1'' @ [CR, LF, CR, LF]"]
  show ?thesis by force
qed

end
