(* ===== verification/Http_Messages.thy ===== *)
theory Http_Messages
  imports Http_Safe
begin

text \<open>
  What the message parser of \<open>httpclient/src/http_parser.c\<close> makes of content lengths, bodies of known
  length, and two inputs it should refuse or ignore.
\<close>

subsection \<open>Content lengths\<close>

text \<open>The number that digits continue, blanks left out.\<close>

definition continue_number :: "nat \<Rightarrow> string \<Rightarrow> nat" where
  "continue_number n ds = foldl (\<lambda>n c. n * 10 + digit c) n (filter (\<lambda>c. c \<noteq> CHR '' '') ds)"

lemma continue_number_simps [simp]:
  "continue_number n [] = n"
  "continue_number n (c # ds) = (if c = CHR '' '' then continue_number n ds else continue_number (n * 10 + digit c) ds)"
  by (simp_all add: continue_number_def)

lemma continue_number_mono: "n \<le> continue_number n ds"
proof (induction ds arbitrary: n)
  case (Cons c ds)
  have "n \<le> n * 10 + digit c" by simp
  also have "\<dots> \<le> continue_number (n * 10 + digit c) ds" by (rule Cons.IH)
  finally show ?case
    using Cons.IH [of n] by simp
qed simp

definition CONTENT_LENGTH_LIMIT :: nat where
  "CONTENT_LENGTH_LIMIT = 18446744073709551610"

lemma content_length_char_digit:
  assumes "IS_NUM ch" "ch \<noteq> CHR '' ''"
  shows "content_length_char ch r =
    (if unat (content_length (parser r)) * 10 + digit ch < CONTENT_LENGTH_LIMIT
     then Value_Next h_content_length (set_parser (\<lambda>P. P\<lparr>content_length :=
       of_nat (unat (content_length P) * 10 + digit ch)\<rparr>) r)
     else Value_Error HPE_INVALID_CONTENT_LENGTH)"
proof -
  let ?c = "content_length (parser r)"
  have d: "digit ch \<le> 9"
    using assms(1) by (simp add: IS_NUM_def digit_def ord_def le_diff_conv)
  have "(ULLONG_MAX - 10) div 10 < ?c \<longleftrightarrow> 1844674407370955160 < unat ?c"
  proof -
    have "(ULLONG_MAX - 10) div 10 = (1844674407370955160 :: 64 word)"
      by (simp add: ULLONG_MAX_def)
    then show ?thesis
      by (simp add: word_less_nat_alt)
  qed
  also have "\<dots> \<longleftrightarrow> \<not> unat ?c * 10 + digit ch < CONTENT_LENGTH_LIMIT"
    using d by (simp add: CONTENT_LENGTH_LIMIT_def) arith
  finally show ?thesis
    using assms by (simp add: content_length_char_def Let_def)
qed

lemma unat_digit_number: "n < CONTENT_LENGTH_LIMIT \<Longrightarrow> unat (of_nat n :: 64 word) = n"
  by (simp add: CONTENT_LENGTH_LIMIT_def unat_of_nat_64)

lemma value_loop_number:
  assumes "\<forall>c \<in> set ds. IS_NUM c \<or> c = CHR '' ''" "unat (content_length (parser r)) < CONTENT_LENGTH_LIMIT"
  shows "if continue_number (unat (content_length (parser r))) ds < CONTENT_LENGTH_LIMIT
    then value_loop S input start p h_content_length r (ds @ s) =
           value_loop S input start (p + length ds) h_content_length
             (set_parser (\<lambda>P. P\<lparr>content_length := of_nat (continue_number (unat (content_length P)) ds)\<rparr>) r) s
    else \<exists>q r'. value_loop S input start p h_content_length r (ds @ s) = fail HPE_INVALID_CONTENT_LENGTH q r'"
  using assms
proof (induction ds arbitrary: p r)
  case Nil
  then show ?case by simp
next
  case (Cons c ds)
  let ?n = "unat (content_length (parser r))"
  have no_eol: "c \<noteq> CR" "c \<noteq> LF"
    using Cons.prems(1) by (auto simp: IS_NUM_def ord_def)
  show ?case
  proof (cases "c = CHR '' ''")
    case True
    then show ?thesis
      using Cons.IH [of r "Suc p"] Cons.prems no_eol
      by (cases "continue_number ?n ds < CONTENT_LENGTH_LIMIT") (simp_all add: value_char_def content_length_char_def)
  next
    case False
    then have num: "IS_NUM c"
      using Cons.prems(1) by simp
    show ?thesis
    proof (cases "?n * 10 + digit c < CONTENT_LENGTH_LIMIT")
      case True
      let ?r = "set_parser (\<lambda>P. P\<lparr>content_length := of_nat (?n * 10 + digit c)\<rparr>) r"
      have step: "value_loop S input start p h_content_length r ((c # ds) @ s) =
          value_loop S input start (p + 1) h_content_length ?r (ds @ s)"
        using no_eol True False num by (simp add: value_char_def content_length_char_digit)
      have n: "unat (content_length (parser ?r)) = ?n * 10 + digit c"
        using unat_digit_number [OF True] by simp
      show ?thesis
        using Cons.IH [of ?r "p + 1"] Cons.prems True False
        unfolding step n by (cases "continue_number (?n * 10 + digit c) ds < CONTENT_LENGTH_LIMIT") simp_all
    next
      case big: False
      have "value_loop S input start p h_content_length r ((c # ds) @ s) =
          fail HPE_INVALID_CONTENT_LENGTH p (set_parser (\<lambda>P. P\<lparr>header_state := h_content_length\<rparr>) r)"
        using no_eol big False num by (simp add: value_char_def content_length_char_digit)
      moreover have "\<not> continue_number ?n (c # ds) < CONTENT_LENGTH_LIMIT"
        using big False continue_number_mono [of "?n * 10 + digit c" ds] by simp
      ultimately show ?thesis
        unfolding if_not_P [OF \<open>\<not> continue_number ?n (c # ds) < CONTENT_LENGTH_LIMIT\<close>] by blast
    qed
  qed
qed

lemma COUNT_within:
  assumes "unat (nread (parser r)) + c \<le> HTTP_MAX_HEADER_SIZE"
  shows "COUNT_HEADER_SIZE c p r K = K (set_parser (\<lambda>P. P\<lparr>nread := nread P + of_nat c\<rparr>) r)"
    "unat (nread (parser r) + of_nat c) = unat (nread (parser r)) + c"
proof -
  have small: "unat (nread (parser r)) + c \<le> 81920"
    using assms by (simp add: HTTP_MAX_HEADER_SIZE_def)
  show sum: "unat (nread (parser r) + of_nat c) = unat (nread (parser r)) + c"
  proof -
    have "nread (parser r) + of_nat c = of_nat (unat (nread (parser r)) + c)" by simp
    moreover have "unat (of_nat (unat (nread (parser r)) + c) :: 32 word) = unat (nread (parser r)) + c"
      using small by (simp only: unsigned_of_nat) (simp add: take_bit_nat_eq_self)
    ultimately show ?thesis by simp
  qed
  show "COUNT_HEADER_SIZE c p r K = K (set_parser (\<lambda>P. P\<lparr>nread := nread P + of_nat c\<rparr>) r)"
    using small sum by (simp add: COUNT_HEADER_SIZE_def Let_def HTTP_MAX_HEADER_SIZE_def word_less_nat_alt)
qed

lemma exec_at_header:
  assumes "PARSING_HEADER (p_state r)" "unat (nread (parser r)) + 1 \<le> HTTP_MAX_HEADER_SIZE"
  shows "exec_at S input p r =
    (case exec_state S input p (input ! p) (set_parser (\<lambda>P. P\<lparr>nread := nread P + 1\<rparr>) r) of
       Again q ch r \<Rightarrow> exec_char 5 S input q ch r | res \<Rightarrow> res)"
proof -
  have six: "REEXECUTIONS = Suc 5"
    by (simp add: REEXECUTIONS_def)
  show ?thesis
    unfolding exec_at_def if_P [OF assms(1)] COUNT_within(1) [OF assms(2)] six exec_char.simps by simp
qed

text \<open>The first digit of the value, and the others up to the carriage return.\<close>

lemma content_length_first:
  assumes "http_errno P = HPE_OK" "header_state P = h_content_length" "IS_NUM d"
    and "unat (nread P) + 1 \<le> HTTP_MAX_HEADER_SIZE"
  shows "exec_at S (d # s) 0 \<lparr>parser = P, p_state = s_header_value_discard_ws, marks = (\<lambda>_. None)\<rparr> =
    Continue 0 \<lparr>parser = P\<lparr>nread := nread P + 1, index := 0, content_length := of_nat (digit d)\<rparr>,
      p_state = s_header_value, marks = (\<lambda>_. None)(Header_Value := Some 0)\<rparr>"
proof -
  have "d \<noteq> CHR '' ''" "d \<noteq> CHR 0x09" "d \<noteq> CR" "d \<noteq> LF"
    using assms(3) by (auto simp: IS_NUM_def ord_def)
  then show ?thesis
    using assms
    by (subst exec_at_header) (simp_all add: PARSING_HEADER_def exec_state_def
        exec_header_value_discard_ws_def exec_header_value_start_def Let_def MARK_def)
qed

lemma value_loop_digits:
  fixes r :: "'u run"
  defines "n \<equiv> \<lambda>ds. continue_number (unat (content_length (parser r))) ds"
  assumes "http_errno (parser r) = HPE_OK" "on_header_value S = None" "marks r = (\<lambda>_. None)(Header_Value := Some i)"
    and "\<forall>c \<in> set ds. IS_NUM c \<or> c = CHR '' ''" "unat (content_length (parser r)) < CONTENT_LENGTH_LIMIT"
    and "n ds < CONTENT_LENGTH_LIMIT" "unat (nread (parser r)) + length ds \<le> HTTP_MAX_HEADER_SIZE" "p + length ds < length t"
  shows "value_loop S t p p h_content_length r (ds @ [CR]) =
    Continue (p + length ds) (r\<lparr>parser := (parser r)\<lparr>nread := nread (parser r) + of_nat (length ds),
      content_length := of_nat (n ds), header_state := h_content_length\<rparr>, p_state := s_header_almost_done, marks := (\<lambda>_. None)\<rparr>)"
proof -
  let ?r = "r\<lparr>parser := (parser r)\<lparr>content_length := of_nat (n ds), header_state := h_content_length\<rparr>,
      p_state := s_header_almost_done, marks := (\<lambda>_. None)\<rparr>"
  have "value_loop S t p p h_content_length r (ds @ [CR]) = value_done t p (p + length ds) h_content_length ?r"
    using value_loop_number [OF assms(5,6), of S t p p "[CR]"] assms(2-4,7)
    by (cases r) (simp add: n_def CALLBACK_DATA_def data_callback_def)
  also have "\<dots> = Continue (p + length ds) (set_parser (\<lambda>P. P\<lparr>nread := nread P + of_nat (length ds)\<rparr>) ?r)"
    unfolding value_done_def using assms(8,9) by (subst COUNT_within(1)) simp_all
  finally show ?thesis by simp
qed

text \<open>
  C21: A Content-Length is read exactly or refused.  The parser at the value of a Content-Length
  field, given digits and a carriage return: when the number is less than 2^64 - 6 the content length is
  that number, without overflow, and the line is at its end; when it is larger, the call ends with
  \<open>HPE_INVALID_CONTENT_LENGTH\<close>.  Blanks between the digits are skipped, so that "1 2" is read as 12.
\<close>

theorem content_length_reads_number:
  assumes "http_errno P = HPE_OK" "state P = s_header_value_discard_ws" "header_state P = h_content_length"
    and "on_header_value S = None" "IS_NUM d" "\<forall>c \<in> set ds. IS_NUM c \<or> c = CHR '' ''"
    and "unat (nread P) + length ds + 2 \<le> HTTP_MAX_HEADER_SIZE"
  shows "\<exists>k P'. http_parser_execute S P (d # ds @ [CR]) = Return k P' \<and>
    (if continue_number (digit d) ds < CONTENT_LENGTH_LIMIT
     then http_errno P' = HPE_OK \<and> content_length P' = of_nat (continue_number (digit d) ds) \<and>
       state P' = s_header_almost_done
     else http_errno P' = HPE_INVALID_CONTENT_LENGTH)"
proof -
  let ?input = "d # ds @ [CR]" and ?n = "continue_number (digit d) ds"
  let ?P1 = "P\<lparr>nread := nread P + 1, index := 0, content_length := of_nat (digit d)\<rparr>"
  let ?r1 = "\<lparr>parser = ?P1, p_state = s_header_value, marks = (\<lambda>_. None)(Header_Value := Some 0)\<rparr> :: 'a run"
  let ?r2 = "set_parser (\<lambda>P. P\<lparr>nread := nread P + 1\<rparr>) ?r1"
  have d: "digit d < CONTENT_LENGTH_LIMIT"
    using assms(5) by (auto simp: IS_NUM_def ord_def digit_def CONTENT_LENGTH_LIMIT_def)
  have n: "unat (content_length (parser ?r2)) = digit d"
    using unat_digit_number [OF d] by simp
  have nread1: "unat (nread P + 1) = unat (nread P) + 1"
    using COUNT_within(2) [of "\<lparr>parser = P, p_state = s_header_value, marks = (\<lambda>_. None)\<rparr>" 1] assms(7) by simp
  have nread2: "unat (nread P + 1 + 1) = unat (nread P) + 2"
    using COUNT_within(2) [of ?r1 1] assms(7) nread1 by simp
  have second: "exec_at S ?input 1 ?r1 = (case value_loop S ?input 1 1 h_content_length ?r2 (ds @ [CR]) of
       Again q ch r \<Rightarrow> exec_char 5 S ?input q ch r | res \<Rightarrow> res)"
    using assms(3,7) nread1
    by (subst exec_at_header) (simp_all add: PARSING_HEADER_def exec_state_def exec_header_value_def)
  have unmarked: "exec_marks s_header_value_discard_ws = (\<lambda>_. None)"
    by (rule ext) (simp add: exec_marks_def)
  have loop: "http_parser_execute S P ?input =
      (case exec_at S ?input 1 ?r1 of Continue q r \<Rightarrow> exec_loop (Suc (length ds)) S ?input (q + 1) r | res \<Rightarrow> res)"
    using assms(1,2,7) content_length_first [OF assms(1,3,5), of S "ds @ [CR]"]
    by (simp add: http_parser_execute_def Let_def unmarked)
  show ?thesis
  proof (cases "?n < CONTENT_LENGTH_LIMIT")
    case True
    have "value_loop S ?input 1 1 h_content_length ?r2 (ds @ [CR]) =
      Continue (1 + length ds) (?r2\<lparr>parser := (parser ?r2)\<lparr>nread := nread (parser ?r2) + of_nat (length ds),
        content_length := of_nat ?n, header_state := h_content_length\<rparr>, p_state := s_header_almost_done, marks := (\<lambda>_. None)\<rparr>)"
      using value_loop_digits [of ?r2 S 0 ds 1 ?input] assms(1,4,6,7) d n nread2 True by simp
    then show ?thesis
      unfolding loop second using assms(1) True by (simp add: exec_end_def CALLBACK_DATA_def RETURN_def)
  next
    case False
    then obtain q r' where "value_loop S ?input 1 1 h_content_length ?r2 (ds @ [CR]) = fail HPE_INVALID_CONTENT_LENGTH q r'"
      using value_loop_number [OF assms(6), of ?r2 S ?input 1 1 "[CR]"] d unfolding n by auto
    then show ?thesis
      unfolding loop second using False by (simp add: fail_def goto_error_def SET_ERRNO_def RETURN_def)
  qed
qed

theorem content_length_reads_number_witness:
  "\<exists>k P'. http_parser_execute body_recorder
      (fresh_parser\<lparr>state := s_header_value_discard_ws, header_state := h_content_length\<rparr>) (''1 2'' @ [CR]) = Return k P' \<and>
    http_errno P' = HPE_OK \<and> content_length P' = 12"
proof -
  have "continue_number (digit CHR ''1'') '' 2'' = 12"
    by (simp add: digit_def ord_def)
  moreover have "on_header_value body_recorder = None"
    by (simp add: body_recorder_def http_parser_settings_init_def)
  ultimately show ?thesis
    using content_length_reads_number [of "fresh_parser\<lparr>state := s_header_value_discard_ws, header_state := h_content_length\<rparr>"
        body_recorder "CHR ''1''" "'' 2''"]
    by (simp add: fresh_parser_def http_parser_init_def IS_NUM_def ord_def HTTP_MAX_HEADER_SIZE_def
        CONTENT_LENGTH_LIMIT_def) metis
qed


subsection \<open>Bodies\<close>

text \<open>A text handed to the parser in pieces; no result when a piece is not taken whole.\<close>

fun feed :: "'u http_parser_settings \<Rightarrow> 'u http_parser \<Rightarrow> string list \<Rightarrow> 'u http_parser option" where
  "feed S P [] = Some P"
| "feed S P (t # ts) =
     (case http_parser_execute S P t of Return k P' \<Rightarrow> if k = length t then feed S P' ts else None | _ \<Rightarrow> None)"

lemma body_recorder_callbacks:
  "data_callback body_recorder Body = Some (\<lambda>P s. (0, P\<lparr>data := data P @ s\<rparr>))"
  "m \<noteq> Body \<Longrightarrow> data_callback body_recorder m = None"
  "on_message_complete body_recorder = None"
  by (cases m; simp add: body_recorder_def http_parser_settings_init_def data_callback_def)+

lemma exec_char_twice:
  "exec_char REEXECUTIONS S input p ch r =
    (case exec_state S input p ch r of
       Again q ch r \<Rightarrow> (case exec_state S input q ch r of Again q ch r \<Rightarrow> exec_char 4 S input q ch r | res \<Rightarrow> res)
     | res \<Rightarrow> res)"
proof -
  have six: "REEXECUTIONS = Suc (Suc 4)"
    by (simp add: REEXECUTIONS_def)
  show ?thesis
    unfolding six exec_char.simps ..
qed

lemma exec_loop_end: "0 < k \<Longrightarrow> exec_loop k S input (length input) r = exec_end S input r"
  by (cases k) simp_all

text \<open>
  Where a message of known length leaves the parser: at the start of the next message when the
  connection persists, by default when both numbers of the version are positive and by request
  otherwise, and else dead.
\<close>

definition connection_persists :: "'u http_parser \<Rightarrow> bool" where
  "connection_persists P \<longleftrightarrow>
     (if 0 < http_major P \<and> 0 < http_minor P then F_CONNECTION_CLOSE \<notin> flags P
      else F_CONNECTION_KEEP_ALIVE \<in> flags P)"

definition after_message :: "'u http_parser \<Rightarrow> state" where
  "after_message P =
     (if \<not> connection_persists P then s_dead
      else if parser_type P = HTTP_REQUEST then s_start_req else s_start_res)"

text \<open>The parser with a part of a body behind it.\<close>

definition body_taken :: "string \<Rightarrow> string http_parser \<Rightarrow> string http_parser" where
  "body_taken t P = P\<lparr>data := data P @ t, content_length := content_length P - of_nat (length t),
     state := if length t = unat (content_length P) then after_message P else s_body_identity\<rparr>"

lemma NEW_MESSAGE_after:
  assumes "content_length (parser r) \<noteq> ULLONG_MAX"
  shows "NEW_MESSAGE r = after_message (parser r)"
  using assms by (simp add: NEW_MESSAGE_def http_should_keep_alive_def http_message_needs_eof_def start_state_def
      after_message_def connection_persists_def)

lemma body_piece:
  fixes P :: "string http_parser"
  assumes "http_errno P = HPE_OK" "state P = s_body_identity" "content_length P \<noteq> 0"
    and "content_length P \<noteq> ULLONG_MAX" "t \<noteq> []" "length t \<le> unat (content_length P)"
  shows "http_parser_execute body_recorder P t = Return (length t) (body_taken t P)"
proof -
  let ?n = "length t"
  let ?c = "content_length P - of_nat ?n"
  let ?r = "\<lparr>parser = P, p_state = s_body_identity, marks = (\<lambda>_. None)\<rparr> :: string run"
  let ?r1 = "\<lparr>parser = P\<lparr>content_length := ?c\<rparr>, p_state = s_body_identity,
     marks = (\<lambda>_. None)(Body := Some 0)\<rparr> :: string run"
  have unmarked: "exec_marks s_body_identity = (\<lambda>_. None)"
    by (rule ext) (simp add: exec_marks_def)
  have n: "min (unat (content_length P)) ?n = ?n" "?n > 0"
    using assms(5,6) by auto
  have left: "unat ?c = unat (content_length P) - ?n"
    using unat_minus_read [of "content_length P" ?n] n(1) by simp
  then have zero: "?c = 0 \<longleftrightarrow> ?n = unat (content_length P)"
    using assms(6) by (auto simp flip: unat_eq_0)
  have step: "exec_state body_recorder t 0 ch ?r =
      (if ?c = 0 then CALLBACK_DATA body_recorder t Body ?n (?n - 1) (goto s_message_done ?r1) (Again (?n - 1) ch)
       else Continue (?n - 1) ?r1)" for ch
    using assms n by (simp add: exec_state_def exec_body_def MARK_def Let_def)
  show ?thesis
  proof (cases "?c = 0")
    case False
    have "http_parser_execute body_recorder P t = Return ?n (P\<lparr>content_length := ?c, data := data P @ t, state := s_body_identity\<rparr>)"
      using False assms n
      by (simp add: http_parser_execute_def unmarked exec_at_def PARSING_HEADER_def exec_char_twice step exec_loop_end Let_def)
        (simp add: exec_end_def CALLBACK_DATA_def body_recorder_callbacks RETURN_def Let_def)
    then show ?thesis
      using False zero by (simp add: body_taken_def)
  next
    case True
    let ?P2 = "P\<lparr>content_length := ?c, state := s_message_done, data := data P @ t\<rparr>"
    let ?r2 = "\<lparr>parser = ?P2, p_state = s_message_done, marks = (\<lambda>_. None)\<rparr> :: string run"
    have "exec_state body_recorder t 0 ch ?r = Again (?n - 1) ch ?r2" for ch
      using True assms(1) n unfolding step by (simp add: CALLBACK_DATA_def body_recorder_callbacks)
    moreover have "exec_state body_recorder t q ch ?r2 =
        (if upgrade P then RETURN (q + 1) (goto (NEW_MESSAGE ?r2) ?r2) else Continue q (goto (NEW_MESSAGE ?r2) ?r2))" for q ch
      using assms(1) by (simp add: exec_state_def exec_body_def CALLBACK_NOTIFY_def body_recorder_callbacks)
    ultimately have "http_parser_execute body_recorder P t = Return ?n (?P2\<lparr>state := NEW_MESSAGE ?r2\<rparr>)"
      using assms n
      by (simp add: http_parser_execute_def unmarked exec_at_def PARSING_HEADER_def exec_char_twice exec_loop_end RETURN_def Let_def)
        (simp add: exec_end_def CALLBACK_DATA_def RETURN_def Let_def)
    moreover have "NEW_MESSAGE ?r2 = after_message P"
      using True NEW_MESSAGE_after [of ?r2] by (simp add: ULLONG_MAX_def after_message_def connection_persists_def)
    ultimately show ?thesis
      using True zero by (simp add: body_taken_def)
  qed
qed

lemma body_taken_append:
  assumes "length (t @ u) \<le> unat (content_length P)" "length t < unat (content_length P)"
  shows "body_taken u (body_taken t P) = body_taken (t @ u) P"
proof -
  have "unat (content_length P - of_nat (length t)) = unat (content_length P) - length t"
    using unat_minus_read [of "content_length P" "length t"] assms by (simp add: min_absorb2)
  then show ?thesis
    using assms by (auto simp: body_taken_def after_message_def connection_persists_def)
qed

text \<open>
  C20: A body of known length is delivered exactly once, however it is cut.  Fed to a parser that is at a
  body, in any non-empty pieces of at most the content length together, every piece is taken whole, the
  bytes that reached \<open>on_body\<close> are the pieces one after the other, the content length goes down by their
  number, and nothing else changes but the state: inside the body it stays, and at its end the parser
  waits for the next request or response when the connection persists (\<open>after_message\<close>), and is dead
  otherwise.
\<close>

theorem body_delivered_once:
  fixes P :: "string http_parser"
  assumes "http_errno P = HPE_OK" "state P = s_body_identity" "content_length P \<noteq> 0"
    and "content_length P \<noteq> ULLONG_MAX" "[] \<notin> set ts" "length (concat ts) \<le> unat (content_length P)"
  shows "feed body_recorder P ts = Some (P\<lparr>data := data P @ concat ts,
    content_length := content_length P - of_nat (length (concat ts)),
    state := if length (concat ts) = unat (content_length P) then after_message P else s_body_identity\<rparr>)"
  unfolding body_taken_def [symmetric] using assms
proof (induction ts arbitrary: P)
  case Nil
  then show ?case by (auto simp: body_taken_def unat_eq_0)
next
  case (Cons t ts)
  let ?c = "content_length P"
  have t: "t \<noteq> []" "length t \<le> unat ?c"
    using Cons.prems(5,6) by auto
  note P' = body_piece [OF Cons.prems(1-4) t]
  have left: "unat (?c - of_nat (length t)) = unat ?c - length t"
    using unat_minus_read [of ?c "length t"] t(2) by (simp add: min_absorb2)
  show ?case
  proof (cases "length t = unat ?c")
    case True
    then have "length (concat ts) = 0"
      using Cons.prems(6) by simp
    then have "ts = []"
      using Cons.prems(5) by (cases ts) auto
    then show ?thesis
      using P' by simp
  next
    case False
    then have less: "length t < unat ?c" using t(2) by simp
    have "content_length (body_taken t P) \<noteq> ULLONG_MAX" "content_length (body_taken t P) \<noteq> 0"
      using left_over_not_max [OF Cons.prems(4), of "length t"] t(2) left less
      by (auto simp: body_taken_def min_absorb2 simp flip: unat_eq_0)
    then show ?thesis
      using Cons.IH [of "body_taken t P"] P' Cons.prems(1,5,6) left less body_taken_append [of t "concat ts" P]
      by (simp add: body_taken_def)
  qed
qed

theorem body_delivered_once_witness:
  "feed body_recorder (fresh_parser\<lparr>state := s_body_identity, content_length := 5, http_major := 1, http_minor := 1\<rparr>)
     [''ab'', ''cde''] =
   Some (fresh_parser\<lparr>data := ''abcde'', state := s_start_req, content_length := 0, http_major := 1, http_minor := 1\<rparr>)"
  using body_delivered_once [of "fresh_parser\<lparr>state := s_body_identity, content_length := 5, http_major := 1, http_minor := 1\<rparr>"
      "[''ab'', ''cde'']"]
  by (simp add: fresh_parser_def http_parser_init_def ULLONG_MAX_def after_message_def connection_persists_def)

subsection \<open>Two slips\<close>

text \<open>
  Bytes of the upper half pass for hexadecimal digits.  The table of hexadecimal values spells out
  128 of its 256 entries, and the others are zero: at the start of a chunk, every byte from 128 on is
  taken for the digit 0 instead of being refused.
\<close>

theorem chunk_size_takes_high_byte:
  assumes "http_errno P = HPE_OK" "state P = s_chunk_size_start" "F_CHUNKED \<in> flags P" "nread P = 0" "128 \<le> ord c"
  shows "\<exists>P'. http_parser_execute S P [c] = Return 1 P' \<and> http_errno P' = HPE_OK \<and> state P' = s_chunk_size \<and>
    content_length P' = 0"
proof -
  have unmarked: "exec_marks s_chunk_size_start = (\<lambda>_. None)"
    by (rule ext) (simp add: exec_marks_def)
  have "unhex c = 0"
    using assms(5) by (simp add: unhex_def IS_NUM_def) (simp add: ord_def)
  then show ?thesis
    using assms(1-4)
    by (simp add: http_parser_execute_def unmarked exec_at_header PARSING_HEADER_def HTTP_MAX_HEADER_SIZE_def Let_def
        exec_state_def exec_chunk_size_def exec_end_def CALLBACK_DATA_def RETURN_def)
qed

theorem chunk_size_takes_high_byte_witness:
  "\<exists>P'. http_parser_execute body_recorder (fresh_parser\<lparr>state := s_chunk_size_start, flags := {F_CHUNKED}\<rparr>)
      [CHR 0xE9] = Return 1 P' \<and> state P' = s_chunk_size"
  using chunk_size_takes_high_byte [of "fresh_parser\<lparr>state := s_chunk_size_start, flags := {F_CHUNKED}\<rparr>"
      "CHR 0xE9" body_recorder]
  by (auto simp: fresh_parser_def http_parser_init_def ord_def)

text \<open>Every line end before a response is announced as the beginning of a message.\<close>

lemma blank_line_begins_message:
  assumes "http_errno P = HPE_OK" "state P = s_start_res" "nread P = 0"
    and "on_message_begin S = Some (\<lambda>P. (0, P\<lparr>data := Suc (data P)\<rparr>))"
  shows "\<exists>P'. http_parser_execute S P [LF] = Return 1 P' \<and> state P' = s_start_res \<and> data P' = Suc (data P)"
proof -
  have unmarked: "exec_marks s_start_res = (\<lambda>_. None)"
    by (rule ext) (simp add: exec_marks_def)
  show ?thesis
    using assms
    by (simp add: http_parser_execute_def unmarked exec_at_header PARSING_HEADER_def HTTP_MAX_HEADER_SIZE_def Let_def
        exec_state_def exec_start_def CALLBACK_NOTIFY_def exec_end_def CALLBACK_DATA_def RETURN_def)
qed

end
