(* ===== verification/Http_Log.thy ===== *)
theory Http_Log
  imports Http_Messages
begin

text \<open>
  Two runs of the message parser of \<open>httpclient/src/http_parser.c\<close> side by side, one over a text and one
  over its second half, started where the first half ended.  The callbacks write a log of what they were
  told, in which data handed over in pieces counts as one.  \<open>rel\<close> relates what a branch of the two runs
  gives; here it is shown for the branches of the switch that take one character.
\<close>

subsection \<open>What the callbacks were told\<close>

datatype (plugins only: code) notice =
  Message_Begin | Headers_Complete | Message_Complete | Chunk_Header | Chunk_Complete

datatype event = Notice notice | Data mark string

text \<open>
  A log of the callbacks, the latest first.  Data handed over in pieces counts as one, and no data is
  not logged: these are the liberties the parser takes.
\<close>

definition log_data :: "mark \<Rightarrow> string \<Rightarrow> event list \<Rightarrow> event list" where
  "log_data m s l =
     (if s = [] then l
      else case l of
        Data m' t # l' \<Rightarrow> if m' = m then Data m (t @ s) # l' else Data m s # l
      | _ \<Rightarrow> Data m s # l)"

definition log_notice :: "notice \<Rightarrow> (event list) http_cb" where
  "log_notice e = (\<lambda>P. (0, P\<lparr>data := Notice e # data P\<rparr>))"

definition log_mark :: "mark \<Rightarrow> (event list) http_data_cb" where
  "log_mark m = (\<lambda>P s. (0, P\<lparr>data := log_data m s (data P)\<rparr>))"

definition logger :: "(event list) http_parser_settings" where
  "logger =
     \<lparr>on_message_begin = Some (log_notice Message_Begin), on_url = Some (log_mark Url),
      on_status = Some (log_mark Status), on_header_field = Some (log_mark Header_Field),
      on_header_value = Some (log_mark Header_Value), on_headers_complete = Some (log_notice Headers_Complete),
      on_body = Some (log_mark Body), on_message_complete = Some (log_notice Message_Complete),
      on_chunk_header = Some (log_notice Chunk_Header), on_chunk_complete = Some (log_notice Chunk_Complete)\<rparr>"

type_synonym logging = "(event list) run"

lemma log_data_nil [simp]: "log_data m [] l = l"
  by (simp add: log_data_def)

lemma log_data_append: "log_data m t (log_data m s l) = log_data m (s @ t) l"
  by (auto simp: log_data_def split: list.split event.split)

lemma logger_tame: "tame logger"
proof -
  have "\<exists>e d. P\<lparr>data := x\<rparr> = P\<lparr>http_errno := e, data := d\<rparr>" for P :: "(event list) http_parser" and x
    by (intro exI [of _ "http_errno P"] exI [of _ x]) (cases P, simp)
  then show ?thesis
    by (simp add: logger_def tame_def tame_cb_def tame_data_cb_def data_callback_def log_notice_def log_mark_def
        split: mark.split)
qed

text \<open>The bytes of a text between two positions, and the log once all marks are handed over.\<close>

definition segment :: "nat \<Rightarrow> nat \<Rightarrow> string \<Rightarrow> string" where
  "segment k q t = take (q - k) (drop k t)"

definition flush_mark :: "string \<Rightarrow> nat \<Rightarrow> (mark \<Rightarrow> nat option) \<Rightarrow> mark \<Rightarrow> event list \<Rightarrow> event list" where
  "flush_mark t p marked m l = (case marked m of None \<Rightarrow> l | Some k \<Rightarrow> log_data m (segment k p t) l)"

definition flush :: "string \<Rightarrow> nat \<Rightarrow> logging \<Rightarrow> event list" where
  "flush t p r = flush_mark t p (marks r) Status (flush_mark t p (marks r) Body (flush_mark t p (marks r) Url
     (flush_mark t p (marks r) Header_Value (flush_mark t p (marks r) Header_Field (data (parser r))))))"

lemma flush_none: "marks r = (\<lambda>_. None) \<Longrightarrow> flush t p r = data (parser r)"
  by (simp add: flush_def flush_mark_def)

lemma flush_single: "marks r = (\<lambda>_. None)(m := x) \<Longrightarrow>
   flush t p r = (case x of None \<Rightarrow> data (parser r) | Some k \<Rightarrow> log_data m (segment k p t) (data (parser r)))"
  by (cases m; cases x) (simp_all add: flush_def flush_mark_def)

lemma segment_shift [simp]: "segment (length a + k) (length a + q) (a @ b) = segment k q b"
  by (simp add: segment_def)

lemma segment_join: "k \<le> p \<Longrightarrow> p \<le> q \<Longrightarrow> segment k q t = segment k p t @ segment p q t"
proof -
  assume kp: "k \<le> p" and pq: "p \<le> q"
  have "take (q - k) (drop k t) = take (p - k) (drop k t) @ take (q - p) (drop (p - k) (drop k t))"
    using kp pq take_add [of "p - k" "q - p" "drop k t"] by simp
  then show ?thesis
    using kp by (simp add: segment_def add.commute)
qed

lemma segment_same [simp]: "segment k k t = []"
  by (simp add: segment_def)

lemma callback_notice:
  "http_errno (parser r) = HPE_OK \<Longrightarrow>
   CALLBACK_NOTIFY (Some (log_notice n)) e er r K =
     K (r\<lparr>parser := (parser r)\<lparr>state := p_state r, data := Notice n # data (parser r)\<rparr>\<rparr>)"
  by (cases r) (simp add: CALLBACK_NOTIFY_def log_notice_def Let_def)

lemma logger_callbacks [simp]:
  "on_message_begin logger = Some (log_notice Message_Begin)"
  "on_headers_complete logger = Some (log_notice Headers_Complete)"
  "on_message_complete logger = Some (log_notice Message_Complete)"
  "on_chunk_header logger = Some (log_notice Chunk_Header)"
  "on_chunk_complete logger = Some (log_notice Chunk_Complete)"
  "data_callback logger m = Some (log_mark m)"
  by (simp_all add: logger_def data_callback_def split: mark.split)

lemma callback_data:
  "http_errno (parser r) = HPE_OK \<Longrightarrow>
   CALLBACK_DATA logger t m stop er r K =
     (case marks r m of
        None \<Rightarrow> K r
      | Some k \<Rightarrow> K (r\<lparr>parser := (parser r)\<lparr>state := p_state r, data := log_data m (segment k stop t) (data (parser r))\<rparr>,
          marks := (marks r)(m := None)\<rparr>))"
  by (cases r) (simp add: CALLBACK_DATA_def log_mark_def segment_def Let_def split: option.split)

subsection \<open>Two runs side by side\<close>

text \<open>
  A run over the text \<open>a @ b\<close> and one over \<open>b\<close> that was started after \<open>a\<close>, at the same character of \<open>b\<close>.
  Their parsers differ in the number of bytes counted, which is larger in the second, and in what is
  still marked instead of handed over.
\<close>

definition alike :: "(event list) http_parser \<Rightarrow> (event list) http_parser \<Rightarrow> bool" where
  "alike P P' \<longleftrightarrow>
     parser_type P' = parser_type P \<and> flags P' = flags P \<and> header_state P' = header_state P \<and>
     index P' = index P \<and> content_length P' = content_length P \<and> http_major P' = http_major P \<and>
     http_minor P' = http_minor P \<and> status_code P' = status_code P \<and> http_method P' = http_method P \<and>
     http_errno P' = http_errno P \<and> upgrade P' = upgrade P \<and>
     nread P \<le> nread P' \<and> unat (nread P') \<le> HTTP_MAX_HEADER_SIZE"

lemma alike_nread:
  "alike P P' \<Longrightarrow> unat (nread P) \<le> unat (nread P') \<and> unat (nread P) \<le> HTTP_MAX_HEADER_SIZE \<and>
    unat (nread P') \<le> HTTP_MAX_HEADER_SIZE"
  by (simp add: alike_def word_le_nat_alt)

definition sim :: "string \<Rightarrow> string \<Rightarrow> nat \<Rightarrow> logging \<Rightarrow> logging \<Rightarrow> bool" where
  "sim a b p r r' \<longleftrightarrow>
     alike (parser r) (parser r') \<and> p_state r' = p_state r \<and> flush b p r' = flush (a @ b) (length a + p) r \<and>
     (\<forall>m. m \<noteq> Body \<longrightarrow> (marks r' m = None \<longleftrightarrow> marks r m = None)) \<and> (marks r Body = None \<longrightarrow> marks r' Body = None)"

text \<open>Overflow of the header size comes earlier in the second run; otherwise the outcomes agree.\<close>

fun in_step :: "string \<Rightarrow> string \<Rightarrow> (event list) outcome \<Rightarrow> (event list) outcome \<Rightarrow> bool" where
  "in_step a b (Continue q r) (Continue q' r') \<longleftrightarrow> q = length a + q' \<and> sim a b (Suc q') r r'"
| "in_step a b (Again q c r) (Again q' c' r') \<longleftrightarrow> q = length a + q' \<and> (c' = c \<or> p_state r = s_message_done) \<and> sim a b q' r r'"
| "in_step a b (Return m P) (Return m' P') \<longleftrightarrow>
     m = length a + m' \<and> http_errno P' = http_errno P \<and>
     (http_errno P = HPE_OK \<longrightarrow> alike P P' \<and> state P' = state P \<and> data P' = data P)"
| "in_step a b _ _ \<longleftrightarrow> False"

definition overflowed :: "(event list) outcome \<Rightarrow> bool" where
  "overflowed out \<longleftrightarrow> (case out of Return m P \<Rightarrow> http_errno P = HPE_HEADER_OVERFLOW | _ \<Rightarrow> False)"

definition rel :: "string \<Rightarrow> string \<Rightarrow> (event list) outcome \<Rightarrow> (event list) outcome \<Rightarrow> bool" where
  "rel a b out out' \<longleftrightarrow> overflowed out' \<or> in_step a b out out'"

lemma rel_if:
  "(c \<Longrightarrow> rel a b x x') \<Longrightarrow> (\<not> c \<Longrightarrow> rel a b y y') \<Longrightarrow> rel a b (if c then x else y) (if c then x' else y')"
  by simp

lemma rel_Continue: "sim a b (Suc p) r r' \<Longrightarrow> rel a b (Continue (length a + p) r) (Continue p r')"
  by (simp add: rel_def)

lemma rel_Again: "sim a b p r r' \<Longrightarrow> rel a b (Again (length a + p) c r) (Again p c r')"
  by (simp add: rel_def)

lemma rel_Again_done:
  "sim a b p r r' \<Longrightarrow> p_state r = s_message_done \<Longrightarrow> rel a b (Again (length a + p) c r) (Again p c' r')"
  by (simp add: rel_def)

lemma rel_fail: "e \<noteq> HPE_OK \<Longrightarrow> rel a b (fail e (length a + p) r) (fail e p r')"
  by (simp add: rel_def fail_def goto_error_def RETURN_def SET_ERRNO_def)

lemma rel_STRICT: "(\<not> c \<Longrightarrow> rel a b K K') \<Longrightarrow> rel a b (STRICT_CHECK c (length a + p) r K) (STRICT_CHECK c p r' K')"
  by (simp add: STRICT_CHECK_def rel_fail)

text \<open>
  The count of header bytes goes up in both runs; far above any text, at two gigabytes, the counter would
  wrap around.
\<close>

abbreviation (input) two_gigabytes :: nat where "two_gigabytes \<equiv> 2147483648"

lemma unat_count:
  fixes w :: "32 word"
  assumes "unat w \<le> HTTP_MAX_HEADER_SIZE" "c \<le> two_gigabytes"
  shows "unat (w + of_nat c) = unat w + c"
proof -
  have "w + of_nat c = of_nat (unat w + c)" by simp
  moreover have "unat (of_nat (unat w + c) :: 32 word) = unat w + c"
    using assms by (simp only: unsigned_of_nat) (simp add: take_bit_nat_eq_self HTTP_MAX_HEADER_SIZE_def)
  ultimately show ?thesis by simp
qed

lemma count_limit: "unat (of_nat HTTP_MAX_HEADER_SIZE :: 32 word) = HTTP_MAX_HEADER_SIZE"
  by (simp add: HTTP_MAX_HEADER_SIZE_def)

lemma overflowed_COUNT:
  assumes "unat (nread (parser r)) \<le> HTTP_MAX_HEADER_SIZE" "c \<le> two_gigabytes"
    and "unat (nread (parser r)) + c > HTTP_MAX_HEADER_SIZE"
  shows "overflowed (COUNT_HEADER_SIZE c p r K)"
proof -
  have "nread (parser r) + of_nat c > of_nat HTTP_MAX_HEADER_SIZE"
    using unat_count [OF assms(1,2)] assms(3) by (simp add: word_less_nat_alt count_limit)
  then show ?thesis
    by (simp add: overflowed_def COUNT_HEADER_SIZE_def Let_def fail_def goto_error_def RETURN_def SET_ERRNO_def)
qed

lemma COUNT_passes:
  assumes "unat (nread (parser r)) \<le> HTTP_MAX_HEADER_SIZE" "c \<le> two_gigabytes"
    and "unat (nread (parser r)) + c \<le> HTTP_MAX_HEADER_SIZE"
  shows "COUNT_HEADER_SIZE c p r K = K (r\<lparr>parser := (parser r)\<lparr>nread := nread (parser r) + of_nat c\<rparr>\<rparr>)"
  using unat_count [OF assms(1,2)] assms(3) by (simp add: COUNT_HEADER_SIZE_def Let_def word_less_nat_alt count_limit)

lemma rel_COUNT_at:
  assumes n: "unat (nread (parser r)) \<le> HTTP_MAX_HEADER_SIZE" "unat (nread (parser r')) \<le> HTTP_MAX_HEADER_SIZE"
    and c: "c \<le> two_gigabytes" "c' \<le> two_gigabytes"
    and more: "unat (nread (parser r)) + c \<le> unat (nread (parser r')) + c'"
    and K: "\<And>w w'. w \<le> w' \<Longrightarrow> unat w' \<le> HTTP_MAX_HEADER_SIZE \<Longrightarrow> w = nread (parser r) + of_nat c \<Longrightarrow>
      w' = nread (parser r') + of_nat c' \<Longrightarrow>
      rel a b (K (r\<lparr>parser := (parser r)\<lparr>nread := w\<rparr>\<rparr>)) (K' (r'\<lparr>parser := (parser r')\<lparr>nread := w'\<rparr>\<rparr>))"
  shows "rel a b (COUNT_HEADER_SIZE c p r K) (COUNT_HEADER_SIZE c' p' r' K')"
proof -
  note u = unat_count [OF n(1) c(1)] unat_count [OF n(2) c(2)]
  show ?thesis
  proof (cases "unat (nread (parser r')) + c' \<le> HTTP_MAX_HEADER_SIZE")
    case True
    then have "rel a b (K (r\<lparr>parser := (parser r)\<lparr>nread := nread (parser r) + of_nat c\<rparr>\<rparr>))
        (K' (r'\<lparr>parser := (parser r')\<lparr>nread := nread (parser r') + of_nat c'\<rparr>\<rparr>))"
      using more by (intro K) (simp_all add: word_le_nat_alt u)
    then show ?thesis
      using True more by (simp add: COUNT_passes [OF n(1) c(1)] COUNT_passes [OF n(2) c(2)])
  next
    case False
    then show ?thesis
      using overflowed_COUNT [OF n(2) c(2)] by (simp add: rel_def)
  qed
qed

lemma rel_COUNT:
  assumes "alike (parser r) (parser r')" "c \<le> c'" "c' \<le> two_gigabytes"
    and "\<And>w w'. w \<le> w' \<Longrightarrow> unat w' \<le> HTTP_MAX_HEADER_SIZE \<Longrightarrow>
      rel a b (K (r\<lparr>parser := (parser r)\<lparr>nread := w\<rparr>\<rparr>)) (K' (r'\<lparr>parser := (parser r')\<lparr>nread := w'\<rparr>\<rparr>))"
  shows "rel a b (COUNT_HEADER_SIZE c p r K) (COUNT_HEADER_SIZE c' p' r' K')"
  by (rule rel_COUNT_at) (use assms in \<open>auto simp: alike_def word_le_nat_alt\<close>)

text \<open>What the two runs share in a state without a mark.\<close>

lemma sim_unmarked:
  assumes "sim a b p r r'" "run_ok k q r" "run_ok k' q' r'" "mark_of (p_state r) = None"
  shows "marks r = (\<lambda>_. None)" "marks r' = (\<lambda>_. None)" "data (parser r') = data (parser r)"
proof -
  show m: "marks r = (\<lambda>_. None)"
    by (rule marks_start [OF assms(2,4)])
  show m': "marks r' = (\<lambda>_. None)"
    by (rule marks_start [OF assms(3)]) (use assms in \<open>simp add: sim_def\<close>)
  show "data (parser r') = data (parser r)"
    using assms(1) m m' by (simp add: sim_def flush_none)
qed

lemma sim_facts:
  assumes "sim a b p r r'" "run_ok k q r"
  shows "alike (parser r) (parser r')" "p_state r' = p_state r" "http_errno (parser r) = HPE_OK"
  using assms by (simp_all add: sim_def run_ok_def)

lemmas rel_rules = rel_if rel_STRICT rel_fail rel_Continue rel_Again

lemma exec_start_rel:
  assumes "sim a b p r r'" "run_ok k q r" "run_ok k' q' r'"
    and s: "p_state r \<in> {s_dead, s_start_req_or_res, s_res_or_resp_H, s_start_res, s_res_H, s_res_HT, s_res_HTT, s_res_HTTP}"
  shows "rel a b (exec_start logger (a @ b) (length a + p) ch r) (exec_start logger b p ch r')"
proof -
  note f = sim_facts [OF assms(1,2)]
  have "mark_of (p_state r) = None"
    using s by (elim insertE; simp add: mark_of_def)
  note m = sim_unmarked [OF assms(1-3) this]
  from s show ?thesis
    using f(1)
    by (elim insertE; simp add: exec_start_def Let_def f(2,3) alike_def callback_notice; intro impI conjI rel_rules;
        simp add: sim_def alike_def f(2) m flush_none)
qed

lemma exec_start_req_rel:
  assumes "sim a b p r r'" "run_ok k q r" "run_ok k' q' r'" and s: "p_state r = s_start_req"
  shows "rel a b (exec_start_req logger (a @ b) (length a + p) ch r) (exec_start_req logger b p ch r')"
proof -
  note f = sim_facts [OF assms(1,2)]
  have "mark_of (p_state r) = None"
    using s by (simp add: mark_of_def)
  note m = sim_unmarked [OF assms(1-3) this]
  show ?thesis
    using f(1) s
    by (cases "first_method ch"; simp add: exec_start_req_def Let_def f(2,3) alike_def callback_notice;
        intro impI conjI rel_rules; simp add: sim_def alike_def f(2) m flush_none)
qed

lemma exec_req_method_rel:
  assumes "sim a b p r r'" "run_ok k q r" "run_ok k' q' r'" and s: "p_state r = s_req_method"
  shows "rel a b (exec_req_method (length a + p) ch r) (exec_req_method p ch r')"
proof -
  note f = sim_facts [OF assms(1,2)]
  have "mark_of (p_state r) = None"
    using s by (simp add: mark_of_def)
  note m = sim_unmarked [OF assms(1-3) this]
  obtain c where c: "string_at (method_strings (http_method (parser r))) (index (parser r)) = Some c"
    using string_at_bound [of "index (parser r)" "method_strings (http_method (parser r))"] assms(2) s
    by (auto simp: run_ok_def state_ok_def)
  show ?thesis
    using f(1) s c
    by (cases "switch_method (http_method (parser r)) (index (parser r)) ch";
        simp add: exec_req_method_def Let_def f(2,3) alike_def;
        intro impI conjI rel_rules; simp add: sim_def alike_def bump_index_def f(2) m flush_none)
qed

lemma exec_req_version_rel:
  assumes "sim a b p r r'" "run_ok k q r" "run_ok k' q' r'"
    and s: "p_state r \<in> {s_req_http_start, s_req_http_H, s_req_http_HT, s_req_http_HTT, s_req_http_HTTP,
                s_req_first_http_major, s_req_http_major, s_req_first_http_minor, s_req_http_minor,
                s_req_line_almost_done}"
  shows "rel a b (exec_req_version (length a + p) ch r) (exec_req_version p ch r')"
proof -
  note f = sim_facts [OF assms(1,2)]
  have "mark_of (p_state r) = None"
    using s by (elim insertE; simp add: mark_of_def)
  note m = sim_unmarked [OF assms(1-3) this]
  from s show ?thesis
    using f(1)
    by (elim insertE; simp add: exec_req_version_def Let_def f(2,3) alike_def; intro impI conjI rel_rules;
        simp add: sim_def alike_def f(2) m flush_none)
qed

lemma exec_header_field_start_rel:
  assumes "sim a b p r r'" "run_ok k q r" "run_ok k' q' r'" "p < length b" and s: "p_state r = s_header_field_start"
  shows "rel a b (exec_header_field_start (length a + p) ch r) (exec_header_field_start p ch r')"
proof -
  note f = sim_facts [OF assms(1,2)]
  have "mark_of (p_state r) = None"
    using s by (simp add: mark_of_def)
  note m = sim_unmarked [OF assms(1-3) this]
  show ?thesis
    using f(1) s
    by (simp add: exec_header_field_start_def Let_def f(2,3) alike_def MARK_def m; intro impI conjI rel_rules;
        simp add: sim_def alike_def f(2) m flush_none flush_single; simp add: segment_def)
qed

text \<open>States with a mark: what is marked, and what the callback makes of it.\<close>

lemma sim_marked:
  assumes "sim a b p r r'" "run_ok k (length a + p) r" "run_ok k' p r'" "mark_of (p_state r) = Some m"
  obtains x x' where "marks r = (\<lambda>_. None)(m := x)" "marks r' = (\<lambda>_. None)(m := x')"
    "\<And>i. x = Some i \<Longrightarrow> i \<le> length a + p" "\<And>i. x' = Some i \<Longrightarrow> i \<le> p"
    "m \<noteq> Body \<Longrightarrow> x' = None \<longleftrightarrow> x = None" "x = None \<Longrightarrow> x' = None"
proof -
  obtain x where x: "marks r = (\<lambda>_. None)(m := x)" "\<And>i. x = Some i \<Longrightarrow> i \<le> length a + p"
    using marks_single [OF assms(2,4)] by blast
  obtain x' where x': "marks r' = (\<lambda>_. None)(m := x')" "\<And>i. x' = Some i \<Longrightarrow> i \<le> p"
    using marks_single [OF assms(3), of m] assms(1,4) by (auto simp: sim_def)
  have e: "\<forall>m. m \<noteq> Body \<longrightarrow> (marks r' m = None \<longleftrightarrow> marks r m = None)" "marks r Body = None \<longrightarrow> marks r' Body = None"
    using assms(1) unfolding sim_def by blast+
  have "m \<noteq> Body \<Longrightarrow> x' = None \<longleftrightarrow> x = None" "x = None \<Longrightarrow> x' = None"
    using e(1) [rule_format, of m] e(2) x(1) x'(1) by (simp, cases "m = Body", simp_all)
  then show thesis
    using that x x' by blast
qed

lemma sim_marked_text:
  assumes "sim a b p r r'" "run_ok k (length a + p) r" "run_ok k' p r'" "mark_of (p_state r) = Some m" "m \<noteq> Body"
  shows "\<exists>x x'. marks r = (\<lambda>_. None)(m := x) \<and> marks r' = (\<lambda>_. None)(m := x') \<and>
    (\<forall>i. x = Some i \<longrightarrow> i \<le> length a + p) \<and> (\<forall>i. x' = Some i \<longrightarrow> i \<le> p) \<and> (x' = None \<longleftrightarrow> x = None)"
  by (rule sim_marked [OF assms(1-4)]) (use assms(5) in blast)

lemma callback_delivers:
  assumes "http_errno (parser r) = HPE_OK" "marks r = (\<lambda>_. None)(m := x)"
  shows "\<exists>s. CALLBACK_DATA logger t m p er r K =
    K (r\<lparr>parser := (parser r)\<lparr>state := s, data := flush t p r\<rparr>, marks := (\<lambda>_. None)\<rparr>)"
proof (cases x)
  case None
  then have "r\<lparr>parser := (parser r)\<lparr>state := state (parser r), data := flush t p r\<rparr>, marks := (\<lambda>_. None)\<rparr> = r"
    using assms(2) by (cases r) (simp add: flush_none)
  then show ?thesis
    using assms None by (intro exI [of _ "state (parser r)"]) (simp add: callback_data)
next
  case (Some i)
  then show ?thesis
    using assms by (intro exI [of _ "p_state r"]) (simp add: callback_data flush_single)
qed

lemma rel_DATA:
  assumes "http_errno (parser r) = HPE_OK" "http_errno (parser r') = HPE_OK"
    and "marks r = (\<lambda>_. None)(m := x)" "marks r' = (\<lambda>_. None)(m := x')"
    and "flush b p r' = flush (a @ b) (length a + p) r"
    and K: "\<And>s s' d. rel a b (K (r\<lparr>parser := (parser r)\<lparr>state := s, data := d\<rparr>, marks := (\<lambda>_. None)\<rparr>))
       (K' (r'\<lparr>parser := (parser r')\<lparr>state := s', data := d\<rparr>, marks := (\<lambda>_. None)\<rparr>))"
  shows "rel a b (CALLBACK_DATA logger (a @ b) m (length a + p) er r K) (CALLBACK_DATA logger b m p er' r' K')"
  using callback_delivers [OF assms(1,3), of "a @ b" "length a + p" er K]
    callback_delivers [OF assms(2,4), of b p er' K'] assms(5) K by metis

text \<open>One more character under the mark.\<close>

lemma flush_further:
  assumes "marks r = (\<lambda>_. None)(m := x)" "marks r' = (\<lambda>_. None)(m := x')" "x' = None \<longleftrightarrow> x = None"
    and "\<forall>i. x = Some i \<longrightarrow> i \<le> length a + p" "\<forall>i. x' = Some i \<longrightarrow> i \<le> p"
    and "flush b p r' = flush (a @ b) (length a + p) r" "p \<le> q"
  shows "flush b q r' = flush (a @ b) (length a + q) r"
proof (cases x)
  case None
  then have "marks r = (\<lambda>_. None)" "marks r' = (\<lambda>_. None)"
    using assms(1-3) by simp_all
  then show ?thesis
    using assms(6) by (simp add: flush_none)
next
  case (Some i)
  then obtain i' where i': "x' = Some i'"
    using assms(3) by auto
  have 1: "segment i (length a + q) (a @ b) = segment i (length a + p) (a @ b) @ segment p q b"
    using segment_join [of i "length a + p" "length a + q" "a @ b"] assms(4,7) Some by simp
  have 2: "segment i' q b = segment i' p b @ segment p q b"
    using segment_join [of i' p q b] assms(5,7) i' by simp
  show ?thesis
    using assms(1,2,6) Some i' by (simp add: flush_single 1 2 log_data_append [symmetric])
qed

lemma flush_updates [simp]:
  "flush t p (r\<lparr>p_state := s\<rparr>) = flush t p r"
  "data P = data (parser r) \<Longrightarrow> flush t p (r\<lparr>parser := P\<rparr>) = flush t p r"
  by (simp_all add: flush_def)

lemma exec_status_line_rel:
  assumes "sim a b p r r'" "run_ok k (length a + p) r" "run_ok k' p r'"
    and s: "p_state r \<in> {s_res_first_http_major, s_res_http_major, s_res_first_http_minor, s_res_http_minor,
                s_res_first_status_code, s_res_status_code, s_res_status_start, s_res_status, s_res_line_almost_done}"
  shows "rel a b (exec_status_line logger (a @ b) (length a + p) ch r) (exec_status_line logger b p ch r')"
proof (cases "p_state r = s_res_status")
  case True
  note f = sim_facts [OF assms(1,2)]
  have mk: "mark_of (p_state r) = Some Status" and ne: "Status \<noteq> Body"
    by (simp_all add: True mark_of_def)
  obtain x x' where m: "marks r = (\<lambda>_. None)(Status := x)" "marks r' = (\<lambda>_. None)(Status := x')"
    "\<forall>i. x = Some i \<longrightarrow> i \<le> length a + p" "\<forall>i. x' = Some i \<longrightarrow> i \<le> p" "x' = None \<longleftrightarrow> x = None"
    using sim_marked_text [OF assms(1-3) mk ne] by (elim exE conjE) (rule that)
  have fl: "flush b p r' = flush (a @ b) (length a + p) r"
    using assms(1) by (simp add: sim_def)
  have "flush b (Suc p) r' = flush (a @ b) (length a + Suc p) r"
    using flush_further [OF m(1,2,5,3,4) fl] by simp
  then have stay: "sim a b (Suc p) r r'"
    using assms(1) by (simp add: sim_def)
  show ?thesis
    using True f(1)
    by (simp add: exec_status_line_def f(2); intro impI conjI rel_if rel_Continue stay rel_DATA [where x = x and x' = x'];
        simp add: f(2,3) m fl alike_def; (intro impI conjI rel_rules)?; simp add: sim_def alike_def f(2) flush_none)
next
  case False
  note f = sim_facts [OF assms(1,2)]
  have "mark_of (p_state r) = None"
    using s False by (elim insertE; simp add: mark_of_def)
  note m = sim_unmarked [OF assms(1-3) this]
  from s show ?thesis
    using f(1) False
    by (elim insertE; simp add: exec_status_line_def Let_def f(2,3) alike_def MARK_def m; intro impI conjI rel_rules;
        simp add: sim_def alike_def f(2) m flush_none flush_single; simp add: segment_def)
qed

lemma next_url_state_rel:
  assumes "alike (parser r) (parser r')" "p_state r' = p_state r" "flush b (Suc p) r' = flush (a @ b) (length a + Suc p) r"
    and "\<forall>m. m \<noteq> Body \<longrightarrow> (marks r' m = None \<longleftrightarrow> marks r m = None)" "marks r Body = None \<longrightarrow> marks r' Body = None"
  shows "rel a b (next_url_state (length a + p) ch r) (next_url_state p ch r')"
  using assms by (simp add: next_url_state_def Let_def; intro impI conjI rel_fail rel_Continue; simp add: sim_def)

lemma exec_url_rel:
  assumes "sim a b p r r'" "run_ok k (length a + p) r" "run_ok k' p r'"
    and s: "p_state r = s_req_spaces_before_url \<or> mark_of (p_state r) = Some Url"
  shows "rel a b (exec_url logger (a @ b) (length a + p) ch r) (exec_url logger b p ch r')"
proof (cases "p_state r = s_req_spaces_before_url")
  case True
  note f = sim_facts [OF assms(1,2)]
  have "mark_of (p_state r) = None"
    by (simp add: True mark_of_def)
  note m = sim_unmarked [OF assms(1-3) this]
  let ?r = "r\<lparr>marks := (\<lambda>_. None)(Url := Some (length a + p))\<rparr>" and ?r' = "r'\<lparr>marks := (\<lambda>_. None)(Url := Some p)\<rparr>"
  have fl: "flush b (Suc p) ?r' = flush (a @ b) (length a + Suc p) ?r"
    using m by (simp add: flush_single) (simp add: segment_def)
  show ?thesis
    using f(1) True
    by (simp add: exec_url_def f(2,3) alike_def MARK_def m Let_def; intro impI conjI rel_rules next_url_state_rel;
        simp add: sim_def alike_def f(2) m flush_none fl [simplified])
next
  case False
  note f = sim_facts [OF assms(1,2)]
  have mk: "mark_of (p_state r) = Some Url" and ne: "Url \<noteq> Body"
    using s False by simp_all
  obtain x x' where m: "marks r = (\<lambda>_. None)(Url := x)" "marks r' = (\<lambda>_. None)(Url := x')"
    "\<forall>i. x = Some i \<longrightarrow> i \<le> length a + p" "\<forall>i. x' = Some i \<longrightarrow> i \<le> p" "x' = None \<longleftrightarrow> x = None"
    using sim_marked_text [OF assms(1-3) mk ne] by (elim exE conjE) (rule that)
  have fl: "flush b p r' = flush (a @ b) (length a + p) r"
    using assms(1) by (simp add: sim_def)
  have stay: "flush b (Suc p) r' = flush (a @ b) (length a + Suc p) r"
    using flush_further [OF m(1,2,5,3,4) fl] by simp
  note step = next_url_state_rel [OF f(1,2) stay]
  show ?thesis
    using f(1) False
    by (simp add: exec_url_def f(2); intro impI conjI rel_if rel_fail step rel_DATA [where x = x and x' = x'];
        simp add: f(2,3) m fl alike_def; (intro impI conjI rel_rules)?; simp add: sim_def alike_def f(2) flush_none)
qed

lemma exec_header_value_start_rel:
  assumes "sim a b p r r'" "run_ok k (length a + p) r" "run_ok k' p r'"
    and s: "p_state r = s_header_value_start \<or> p_state r = s_header_value_discard_ws"
  shows "rel a b (exec_header_value_start (length a + p) ch r) (exec_header_value_start p ch r')"
proof -
  note f = sim_facts [OF assms(1,2)]
  have "mark_of (p_state r) = None"
    using s by (auto simp: mark_of_def)
  note m = sim_unmarked [OF assms(1-3) this]
  show ?thesis
    using f(1)
    by (simp add: exec_header_value_start_def Let_def f(2,3) alike_def MARK_def m; intro impI conjI rel_rules;
        simp add: sim_def alike_def f(2) m flush_none flush_single; simp add: segment_def)
qed

lemma exec_header_value_discard_ws_rel:
  assumes "sim a b p r r'" "run_ok k (length a + p) r" "run_ok k' p r'" and s: "p_state r = s_header_value_discard_ws"
  shows "rel a b (exec_header_value_discard_ws (length a + p) ch r) (exec_header_value_discard_ws p ch r')"
proof -
  note f = sim_facts [OF assms(1,2)]
  have "mark_of (p_state r) = None"
    using s by (simp add: mark_of_def)
  note m = sim_unmarked [OF assms(1-3) this]
  show ?thesis
    using f(1) exec_header_value_start_rel [OF assms(1-3) disjI2 [OF s]]
    by (simp add: exec_header_value_discard_ws_def; intro impI conjI rel_rules;
        simp add: sim_def alike_def f(2) m flush_none)
qed

lemma exec_header_value_end_rel:
  assumes "sim a b p r r'" "run_ok k (length a + p) r" "run_ok k' p r'"
    and s: "p_state r \<in> {s_header_almost_done, s_header_value_lws, s_header_value_discard_ws_almost_done,
                s_header_value_discard_lws}"
  shows "rel a b (exec_header_value_end logger (a @ b) (length a + p) ch r) (exec_header_value_end logger b p ch r')"
proof -
  note f = sim_facts [OF assms(1,2)]
  have "mark_of (p_state r) = None"
    using s by (elim insertE; simp add: mark_of_def)
  note m = sim_unmarked [OF assms(1-3) this]
  from s show ?thesis
    using f(1)
    by (elim insertE; simp add: exec_header_value_end_def f(2,3) alike_def MARK_def m callback_data;
        intro impI conjI rel_rules; simp add: sim_def alike_def f(2) m flush_none)
qed

end
