(* ===== verification/Http_Sim.thy ===== *)
theory Http_Sim
  imports Http_Log
begin

text \<open>
  The relation of the two runs for the branches with loops of their own, that is header names and values,
  bodies and chunks, for the end of the headers, and for the loop over the text.
\<close>

lemma field_loop_shift:
  "field_loop (n + p) c h i s = map_option (\<lambda>(q, c, h, i). (n + q, c, h, i)) (field_loop p c h i s)"
proof (induction s arbitrary: p c h i)
  case Nil
  then show ?case by simp
next
  case (Cons ch s)
  show ?case
    using Cons.IH [of "Suc p"] by (cases "field_char ch (TOKEN ch) h i") (auto simp: Let_def)
qed

lemma rel_Continue_end:
  "sim a b q r r' \<Longrightarrow> 0 < q \<Longrightarrow> rel a b (Continue (length a + q - Suc 0) r) (Continue (q - Suc 0) r')"
  by (simp add: rel_def)

lemma exec_header_field_rel:
  assumes "sim a b p r r'" "run_ok k (length a + p) r" "run_ok k' p r'" "p < length b"
    and "length a + length b \<le> two_gigabytes" and s: "p_state r = s_header_field"
  shows "rel a b (exec_header_field logger (a @ b) (length a + p) ch r) (exec_header_field logger b p ch r')"
proof -
  note f = sim_facts [OF assms(1,2)]
  have mk: "mark_of (p_state r) = Some Header_Field" and ne: "Header_Field \<noteq> Body"
    by (simp_all add: s mark_of_def)
  obtain x x' where m: "marks r = (\<lambda>_. None)(Header_Field := x)" "marks r' = (\<lambda>_. None)(Header_Field := x')"
    "\<forall>i. x = Some i \<longrightarrow> i \<le> length a + p" "\<forall>i. x' = Some i \<longrightarrow> i \<le> p" "x' = None \<longleftrightarrow> x = None"
    using sim_marked_text [OF assms(1-3) mk ne] by (elim exE conjE) (rule that)
  have fl: "flush b p r' = flush (a @ b) (length a + p) r"
    using assms(1) by (simp add: sim_def)
  note fl = flush_further [OF m(1,2,5,3,4) fl]
  have "header_state (parser r) \<in> FIELD_STATES"
    using assms(2) s by (simp add: run_ok_def state_ok_def)
  from field_loop_stays [OF this]
  obtain ch' h i q where loop: "field_loop p ch (header_state (parser r)) (index (parser r)) (drop p b)
      = Some (q, ch', h, i)" and q: "p \<le> q" "q \<le> length b"
    using assms(4) by (metis (no_types) le_add_diff_inverse length_drop less_imp_le)
  have loop': "field_loop (length a + p) ch (header_state (parser r)) (index (parser r)) (drop (length a + p) (a @ b))
      = Some (length a + q, ch', h, i)"
    using loop by (simp add: field_loop_shift)
  have same: "header_state (parser r') = header_state (parser r)" "index (parser r') = index (parser r)"
    using f(1) by (simp_all add: alike_def)
  have fl_q: "flush b q r' = flush (a @ b) (length a + q) r" "flush b (Suc q) r' = flush (a @ b) (Suc (length a + q)) r"
    using fl [of q] fl [of "Suc q"] q(1) by simp_all
  have fl_len: "flush b (length b) r' = flush (a @ b) (length a + length b) r" and b: "b \<noteq> []"
    using fl [of "length b"] assms(4) by auto
  show ?thesis
    unfolding exec_header_field_def loop' loop same option.case prod.case
  proof (rule rel_COUNT)
    show "length a + q - (length a + p) \<le> q - p" by simp
    show "q - p \<le> two_gigabytes"
      using q(2) assms(5) by simp
    show "alike (parser (set_parser (\<lambda>P. P\<lparr>header_state := h, index := i\<rparr>) r))
       (parser (set_parser (\<lambda>P. P\<lparr>header_state := h, index := i\<rparr>) r'))"
      using f(1) by (simp add: alike_def)
  qed (use f(1) q assms(4) in \<open>simp; intro impI conjI rel_fail rel_DATA [where x = x and x' = x'];
      simp add: f(2,3) m fl_q alike_def; (intro impI conjI rel_Continue rel_Continue_end)?;
      simp add: sim_def alike_def f(2) s m flush_none fl_q [simplified] fl_len b\<close>)
qed

text \<open>
  One character of a value in both runs.  While the loop runs, the header state is a variable of its
  own, and the field of the parser is out of date.
\<close>

definition alike_value :: "(event list) http_parser \<Rightarrow> (event list) http_parser \<Rightarrow> bool" where
  "alike_value P P' \<longleftrightarrow> alike (P\<lparr>header_state := h_general\<rparr>) (P'\<lparr>header_state := h_general\<rparr>)"

lemma alike_value_nread:
  "alike_value P P' \<Longrightarrow> unat (nread P) \<le> HTTP_MAX_HEADER_SIZE \<and> unat (nread P') \<le> HTTP_MAX_HEADER_SIZE"
  by (simp add: alike_value_def alike_def word_le_nat_alt)

definition value_rel :: "logging \<Rightarrow> logging \<Rightarrow> (event list) value_step \<Rightarrow> (event list) value_step \<Rightarrow> bool" where
  "value_rel r r' v v' \<longleftrightarrow>
     (case (v, v') of
        (Value_Error e, Value_Error e') \<Rightarrow> e' = e \<and> e \<noteq> HPE_OK
      | (Value_Next h r1, Value_Next h' r1') \<Rightarrow> h' = h \<and> h \<in> VALUE_STATES \<and> alike_value (parser r1) (parser r1') \<and>
          p_state r1 = s_header_value \<and> p_state r1' = s_header_value \<and> marks r1 = marks r \<and> marks r1' = marks r' \<and>
          nread (parser r1) = nread (parser r) \<and> nread (parser r1') = nread (parser r') \<and>
          data (parser r1) = data (parser r) \<and> data (parser r1') = data (parser r') \<and>
          http_errno (parser r1) = http_errno (parser r)
      | _ \<Rightarrow> False)"

lemma value_char_rel:
  assumes "h \<in> VALUE_STATES" "p_state r = s_header_value" "p_state r' = s_header_value" "alike_value (parser r) (parser r')"
  shows "value_rel r r' (value_char ch h r) (value_char ch h r')"
proof -
  have match: "value_rel r r' (match_value name going found lost c r) (match_value name going found lost c r')"
    if "{going, found, lost} \<subseteq> VALUE_STATES" for name going found lost c
  proof -
    have "index (parser r') = index (parser r)"
      using assms(4) by (simp add: alike_value_def alike_def)
    then show ?thesis
      using match_char_total [of name going found lost c "index (parser r)"] assms that
      by (auto simp: match_value_def value_rel_def alike_value_def alike_def)
  qed
  have number: "value_rel r r' (content_length_char ch r) (content_length_char ch r')"
    using assms by (simp add: content_length_char_def value_rel_def VALUE_STATES_def Let_def alike_value_def alike_def)
  show ?thesis
    using assms
    by (cases h; simp add: value_char_def Let_def number; (intro match)?;
        simp add: value_rel_def VALUE_STATES_def alike_value_def alike_def)
qed

lemma flush_cong: "marks r1 = marks r \<Longrightarrow> data (parser r1) = data (parser r) \<Longrightarrow> flush t p r1 = flush t p r"
  by (simp add: flush_def)

lemma value_done_rel:
  assumes "alike_value (parser r) (parser r')" "p_state r' = p_state r" "http_errno (parser r) = HPE_OK"
    and "start \<le> length a + p" "start' \<le> p" "p \<le> length b" "b \<noteq> []" "length a + length b \<le> two_gigabytes"
    and "unat (nread (parser r)) + (length a + p - start) \<le> unat (nread (parser r')) + (p - start')"
    and "\<And>q. p \<le> q \<Longrightarrow> flush b q r' = flush (a @ b) (length a + q) r"
    and "\<forall>m. m \<noteq> Body \<longrightarrow> (marks r' m = None \<longleftrightarrow> marks r m = None)" "marks r Body = None \<longrightarrow> marks r' Body = None"
  shows "rel a b (value_done (a @ b) start (length a + p) h r) (value_done b start' p h r')"
  unfolding value_done_def
proof (rule rel_COUNT_at)
  show "length a + p - start \<le> two_gigabytes" "p - start' \<le> two_gigabytes"
    using assms(6,8) by simp_all
  show "unat (nread (parser (set_parser (\<lambda>P. P\<lparr>header_state := h\<rparr>) r))) + (length a + p - start) \<le>
      unat (nread (parser (set_parser (\<lambda>P. P\<lparr>header_state := h\<rparr>) r'))) + (p - start')"
    using assms(9) by simp
  show "unat (nread (parser (set_parser (\<lambda>P. P\<lparr>header_state := h\<rparr>) r))) \<le> HTTP_MAX_HEADER_SIZE"
      "unat (nread (parser (set_parser (\<lambda>P. P\<lparr>header_state := h\<rparr>) r'))) \<le> HTTP_MAX_HEADER_SIZE"
    using alike_value_nread [OF assms(1)] by simp_all
  fix w w' :: "32 word"
  assume w: "w \<le> w'" "unat w' \<le> HTTP_MAX_HEADER_SIZE"
  let ?r = "set_parser (\<lambda>P. P\<lparr>header_state := h\<rparr>) r" and ?r' = "set_parser (\<lambda>P. P\<lparr>header_state := h\<rparr>) r'"
  have sim: "sim a b q (?r\<lparr>parser := (parser ?r)\<lparr>nread := w\<rparr>\<rparr>) (?r'\<lparr>parser := (parser ?r')\<lparr>nread := w'\<rparr>\<rparr>)"
    if "p \<le> q" for q
    using assms(1,2,10,11,12) w that by (simp add: sim_def alike_value_def alike_def)
  show "rel a b (Continue (if length a + p = length (a @ b) then length a + p - 1 else length a + p)
       (?r\<lparr>parser := (parser ?r)\<lparr>nread := w\<rparr>\<rparr>))
     (Continue (if p = length b then p - 1 else p) (?r'\<lparr>parser := (parser ?r')\<lparr>nread := w'\<rparr>\<rparr>))"
  proof (cases "p = length b")
    case True
    then show ?thesis
      using rel_Continue_end [OF sim, of "length b"] assms(7) by simp
  next
    case False
    then show ?thesis
      using rel_Continue [OF sim, of p] by simp
  qed
qed

text \<open>What both runs share inside the loop, \<open>start\<close> and \<open>start'\<close> being where they entered it.\<close>

definition value_sim ::
    "string \<Rightarrow> string \<Rightarrow> nat \<Rightarrow> nat \<Rightarrow> nat \<Rightarrow> logging \<Rightarrow> logging \<Rightarrow> bool" where
  "value_sim a b start start' p r r' \<longleftrightarrow>
     p_state r = s_header_value \<and> p_state r' = s_header_value \<and> http_errno (parser r) = HPE_OK \<and>
     alike_value (parser r) (parser r') \<and>
     (\<exists>x x'. marks r = (\<lambda>_. None)(Header_Value := x) \<and> marks r' = (\<lambda>_. None)(Header_Value := x') \<and>
        (\<forall>i. x = Some i \<longrightarrow> i \<le> length a + p) \<and> (\<forall>i. x' = Some i \<longrightarrow> i \<le> p) \<and> (x' = None \<longleftrightarrow> x = None)) \<and>
     flush b p r' = flush (a @ b) (length a + p) r \<and> start \<le> length a + p \<and> start' \<le> p \<and>
     unat (nread (parser r)) + length a + start' \<le> unat (nread (parser r')) + start"

lemma value_sim_marks:
  assumes "value_sim a b start start' p r r'"
  obtains x x' where "marks r = (\<lambda>_. None)(Header_Value := x)" "marks r' = (\<lambda>_. None)(Header_Value := x')"
    "x' = None \<longleftrightarrow> x = None" "\<forall>i. x = Some i \<longrightarrow> i \<le> length a + p" "\<forall>i. x' = Some i \<longrightarrow> i \<le> p"
  using assms unfolding value_sim_def by (elim exE conjE) (rule that)

lemma value_sim_facts:
  assumes "value_sim a b start start' p r r'"
  shows "p_state r = s_header_value" "p_state r' = s_header_value" "http_errno (parser r) = HPE_OK"
    "http_errno (parser r') = HPE_OK" "alike_value (parser r) (parser r')" "start \<le> length a + p" "start' \<le> p"
    "unat (nread (parser r)) + (length a + p - start) \<le> unat (nread (parser r')) + (p - start')"
proof -
  show "p_state r = s_header_value" "p_state r' = s_header_value" "http_errno (parser r) = HPE_OK"
    "alike_value (parser r) (parser r')" "start \<le> length a + p" "start' \<le> p"
    using assms by (simp_all add: value_sim_def)
  then show "http_errno (parser r') = HPE_OK"
    by (simp add: alike_value_def alike_def)
  have "unat (nread (parser r)) + length a + start' \<le> unat (nread (parser r')) + start"
    using assms by (simp add: value_sim_def)
  then show "unat (nread (parser r)) + (length a + p - start) \<le> unat (nread (parser r')) + (p - start')"
    using \<open>start \<le> length a + p\<close> \<open>start' \<le> p\<close> by linarith
qed

lemma value_sim_flush: "value_sim a b start start' p r r' \<Longrightarrow> p \<le> q \<Longrightarrow> flush b q r' = flush (a @ b) (length a + q) r"
  by (rule value_sim_marks, assumption, rule flush_further) (auto simp: value_sim_def)

lemma value_sim_further:
  assumes "value_sim a b start start' p r r'" "p \<le> q"
  shows "value_sim a b start start' q r r'"
proof -
  obtain x x' where "marks r = (\<lambda>_. None)(Header_Value := x)" "marks r' = (\<lambda>_. None)(Header_Value := x')"
    "x' = None \<longleftrightarrow> x = None" "\<forall>i. x = Some i \<longrightarrow> i \<le> length a + q" "\<forall>i. x' = Some i \<longrightarrow> i \<le> q"
    by (rule value_sim_marks [OF assms(1)]) (use assms(2) in \<open>force intro: that\<close>)
  then show ?thesis
    using value_sim_facts [OF assms(1)] value_sim_flush [OF assms] assms(2) by (auto simp: value_sim_def)
qed

lemma value_sim_step:
  assumes "value_sim a b start start' p r r'" "value_rel r r' (Value_Next h r1) (Value_Next h1 r1')"
  shows "value_sim a b start start' (Suc p) r1 r1'"
proof -
  have "value_sim a b start start' (Suc p) r r'"
    by (rule value_sim_further [OF assms(1)]) simp
  moreover have "flush b (Suc p) r1' = flush b (Suc p) r'" "flush (a @ b) (length a + Suc p) r1 = flush (a @ b) (length a + Suc p) r"
    using assms(2) by (auto simp: value_rel_def intro: flush_cong)
  ultimately show ?thesis
    using assms(2) by (simp add: value_sim_def value_rel_def)
qed

lemma value_sim_done:
  assumes "value_sim a b start start' p r r'" "length a + length b \<le> two_gigabytes" "b \<noteq> []" "p \<le> length b"
  shows "rel a b (value_done (a @ b) start (length a + p) h r) (value_done b start' p h r')"
  by (rule value_sim_marks [OF assms(1)], rule value_done_rel)
    (use value_sim_facts [OF assms(1)] value_sim_flush [OF assms(1)] assms(2-4) in simp_all)

lemma value_sim_CR:
  assumes "value_sim a b start start' p r r'" "length a + length b \<le> two_gigabytes" "b \<noteq> []" "p \<le> length b"
  shows "rel a b
    (CALLBACK_DATA logger (a @ b) Header_Value (length a + p) er
      (set_parser (\<lambda>P. P\<lparr>header_state := h\<rparr>) (goto s_header_almost_done r)) (value_done (a @ b) start (length a + p) h))
    (CALLBACK_DATA logger b Header_Value p er'
      (set_parser (\<lambda>P. P\<lparr>header_state := h\<rparr>) (goto s_header_almost_done r')) (value_done b start' p h))"
proof (rule value_sim_marks [OF assms(1)], rule rel_DATA)
  fix x x' s s' d
  let ?r = "set_parser (\<lambda>P. P\<lparr>header_state := h\<rparr>) (goto s_header_almost_done r)"
    and ?r' = "set_parser (\<lambda>P. P\<lparr>header_state := h\<rparr>) (goto s_header_almost_done r')"
  show "rel a b
    (value_done (a @ b) start (length a + p) h (?r\<lparr>parser := (parser ?r)\<lparr>state := s, data := d\<rparr>, marks := (\<lambda>_. None)\<rparr>))
    (value_done b start' p h (?r'\<lparr>parser := (parser ?r')\<lparr>state := s', data := d\<rparr>, marks := (\<lambda>_. None)\<rparr>))"
    by (rule value_done_rel) (use value_sim_facts [OF assms(1)] assms in \<open>simp_all add: alike_value_def alike_def flush_none\<close>)
qed (use value_sim_facts [OF assms(1)] value_sim_flush [OF assms(1), of p] in simp_all)

lemma value_sim_LF:
  assumes "value_sim a b start start' p r r'" "length a + length b \<le> two_gigabytes" "p \<le> length b"
  shows "rel a b
    (COUNT_HEADER_SIZE (length a + p - start) (length a + p) (goto s_header_almost_done r) (\<lambda>r.
      CALLBACK_DATA logger (a @ b) Header_Value (length a + p) er (set_parser (\<lambda>P. P\<lparr>header_state := h\<rparr>) r) (Again (length a + p) ch)))
    (COUNT_HEADER_SIZE (p - start') p (goto s_header_almost_done r') (\<lambda>r.
      CALLBACK_DATA logger b Header_Value p er' (set_parser (\<lambda>P. P\<lparr>header_state := h\<rparr>) r) (Again p ch)))"
proof -
  note f = value_sim_facts [OF assms(1)] and n = alike_value_nread [OF value_sim_facts(5) [OF assms(1)]]
  obtain x x' where m: "marks r = (\<lambda>_. None)(Header_Value := x)" "marks r' = (\<lambda>_. None)(Header_Value := x')"
    by (rule value_sim_marks [OF assms(1)])
  show ?thesis
    by (intro rel_COUNT_at rel_DATA [where x = x and x' = x'] rel_Again)
      (use f n m assms(2,3) value_sim_flush [OF assms(1), of p] in
        \<open>simp_all add: sim_def alike_value_def alike_def flush_none\<close>)
qed

lemma value_loop_rel:
  assumes "length a + length b \<le> two_gigabytes" "b \<noteq> []"
  shows "value_sim a b start start' p r r' \<Longrightarrow> h \<in> VALUE_STATES \<Longrightarrow> p + length s = length b \<Longrightarrow>
    rel a b (value_loop logger (a @ b) start (length a + p) h r s) (value_loop logger b start' p h r' s)"
proof (induction "length s" arbitrary: p h r r' s rule: less_induct)
  case less
  note sim = less.prems(1)
  show ?case
  proof (cases s)
    case Nil
    then show ?thesis
      using value_sim_done [OF sim assms, of h] less.prems(3) by simp
  next
    case (Cons ch s1)
    consider "ch = CR" | "ch = LF" "ch \<noteq> CR" | "ch \<noteq> CR" "ch \<noteq> LF" "h = h_general"
      | "ch \<noteq> CR" "ch \<noteq> LF" "h \<noteq> h_general" by blast
    then show ?thesis
    proof cases
      case 1
      then show ?thesis
        using value_sim_CR [OF sim assms, of _ h] less.prems(3) Cons by simp
    next
      case 2
      then show ?thesis
        using value_sim_LF [OF sim assms(1), of _ h ch] less.prems(3) Cons by simp
    next
      case 3
      let ?n = "general_span (ch # s1)"
      have "0 < ?n" "?n \<le> length s"
        using general_span_pos [OF 3(1,2)] general_span_length [of "ch # s1"] Cons by simp_all
      then have "rel a b (value_loop logger (a @ b) start (length a + (p + ?n)) h r (drop ?n s))
          (value_loop logger b start' (p + ?n) h r' (drop ?n s))"
        using less.prems(2,3) value_sim_further [OF sim, of "p + ?n"] by (intro less.hyps) auto
      then show ?thesis
        using 3 Cons by (simp add: add.assoc)
    next
      case 4
      have v: "value_rel r r' (value_char ch h r) (value_char ch h r')"
        by (rule value_char_rel [OF less.prems(2)]) (use value_sim_facts [OF sim] in simp_all)
      show ?thesis
      proof (cases "value_char ch h r")
        case (Value_Next h1 r1)
        then obtain r1' where r1': "value_char ch h r' = Value_Next h1 r1'"
          using v by (cases "value_char ch h r'") (auto simp: value_rel_def)
        have "rel a b (value_loop logger (a @ b) start (length a + Suc p) h1 r1 s1)
            (value_loop logger b start' (Suc p) h1 r1' s1)"
          by (rule less.hyps) (use v Value_Next r1' value_sim_step [OF sim, of h1 r1 h1 r1'] less.prems(3) Cons
              in \<open>auto simp: value_rel_def\<close>)
        then show ?thesis
          using 4 Cons Value_Next r1' by simp
      next
        case Value_Abort
        then show ?thesis
          using v by (simp add: value_rel_def)
      next
        case (Value_Error e)
        then have "value_char ch h r' = Value_Error e" "e \<noteq> HPE_OK"
          using v by (cases "value_char ch h r'"; simp add: value_rel_def)+
        then show ?thesis
          using 4 Cons Value_Error by (simp add: rel_fail)
      qed
    qed
  qed
qed

lemma exec_header_value_rel:
  assumes "sim a b p r r'" "run_ok k (length a + p) r" "run_ok k' p r'" "p < length b"
    and "length a + length b \<le> two_gigabytes" "header_state (parser r) \<in> VALUE_STATES" and s: "p_state r = s_header_value"
  shows "rel a b (exec_header_value logger (a @ b) (length a + p) ch r) (exec_header_value logger b p ch r')"
proof -
  note f = sim_facts [OF assms(1,2)]
  have mk: "mark_of (p_state r) = Some Header_Value" and ne: "Header_Value \<noteq> Body"
    by (simp_all add: s mark_of_def)
  obtain x x' where m: "marks r = (\<lambda>_. None)(Header_Value := x)" "marks r' = (\<lambda>_. None)(Header_Value := x')"
    "\<forall>i. x = Some i \<longrightarrow> i \<le> length a + p" "\<forall>i. x' = Some i \<longrightarrow> i \<le> p" "x' = None \<longleftrightarrow> x = None"
    using sim_marked_text [OF assms(1-3) mk ne] by (elim exE conjE) (rule that)
  have fl: "flush b p r' = flush (a @ b) (length a + p) r"
    using assms(1) by (simp add: sim_def)
  have "header_state (parser r') = header_state (parser r)"
    using f(1) by (simp add: alike_def)
  moreover have "value_sim a b (length a + p) p p r r'"
    using m fl f s by (auto simp: value_sim_def alike_value_def alike_def word_le_nat_alt)
  then have "rel a b
      (value_loop logger (a @ b) (length a + p) (length a + p) (header_state (parser r)) r (drop p b))
      (value_loop logger b p p (header_state (parser r)) r' (drop p b))"
    using assms(4,6) by (intro value_loop_rel [OF assms(5)]) auto
  ultimately show ?thesis
    by (simp add: exec_header_value_def)
qed

subsection \<open>The end of the headers and the body\<close>

lemma alike_message:
  assumes "alike P P'"
  shows "http_should_keep_alive P' = http_should_keep_alive P" "http_message_needs_eof P' = http_message_needs_eof P"
    "start_state P' = start_state P"
  using assms by (simp_all add: alike_def http_should_keep_alive_def http_message_needs_eof_def start_state_def)

lemma alike_NEW_MESSAGE: "alike (parser r) (parser r') \<Longrightarrow> NEW_MESSAGE r' = NEW_MESSAGE r"
  by (simp add: NEW_MESSAGE_def alike_message)

lemma log_notice_apply: "log_notice n P = (0, P\<lparr>data := Notice n # data P\<rparr>)"
  by (simp add: log_notice_def)

lemma rel_RETURN:
  "alike (parser r) (parser r') \<Longrightarrow> p_state r' = p_state r \<Longrightarrow> data (parser r') = data (parser r) \<Longrightarrow>
    rel a b (RETURN (Suc (length a + p)) r) (RETURN (Suc p) r')"
  by (simp add: rel_def RETURN_def alike_def)

lemma exec_headers_almost_done_rel:
  assumes "sim a b p r r'" "run_ok k (length a + p) r" "run_ok k' p r'" and s: "p_state r = s_headers_almost_done"
  shows "rel a b (exec_headers_almost_done logger (length a + p) ch r) (exec_headers_almost_done logger p ch r')"
proof -
  note f = sim_facts [OF assms(1,2)]
  have "mark_of (p_state r) = None"
    by (simp add: s mark_of_def)
  note m = sim_unmarked [OF assms(1-3) this]
  show ?thesis
    using f(1)
    by (simp add: exec_headers_almost_done_def Let_def f(2,3) alike_def callback_notice log_notice_apply;
        intro impI conjI rel_rules; simp add: sim_def alike_def f(2) m flush_none)
qed

lemma exec_headers_done_rel:
  assumes "sim a b p r r'" "run_ok k (length a + p) r" "run_ok k' p r'" and s: "p_state r = s_headers_done"
  shows "rel a b (exec_headers_done logger (length a + p) ch r) (exec_headers_done logger p ch r')"
proof -
  note f = sim_facts [OF assms(1,2)]
  have "mark_of (p_state r) = None"
    by (simp add: s mark_of_def)
  note m = sim_unmarked [OF assms(1-3) this]
  let ?r = "set_parser (\<lambda>P. P\<lparr>nread := 0\<rparr>) r" and ?r' = "set_parser (\<lambda>P. P\<lparr>nread := 0\<rparr>) r'"
  have alike: "alike (parser ?r) (parser ?r')"
    using f(1) by (simp add: alike_def)
  have new: "NEW_MESSAGE ?r' = NEW_MESSAGE ?r"
    by (rule alike_NEW_MESSAGE [OF alike])
  have eof: "http_message_needs_eof (parser ?r') = http_message_needs_eof (parser ?r)"
    by (rule alike_message [OF alike])
  show ?thesis
    using f(1)
    by (simp add: exec_headers_done_def Let_def f(2,3) alike_def callback_notice new [simplified] eof [simplified];
        intro impI conjI rel_rules rel_RETURN; simp add: sim_def alike_def f(2) m flush_none)
qed

text \<open>A mark set at the start of a piece of a body.\<close>

lemma sim_body:
  assumes "sim a b p r r'" "run_ok k (length a + p) r" "run_ok k' p r'" "mark_of (p_state r) = Some Body"
  obtains i i' where "marks (MARK Body (length a + p) r) = (\<lambda>_. None)(Body := Some i)"
    "marks (MARK Body p r') = (\<lambda>_. None)(Body := Some i')" "i \<le> length a + p" "i' \<le> p"
    "\<And>q. p \<le> q \<Longrightarrow> flush b q (MARK Body p r') = flush (a @ b) (length a + q) (MARK Body (length a + p) r)"
proof -
  obtain x x' where m: "marks r = (\<lambda>_. None)(Body := x)" "marks r' = (\<lambda>_. None)(Body := x')"
    "\<And>i. x = Some i \<Longrightarrow> i \<le> length a + p" "\<And>i. x' = Some i \<Longrightarrow> i \<le> p"
    using sim_marked [OF assms] by metis
  have fl: "flush b p r' = flush (a @ b) (length a + p) r"
    using assms(1) by (simp add: sim_def)
  have mark: "\<exists>i. marks (MARK Body q s) = (\<lambda>_. None)(Body := Some i) \<and> i \<le> q \<and> flush t q (MARK Body q s) = flush t q s"
    if "marks s = (\<lambda>_. None)(Body := y)" "\<And>i. y = Some i \<Longrightarrow> i \<le> q" for t q y and s :: logging
  proof (cases y)
    case None
    then have "marks s = (\<lambda>_. None)"
      using that by simp
    then show ?thesis
      by (intro exI [of _ q]) (simp add: MARK_def flush_single flush_none)
  next
    case (Some i)
    then show ?thesis
      using that by (intro exI [of _ i]) (simp add: MARK_def)
  qed
  obtain i i' where M: "marks (MARK Body (length a + p) r) = (\<lambda>_. None)(Body := Some i)" "i \<le> length a + p"
      "marks (MARK Body p r') = (\<lambda>_. None)(Body := Some i')" "i' \<le> p"
      "flush (a @ b) (length a + p) (MARK Body (length a + p) r) = flush (a @ b) (length a + p) r"
      "flush b p (MARK Body p r') = flush b p r'"
    using mark [OF m(1,3), of "a @ b"] mark [OF m(2,4), of b] by blast
  show thesis
    by (rule that [OF M(1,3,2,4)], rule flush_further [OF M(1,3)]) (use M fl in auto)
qed

text \<open>A piece of a body ends where the text ends or the content does, in both runs.\<close>

lemma sim_read:
  assumes "sim a b p r r'" "run_ok k (length a + p) r" "run_ok k' p r'" "mark_of (p_state r) = Some Body"
    and "p < length b" "content_length (parser r) \<noteq> 0"
  obtains n i i' where "0 < n" "p + n \<le> length b"
    "min (unat (content_length (parser r))) (length (a @ b) - (length a + p)) = n"
    "min (unat (content_length (parser r'))) (length b - p) = n"
    "marks (MARK Body (length a + p) r) = (\<lambda>_. None)(Body := Some i)"
    "marks (MARK Body p r') = (\<lambda>_. None)(Body := Some i')"
    "sim a b (p + n) (set_parser (\<lambda>P. P\<lparr>content_length := content_length P - of_nat n\<rparr>) (MARK Body (length a + p) r))
       (set_parser (\<lambda>P. P\<lparr>content_length := content_length P - of_nat n\<rparr>) (MARK Body p r'))"
proof -
  note f = sim_facts [OF assms(1,2)]
  obtain i i' where m: "marks (MARK Body (length a + p) r) = (\<lambda>_. None)(Body := Some i)"
    "marks (MARK Body p r') = (\<lambda>_. None)(Body := Some i')" "i \<le> length a + p" "i' \<le> p"
    "\<And>q. p \<le> q \<Longrightarrow> flush b q (MARK Body p r') = flush (a @ b) (length a + q) (MARK Body (length a + p) r)"
    using sim_body [OF assms(1-4)] by blast
  define n where "n = min (unat (content_length (parser r))) (length b - p)"
  have "content_length (parser r') = content_length (parser r)"
    using f(1) by (simp add: alike_def)
  then have n: "0 < n" "p + n \<le> length b" "min (unat (content_length (parser r))) (length (a @ b) - (length a + p)) = n"
    "min (unat (content_length (parser r'))) (length b - p) = n"
    using assms(5,6) by (simp_all add: n_def unat_gt_0)
  show thesis
    by (rule that [OF n m(1,2)]) (use m f in \<open>simp add: sim_def alike_def\<close>)
qed

lemma exec_body_rel:
  assumes "sim a b p r r'" "run_ok k (length a + p) r" "run_ok k' p r'" "p < length b"
    and s: "p_state r \<in> {s_body_identity, s_body_identity_eof, s_message_done}"
  shows "rel a b (exec_body logger (a @ b) (length a + p) ch r) (exec_body logger b p ch' r')"
  using s
proof (elim insertE)
  assume s: "p_state r = s_body_identity"
  note f = sim_facts [OF assms(1,2)]
  have mk: "mark_of (p_state r) = Some Body"
    by (simp add: s mark_of_def)
  have c: "content_length (parser r) \<noteq> 0" "content_length (parser r') = content_length (parser r)"
    "content_length (parser r) \<noteq> ULLONG_MAX"
    using assms(2) f(1) s by (simp_all add: run_ok_def state_ok_def alike_def)
  obtain n i i' where n: "0 < n" "p + n \<le> length b"
      "min (unat (content_length (parser r))) (length (a @ b) - (length a + p)) = n"
      "min (unat (content_length (parser r'))) (length b - p) = n"
    and m: "marks (MARK Body (length a + p) r) = (\<lambda>_. None)(Body := Some i)"
      "marks (MARK Body p r') = (\<lambda>_. None)(Body := Some i')"
    and sim: "sim a b (p + n) (set_parser (\<lambda>P. P\<lparr>content_length := content_length P - of_nat n\<rparr>) (MARK Body (length a + p) r))
       (set_parser (\<lambda>P. P\<lparr>content_length := content_length P - of_nat n\<rparr>) (MARK Body p r'))"
      (is "sim a b (p + n) ?r ?r'")
    by (rule sim_read [OF assms(1-3) mk assms(4) c(1)])
  have fl: "flush b (p + n) (goto s_message_done ?r') = flush (a @ b) (length a + (p + n)) (goto s_message_done ?r)"
    using sim by (simp add: sim_def)
  have stay: "rel a b (Continue (length a + (p + n) - 1) ?r) (Continue (p + n - 1) ?r')"
    using rel_Continue_end [OF sim] n(1) by simp
  have complete: "rel a b
      (CALLBACK_DATA logger (a @ b) Body (length a + (p + n)) (length a + (p + n) - 1) (goto s_message_done ?r) (Again (length a + (p + n) - 1) ch))
      (CALLBACK_DATA logger b Body (p + n) (p + n - 1) (goto s_message_done ?r') (Again (p + n - 1) ch'))"
  proof (rule rel_DATA [where x = "Some i" and x' = "Some i'"])
    fix s s' d
    have "length a + (p + n) - 1 = length a + (p + n - 1)"
      using n(1) by simp
    then show "rel a b
       (Again (length a + (p + n) - 1) ch ((goto s_message_done ?r)\<lparr>parser := (parser (goto s_message_done ?r))\<lparr>state := s, data := d\<rparr>, marks := (\<lambda>_. None)\<rparr>))
       (Again (p + n - 1) ch' ((goto s_message_done ?r')\<lparr>parser := (parser (goto s_message_done ?r'))\<lparr>state := s', data := d\<rparr>, marks := (\<lambda>_. None)\<rparr>))"
      using f(1) by (simp only:) (rule rel_Again_done, simp_all add: sim_def alike_def flush_none)
  qed (use f m in \<open>simp_all add: fl [simplified] alike_def\<close>)
  show ?thesis
    unfolding exec_body_def s f(2) state.case Let_def n(3,4)
    using c n(1) stay complete
    by (cases "content_length (parser r) - of_nat n = 0") (simp_all add: add.assoc del: right_minus_eq)
next
  assume s: "p_state r = s_body_identity_eof"
  note f = sim_facts [OF assms(1,2)]
  have mk: "mark_of (p_state r) = Some Body"
    by (simp add: s mark_of_def)
  obtain i i' where m: "marks (MARK Body (length a + p) r) = (\<lambda>_. None)(Body := Some i)"
    "marks (MARK Body p r') = (\<lambda>_. None)(Body := Some i')"
    "\<And>q. p \<le> q \<Longrightarrow> flush b q (MARK Body p r') = flush (a @ b) (length a + q) (MARK Body (length a + p) r)"
    using sim_body [OF assms(1-3) mk] by blast
  have "sim a b (length b) (MARK Body (length a + p) r) (MARK Body p r')"
    using m f assms(4) by (simp add: sim_def)
  then have "rel a b (Continue (length a + length b - Suc 0) (MARK Body (length a + p) r)) (Continue (length b - Suc 0) (MARK Body p r'))"
    using assms(4) by (intro rel_Continue_end) auto
  then show ?thesis
    by (simp add: exec_body_def s f(2))
next
  assume s: "p_state r = s_message_done"
  note f = sim_facts [OF assms(1,2)]
  have "mark_of (p_state r) = None"
    by (simp add: s mark_of_def)
  note m = sim_unmarked [OF assms(1-3) this]
  show ?thesis
    using f(1) alike_NEW_MESSAGE [OF f(1)]
    by (simp add: exec_body_def f(2,3) s alike_def callback_notice; intro impI conjI rel_rules rel_RETURN;
        simp add: sim_def alike_def f(2) m flush_none)
qed (use assms in simp)

lemma exec_chunk_size_rel:
  assumes "sim a b p r r'" "run_ok 1 (length a + p) r" "run_ok 1 p r'"
    and s: "p_state r \<in> {s_chunk_size_start, s_chunk_size, s_chunk_parameters}"
  shows "rel a b (exec_chunk_size (length a + p) ch r) (exec_chunk_size p ch r')"
proof -
  note f = sim_facts [OF assms(1,2)]
  have "mark_of (p_state r) = None"
    using s by (elim insertE; simp add: mark_of_def)
  note m = sim_unmarked [OF assms(1-3) this]
  have c: "F_CHUNKED \<in> flags (parser r)" "F_CHUNKED \<in> flags (parser r')"
    using assms(2) f(1) s by (auto simp: run_ok_def state_ok_def CHUNK_STATES_def alike_def)
  have one: "p_state r = s_chunk_size_start \<Longrightarrow> nread (parser r) = 1 \<and> nread (parser r') = 1"
    using assms(2,3) f(2) by (simp add: run_ok_def state_ok_def)
  from s show ?thesis
    using f(1) one
    by (elim insertE; simp add: exec_chunk_size_def Let_def f(2,3) alike_def c; intro impI conjI rel_rules;
        simp add: sim_def alike_def f(2) m flush_none)
qed

lemma exec_chunk_data_rel:
  assumes "sim a b p r r'" "run_ok k (length a + p) r" "run_ok k' p r'" "p < length b"
    and s: "p_state r \<in> {s_chunk_size_almost_done, s_chunk_data, s_chunk_data_almost_done, s_chunk_data_done}"
  shows "rel a b (exec_chunk_data logger (a @ b) (length a + p) ch r) (exec_chunk_data logger b p ch r')"
proof -
  note f = sim_facts [OF assms(1,2)]
  have ch: "F_CHUNKED \<in> flags (parser r)" "F_CHUNKED \<in> flags (parser r')"
    using assms(2) f(1) s by (auto simp: run_ok_def state_ok_def CHUNK_STATES_def alike_def)
  from s show ?thesis
  proof (elim insertE)
    assume s: "p_state r = s_chunk_data"
    have mk: "mark_of (p_state r) = Some Body"
      by (simp add: s mark_of_def)
    have c: "content_length (parser r) \<noteq> 0" "content_length (parser r') = content_length (parser r)"
      "content_length (parser r) \<noteq> ULLONG_MAX"
      using assms(2) f(1) s by (simp_all add: run_ok_def state_ok_def alike_def)
    obtain n i i' where n: "0 < n" "p + n \<le> length b"
        "min (unat (content_length (parser r))) (length (a @ b) - (length a + p)) = n"
        "min (unat (content_length (parser r'))) (length b - p) = n"
      and sim: "sim a b (p + n) (set_parser (\<lambda>P. P\<lparr>content_length := content_length P - of_nat n\<rparr>) (MARK Body (length a + p) r))
         (set_parser (\<lambda>P. P\<lparr>content_length := content_length P - of_nat n\<rparr>) (MARK Body p r'))"
        (is "sim a b (p + n) ?r ?r'")
      by (rule sim_read [OF assms(1-3) mk assms(4) c(1)])
    have stay: "rel a b (Continue (length a + (p + n) - 1) ?r) (Continue (p + n - 1) ?r')"
      using rel_Continue_end [OF sim] n(1) by simp
    have "sim a b (p + n) (goto s_chunk_data_almost_done ?r) (goto s_chunk_data_almost_done ?r')"
      using sim by (simp add: sim_def)
    then have complete: "rel a b (Continue (length a + (p + n) - 1) (goto s_chunk_data_almost_done ?r))
        (Continue (p + n - 1) (goto s_chunk_data_almost_done ?r'))"
      using n(1) by (simp only: One_nat_def) (rule rel_Continue_end, simp_all)
    show ?thesis
      unfolding exec_chunk_data_def s f(2) state.case Let_def n(3,4)
      using c ch n(1) stay complete
      by (cases "content_length (parser r) - of_nat n = 0") (simp_all add: add.assoc del: right_minus_eq)
  next
    assume s: "p_state r = s_chunk_data_almost_done"
    have mk: "mark_of (p_state r) = Some Body"
      by (simp add: s mark_of_def)
    obtain x x' where m: "marks r = (\<lambda>_. None)(Body := x)" "marks r' = (\<lambda>_. None)(Body := x')"
      using sim_marked [OF assms(1-3) mk] by metis
    have fl: "flush b p r' = flush (a @ b) (length a + p) r"
      using assms(1) by (simp add: sim_def)
    have c: "content_length (parser r) = 0" "content_length (parser r') = 0"
      using assms(2) f(1) s by (simp_all add: run_ok_def state_ok_def alike_def)
    show ?thesis
      using f(1)
      by (simp add: exec_chunk_data_def f(2) s c ch; intro impI conjI rel_STRICT rel_DATA [where x = x and x' = x'];
          simp add: f(3) m fl alike_def; (intro rel_rules)?; simp add: sim_def alike_def f(2) flush_none)
  next
    assume s: "p_state r = s_chunk_size_almost_done"
    have "mark_of (p_state r) = None"
      by (simp add: s mark_of_def)
    note m = sim_unmarked [OF assms(1-3) this]
    show ?thesis
      using f(1) ch
      by (simp add: exec_chunk_data_def Let_def s f(2,3) alike_def callback_notice; intro impI conjI rel_rules;
          simp add: sim_def alike_def f(2) m flush_none)
  next
    assume s: "p_state r = s_chunk_data_done"
    have "mark_of (p_state r) = None"
      by (simp add: s mark_of_def)
    note m = sim_unmarked [OF assms(1-3) this]
    show ?thesis
      using f(1) ch
      by (simp add: exec_chunk_data_def Let_def s f(2,3) alike_def callback_notice; intro impI conjI rel_rules;
          simp add: sim_def alike_def f(2) m flush_none)
  qed simp
qed

subsection \<open>The loop over the text\<close>

lemma exec_state_rel:
  assumes "sim a b p r r'" "run_ok 1 (length a + p) r" "run_ok 1 p r'" "p < length b" "length a + length b \<le> two_gigabytes"
  shows "rel a b (exec_state logger (a @ b) (length a + p) ch r) (exec_state logger b p ch r')"
proof -
  note A = assms(1-3) and B = assms(1-4)
  have url: "p_state r = s_req_spaces_before_url \<or> mark_of (p_state r) = Some Url"
    if "p_state r \<in> {s_req_spaces_before_url, s_req_schema, s_req_schema_slash, s_req_schema_slash_slash,
          s_req_server_start, s_req_server, s_req_server_with_at, s_req_path, s_req_query_string_start,
          s_req_query_string, s_req_fragment_start, s_req_fragment}"
    using that by (elim insertE; simp add: mark_of_def)
  have h: "header_state (parser r) \<in> VALUE_STATES" if "p_state r = s_header_value"
    using assms(2) that by (simp add: run_ok_def state_ok_def VALUE_STATES_def)
  show ?thesis
    unfolding exec_state_def Let_def sim_facts(2) [OF assms(1,2)]
    by (intro rel_if;
        (erule exec_start_rel [OF A] exec_status_line_rel [OF A] exec_start_req_rel [OF A]
           exec_req_method_rel [OF A] exec_req_version_rel [OF A] exec_header_field_start_rel [OF B]
           exec_header_field_rel [OF assms] exec_header_value_discard_ws_rel [OF A]
           exec_header_value_end_rel [OF A] exec_headers_almost_done_rel [OF A] exec_headers_done_rel [OF A]
           exec_body_rel [OF B] exec_chunk_size_rel [OF A]
         | (rule exec_url_rel [OF A], erule url)
         | (rule exec_header_value_start_rel [OF A], erule disjI1)
         | (rule exec_header_value_rel [OF assms h]; assumption)
         | (rule exec_chunk_data_rel [OF B], rule other_states; assumption)))
qed

lemma exec_state_message_done:
  "p_state r = s_message_done \<Longrightarrow> exec_state S t p c r = exec_state S t p c' r"
  by (simp add: exec_state_def exec_body_def)

lemma exec_char_message_done:
  "p_state r = s_message_done \<Longrightarrow> exec_char k S t p c r = exec_char k S t p c' r"
  by (cases k) (simp_all add: exec_state_message_done [of r S t p c c'])

lemma rel_cases:
  assumes "rel a b out out'"
  obtains "overflowed out'"
  | q r r' where "out = Continue (length a + q) r" "out' = Continue q r'" "sim a b (Suc q) r r'"
  | q c c' r r' where "out = Again (length a + q) c r" "out' = Again q c' r'" "sim a b q r r'"
      "c' = c \<or> p_state r = s_message_done"
  | m P P' where "out = Return (length a + m) P" "out' = Return m P'" "http_errno P' = http_errno P"
      "http_errno P = HPE_OK \<longrightarrow> alike P P' \<and> state P' = state P \<and> data P' = data P"
  using assms unfolding rel_def by (cases out; cases out'; fastforce)

lemma overflowed_Return: "overflowed out \<Longrightarrow> \<exists>m P. out = Return m P"
  by (cases out) (simp_all add: overflowed_def)

lemma exec_char_rel:
  assumes "length a + length b \<le> two_gigabytes"
  shows "\<lbrakk>sim a b p r r'; run_ok 1 (length a + p) r; run_ok 1 p r'; p < length b; rank (p_state r) \<le> k; rank (p_state r) \<le> k'\<rbrakk> \<Longrightarrow>
     rel a b (exec_char k logger (a @ b) (length a + p) ch r) (exec_char k' logger b p ch r')"
proof (induction k arbitrary: p r r' ch k')
  case 0
  then show ?case
    by (simp add: rank_def split: if_splits)
next
  case (Suc k)
  obtain j where k': "k' = Suc j"
    using Suc.prems(6) by (cases k') (simp_all add: rank_def split: if_splits)
  have same: "p_state r' = p_state r"
    using Suc.prems(1) by (simp add: sim_def)
  have step: "rel a b (exec_state logger (a @ b) (length a + p) ch r) (exec_state logger b p ch r')"
    by (rule exec_state_rel [OF Suc.prems(1-4) assms])
  have good: "good (length a + length b) (length a + p) (rank (p_state r)) (exec_state logger (a @ b) (length a + p) ch r)"
      "good (length b) p (rank (p_state r')) (exec_state logger b p ch r')"
    by (rule exec_state_good [OF logger_tame]; use Suc.prems in simp)+
  from step show ?case
  proof (cases rule: rel_cases)
    case 1
    then show ?thesis
      using overflowed_Return [OF 1] k' by (auto simp: rel_def)
  next
    case (3 q c c' r1 r1')
    then have "rel a b (exec_char k logger (a @ b) (length a + q) c r1) (exec_char j logger b q c r1')"
      using good Suc.prems(5,6) same k' by (intro Suc.IH) (simp_all add: sim_def)
    moreover have "exec_char j logger b q c' r1' = exec_char j logger b q c r1'"
      using 3 exec_char_message_done [of r1' j logger b q c' c] by (auto simp: sim_def)
    ultimately show ?thesis
      using 3 k' by simp
  qed (use step k' in simp_all)
qed

lemma rel_exec_char:
  assumes "length a + length b \<le> two_gigabytes" "rel a b out out'"
    and "good (length a + length b) p (Suc k) out" "good (length b) p' (Suc k') out'"
  shows "rel a b (case out of Again q c r \<Rightarrow> exec_char k logger (a @ b) q c r | res \<Rightarrow> res)
    (case out' of Again q c r \<Rightarrow> exec_char k' logger b q c r | res \<Rightarrow> res)"
  using assms(2)
proof (cases rule: rel_cases)
  case 1
  then show ?thesis
    using overflowed_Return [OF 1] by (auto simp: rel_def)
next
  case (3 q c c' r1 r1')
  then have "rel a b (exec_char k logger (a @ b) (length a + q) c r1) (exec_char k' logger b q c r1')"
    using assms by (intro exec_char_rel) (simp_all add: sim_def)
  moreover have "exec_char k' logger b q c' r1' = exec_char k' logger b q c r1'"
    using 3 exec_char_message_done [of r1' k' logger b q c' c] by (auto simp: sim_def)
  ultimately show ?thesis
    using 3 by simp
qed (use assms(2) in simp_all)

lemma exec_at_rel:
  assumes "length a + length b \<le> two_gigabytes" "sim a b p r r'" "run_ok 0 (length a + p) r" "run_ok 0 p r'" "p < length b"
  shows "rel a b (exec_at logger (a @ b) (length a + p) r) (exec_at logger b p r')"
proof -
  note f = sim_facts [OF assms(2,3)]
  have char: "(a @ b) ! (length a + p) = b ! p"
    by (simp add: nth_append)
  show ?thesis
  proof (cases "PARSING_HEADER (p_state r)")
    case True
    have "rel a b
        (COUNT_HEADER_SIZE 1 (length a + p) r (exec_char REEXECUTIONS logger (a @ b) (length a + p) (b ! p)))
        (COUNT_HEADER_SIZE 1 p r' (exec_char REEXECUTIONS logger b p (b ! p)))"
    proof (rule rel_COUNT_at)
      fix w w' :: "32 word"
      assume w: "w \<le> w'" "unat w' \<le> HTTP_MAX_HEADER_SIZE" "w = nread (parser r) + of_nat 1" "w' = nread (parser r') + of_nat 1"
      show "rel a b
          (exec_char REEXECUTIONS logger (a @ b) (length a + p) (b ! p) (r\<lparr>parser := (parser r)\<lparr>nread := w\<rparr>\<rparr>))
          (exec_char REEXECUTIONS logger b p (b ! p) (r'\<lparr>parser := (parser r')\<lparr>nread := w'\<rparr>\<rparr>))"
        by (rule exec_char_rel [OF assms(1)])
          (use assms w in \<open>simp_all add: sim_def alike_def run_ok_def state_ok_step rank_le_REEXECUTIONS\<close>)
    qed (use f(1) in \<open>simp_all add: alike_def word_le_nat_alt\<close>)
    then show ?thesis
      using True f(2) char by (simp add: exec_at_def)
  next
    case False
    have "run_ok 1 (length a + p) r" "run_ok 1 p r'"
      using assms(3,4) False f(2) unfolding run_ok_def by (metis state_ok_other)+
    then show ?thesis
      using False f(2) char exec_char_rel [OF assms(1,2) _ _ assms(5) rank_le_REEXECUTIONS rank_le_REEXECUTIONS] by (simp add: exec_at_def)
  qed
qed

lemma exec_end_log:
  assumes "run_ok k (length t) r"
  shows "exec_end logger t r = Return (length t) ((parser r)\<lparr>state := p_state r, data := flush t (length t) r\<rparr>)"
proof (cases "mark_of (p_state r)")
  case None
  then have "marks r = (\<lambda>_. None)"
    by (rule marks_start [OF assms])
  then show ?thesis
    using assms by (simp add: exec_end_def callback_data run_ok_def RETURN_def flush_none Let_def)
next
  case (Some m)
  then obtain x where "marks r = (\<lambda>_. None)(m := x)"
    using marks_single [OF assms] by blast
  then show ?thesis
    using assms by (cases m; cases x) (simp_all add: exec_end_def callback_data run_ok_def RETURN_def flush_def flush_mark_def Let_def)
qed

text \<open>Both runs to the end of the text.\<close>

lemma exec_loop_rel:
  assumes "length a + length b \<le> two_gigabytes"
  shows "\<lbrakk>sim a b p r r'; run_ok 0 (length a + p) r; run_ok 0 p r'; p \<le> length b; length b < p + k; length b < p + k'\<rbrakk> \<Longrightarrow>
     rel a b (exec_loop k logger (a @ b) (length a + p) r) (exec_loop k' logger b p r')"
proof (induction k arbitrary: p k' r r')
  case 0
  then show ?case by simp
next
  case (Suc k)
  obtain j where k': "k' = Suc j"
    using Suc.prems(4,6) by (cases k') auto
  show ?case
  proof (cases "p = length b")
    case True
    have "exec_end logger (a @ b) r = Return (length (a @ b))
        ((parser r)\<lparr>state := p_state r, data := flush (a @ b) (length (a @ b)) r\<rparr>)"
      by (rule exec_end_log) (use Suc.prems(2) True in simp)
    moreover have "exec_end logger b r' = Return (length b) ((parser r')\<lparr>state := p_state r', data := flush b (length b) r'\<rparr>)"
      by (rule exec_end_log) (use Suc.prems(3) True in simp)
    ultimately show ?thesis
      using Suc.prems(1) True k' by (simp add: rel_def sim_def alike_def)
  next
    case False
    then have p: "p < length b"
      using Suc.prems(4) by simp
    have step: "rel a b (exec_at logger (a @ b) (length a + p) r) (exec_at logger b p r')"
      by (rule exec_at_rel [OF assms Suc.prems(1-3) p])
    have good: "good (length a + length b) (length a + p) 0 (exec_at logger (a @ b) (length a + p) r)"
        "good (length b) p 0 (exec_at logger b p r')"
      by (rule exec_at_good [OF logger_tame]; use Suc.prems p in simp)+
    from step show ?thesis
    proof (cases rule: rel_cases)
      case 1
      then show ?thesis
        using p k' by (cases "exec_at logger b p r'") (simp_all add: overflowed_def rel_def)
    next
      case (2 q r1 r1')
      then have "rel a b (exec_loop k logger (a @ b) (length a + Suc q) r1) (exec_loop j logger b (Suc q) r1')"
        using good Suc.prems(5,6) k' by (intro Suc.IH) simp_all
      then show ?thesis
        using 2 p k' by simp
    next
      case (3 q c r1 r1')
      then show ?thesis
        using good by simp
    qed (use step p k' in simp_all)
  qed
qed

end
