(* ===== verification/Http_Cut.thy ===== *)
theory Http_Cut
  imports Http_Sim
begin

text \<open>
  Where the first piece ends.  Inside it the run over the whole text does what the run over the piece
  does; a loop over a name, a value or a body that reads on past its end has its counterpart in what the
  next call does first, with the marks that \<open>http_parser_execute\<close> sets when it is entered.
\<close>

subsection \<open>Marks are set where they are needed\<close>

text \<open>
  In a state that reads a name, a value, a URL or a status text, its start is marked, and the call only
  returns inside the text for an error or an upgrade.
\<close>

definition marked :: "logging \<Rightarrow> bool" where
  "marked r \<longleftrightarrow> (\<forall>m. mark_of (p_state r) = Some m \<longrightarrow> m \<noteq> Body \<longrightarrow> marks r m \<noteq> None)"

fun tidy :: "(event list) outcome \<Rightarrow> bool" where
  "tidy (Continue q r) \<longleftrightarrow> marked r"
| "tidy (Again q c r) \<longleftrightarrow> marked r"
| "tidy (Return m P) \<longleftrightarrow> http_errno P \<noteq> HPE_OK \<or> upgrade P"
| "tidy Abort \<longleftrightarrow> True"
| "tidy Spin \<longleftrightarrow> True"

lemma tidy_if: "(c \<Longrightarrow> tidy x) \<Longrightarrow> (\<not> c \<Longrightarrow> tidy y) \<Longrightarrow> tidy (if c then x else y)"
  by simp

lemma tidy_fail: "e \<noteq> HPE_OK \<Longrightarrow> tidy (fail e p r)"
  by (simp add: fail_def goto_error_def RETURN_def SET_ERRNO_def)

lemma tidy_STRICT: "(\<not> c \<Longrightarrow> tidy K) \<Longrightarrow> tidy (STRICT_CHECK c p r K)"
  by (simp add: STRICT_CHECK_def tidy_fail)

lemma tidy_COUNT: "tidy (K (r\<lparr>parser := (parser r)\<lparr>nread := nread (parser r) + of_nat c\<rparr>\<rparr>)) \<Longrightarrow> tidy (COUNT_HEADER_SIZE c p r K)"
  by (simp add: COUNT_HEADER_SIZE_def Let_def tidy_fail)

lemma tidy_NOTIFY:
  "tidy (K (r\<lparr>parser := (parser r)\<lparr>state := p_state r, data := Notice n # data (parser r)\<rparr>\<rparr>)) \<Longrightarrow>
   tidy (CALLBACK_NOTIFY (Some (log_notice n)) e er r K)"
  by (cases r) (simp add: CALLBACK_NOTIFY_def log_notice_def Let_def)

lemma tidy_DATA:
  assumes "tidy (K r)" "\<And>s d. tidy (K (r\<lparr>parser := (parser r)\<lparr>state := s, data := d\<rparr>, marks := (marks r)(m := None)\<rparr>))"
  shows "tidy (CALLBACK_DATA logger t m stop er r K)"
  using assms by (cases "http_errno (parser r) = HPE_OK"; cases "marks r m"; simp add: callback_data;
    simp add: CALLBACK_DATA_def)

lemmas tidy_rules = tidy_if tidy_fail tidy_STRICT tidy_COUNT tidy_NOTIFY tidy_DATA

lemma marked_start: "mark_of (p_state r) = None \<Longrightarrow> marked r"
  by (simp add: marked_def)

lemma exec_start_tidy:
  assumes "p_state r \<in> {s_dead, s_start_req_or_res, s_res_or_resp_H, s_start_res, s_res_H, s_res_HT, s_res_HTT, s_res_HTTP}"
  shows "tidy (exec_start logger t p ch r)"
  using assms
  by (elim insertE; simp add: exec_start_def Let_def; intro impI conjI tidy_rules; simp add: marked_def mark_of_def)

lemma exec_status_line_tidy:
  assumes "marked r" "p_state r \<in> {s_res_first_http_major, s_res_http_major, s_res_first_http_minor, s_res_http_minor,
                s_res_first_status_code, s_res_status_code, s_res_status_start, s_res_status, s_res_line_almost_done}"
  shows "tidy (exec_status_line logger t p ch r)"
  using assms(2,1)
  by (elim insertE; simp add: exec_status_line_def Let_def; intro impI conjI tidy_rules;
      simp add: marked_def mark_of_def MARK_def)

lemma exec_start_req_tidy: "p_state r = s_start_req \<Longrightarrow> tidy (exec_start_req logger t p ch r)"
  by (cases "first_method ch"; simp add: exec_start_req_def Let_def; intro impI conjI tidy_rules;
      simp add: marked_def mark_of_def)

lemma exec_req_method_tidy: "p_state r = s_req_method \<Longrightarrow> tidy (exec_req_method p ch r)"
  by (cases "string_at (method_strings (http_method (parser r))) (index (parser r))";
      cases "switch_method (http_method (parser r)) (index (parser r)) ch";
      simp add: exec_req_method_def Let_def; intro impI conjI tidy_rules; simp add: marked_def mark_of_def)

lemma next_url_state_tidy: "marks r Url \<noteq> None \<Longrightarrow> tidy (next_url_state p ch r)"
  using parse_url_char_states [of "p_state r" ch]
  by (auto simp: next_url_state_def Let_def marked_def tidy_fail)

lemma exec_url_tidy:
  assumes "marked r" "p_state r = s_req_spaces_before_url \<or> mark_of (p_state r) = Some Url"
  shows "tidy (exec_url logger t p ch r)"
proof (cases "p_state r = s_req_spaces_before_url")
  case True
  then show ?thesis
    by (simp add: exec_url_def Let_def; intro impI conjI next_url_state_tidy; simp add: marked_def mark_of_def MARK_def)
next
  case False
  then have "marks r Url \<noteq> None"
    using assms by (simp add: marked_def)
  then show ?thesis
    using False by (simp add: exec_url_def; intro impI conjI tidy_rules next_url_state_tidy; simp add: marked_def mark_of_def)
qed

lemma exec_req_version_tidy:
  assumes "p_state r \<in> {s_req_http_start, s_req_http_H, s_req_http_HT, s_req_http_HTT, s_req_http_HTTP,
                s_req_first_http_major, s_req_http_major, s_req_first_http_minor, s_req_http_minor,
                s_req_line_almost_done}"
  shows "tidy (exec_req_version p ch r)"
  using assms
  by (elim insertE; simp add: exec_req_version_def Let_def; intro impI conjI tidy_rules; simp add: marked_def mark_of_def)

lemma exec_header_field_start_tidy: "p_state r = s_header_field_start \<Longrightarrow> tidy (exec_header_field_start p ch r)"
  by (simp add: exec_header_field_start_def Let_def; intro impI conjI tidy_rules; simp add: marked_def mark_of_def MARK_def)

lemma exec_header_field_tidy:
  assumes "marked r" "p_state r = s_header_field"
  shows "tidy (exec_header_field logger t p ch r)"
  using assms
  by (cases "field_loop p ch (header_state (parser r)) (index (parser r)) (drop p t)"; simp add: exec_header_field_def
      split: prod.split; intro impI conjI allI tidy_rules; simp add: marked_def mark_of_def)

lemma exec_header_value_start_tidy:
  "p_state r = s_header_value_start \<or> p_state r = s_header_value_discard_ws \<Longrightarrow> tidy (exec_header_value_start p ch r)"
  by (simp add: exec_header_value_start_def Let_def; intro impI conjI tidy_rules; simp add: marked_def mark_of_def MARK_def)

lemma exec_header_value_discard_ws_tidy:
  "p_state r = s_header_value_discard_ws \<Longrightarrow> tidy (exec_header_value_discard_ws p ch r)"
  by (simp add: exec_header_value_discard_ws_def exec_header_value_start_tidy; simp add: marked_def mark_of_def)

lemma value_done_tidy: "marked r \<Longrightarrow> tidy (value_done t start p h r)"
  unfolding value_done_def by (intro tidy_COUNT) (simp add: marked_def)

lemma exec_header_value_end_tidy:
  assumes "p_state r \<in> {s_header_almost_done, s_header_value_lws, s_header_value_discard_ws_almost_done,
                s_header_value_discard_lws}"
  shows "tidy (exec_header_value_end logger t p ch r)"
  using assms
  by (elim insertE; simp add: exec_header_value_end_def; intro impI conjI tidy_rules; simp add: marked_def mark_of_def)

lemma exec_headers_almost_done_tidy: "p_state r = s_headers_almost_done \<Longrightarrow> tidy (exec_headers_almost_done logger p ch r)"
  by (simp add: exec_headers_almost_done_def Let_def log_notice_apply; intro impI conjI tidy_rules;
      simp add: marked_def mark_of_def RETURN_def)

lemma NEW_MESSAGE_unmarked: "mark_of (NEW_MESSAGE r) = None"
  using NEW_MESSAGE_states [of r] by (elim insertE; simp add: mark_of_def)

lemma exec_headers_done_tidy: "p_state r = s_headers_done \<Longrightarrow> tidy (exec_headers_done logger p ch r)"
  by (simp add: exec_headers_done_def Let_def; intro impI conjI tidy_rules;
      simp add: marked_def NEW_MESSAGE_unmarked RETURN_def; simp add: mark_of_def)

lemma exec_body_tidy:
  assumes "p_state r \<in> {s_body_identity, s_body_identity_eof, s_message_done}"
  shows "tidy (exec_body logger t p ch r)"
  using assms
  by (elim insertE; simp add: exec_body_def Let_def; (intro impI conjI tidy_rules)?;
      simp add: marked_def NEW_MESSAGE_unmarked RETURN_def; simp add: mark_of_def)

lemma exec_chunk_size_tidy:
  assumes "p_state r \<in> {s_chunk_size_start, s_chunk_size, s_chunk_parameters}"
  shows "tidy (exec_chunk_size p ch r)"
  using assms
  by (elim insertE; simp add: exec_chunk_size_def Let_def; intro impI conjI tidy_rules; simp add: marked_def mark_of_def)

lemma exec_chunk_data_tidy:
  assumes "p_state r \<in> {s_chunk_size_almost_done, s_chunk_data, s_chunk_data_almost_done, s_chunk_data_done}"
  shows "tidy (exec_chunk_data logger t p ch r)"
  using assms
  by (elim insertE; simp add: exec_chunk_data_def Let_def; intro impI conjI tidy_rules; simp add: marked_def mark_of_def)

lemma value_char_keeps:
  "value_char ch h r = Value_Next h' r' \<Longrightarrow> p_state r = s_header_value \<Longrightarrow>
   p_state r' = s_header_value \<and> marks r' = marks r"
  by (auto simp: value_char_def match_value_def content_length_char_def Let_def split: if_splits option.splits prod.splits)

lemma value_loop_tidy:
  "p_state r = s_header_value \<Longrightarrow> marks r Header_Value \<noteq> None \<Longrightarrow> tidy (value_loop logger t start p h r s)"
proof (induction "length s" arbitrary: p h r s rule: less_induct)
  case less
  have stay: "marked r"
    using less.prems by (simp add: marked_def mark_of_def)
  show ?case
  proof (cases s)
    case Nil
    then show ?thesis
      using stay by (simp add: value_done_tidy)
  next
    case (Cons ch s1)
    consider "is_eol ch" | "\<not> is_eol ch" "h = h_general" | "\<not> is_eol ch" "h \<noteq> h_general" by blast
    then show ?thesis
    proof cases
      case 1
      then show ?thesis
        unfolding Cons is_eol_def
        by (elim disjE; simp; intro tidy_rules value_done_tidy; simp add: marked_def mark_of_def)
    next
      case 2
      then have "tidy (value_loop logger t start (p + general_span s) h r (drop (general_span s) s))"
        using general_span_pos [of ch s1] Cons less.prems by (intro less.hyps) (auto simp: is_eol_def)
      then show ?thesis
        using 2 Cons by (simp add: is_eol_def)
    next
      case 3
      show ?thesis
      proof (cases "value_char ch h r")
        case (Value_Error e)
        then have "e \<noteq> HPE_OK"
          by (auto simp: value_char_def match_value_def content_length_char_def Let_def split: if_splits option.splits)
        then show ?thesis
          using 3 Cons Value_Error by (simp add: is_eol_def tidy_fail)
      next
        case (Value_Next h1 r1)
        then have "tidy (value_loop logger t start (Suc p) h1 r1 s1)"
          using value_char_keeps [OF Value_Next less.prems(1)] less.prems Cons by (intro less.hyps) simp_all
        then show ?thesis
          using 3 Cons Value_Next by (simp add: is_eol_def)
      qed (use 3 Cons in \<open>simp add: is_eol_def\<close>)
    qed
  qed
qed

lemma exec_header_value_tidy: "marked r \<Longrightarrow> p_state r = s_header_value \<Longrightarrow> tidy (exec_header_value logger t p ch r)"
  unfolding exec_header_value_def by (rule value_loop_tidy) (auto simp: marked_def mark_of_def)

lemma exec_state_tidy:
  assumes "marked r"
  shows "tidy (exec_state logger t p ch r)"
proof -
  have url: "p_state r = s_req_spaces_before_url \<or> mark_of (p_state r) = Some Url"
    if "p_state r \<in> {s_req_spaces_before_url, s_req_schema, s_req_schema_slash, s_req_schema_slash_slash,
          s_req_server_start, s_req_server, s_req_server_with_at, s_req_path, s_req_query_string_start,
          s_req_query_string, s_req_fragment_start, s_req_fragment}"
    using that by (elim insertE; simp add: mark_of_def)
  show ?thesis
    unfolding exec_state_def Let_def
    by (intro tidy_if;
        (erule exec_start_tidy exec_status_line_tidy [OF assms] exec_start_req_tidy exec_req_method_tidy
           exec_req_version_tidy exec_header_field_start_tidy exec_header_field_tidy [OF assms]
           exec_header_value_discard_ws_tidy exec_header_value_tidy [OF assms] exec_header_value_end_tidy
           exec_headers_almost_done_tidy exec_headers_done_tidy exec_body_tidy exec_chunk_size_tidy
         | (rule exec_url_tidy [OF assms], erule url)
         | (rule exec_header_value_start_tidy, erule disjI1)
         | (rule exec_chunk_data_tidy, rule other_states; assumption)))
qed

lemma exec_char_tidy: "marked r \<Longrightarrow> tidy (exec_char k logger t p ch r)"
proof (induction k arbitrary: p ch r)
  case (Suc k)
  then show ?case
    using exec_state_tidy [OF Suc.prems, of t p ch] by (cases "exec_state logger t p ch r") simp_all
qed simp

lemma exec_at_tidy: "marked r \<Longrightarrow> tidy (exec_at logger t p r)"
  unfolding exec_at_def by (intro tidy_if tidy_COUNT exec_char_tidy) (simp_all add: marked_def)

subsection \<open>The end of the first piece\<close>

text \<open>
  Inside the first piece the run over the joined text does what the run over the piece does, until a
  loop inside one character's branch reads on where the piece ends.
\<close>

lemma callback_prefix:
  "stop \<le> length a \<Longrightarrow> CALLBACK_DATA S (a @ b) m stop er r K = CALLBACK_DATA S a m stop er r K"
proof -
  assume "stop \<le> length a"
  then have "take (stop - k) (drop k (a @ b)) = take (stop - k) (drop k a)" for k
    by (cases "k \<le> length a") simp_all
  then show ?thesis
    by (cases "marks r m"; cases "data_callback S m") (simp_all add: CALLBACK_DATA_def del: drop_append take_append)
qed

definition LOOP_STATES :: "state set" where
  "LOOP_STATES = {s_header_field, s_header_value, s_body_identity, s_body_identity_eof, s_chunk_data}"

lemma exec_state_prefix:
  assumes "p < length a" "p_state r \<notin> LOOP_STATES"
  shows "exec_state S (a @ b) p ch r = exec_state S a p ch r"
  using assms
  by (cases "p_state r"; simp add: LOOP_STATES_def exec_state_def exec_start_def exec_status_line_def exec_start_req_def
      exec_url_def exec_header_value_end_def exec_body_def exec_chunk_data_def callback_prefix)

lemma COUNT_merge:
  "COUNT_HEADER_SIZE (m + n) p r K =
   COUNT_HEADER_SIZE n p (r\<lparr>parser := (parser r)\<lparr>nread := nread (parser r) + of_nat m\<rparr>\<rparr>) K"
  by (simp add: COUNT_HEADER_SIZE_def add.assoc)

lemma field_loop_append:
  "field_loop p c h i (x @ y) =
     (case field_loop p c h i x of
        None \<Rightarrow> None
      | Some (q, c', h', i') \<Rightarrow> if q = p + length x then field_loop q c' h' i' y else Some (q, c', h', i'))"
proof (induction x arbitrary: p c h i)
  case Nil
  then show ?case by simp
next
  case (Cons ch x)
  show ?case
    using Cons.IH [of "Suc p"] by (cases "field_char ch (TOKEN ch) h i") (auto simp: Let_def split: option.split)
qed

lemma field_loop_char: "y \<noteq> [] \<Longrightarrow> field_loop p c h i y = field_loop p c' h i y"
  by (cases y) simp_all

text \<open>The parser after the first piece, at the start of the second.\<close>

definition restart :: "string \<Rightarrow> logging \<Rightarrow> logging" where
  "restart t r =
     \<lparr>parser = (parser r)\<lparr>state := p_state r, data := flush t (length t) r\<rparr>, p_state = p_state r,
      marks = exec_marks (p_state r)\<rparr>"

definition restep :: "string \<Rightarrow> logging \<Rightarrow> (event list) outcome" where
  "restep b r =
     (if PARSING_HEADER (p_state r) then COUNT_HEADER_SIZE 1 0 r (exec_state logger b 0 (b ! 0))
      else exec_state logger b 0 (b ! 0) r)"

lemma exec_marks_of: "exec_marks s m = (if mark_of s = Some m \<and> m \<noteq> Body then Some 0 else None)"
  by (cases m; simp add: exec_marks_def mark_of_def)

lemma segment_prefix: "segment k (length a) (a @ b) = segment k (length a) a"
  by (cases "k \<le> length a") (simp_all add: segment_def)

lemma flush_mark_prefix: "flush_mark (a @ b) (length a) M m l = flush_mark a (length a) M m l"
  by (simp add: flush_mark_def segment_prefix split: option.split)

lemma flush_prefix: "flush (a @ b) (length a) r = flush a (length a) r"
  by (simp add: flush_def flush_mark_prefix)

lemma flush_at_start: "flush t 0 r = data (parser r)"
proof -
  have "flush_mark t 0 M m l = l" for M m l
    by (simp add: flush_mark_def segment_def split: option.split)
  then show ?thesis
    by (simp add: flush_def)
qed

lemma restart_sim:
  assumes "run_ok k (length a) r" "marked r" "unat (nread (parser r)) \<le> HTTP_MAX_HEADER_SIZE"
  shows "sim a b 0 r (restart a r)"
proof -
  have "exec_marks (p_state r) m = None \<longleftrightarrow> marks r m = None" if "m \<noteq> Body" for m
  proof -
    have "marks r m \<noteq> None \<Longrightarrow> mark_of (p_state r) = Some m"
      using assms(1) by (auto simp: run_ok_def marks_ok_def)
    moreover have "mark_of (p_state r) = Some m \<Longrightarrow> marks r m \<noteq> None"
      using assms(2) that by (simp add: marked_def)
    ultimately show ?thesis
      using that by (cases "marks r m") (auto simp: exec_marks_of)
  qed
  moreover have "exec_marks (p_state r) Body = None"
    by (simp add: exec_marks_of)
  ultimately show ?thesis
    using assms(3) by (simp add: sim_def restart_def alike_def flush_at_start flush_prefix)
qed

lemma restart_ok: "run_ok k q r \<Longrightarrow> run_ok k 0 (restart a r)"
  using exec_marks_ok [of "p_state r"] by (simp add: run_ok_def restart_def)

text \<open>What the second run has to do with what is left of a loop.\<close>

lemma rel_restep:
  assumes "run_ok 0 (length a) r" "marked r" "unat (nread (parser r)) \<le> HTTP_MAX_HEADER_SIZE" "p_state r \<noteq> s_chunk_size_start"
    and step: "\<And>r'. sim a b 0 r r' \<Longrightarrow> run_ok 1 (length a) r \<Longrightarrow> run_ok 1 0 r' \<Longrightarrow>
      (PARSING_HEADER (p_state r) \<Longrightarrow> unat (nread (parser r')) = unat (nread (parser r)) + 1) \<Longrightarrow>
      rel a b out (exec_state logger b 0 (b ! 0) r')"
  shows "rel a b out (restep b (restart a r))"
proof -
  let ?r = "restart a r"
  have sim: "sim a b 0 r ?r"
    by (rule restart_sim [OF assms(1-3)])
  have other: "run_ok k q s \<Longrightarrow> run_ok 1 q s" if "p_state s \<noteq> s_chunk_size_start" for k q and s :: logging
    using that by (simp add: run_ok_def state_ok_def)
  have ok: "run_ok 1 (length a) r" "run_ok 1 0 ?r"
    using other [OF assms(4,1)] other [OF _ restart_ok [OF assms(1)]] assms(4) by (simp_all add: restart_def)
  show ?thesis
  proof (cases "PARSING_HEADER (p_state r)")
    case False
    then have "rel a b out (exec_state logger b 0 (b ! 0) ?r)"
      by (intro step [OF sim ok]) simp
    then show ?thesis
      using False by (simp add: restep_def restart_def)
  next
    case True
    have n: "nread (parser ?r) = nread (parser r)" and s: "PARSING_HEADER (p_state ?r)"
      using True by (simp_all add: restart_def)
    show ?thesis
    proof (cases "unat (nread (parser r)) + 1 \<le> HTTP_MAX_HEADER_SIZE")
      case fits: True
      let ?r' = "?r\<lparr>parser := (parser ?r)\<lparr>nread := nread (parser ?r) + of_nat 1\<rparr>\<rparr>"
      have count: "unat (nread (parser r) + 1) = unat (nread (parser r)) + 1"
        using unat_count [OF assms(3), of 1] by simp
      then have "nread (parser r) \<le> nread (parser r) + 1"
        by (simp add: word_le_nat_alt)
      then have "sim a b 0 r ?r'"
        using sim fits count n by (simp add: sim_def alike_def)
      moreover have "run_ok 1 0 ?r'"
        using ok(2) assms(4) by (simp add: run_ok_def state_ok_def restart_def)
      ultimately have "rel a b out (exec_state logger b 0 (b ! 0) ?r')"
        using step ok(1) count n by simp
      then show ?thesis
        using COUNT_passes [of ?r 1 0] assms(3) fits s n by (simp add: restep_def)
    next
      case False
      then show ?thesis
        using overflowed_COUNT [of ?r 1 0] assms(3) s n by (simp add: restep_def rel_def)
    qed
  qed
qed

definition crossed :: "string \<Rightarrow> string \<Rightarrow> (event list) outcome \<Rightarrow> (event list) outcome \<Rightarrow> bool" where
  "crossed a b out outa \<longleftrightarrow>
     overflowed outa \<or> (\<exists>r. outa = Continue (length a - 1) r \<and> run_ok 0 (length a) r \<and> marked r \<and>
       unat (nread (parser r)) \<le> HTTP_MAX_HEADER_SIZE \<and> p_state r \<in> LOOP_STATES \<and> rel a b out (restep b (restart a r)))"

lemma nread_bound:
  assumes "unat (nread (parser r)) \<le> HTTP_MAX_HEADER_SIZE" "run_ok 1 p r" "p < length t" "length t \<le> two_gigabytes"
    and "exec_state logger t p ch r = Continue q r1"
  shows "unat (nread (parser r1)) \<le> HTTP_MAX_HEADER_SIZE"
proof -
  have "sim [] t p r r"
    using assms(1) by (simp add: sim_def alike_def)
  then have "rel [] t (Continue q r1) (Continue q r1)"
    using exec_state_rel [of "[]" t p r r ch] assms by simp
  then show ?thesis
    by (simp add: rel_def overflowed_def sim_def alike_def)
qed

text \<open>A branch that reads on: what the first piece leaves, and the rest from there.\<close>

lemma crossed_rel:
  assumes "unat (nread (parser r)) \<le> HTTP_MAX_HEADER_SIZE" "run_ok 1 p r" "marked r" "p < length a" "b \<noteq> []"
    and len: "length a + length b \<le> two_gigabytes" and a: "exec_state logger a p ch r = Continue (length a - 1) r1"
    and s: "p_state r1 \<in> LOOP_STATES"
    and step: "\<And>r'. sim a b 0 r1 r' \<Longrightarrow> run_ok 1 (length a) r1 \<Longrightarrow> run_ok 1 0 r' \<Longrightarrow>
      (PARSING_HEADER (p_state r1) \<Longrightarrow> unat (nread (parser r')) = unat (nread (parser r1)) + 1) \<Longrightarrow>
      rel a b out (exec_state logger b 0 (b ! 0) r')"
  shows "crossed a b out (exec_state logger a p ch r)"
proof -
  have "good (length a) p (rank (p_state r)) (exec_state logger a p ch r)"
    by (rule exec_state_good [OF logger_tame assms(2,4) refl])
  then have ok: "run_ok 0 (length a) r1"
    using a assms(4) by (cases a) simp_all
  have marked: "marked r1"
    using exec_state_tidy [OF assms(3), of a p ch] a by simp
  have bound: "unat (nread (parser r1)) \<le> HTTP_MAX_HEADER_SIZE"
    by (rule nread_bound [OF assms(1,2,4) _ a]) (use len in simp)
  have "rel a b out (restep b (restart a r1))"
    by (rule rel_restep [OF ok marked bound _ step]) (use s in \<open>auto simp: LOOP_STATES_def\<close>)
  then show ?thesis
    using a ok marked bound s by (auto simp: crossed_def)
qed

lemma crossed_resume:
  assumes "unat (nread (parser r)) \<le> HTTP_MAX_HEADER_SIZE" "run_ok 1 p r" "marked r" "p < length a" "b \<noteq> []"
    and len: "length a + length b \<le> two_gigabytes" and a: "exec_state logger a p ch r = Continue (length a - 1) r1"
    and s: "p_state r1 \<in> LOOP_STATES" and out: "out = exec_state logger (a @ b) (length a) (b ! 0) r1"
  shows "crossed a b out (exec_state logger a p ch r)"
proof (rule crossed_rel [OF assms(1-8)])
  fix r'
  assume "sim a b 0 r1 r'" "run_ok 1 (length a) r1" "run_ok 1 0 r'"
  then show "rel a b out (exec_state logger b 0 (b ! 0) r')"
    using exec_state_rel [of a b 0 r1 r' "b ! 0"] assms(5) len out by simp
qed

lemma exec_state_loops:
  "p_state r = s_header_field \<Longrightarrow> exec_state S t p ch r = exec_header_field S t p ch r"
  "p_state r = s_header_value \<Longrightarrow> exec_state S t p ch r = exec_header_value S t p ch r"
  "p_state r \<in> {s_body_identity, s_body_identity_eof, s_message_done} \<Longrightarrow> exec_state S t p ch r = exec_body S t p ch r"
  "p_state r \<in> {s_chunk_size_almost_done, s_chunk_data, s_chunk_data_almost_done, s_chunk_data_done} \<Longrightarrow>
     exec_state S t p ch r = exec_chunk_data S t p ch r"
  by (auto simp: exec_state_def)

lemma header_field_crosses:
  fixes ch :: char
  assumes "unat (nread (parser r)) \<le> HTTP_MAX_HEADER_SIZE" "run_ok 1 p r" "marked r" "p < length a" "b \<noteq> []"
    and "length a + length b \<le> two_gigabytes" and s: "p_state r = s_header_field"
  defines "out \<equiv> exec_state logger (a @ b) p ch r" and "outa \<equiv> exec_state logger a p ch r"
  shows "out = outa \<or> crossed a b out outa"
proof -
  have "header_state (parser r) \<in> FIELD_STATES"
    using assms(2) s by (simp add: run_ok_def state_ok_def)
  from field_loop_stays [OF this]
  obtain q c h i where loop: "field_loop p ch (header_state (parser r)) (index (parser r)) (drop p a) = Some (q, c, h, i)"
    and h: "h \<in> FIELD_STATES" and q: "p \<le> q" "q \<le> length a"
    using assms(4) by (metis (no_types) le_add_diff_inverse length_drop less_imp_le)
  have joined: "field_loop p ch (header_state (parser r)) (index (parser r)) (drop p (a @ b)) =
      (if q = length a then field_loop q (b ! 0) h i b else Some (q, c, h, i))"
    using field_loop_char [OF assms(5), of q c h i "b ! 0"] assms(4) loop
    by (cases "q = length a") (simp_all add: field_loop_append)
  have outa: "outa = COUNT_HEADER_SIZE (q - p) q (set_parser (\<lambda>P. P\<lparr>header_state := h, index := i\<rparr>) r) (\<lambda>r.
      if q = length a then Continue (q - 1) r
      else if c = CHR '':'' then
        CALLBACK_DATA logger a Header_Field q (q + 1) (goto s_header_value_discard_ws r) (Continue q)
      else fail HPE_INVALID_HEADER_TOKEN q r)"
    using loop by (simp add: outa_def exec_state_loops(1) [OF s] exec_header_field_def)
  show ?thesis
  proof (cases "q = length a")
    case False
    then have "out = outa"
      using q joined assms(4) unfolding outa
      by (simp add: out_def exec_state_loops(1) [OF s] exec_header_field_def callback_prefix cong: if_cong)
    then show ?thesis by simp
  next
    case fin: True
    let ?r = "set_parser (\<lambda>P. P\<lparr>header_state := h, index := i\<rparr>) r"
    show ?thesis
    proof (cases "unat (nread (parser r)) + (q - p) \<le> HTTP_MAX_HEADER_SIZE")
      case False
      then have "overflowed outa"
        unfolding outa using assms(1,6) fin by (intro overflowed_COUNT) simp_all
      then show ?thesis by (simp add: crossed_def)
    next
      case True
      let ?r1 = "?r\<lparr>parser := (parser ?r)\<lparr>nread := nread (parser ?r) + of_nat (length a - p)\<rparr>\<rparr>"
      have a: "outa = Continue (length a - 1) ?r1"
        unfolding outa using COUNT_passes [of ?r "q - p" q] assms(1,6) True fin by simp
      have state: "p_state ?r1 = s_header_field"
        using s by simp
      obtain q2 c2 h2 i2 where rest: "field_loop (length a) (b ! 0) h i b = Some (q2, c2, h2, i2)" and q2: "length a \<le> q2"
        using field_loop_stays [OF h, of "length a" "b ! 0" i b] by blast
      have len: "q2 - p = (length a - p) + (q2 - length a)"
        using q2 assms(4) by simp
      have "COUNT_HEADER_SIZE (q2 - p) q2 (set_parser (\<lambda>P. P\<lparr>header_state := h2, index := i2\<rparr>) r) K =
          COUNT_HEADER_SIZE (q2 - length a) q2 (set_parser (\<lambda>P. P\<lparr>header_state := h2, index := i2\<rparr>) ?r1) K" for K
        unfolding len COUNT_merge by (cases "parser r") simp
      then have "out = exec_state logger (a @ b) (length a) (b ! 0) ?r1"
        unfolding out_def exec_state_loops(1) [OF s] exec_state_loops(1) [OF state] exec_header_field_def joined if_P [OF fin]
        using fin rest by simp
      then show ?thesis
        using crossed_resume [OF assms(1-6) a [unfolded outa_def], of out] s by (simp add: outa_def LOOP_STATES_def)
    qed
  qed
qed

lemma body_eof_crosses:
  fixes ch :: char
  assumes "unat (nread (parser r)) \<le> HTTP_MAX_HEADER_SIZE" "run_ok 1 p r" "marked r" "p < length a" "b \<noteq> []"
    and "length a + length b \<le> two_gigabytes" and s: "p_state r = s_body_identity_eof"
  defines "out \<equiv> exec_state logger (a @ b) p ch r" and "outa \<equiv> exec_state logger a p ch r"
  shows "out = outa \<or> crossed a b out outa"
proof -
  let ?r = "MARK Body p r"
  have a: "outa = Continue (length a - 1) ?r"
    using s by (simp add: outa_def exec_state_loops exec_body_def)
  have "MARK Body (length a) ?r = ?r"
    by (simp add: MARK_def)
  then have "out = exec_state logger (a @ b) (length a) (b ! 0) ?r"
    using s by (simp add: out_def exec_state_loops exec_body_def)
  then show ?thesis
    using crossed_resume [OF assms(1-6) a [unfolded outa_def], of out] s by (simp add: outa_def LOOP_STATES_def)
qed

text \<open>A body whose content reaches over the end of the piece.\<close>

lemma read_over:
  fixes c :: "64 word"
  assumes "\<not> unat c \<le> n"
  shows "min (unat c) (n + m) = n + min (unat (c - of_nat n)) m" "c - of_nat n \<noteq> 0"
proof -
  have "unat (c - of_nat n) = unat c - n"
    using unat_minus_read [of c n] assms by (simp add: min_def)
  then show "min (unat c) (n + m) = n + min (unat (c - of_nat n)) m" "c - of_nat n \<noteq> 0"
    using assms by auto
qed

lemma MARK_again [simp]: "MARK m q (set_parser f (MARK m p r)) = set_parser f (MARK m p r)"
  by (simp add: MARK_def)

lemma read_twice:
  assumes "n + k = j"
  shows "set_parser (\<lambda>P. P\<lparr>content_length := content_length P - of_nat k\<rparr>)
      (set_parser (\<lambda>P. P\<lparr>content_length := content_length P - of_nat n\<rparr>) r) =
    set_parser (\<lambda>P. P\<lparr>content_length := content_length P - of_nat j\<rparr>) r"
  by (simp add: assms [symmetric] diff_diff_eq)

lemma chunk_data_step:
  assumes "p_state r = s_chunk_data" "content_length (parser r) \<noteq> 0" "content_length (parser r) \<noteq> ULLONG_MAX"
    and "F_CHUNKED \<in> flags (parser r)" "min (unat (content_length (parser r))) (length t - p) = n"
    and "set_parser (\<lambda>P. P\<lparr>content_length := content_length P - of_nat n\<rparr>) (MARK Body p r) = r1"
  shows "exec_state logger t p ch r =
    Continue (p + n - 1) (if content_length (parser r1) = 0 then goto s_chunk_data_almost_done r1 else r1)"
proof -
  have "exec_state logger t p ch r = exec_chunk_data logger t p ch r"
    by (rule exec_state_loops) (simp add: assms(1))
  then show ?thesis
    unfolding exec_chunk_data_def assms(1) state.case Let_def assms(5,6) using assms(2-4) by simp
qed

lemma chunk_data_crosses:
  fixes ch :: char
  assumes "unat (nread (parser r)) \<le> HTTP_MAX_HEADER_SIZE" "run_ok 1 p r" "marked r" "p < length a" "b \<noteq> []"
    and "length a + length b \<le> two_gigabytes" and s: "p_state r = s_chunk_data"
  defines "out \<equiv> exec_state logger (a @ b) p ch r" and "outa \<equiv> exec_state logger a p ch r"
  shows "out = outa \<or> crossed a b out outa"
proof -
  let ?c = "content_length (parser r)"
  define n where "n = length a - p"
  have c: "?c \<noteq> 0" "?c \<noteq> ULLONG_MAX" "F_CHUNKED \<in> flags (parser r)"
    using assms(2) s by (simp_all add: run_ok_def state_ok_def CHUNK_STATES_def)
  have len: "length (a @ b) - p = n + length b"
    using assms(4) by (simp add: n_def)
  show ?thesis
  proof (cases "unat ?c \<le> n")
    case True
    then have "min (unat ?c) (length (a @ b) - p) = unat ?c" "min (unat ?c) (length a - p) = unat ?c"
      by (simp_all add: len n_def)
    then have "out = outa"
      unfolding out_def outa_def by (simp only: chunk_data_step [OF s c _ refl])
    then show ?thesis by simp
  next
    case False
    let ?r = "set_parser (\<lambda>P. P\<lparr>content_length := content_length P - of_nat n\<rparr>) (MARK Body p r)"
    define k where "k = min (unat (?c - of_nat n)) (length b)"
    note over = read_over(1) [OF False, of "length b", folded len k_def] read_over(2) [OF False]
    have max: "?c - of_nat n \<noteq> ULLONG_MAX"
      using left_over_not_max [OF c(2), of n] False by (simp add: min_def)
    have "min (unat ?c) (length a - p) = n"
      using False by (simp add: n_def)
    then have a: "outa = Continue (length a - 1) ?r"
      unfolding outa_def using chunk_data_step [OF s c _ refl, of a p n ch] over(2) assms(4) by (simp add: n_def)
    have "out = Continue (p + (n + k) - 1)
        (let r1 = set_parser (\<lambda>P. P\<lparr>content_length := content_length P - of_nat k\<rparr>) ?r
         in if content_length (parser r1) = 0 then goto s_chunk_data_almost_done r1 else r1)"
      unfolding out_def Let_def by (rule chunk_data_step [OF s c over(1)]) (rule read_twice [OF refl, symmetric])
    also have "\<dots> = exec_state logger (a @ b) (length a) (b ! 0) ?r"
      unfolding Let_def
    proof (subst chunk_data_step)
      show "min (unat (content_length (parser ?r))) (length (a @ b) - length a) = k"
        by (simp add: k_def)
    qed (use s c over(2) max assms(4) in \<open>simp_all only: MARK_again\<close>, simp_all add: n_def)
    finally show ?thesis
      using crossed_resume [OF assms(1-6) a [unfolded outa_def], of out] s by (simp add: outa_def LOOP_STATES_def)
  qed
qed

lemma body_step:
  assumes "p_state r = s_body_identity" "content_length (parser r) \<noteq> 0" "content_length (parser r) \<noteq> ULLONG_MAX"
    and "min (unat (content_length (parser r))) (length t - p) = n"
    and "set_parser (\<lambda>P. P\<lparr>content_length := content_length P - of_nat n\<rparr>) (MARK Body p r) = r1"
  shows "exec_state logger t p ch r =
    (if content_length (parser r1) = 0
     then CALLBACK_DATA logger t Body (p + n - 1 + 1) (p + n - 1) (goto s_message_done r1) (Again (p + n - 1) ch)
     else Continue (p + n - 1) r1)"
proof -
  have "exec_state logger t p ch r = exec_body logger t p ch r"
    by (rule exec_state_loops) (simp add: assms(1))
  then show ?thesis
    unfolding exec_body_def assms(1) state.case Let_def assms(4,5) using assms(2,3) by simp
qed

lemma body_crosses:
  fixes ch :: char
  assumes "unat (nread (parser r)) \<le> HTTP_MAX_HEADER_SIZE" "run_ok 1 p r" "marked r" "p < length a" "b \<noteq> []"
    and "length a + length b \<le> two_gigabytes" and s: "p_state r = s_body_identity"
  defines "out \<equiv> exec_state logger (a @ b) p ch r" and "outa \<equiv> exec_state logger a p ch r"
  shows "out = outa \<or> crossed a b out outa"
proof -
  let ?c = "content_length (parser r)"
  define n where "n = length a - p"
  have c: "?c \<noteq> 0" "?c \<noteq> ULLONG_MAX"
    using assms(2) s by (simp_all add: run_ok_def state_ok_def)
  have len: "length (a @ b) - p = n + length b"
    using assms(4) by (simp add: n_def)
  show ?thesis
  proof (cases "unat ?c \<le> n")
    case True
    then have n: "min (unat ?c) (length (a @ b) - p) = unat ?c" "min (unat ?c) (length a - p) = unat ?c"
      by (simp_all add: len n_def)
    have "0 < unat ?c"
      using c(1) by (simp add: unat_gt_0)
    then have "p + unat ?c - 1 + 1 \<le> length a"
      using True assms(4) by (simp add: n_def)
    then have "out = outa"
      unfolding out_def outa_def body_step [OF s c n(1) refl] body_step [OF s c n(2) refl] by (simp only: callback_prefix)
    then show ?thesis by simp
  next
    case False
    let ?r = "set_parser (\<lambda>P. P\<lparr>content_length := content_length P - of_nat n\<rparr>) (MARK Body p r)"
    define k where "k = min (unat (?c - of_nat n)) (length b)"
    note over = read_over(1) [OF False, of "length b", folded len k_def] read_over(2) [OF False]
    have max: "?c - of_nat n \<noteq> ULLONG_MAX"
      using left_over_not_max [OF c(2), of n] False by (simp add: min_def)
    have "min (unat ?c) (length a - p) = n"
      using False by (simp add: n_def)
    then have a: "outa = Continue (length a - 1) ?r"
      unfolding outa_def using body_step [OF s c _ refl, of a p n ch] over(2) assms(4) by (simp add: n_def)
    have "out = (let r1 = set_parser (\<lambda>P. P\<lparr>content_length := content_length P - of_nat k\<rparr>) ?r; q = p + (n + k) - 1
         in if content_length (parser r1) = 0
            then CALLBACK_DATA logger (a @ b) Body (q + 1) q (goto s_message_done r1) (Again q ch)
            else Continue q r1)"
      unfolding out_def Let_def by (rule body_step [OF s c over(1)]) (rule read_twice [OF refl, symmetric])
    also have "\<dots> = exec_state logger (a @ b) (length a) ch ?r"
      unfolding Let_def
    proof (subst body_step)
      show "min (unat (content_length (parser ?r))) (length (a @ b) - length a) = k"
        by (simp add: k_def)
    qed (use s c over(2) max assms(4) in \<open>simp_all only: MARK_again\<close>, simp_all add: n_def)
    finally have out: "out = exec_body logger (a @ b) (length a) ch ?r"
      using s by (simp add: exec_state_loops)
    have "crossed a b out (exec_state logger a p ch r)"
    proof (rule crossed_rel [OF assms(1-6) a [unfolded outa_def]])
      fix r'
      assume *: "sim a b 0 ?r r'" "run_ok 1 (length a) ?r" "run_ok 1 0 r'"
      then show "rel a b out (exec_state logger b 0 (b ! 0) r')"
        using exec_body_rel [of a b 0 ?r r' 1 1 ch "b ! 0"] assms(5) s out
        by (simp add: sim_def exec_state_loops)
    qed (use s in \<open>simp add: LOOP_STATES_def\<close>)
    then show ?thesis
      by (simp add: outa_def)
  qed
qed

subsection \<open>Header values over the end of the piece\<close>

text \<open>
  A value of no interest is skipped up to a line end, which is looked for in the first 80 kilobytes; a
  line end further on is not found.
\<close>

lemma value_loop_general:
  "value_loop S t j p h_general r s =
   value_loop S t j (p + general_span s) h_general r (drop (general_span s) s)"
proof (cases s)
  case (Cons c s1)
  show ?thesis
  proof (cases "is_eol c")
    case True
    then have "general_span s = 0"
      unfolding Cons by (cases "HTTP_MAX_HEADER_SIZE") (simp_all add: general_span_def HTTP_MAX_HEADER_SIZE_def)
    then show ?thesis by simp
  next
    case False
    then show ?thesis
      unfolding Cons by (simp add: is_eol_def)
  qed
qed (simp add: general_span_def)

lemma takeWhile_shorter: "\<exists>c \<in> set l. \<not> P c \<Longrightarrow> length (takeWhile P l) < length l"
  by (induction l) auto

lemma span_within:
  assumes "\<exists>c \<in> set (take HTTP_MAX_HEADER_SIZE x). is_eol c"
  shows "general_span (x @ y) = general_span x" "general_span x < length x"
proof -
  have t: "take HTTP_MAX_HEADER_SIZE (x @ y) = take HTTP_MAX_HEADER_SIZE x @ take (HTTP_MAX_HEADER_SIZE - length x) y"
    by simp
  have "takeWhile (\<lambda>c. \<not> is_eol c) (take HTTP_MAX_HEADER_SIZE (x @ y)) =
      takeWhile (\<lambda>c. \<not> is_eol c) (take HTTP_MAX_HEADER_SIZE x)"
    unfolding t using assms by (metis takeWhile_append1)
  moreover have "\<exists>c \<in> set (take HTTP_MAX_HEADER_SIZE (x @ y)). is_eol c"
    using assms unfolding t by auto
  ultimately show "general_span (x @ y) = general_span x"
    using assms by (simp add: general_span_def)
  have "length (takeWhile (\<lambda>c. \<not> is_eol c) (take HTTP_MAX_HEADER_SIZE x)) < length (take HTTP_MAX_HEADER_SIZE x)"
    using assms by (intro takeWhile_shorter) auto
  then show "general_span x < length x"
    using assms by (simp add: general_span_def)
qed

lemma span_over:
  assumes "\<not> (\<exists>c \<in> set (take HTTP_MAX_HEADER_SIZE x). is_eol c)"
  shows "general_span x = length x"
    "general_span (x @ y) = length x + general_span y \<or>
     general_span (x @ y) = length x + length y \<and> HTTP_MAX_HEADER_SIZE \<le> length x + general_span y"
proof -
  show "general_span x = length x"
    using assms by (simp add: general_span_def)
  let ?m = "HTTP_MAX_HEADER_SIZE - length x"
  have t: "take HTTP_MAX_HEADER_SIZE (x @ y) = take HTTP_MAX_HEADER_SIZE x @ take ?m y"
    by simp
  show "general_span (x @ y) = length x + general_span y \<or>
     general_span (x @ y) = length x + length y \<and> HTTP_MAX_HEADER_SIZE \<le> length x + general_span y"
  proof (cases "\<exists>c \<in> set (take ?m y). is_eol c")
    case True
    then have m: "0 < ?m"
      by (cases ?m) auto
    have "takeWhile (\<lambda>c. \<not> is_eol c) (take HTTP_MAX_HEADER_SIZE y) = takeWhile (\<lambda>c. \<not> is_eol c) (take ?m y)"
    proof -
      have "take HTTP_MAX_HEADER_SIZE y = take ?m y @ take (length x) (drop ?m y)"
        using m take_add [of ?m "length x" y] by simp
      then show ?thesis
        using True by (metis takeWhile_append1)
    qed
    moreover have "\<exists>c \<in> set (take HTTP_MAX_HEADER_SIZE y). is_eol c"
      using True set_take_subset_set_take [of ?m HTTP_MAX_HEADER_SIZE y] by auto
    moreover have "takeWhile (\<lambda>c. \<not> is_eol c) (take HTTP_MAX_HEADER_SIZE (x @ y)) =
        take HTTP_MAX_HEADER_SIZE x @ takeWhile (\<lambda>c. \<not> is_eol c) (take ?m y)"
      unfolding t using assms by (intro takeWhile_append2) auto
    moreover have "\<exists>c \<in> set (take HTTP_MAX_HEADER_SIZE (x @ y)). is_eol c"
      using True unfolding t by auto
    ultimately have "general_span (x @ y) = length x + general_span y"
      using m by (simp add: general_span_def)
    then show ?thesis ..
  next
    case False
    then have none: "general_span (x @ y) = length x + length y"
      using assms unfolding general_span_def t by (auto simp: Let_def)
    show ?thesis
    proof (cases "\<exists>c \<in> set (take HTTP_MAX_HEADER_SIZE y). is_eol c")
      case eol: True
      let ?l = "takeWhile (\<lambda>c. \<not> is_eol c) (take HTTP_MAX_HEADER_SIZE y)"
      have "takeWhile (\<lambda>c. \<not> is_eol c) (take ?m y @ drop ?m (take HTTP_MAX_HEADER_SIZE y)) =
          take ?m y @ takeWhile (\<lambda>c. \<not> is_eol c) (drop ?m (take HTTP_MAX_HEADER_SIZE y))"
        using False by (intro takeWhile_append2) auto
      moreover have "take HTTP_MAX_HEADER_SIZE y = take ?m y @ drop ?m (take HTTP_MAX_HEADER_SIZE y)"
        using append_take_drop_id [of ?m "take HTTP_MAX_HEADER_SIZE y"] by (simp add: min_def)
      ultimately have "length (take ?m y) \<le> length ?l"
        by (metis length_append le_add1)
      moreover have "length ?l < length y"
        using eol span_within(2) [OF eol] by (simp add: general_span_def)
      ultimately have "?m \<le> length ?l" by simp
      moreover have "general_span y = length ?l"
        using eol by (simp add: general_span_def)
      ultimately have "HTTP_MAX_HEADER_SIZE \<le> length x + general_span y" by simp
      then show ?thesis
        using none by simp
    next
      case False
      then show ?thesis
        using none by (simp add: general_span_def)
    qed
  qed
qed

text \<open>
  The loop over the value, where it gets to the end of the piece: the joined run goes on from there, or it
  has skipped a line end, and then the value is longer than headers may be.
\<close>

definition value_rest :: "string \<Rightarrow> string \<Rightarrow> nat \<Rightarrow> logging \<Rightarrow> (event list) outcome \<Rightarrow> (event list) outcome \<Rightarrow> bool" where
  "value_rest a b j r out outa \<longleftrightarrow>
     (\<exists>h r1. outa = value_done a j (length a) h r1 \<and> h \<in> VALUE_STATES \<and> p_state r1 = s_header_value \<and>
        marks r1 = marks r \<and> http_errno (parser r1) = HPE_OK \<and> nread (parser r1) = nread (parser r) \<and>
        (out = value_loop logger (a @ b) j (length a) h r1 b \<or>
         h = h_general \<and> out = value_done (a @ b) j (length a + length b) h r1 \<and>
         HTTP_MAX_HEADER_SIZE \<le> length a - j + general_span b))"

lemma value_done_prefix: "p < length a \<Longrightarrow> value_done (a @ b) j p h = value_done a j p h"
  by (simp add: value_done_def fun_eq_iff)

lemma value_char_next:
  assumes "value_char ch h r = Value_Next h' r'" "h \<in> VALUE_STATES" "p_state r = s_header_value"
  shows "h' \<in> VALUE_STATES" "p_state r' = s_header_value" "marks r' = marks r"
    "http_errno (parser r') = http_errno (parser r)" "nread (parser r') = nread (parser r)"
proof -
  have "value_step_ok r (Value_Next h' r')"
    using value_char_ok [OF assms(2,3), of ch] assms(1) by simp
  then show "h' \<in> VALUE_STATES" "p_state r' = s_header_value" "marks r' = marks r"
      "http_errno (parser r') = http_errno (parser r)"
    by (simp_all add: value_step_ok_def)
  show "nread (parser r') = nread (parser r)"
    using assms(1) by (auto simp: value_char_def match_value_def content_length_char_def Let_def
        split: if_splits option.splits prod.splits)
qed

lemma value_loop_crosses:
  assumes "b \<noteq> []"
  shows "\<lbrakk>p_state r = s_header_value; h \<in> VALUE_STATES; http_errno (parser r) = HPE_OK; j \<le> p; p + length x = length a\<rbrakk> \<Longrightarrow>
    value_loop logger (a @ b) j p h r (x @ b) = value_loop logger a j p h r x \<or>
    value_rest a b j r (value_loop logger (a @ b) j p h r (x @ b)) (value_loop logger a j p h r x)"
proof (induction "length x" arbitrary: p h r x rule: less_induct)
  case less
  note prems = less.prems
  show ?case
  proof (cases x)
    case Nil
    then show ?thesis
      using prems by (auto simp: value_rest_def)
  next
    case (Cons ch x1)
    have p: "p < length a"
      using prems(5) Cons by simp
    consider "is_eol ch" | "\<not> is_eol ch" "h = h_general" | "\<not> is_eol ch" "h \<noteq> h_general" by blast
    then show ?thesis
    proof cases
      case 1
      then show ?thesis
        using p Cons by (auto simp: is_eol_def callback_prefix value_done_prefix)
    next
      case 2
      let ?n = "general_span x" and ?m = "general_span (x @ b)"
      have joined: "value_loop logger (a @ b) j p h r (x @ b) = value_loop logger (a @ b) j (p + ?m) h r (drop ?m (x @ b))"
        unfolding 2(2) by (rule value_loop_general)
      have first: "value_loop logger a j p h r x = value_loop logger a j (p + ?n) h r (drop ?n x)"
        unfolding 2(2) by (rule value_loop_general)
      show ?thesis
      proof (cases "\<exists>c \<in> set (take HTTP_MAX_HEADER_SIZE x). is_eol c")
        case True
        have n: "?m = ?n" "?n < length x" "0 < ?n"
          using span_within(1) [OF True, of b] span_within(2) [OF True] general_span_pos [of ch x1] 2(1) Cons by (auto simp: is_eol_def)
        have "value_loop logger (a @ b) j (p + ?n) h r (drop ?n x @ b) = value_loop logger a j (p + ?n) h r (drop ?n x) \<or>
            value_rest a b j r (value_loop logger (a @ b) j (p + ?n) h r (drop ?n x @ b)) (value_loop logger a j (p + ?n) h r (drop ?n x))"
          by (rule less.hyps) (use prems n in auto)
        then show ?thesis
          unfolding joined first using n by simp
      next
        case False
        note n = span_over [OF False]
        have fin: "p + ?n = length a"
          using n(1) prems(5) by simp
        from n(2) [of b] show ?thesis
        proof
          assume m: "?m = length x + general_span b"
          have "value_loop logger (a @ b) j p h r (x @ b) = value_loop logger (a @ b) j (length a) h r b"
            unfolding joined m using 2(2) value_loop_general [of logger "a @ b" j "length a" r b] prems(5) by (simp add: add.assoc [symmetric])
          then show ?thesis
            unfolding first n(1) using prems by (auto simp: value_rest_def)
        next
          assume m: "?m = length x + length b \<and> HTTP_MAX_HEADER_SIZE \<le> length x + general_span b"
          have "value_loop logger (a @ b) j p h r (x @ b) = value_done (a @ b) j (length a + length b) h r"
            unfolding joined using m prems(5) by (simp add: add.assoc [symmetric])
          moreover have "HTTP_MAX_HEADER_SIZE \<le> length a - j + general_span b"
            using m prems(4,5) by linarith
          ultimately show ?thesis
            unfolding first n(1) using prems 2(2) by (auto simp: value_rest_def)
        qed
      qed
    next
      case 3
      show ?thesis
      proof (cases "value_char ch h r")
        case (Value_Next h1 r1)
        note next1 = value_char_next [OF Value_Next prems(2,1)]
        have "value_loop logger (a @ b) j (Suc p) h1 r1 (x1 @ b) = value_loop logger a j (Suc p) h1 r1 x1 \<or>
            value_rest a b j r1 (value_loop logger (a @ b) j (Suc p) h1 r1 (x1 @ b)) (value_loop logger a j (Suc p) h1 r1 x1)"
          by (rule less.hyps) (use prems Cons next1 in auto)
        then show ?thesis
          using 3 Cons Value_Next next1 by (auto simp: is_eol_def value_rest_def)
      qed (use 3 Cons in \<open>simp_all add: is_eol_def\<close>)
    qed
  qed
qed

lemma overflowed_value_done:
  assumes "unat (nread (parser r)) \<le> HTTP_MAX_HEADER_SIZE" "p \<le> two_gigabytes"
    and "unat (nread (parser r)) + (p - j) > HTTP_MAX_HEADER_SIZE"
  shows "overflowed (value_done t j p h r)"
  unfolding value_done_def by (rule overflowed_COUNT) (use assms in simp_all)

lemma general_span_stops: "drop (general_span s) s = [] \<or> (\<exists>c s1. drop (general_span s) s = c # s1 \<and> is_eol c)"
proof (cases "\<exists>c \<in> set (take HTTP_MAX_HEADER_SIZE s). is_eol c")
  case True
  let ?l = "takeWhile (\<lambda>c. \<not> is_eol c) (take HTTP_MAX_HEADER_SIZE s)"
  have n: "general_span s = length ?l" "length ?l < length (take HTTP_MAX_HEADER_SIZE s)"
    using True takeWhile_shorter [of "take HTTP_MAX_HEADER_SIZE s" "\<lambda>c. \<not> is_eol c"] by (simp_all add: general_span_def)
  then have "is_eol (s ! general_span s)" "general_span s < length s"
    using nth_length_takeWhile [OF n(2)] by simp_all
  then show ?thesis
    using Cons_nth_drop_Suc by metis
qed (simp add: general_span_def)

lemma overflowed_value_loop:
  assumes "http_errno (parser r) = HPE_OK" "marks r = (\<lambda>_. None)(Header_Value := x)"
    and n: "unat (nread (parser r)) \<le> HTTP_MAX_HEADER_SIZE" "p + general_span s \<le> two_gigabytes"
    and over: "unat (nread (parser r)) + (p + general_span s - j) > HTTP_MAX_HEADER_SIZE"
  shows "overflowed (value_loop logger t j p h_general r s)"
proof -
  let ?p = "p + general_span s"
  consider "drop (general_span s) s = []" | s1 where "drop (general_span s) s = CR # s1"
    | s1 where "drop (general_span s) s = LF # s1"
    using general_span_stops [of s] by (auto simp: is_eol_def)
  then show ?thesis
  proof cases
    case 1
    then show ?thesis
      unfolding value_loop_general [of logger t j p r s] using overflowed_value_done [OF n over] by simp
  next
    case 2
    let ?r = "set_parser (\<lambda>P. P\<lparr>header_state := h_general\<rparr>) (goto s_header_almost_done r)"
    obtain s2 where "CALLBACK_DATA logger t Header_Value ?p (?p + 1) ?r (value_done t j ?p h_general) =
        value_done t j ?p h_general (?r\<lparr>parser := (parser ?r)\<lparr>state := s2, data := flush t ?p ?r\<rparr>, marks := (\<lambda>_. None)\<rparr>)"
      using callback_delivers [of ?r Header_Value x t ?p "?p + 1" "value_done t j ?p h_general"] assms(1,2) by auto
    moreover have "overflowed (value_done t j ?p h_general
        (?r\<lparr>parser := (parser ?r)\<lparr>state := s2, data := flush t ?p ?r\<rparr>, marks := (\<lambda>_. None)\<rparr>))"
      by (rule overflowed_value_done) (use n over in simp_all)
    ultimately show ?thesis
      unfolding value_loop_general [of logger t j p r s] 2 by simp
  next
    case 3
    then show ?thesis
      unfolding value_loop_general [of logger t j p r s] 3 using n over by (simp, intro overflowed_COUNT) simp_all
  qed
qed

text \<open>The parser as the piece leaves it in the middle of a value.\<close>

definition value_left :: "nat \<Rightarrow> header_states \<Rightarrow> logging \<Rightarrow> logging" where
  "value_left n h r = set_parser (\<lambda>P. P\<lparr>header_state := h, nread := nread P + of_nat n\<rparr>) r"

lemma value_done_end:
  assumes "unat (nread (parser r)) + (length a - j) \<le> HTTP_MAX_HEADER_SIZE" "length a \<le> two_gigabytes"
  shows "value_done a j (length a) h r = Continue (length a - 1) (value_left (length a - j) h r)"
    "unat (nread (parser (value_left (length a - j) h r))) = unat (nread (parser r)) + (length a - j)"
proof -
  show "value_done a j (length a) h r = Continue (length a - 1) (value_left (length a - j) h r)"
    unfolding value_done_def using assms by (subst COUNT_passes) (simp_all add: value_left_def)
  show "unat (nread (parser (value_left (length a - j) h r))) = unat (nread (parser r)) + (length a - j)"
    using unat_count [of "nread (parser r)" "length a - j"] assms by (simp add: value_left_def)
qed

lemma value_resumes:
  assumes "length a + length b \<le> two_gigabytes" "b \<noteq> []" "j < length a" "h \<in> VALUE_STATES"
    and r: "p_state r = s_header_value" "http_errno (parser r) = HPE_OK" "marks r = (\<lambda>_. None)(Header_Value := x)"
      "\<And>i. x = Some i \<Longrightarrow> i \<le> length a"
    and sim: "sim a b 0 (value_left (length a - j) h r) r'" and ok: "run_ok 1 0 r'"
    and n: "unat (nread (parser r')) = unat (nread (parser r)) + (length a - j) + 1"
  shows "rel a b (value_loop logger (a @ b) j (length a) h r b) (value_loop logger b 0 0 h r' b)"
proof -
  have r': "p_state r' = s_header_value"
    using sim r(1) by (simp add: sim_def value_left_def)
  obtain x' where m': "marks r' = (\<lambda>_. None)(Header_Value := x')" "\<And>i. x' = Some i \<Longrightarrow> i \<le> 0"
    using marks_single [OF ok, of Header_Value] r' by (auto simp: mark_of_def)
  have "\<forall>m. m \<noteq> Body \<longrightarrow> (marks r' m = None \<longleftrightarrow> marks (value_left (length a - j) h r) m = None)"
    using sim unfolding sim_def by blast
  then have x: "x' = None \<longleftrightarrow> x = None"
    using r(3) m'(1) by (auto simp: value_left_def dest: spec [of _ Header_Value])
  have fl: "flush b 0 r' = flush (a @ b) (length a) r"
    using sim by (simp add: sim_def value_left_def)
  have "\<exists>y y'. marks r = (\<lambda>_. None)(Header_Value := y) \<and> marks r' = (\<lambda>_. None)(Header_Value := y') \<and>
      (\<forall>i. y = Some i \<longrightarrow> i \<le> length a + 0) \<and> (\<forall>i. y' = Some i \<longrightarrow> i \<le> 0) \<and> (y' = None \<longleftrightarrow> y = None)"
    by (rule exI [of _ x], rule exI [of _ x']) (use r m' x in auto)
  moreover have "alike_value (parser r) (parser r')"
    using sim n by (simp add: sim_def alike_value_def alike_def value_left_def word_le_nat_alt)
  ultimately have "value_sim a b j 0 0 r r'"
    using r r' fl n assms(3) by (simp add: value_sim_def)
  then show ?thesis
    using value_loop_rel [OF assms(1,2) _ assms(4), of j 0 0 r r' b] by simp
qed

lemma value_rest_crossed:
  fixes ch :: char
  assumes "unat (nread (parser r)) \<le> HTTP_MAX_HEADER_SIZE" "run_ok 1 p r" "marked r" "p < length a" "b \<noteq> []"
    and len: "length a + length b \<le> two_gigabytes" and s: "p_state r = s_header_value"
    and rest: "value_rest a b p r out (exec_state logger a p ch r)"
  shows "crossed a b out (exec_state logger a p ch r)"
proof -
  from rest obtain h r1 where outa: "exec_state logger a p ch r = value_done a p (length a) h r1"
    and r1: "h \<in> VALUE_STATES" "p_state r1 = s_header_value" "marks r1 = marks r"
      "http_errno (parser r1) = HPE_OK" "nread (parser r1) = nread (parser r)"
    and out: "out = value_loop logger (a @ b) p (length a) h r1 b \<or>
       h = h_general \<and> out = value_done (a @ b) p (length a + length b) h r1 \<and>
       HTTP_MAX_HEADER_SIZE \<le> length a - p + general_span b"
    unfolding value_rest_def by blast
  obtain x where m: "marks r = (\<lambda>_. None)(Header_Value := x)" "\<And>i. x = Some i \<Longrightarrow> i \<le> p"
    using marks_single [OF assms(2), of Header_Value] s by (auto simp: mark_of_def)
  show ?thesis
  proof (cases "unat (nread (parser r1)) + (length a - p) \<le> HTTP_MAX_HEADER_SIZE")
    case False
    then have "overflowed (exec_state logger a p ch r)"
      unfolding outa by (intro overflowed_value_done) (use r1(5) assms(1) len in simp_all)
    then show ?thesis by (simp add: crossed_def)
  next
    case True
    have "length a \<le> two_gigabytes"
      using len by simp
    note fin = value_done_end [OF True this, of h]
    let ?r = "value_left (length a - p) h r1"
    show ?thesis
    proof (rule crossed_rel [OF assms(1-6) outa [unfolded fin(1)]])
      fix r'
      assume sim: "sim a b 0 ?r r'" and ok: "run_ok 1 0 r'"
        and "PARSING_HEADER (p_state ?r) \<Longrightarrow> unat (nread (parser r')) = unat (nread (parser ?r)) + 1"
      then have n: "unat (nread (parser r')) = unat (nread (parser r1)) + (length a - p) + 1"
        using fin(2) r1(2) by (simp add: PARSING_HEADER_def value_left_def)
      have r': "p_state r' = s_header_value" "header_state (parser r') = h" "http_errno (parser r') = HPE_OK"
        "unat (nread (parser r')) \<le> HTTP_MAX_HEADER_SIZE"
        using sim r1(2,4) by (simp_all add: sim_def alike_def value_left_def)
      obtain x' where m': "marks r' = (\<lambda>_. None)(Header_Value := x')"
        using marks_single [OF ok, of Header_Value] r'(1) by (auto simp: mark_of_def)
      have go: "exec_state logger b 0 (b ! 0) r' = value_loop logger b 0 0 h r' b"
        using r' by (simp add: exec_state_loops exec_header_value_def)
      have "rel a b (value_loop logger (a @ b) p (length a) h r1 b) (value_loop logger b 0 0 h r' b)"
        using value_resumes [OF len assms(5,4) r1(1,2,4) _ _ sim ok n, of x] m r1(3) assms(4) by force
      moreover have "overflowed (value_loop logger b 0 0 h_general r' b)"
        if "HTTP_MAX_HEADER_SIZE \<le> length a - p + general_span b"
        by (rule overflowed_value_loop [OF r'(3) m' r'(4)]) (use general_span_length [of b] len n that in simp_all)
      ultimately show "rel a b out (exec_state logger b 0 (b ! 0) r')"
        using out go by (auto simp: rel_def)
    qed (use r1(2) in \<open>simp add: LOOP_STATES_def value_left_def\<close>)
  qed
qed

lemma header_value_crosses:
  fixes ch :: char
  assumes "unat (nread (parser r)) \<le> HTTP_MAX_HEADER_SIZE" "run_ok 1 p r" "marked r" "p < length a" "b \<noteq> []"
    and "length a + length b \<le> two_gigabytes" and s: "p_state r = s_header_value"
  defines "out \<equiv> exec_state logger (a @ b) p ch r" and "outa \<equiv> exec_state logger a p ch r"
  shows "out = outa \<or> crossed a b out outa"
proof -
  have h: "header_state (parser r) \<in> VALUE_STATES" and ok: "http_errno (parser r) = HPE_OK"
    using assms(2) s by (simp_all add: run_ok_def state_ok_def VALUE_STATES_def)
  have loop: "out = value_loop logger (a @ b) p p (header_state (parser r)) r (drop p a @ b)"
    "outa = value_loop logger a p p (header_state (parser r)) r (drop p a)"
    using s assms(4) by (simp_all add: out_def outa_def exec_state_loops exec_header_value_def)
  have "out = outa \<or> value_rest a b p r out outa"
    unfolding loop by (rule value_loop_crosses [OF assms(5) s h ok]) (use assms(4) in simp_all)
  then show ?thesis
    using value_rest_crossed [OF assms(1-6) s, of out ch] by (auto simp: outa_def)
qed

end
