(* ===== verification/Http_Pieces.thy ===== *)
theory Http_Pieces
  imports Http_Cut
begin

text \<open>
  The message parser does not see where its input is cut: the runs over the pieces of a text of
  \<open>httpclient/src/http_parser.c\<close> and the run over the text report the same, call back alike and leave the
  same parser, unless the headers go over their limit or an upgrade ends the pieces early.
\<close>

subsection \<open>From the first piece to the second\<close>

lemma exec_state_crosses:
  assumes "unat (nread (parser r)) \<le> HTTP_MAX_HEADER_SIZE" "run_ok 1 p r" "marked r" "p < length a" "b \<noteq> []"
    and "length a + length b \<le> two_gigabytes"
  shows "exec_state logger (a @ b) p ch r = exec_state logger a p ch r \<or>
    crossed a b (exec_state logger (a @ b) p ch r) (exec_state logger a p ch r)"
proof (cases "p_state r \<in> LOOP_STATES")
  case True
  then show ?thesis
    unfolding LOOP_STATES_def
    by (elim insertE emptyE; use header_field_crosses [OF assms] header_value_crosses [OF assms] body_crosses [OF assms]
        body_eof_crosses [OF assms] chunk_data_crosses [OF assms] in blast)
next
  case False
  then show ?thesis
    by (simp add: exec_state_prefix [OF assms(4)])
qed

text \<open>The second run takes its first character with what the first piece left.\<close>

definition carried :: "string \<Rightarrow> string \<Rightarrow> (event list) outcome \<Rightarrow> (event list) outcome \<Rightarrow> bool" where
  "carried a b out outa \<longleftrightarrow>
     overflowed outa \<or> (\<exists>r. outa = Continue (length a - 1) r \<and> run_ok 0 (length a) r \<and> marked r \<and>
       unat (nread (parser r)) \<le> HTTP_MAX_HEADER_SIZE \<and> rel a b out (exec_at logger b 0 (restart a r)))"

lemma good_rank: "good n p k out \<Longrightarrow> k \<le> j \<Longrightarrow> good n p j out"
  by (cases out) auto

lemma exec_at_restep:
  "exec_at logger b 0 r = (case restep b r of Again q c r \<Rightarrow> exec_char 5 logger b q c r | res \<Rightarrow> res)"
proof -
  have six: "REEXECUTIONS = Suc 5"
    by (simp add: REEXECUTIONS_def)
  show ?thesis
    unfolding exec_at_def restep_def six exec_char.simps(2)
    by (simp add: COUNT_HEADER_SIZE_def Let_def fail_def goto_error_def RETURN_def)
qed

lemma restep_good:
  assumes "run_ok 0 0 r" "b \<noteq> []"
  shows "good (length b) 0 6 (restep b r)"
proof (cases "PARSING_HEADER (p_state r)")
  case True
  let ?r = "r\<lparr>parser := (parser r)\<lparr>nread := nread (parser r) + of_nat 1\<rparr>\<rparr>"
  have "run_ok 1 0 ?r"
    using assms(1) by (simp add: run_ok_def state_ok_step)
  then have "good (length b) 0 6 (exec_state logger b 0 (b ! 0) ?r)"
    by (rule good_rank [OF exec_state_good [OF logger_tame]])
      (use assms(2) rank_le_REEXECUTIONS [of "p_state ?r"] in \<open>simp_all add: REEXECUTIONS_def\<close>)
  then show ?thesis
    unfolding restep_def if_P [OF True] COUNT_HEADER_SIZE_def Let_def by (intro if_good fail_good) simp_all
next
  case False
  have "run_ok 1 0 r"
    using assms(1) False unfolding run_ok_def by (metis state_ok_other)
  then show ?thesis
    unfolding restep_def if_not_P [OF False]
    by (rule good_rank [OF exec_state_good [OF logger_tame]])
      (use assms(2) rank_le_REEXECUTIONS [of "p_state r"] in \<open>simp_all add: REEXECUTIONS_def\<close>)
qed

lemma exec_char_crosses:
  assumes "b \<noteq> []" "length a + length b \<le> two_gigabytes"
  shows "\<lbrakk>unat (nread (parser r)) \<le> HTTP_MAX_HEADER_SIZE; run_ok 1 p r; marked r; p < length a; rank (p_state r) \<le> k\<rbrakk> \<Longrightarrow>
    exec_char k logger (a @ b) p ch r = exec_char k logger a p ch r \<or>
    carried a b (exec_char k logger (a @ b) p ch r) (exec_char k logger a p ch r)"
proof (induction k arbitrary: p ch r)
  case 0
  then show ?case by simp
next
  case (Suc k)
  have good: "good (length a) p (rank (p_state r)) (exec_state logger a p ch r)"
    by (rule exec_state_good [OF logger_tame Suc.prems(2,4) refl])
  have joined: "good (length a + length b) p (Suc k) (exec_state logger (a @ b) p ch r)"
    by (rule good_rank [OF exec_state_good [OF logger_tame Suc.prems(2)] Suc.prems(5)]) (use Suc.prems(4) in simp_all)
  from exec_state_crosses [OF Suc.prems(1-4) assms] show ?case
  proof
    assume same: "exec_state logger (a @ b) p ch r = exec_state logger a p ch r"
    show ?thesis
    proof (cases "exec_state logger a p ch r")
      case (Again q c r1)
      have "sim [] a p r r"
        using Suc.prems(1) by (simp add: sim_def alike_def)
      then have "rel [] a (exec_state logger a p ch r) (exec_state logger a p ch r)"
        using exec_state_rel [of "[]" a p r r ch] Suc.prems assms(2) by simp
      then have "unat (nread (parser r1)) \<le> HTTP_MAX_HEADER_SIZE"
        using Again by (simp add: rel_def overflowed_def sim_def alike_def)
      moreover have "marked r1"
        using exec_state_tidy [OF Suc.prems(3), of a p ch] Again by simp
      ultimately have "exec_char k logger (a @ b) q c r1 = exec_char k logger a q c r1 \<or>
          carried a b (exec_char k logger (a @ b) q c r1) (exec_char k logger a q c r1)"
        using good Again Suc.prems(5) by (intro Suc.IH) simp_all
      then show ?thesis
        using Again same by simp
    qed (use same in simp_all)
  next
    assume "crossed a b (exec_state logger (a @ b) p ch r) (exec_state logger a p ch r)"
    then consider "overflowed (exec_state logger a p ch r)"
      | r1 where "exec_state logger a p ch r = Continue (length a - 1) r1" "run_ok 0 (length a) r1" "marked r1"
          "unat (nread (parser r1)) \<le> HTTP_MAX_HEADER_SIZE" "rel a b (exec_state logger (a @ b) p ch r) (restep b (restart a r1))"
      unfolding crossed_def by blast
    then show ?thesis
    proof cases
      case 1
      then show ?thesis
        using overflowed_Return [OF 1] by (auto simp: carried_def)
    next
      case (2 r1)
      have "good (length b) 0 (Suc 5) (restep b (restart a r1))"
        using restep_good [OF restart_ok [OF 2(2)] assms(1)] by simp
      then have "rel a b (exec_char (Suc k) logger (a @ b) p ch r) (exec_at logger b 0 (restart a r1))"
        unfolding exec_at_restep exec_char.simps(2)
        by (intro rel_exec_char [OF assms(2) 2(5) joined])
      then show ?thesis
        using 2 by (auto simp: carried_def)
    qed
  qed
qed

lemma exec_at_crosses:
  assumes "b \<noteq> []" "length a + length b \<le> two_gigabytes"
    and "unat (nread (parser r)) \<le> HTTP_MAX_HEADER_SIZE" "run_ok 0 p r" "marked r" "p < length a"
  shows "exec_at logger (a @ b) p r = exec_at logger a p r \<or> carried a b (exec_at logger (a @ b) p r) (exec_at logger a p r)"
proof -
  have char: "(a @ b) ! p = a ! p"
    using assms(6) by (simp add: nth_append)
  show ?thesis
  proof (cases "PARSING_HEADER (p_state r)")
    case False
    have "run_ok 1 p r"
      using assms(4) False unfolding run_ok_def by (metis state_ok_other)
    then show ?thesis
      using exec_char_crosses [OF assms(1,2,3) _ assms(5,6) rank_le_REEXECUTIONS] False char by (simp add: exec_at_def)
  next
    case True
    show ?thesis
    proof (cases "unat (nread (parser r)) + 1 \<le> HTTP_MAX_HEADER_SIZE")
      case fits: True
      let ?r = "r\<lparr>parser := (parser r)\<lparr>nread := nread (parser r) + of_nat 1\<rparr>\<rparr>"
      have "exec_at logger t p r = exec_char REEXECUTIONS logger t p (t ! p) ?r" for t
        unfolding exec_at_def if_P [OF True] by (rule COUNT_passes) (use assms(3) fits in simp_all)
      moreover have "unat (nread (parser ?r)) \<le> HTTP_MAX_HEADER_SIZE"
        using unat_count [OF assms(3), of 1] fits by simp
      moreover have "run_ok 1 p ?r" "marked ?r"
        using assms(4,5) by (simp_all add: run_ok_def state_ok_step marked_def)
      ultimately show ?thesis
        using exec_char_crosses [OF assms(1,2) _ _ _ assms(6) rank_le_REEXECUTIONS, of ?r] char by simp
    next
      case False
      then have "overflowed (exec_at logger a p r)"
        unfolding exec_at_def if_P [OF True] using assms(3) by (intro overflowed_COUNT) simp_all
      then show ?thesis
        by (simp add: carried_def)
    qed
  qed
qed

lemma rel_exec_loop:
  assumes "length a + length b \<le> two_gigabytes" "rel a b out out'"
    and "good (length a + length b) p 0 out" "good (length b) p' 0 out'"
    and "length a + length b < p + Suc k" "length b < p' + Suc k'"
  shows "rel a b (case out of Continue q r \<Rightarrow> exec_loop k logger (a @ b) (q + 1) r | res \<Rightarrow> res)
    (case out' of Continue q r \<Rightarrow> exec_loop k' logger b (q + 1) r | res \<Rightarrow> res)"
  using assms(2)
proof (cases rule: rel_cases)
  case 1
  then show ?thesis
    using overflowed_Return [OF 1] by (auto simp: rel_def)
next
  case (2 q r r')
  then have "rel a b (exec_loop k logger (a @ b) (length a + Suc q) r) (exec_loop k' logger b (Suc q) r')"
    using assms by (intro exec_loop_rel) simp_all
  then show ?thesis
    using 2 by simp
next
  case (3 q c c' r r')
  then show ?thesis
    using assms(3) by simp
qed (use assms(2) in simp_all)

lemma exec_end_restart:
  "exec_end logger a r = Return (length a) P \<Longrightarrow> run_ok 0 (length a) r \<Longrightarrow> parser (restart a r) = P \<and> p_state r = state P"
  using exec_end_log [of 0 a r] by (auto simp: restart_def)

definition continues :: "string \<Rightarrow> string \<Rightarrow> (event list) http_parser \<Rightarrow> (event list) outcome \<Rightarrow> bool" where
  "continues a b P out \<longleftrightarrow>
     (\<exists>r. parser (restart a r) = P \<and> p_state r = state P \<and>
        rel a b out (exec_loop (length b + 1) logger b 0 (restart a r)))"

lemma carried_continues:
  assumes "b \<noteq> []" "length a + length b \<le> two_gigabytes" "run_ok 0 p r" "p < length a" "length a + length b < p + Suc k"
    and "carried a b (exec_at logger (a @ b) p r) (exec_at logger a p r)"
    and run: "exec_loop (Suc i) logger a p r = Return (length a) P" "http_errno P = HPE_OK"
  shows "continues a b P (exec_loop (Suc k) logger (a @ b) p r)"
proof -
  from assms(6) consider "overflowed (exec_at logger a p r)"
    | ra where "exec_at logger a p r = Continue (length a - 1) ra" "run_ok 0 (length a) ra" "marked ra"
        "unat (nread (parser ra)) \<le> HTTP_MAX_HEADER_SIZE" "rel a b (exec_at logger (a @ b) p r) (exec_at logger b 0 (restart a ra))"
    unfolding carried_def by blast
  then show ?thesis
  proof cases
    case 1
    then show ?thesis
      using overflowed_Return [OF 1] run assms(4) by (auto simp: overflowed_def)
  next
    case (2 ra)
    have "exec_loop i logger a (length a) ra = Return (length a) P"
      using run 2(1) assms(4) by (cases "length a") simp_all
    then have stop: "parser (restart a ra) = P \<and> p_state ra = state P"
      using exec_end_restart [OF _ 2(2)] by (cases i) simp_all
    have "rel a b (case exec_at logger (a @ b) p r of Continue q r \<Rightarrow> exec_loop k logger (a @ b) (q + 1) r | res \<Rightarrow> res)
        (case exec_at logger b 0 (restart a ra) of Continue q r \<Rightarrow> exec_loop (length b) logger b (q + 1) r | res \<Rightarrow> res)"
    proof (rule rel_exec_loop [OF assms(2) 2(5)])
      show "good (length a + length b) p 0 (exec_at logger (a @ b) p r)"
        by (rule exec_at_good [OF logger_tame _ assms(3)]) (use assms(4) in simp_all)
      show "good (length b) 0 0 (exec_at logger b 0 (restart a ra))"
        by (rule exec_at_good [OF logger_tame refl restart_ok [OF 2(2)]]) (use assms(1) in simp)
    qed (use assms(5) in simp_all)
    then show ?thesis
      unfolding continues_def using stop assms(1,4) by (intro exI [of _ ra]) auto
  qed
qed

lemma exec_at_bound:
  assumes "unat (nread (parser r)) \<le> HTTP_MAX_HEADER_SIZE" "run_ok 0 p r" "p < length t" "length t \<le> two_gigabytes"
    and "exec_at logger t p r = Continue q r1"
  shows "unat (nread (parser r1)) \<le> HTTP_MAX_HEADER_SIZE"
proof -
  have "sim [] t p r r"
    using assms(1) by (simp add: sim_def alike_def)
  then have "rel [] t (exec_at logger t p r) (exec_at logger t p r)"
    using exec_at_rel [of "[]" t p r r] assms(2-4) by simp
  then show ?thesis
    using assms(5) by (simp add: rel_def overflowed_def sim_def alike_def)
qed

lemma exec_loop_crosses:
  assumes "b \<noteq> []" "length a + length b \<le> two_gigabytes" and ends: "http_errno P = HPE_OK" "\<not> upgrade P"
  shows "\<lbrakk>unat (nread (parser r)) \<le> HTTP_MAX_HEADER_SIZE; run_ok 0 p r; marked r; p \<le> length a;
      length a + length b < p + k; exec_loop j logger a p r = Return (length a) P\<rbrakk> \<Longrightarrow>
    continues a b P (exec_loop k logger (a @ b) p r)"
proof (induction k arbitrary: p r j)
  case 0
  then show ?case by simp
next
  case (Suc k)
  obtain i where j: "j = Suc i"
    using Suc.prems(6) by (cases j) simp_all
  show ?case
  proof (cases "p = length a")
    case True
    have start: "sim a b 0 r (restart a r)" "run_ok 0 0 (restart a r)"
      using restart_sim [of 0 a r b] restart_ok [OF Suc.prems(2)] Suc.prems(1-3) True by simp_all
    have "rel a b (exec_loop (Suc k) logger (a @ b) (length a + 0) r) (exec_loop (length b + 1) logger b 0 (restart a r))"
      by (rule exec_loop_rel [OF assms(2) start(1)]) (use Suc.prems True start(2) in simp_all)
    then show ?thesis
      unfolding continues_def
      using exec_end_restart [of a r P] Suc.prems(2,6) True j by (intro exI [of _ r]) simp
  next
    case False
    then have p: "p < length a"
      using Suc.prems(4) by simp
    have good: "good (length a) p 0 (exec_at logger a p r)"
      by (rule exec_at_good [OF logger_tame refl Suc.prems(2) p])
    note tidy = exec_at_tidy [OF Suc.prems(3), of a p]
    from exec_at_crosses [OF assms(1,2) Suc.prems(1-3) p] show ?thesis
    proof
      assume same: "exec_at logger (a @ b) p r = exec_at logger a p r"
      obtain q r1 where c: "exec_at logger a p r = Continue q r1"
        using Suc.prems(6) j p tidy good ends by (cases "exec_at logger a p r") auto
      have "unat (nread (parser r1)) \<le> HTTP_MAX_HEADER_SIZE"
        by (rule exec_at_bound [OF Suc.prems(1,2) p _ c]) (use assms(2) in simp)
      then have "continues a b P (exec_loop k logger (a @ b) (q + 1) r1)"
        using good tidy c Suc.prems(5,6) j p by (intro Suc.IH [of _ _ i]) simp_all
      then show ?thesis
        using same c p by simp
    qed (use carried_continues [OF assms(1,2) Suc.prems(2) p Suc.prems(5)] Suc.prems(6) j ends(1) in blast)
  qed
qed

lemma start_marked: "marked \<lparr>parser = P, p_state = s, marks = exec_marks s\<rparr>"
  by (simp add: marked_def exec_marks_of)

lemma execute_run:
  "t \<noteq> [] \<Longrightarrow> http_errno P = HPE_OK \<Longrightarrow> http_parser_execute S P t =
     exec_loop (length t + 1) S t 0 \<lparr>parser = P, p_state = state P, marks = exec_marks (state P)\<rparr>"
  by (simp add: http_parser_execute_def Let_def)

lemma start_ok:
  "parser_ok P \<Longrightarrow> http_errno P = HPE_OK \<Longrightarrow> run_ok 0 0 \<lparr>parser = P, p_state = state P, marks = exec_marks (state P)\<rparr>"
  using exec_marks_ok [of "state P"] by (simp add: run_ok_def parser_ok_def)

lemma execute_accepts: "t \<noteq> [] \<Longrightarrow> http_parser_execute S P t = Return (length t) P' \<Longrightarrow> http_errno P = HPE_OK"
  by (auto simp: http_parser_execute_def Let_def split: if_splits)

lemma execute_keeps:
  assumes "parser_ok P" "unat (nread P) \<le> HTTP_MAX_HEADER_SIZE" "t \<noteq> []" "length t \<le> two_gigabytes"
    and "http_parser_execute logger P t = Return (length t) P'" "http_errno P' = HPE_OK"
  shows "parser_ok P'" "unat (nread P') \<le> HTTP_MAX_HEADER_SIZE"
proof -
  let ?r = "\<lparr>parser = P, p_state = state P, marks = exec_marks (state P)\<rparr> :: logging"
  have ok: "http_errno P = HPE_OK"
    by (rule execute_accepts [OF assms(3,5)])
  have run: "exec_loop (length t + 1) logger t 0 ?r = Return (length t) P'"
    using execute_run [OF assms(3) ok, of logger] assms(5) by simp
  show "parser_ok P'"
    using exec_loop_good [OF logger_tame refl, of 0 ?r t "length t + 1"] start_ok [OF assms(1) ok] run by auto
  have "sim [] t 0 ?r ?r"
    using assms(2) by (simp add: sim_def alike_def)
  then have "rel [] t (exec_loop (length t + 1) logger ([] @ t) (length [] + 0) ?r) (exec_loop (length t + 1) logger t 0 ?r)"
    using exec_loop_rel [of "[]" t 0 ?r ?r "length t + 1" "length t + 1"] start_ok [OF assms(1) ok] assms(4) by simp
  then show "unat (nread P') \<le> HTTP_MAX_HEADER_SIZE"
    using run assms(6) by (simp add: rel_def overflowed_def alike_def)
qed

lemma two_pieces_join:
  assumes "parser_ok P" "unat (nread P) \<le> HTTP_MAX_HEADER_SIZE" "a \<noteq> []" "b \<noteq> []" "length a + length b \<le> 2147483648"
    and first: "http_parser_execute logger P a = Return (length a) P1" "http_errno P1 = HPE_OK" "\<not> upgrade P1"
    and second: "http_parser_execute logger P1 b = Return k P2" "http_errno P2 \<noteq> HPE_HEADER_OVERFLOW"
  shows "\<exists>P'. http_parser_execute logger P (a @ b) = Return (length a + k) P' \<and> http_errno P' = http_errno P2 \<and>
    (http_errno P2 = HPE_OK \<longrightarrow> P' = P2\<lparr>nread := nread P'\<rparr>)"
proof -
  let ?r = "\<lparr>parser = P, p_state = state P, marks = exec_marks (state P)\<rparr> :: logging"
  have ok: "http_errno P = HPE_OK"
    by (rule execute_accepts [OF assms(3) first(1)])
  note run = execute_run [OF _ ok, of _ logger]
  have "run_ok 0 0 ?r"
    by (rule start_ok [OF assms(1) ok])
  then have "continues a b P1 (exec_loop (length (a @ b) + 1) logger (a @ b) 0 ?r)"
    using exec_loop_crosses [OF assms(4,5) first(2,3), of ?r 0 "length (a @ b) + 1" "length a + 1"] assms(2,3) first(1) run
      start_marked by simp
  then obtain ra where ra: "P1 = parser (restart a ra)" "state P1 = p_state ra"
      "rel a b (exec_loop (length (a @ b) + 1) logger (a @ b) 0 ?r) (exec_loop (length b + 1) logger b 0 (restart a ra))"
    unfolding continues_def by auto
  have "restart a ra = \<lparr>parser = P1, p_state = state P1, marks = exec_marks (state P1)\<rparr>"
    using ra(1,2) by (simp add: restart_def)
  then have "exec_loop (length b + 1) logger b 0 (restart a ra) = Return k P2"
    using second(1) assms(4) first(2) by (simp add: http_parser_execute_def Let_def)
  then have "rel a b (http_parser_execute logger P (a @ b)) (Return k P2)"
    using ra(3) run [of "a @ b"] assms(3) by simp
  then have "in_step a b (http_parser_execute logger P (a @ b)) (Return k P2)"
    using second(2) by (simp add: rel_def overflowed_def)
  then obtain P' where P': "http_parser_execute logger P (a @ b) = Return (length a + k) P'" "http_errno P2 = http_errno P'"
      "http_errno P' = HPE_OK \<longrightarrow> alike P' P2 \<and> state P2 = state P' \<and> data P2 = data P'"
    by (cases "http_parser_execute logger P (a @ b)") auto
  then show ?thesis
    by (intro exI [of _ P']) (cases P'; cases P2; simp add: alike_def)
qed

text \<open>A piece that is not taken whole, or ends with an error, ends the call on any longer text as well.\<close>

lemma exec_loop_prefix:
  assumes "b \<noteq> []" "length a + length b \<le> two_gigabytes"
    and "http_errno P \<noteq> HPE_HEADER_OVERFLOW" "http_errno P \<noteq> HPE_OK \<or> m < length a"
  shows "\<lbrakk>unat (nread (parser r)) \<le> HTTP_MAX_HEADER_SIZE; run_ok 0 p r; marked r; p \<le> length a;
      length a + length b < p + k; exec_loop j logger a p r = Return m P\<rbrakk> \<Longrightarrow>
    exec_loop k logger (a @ b) p r = Return m P"
proof (induction k arbitrary: p r j)
  case 0
  then show ?case by simp
next
  case (Suc k)
  obtain i where j: "j = Suc i"
    using Suc.prems(6) by (cases j) simp_all
  have no_end: "exec_end logger a ra \<noteq> Return m P" if "run_ok 0 (length a) ra" for ra
    using exec_end_log [OF that] assms(4) that by (auto simp: run_ok_def)
  show ?case
  proof (cases "p = length a")
    case True
    then show ?thesis
      using Suc.prems(2,6) j no_end [of r] by simp
  next
    case False
    then have p: "p < length a"
      using Suc.prems(4) by simp
    have good: "good (length a) p 0 (exec_at logger a p r)"
      by (rule exec_at_good [OF logger_tame refl Suc.prems(2) p])
    note tidy = exec_at_tidy [OF Suc.prems(3), of a p]
    have run: "(case exec_at logger a p r of Continue q r \<Rightarrow> exec_loop i logger a (q + 1) r | res \<Rightarrow> res) = Return m P"
      using Suc.prems(6) j p by simp
    have "\<not> carried a b (exec_at logger (a @ b) p r) (exec_at logger a p r)"
    proof
      assume "carried a b (exec_at logger (a @ b) p r) (exec_at logger a p r)"
      then consider "overflowed (exec_at logger a p r)"
        | ra where "exec_at logger a p r = Continue (length a - 1) ra" "run_ok 0 (length a) ra"
        unfolding carried_def by blast
      then show False
      proof cases
        case 1
        then show ?thesis
          using overflowed_Return [OF 1] run assms(3) by (auto simp: overflowed_def)
      next
        case (2 ra)
        then show ?thesis
          using run p no_end [OF 2(2)] by (cases i; cases "length a") simp_all
      qed
    qed
    then have same: "exec_at logger (a @ b) p r = exec_at logger a p r"
      using exec_at_crosses [OF assms(1,2) Suc.prems(1-3) p] by blast
    show ?thesis
    proof (cases "exec_at logger a p r")
      case (Continue q r1)
      have "unat (nread (parser r1)) \<le> HTTP_MAX_HEADER_SIZE"
        by (rule exec_at_bound [OF Suc.prems(1,2) p _ Continue]) (use assms(2) in simp)
      then have "exec_loop k logger (a @ b) (q + 1) r1 = Return m P"
        using good tidy Continue Suc.prems(5) run p by (intro Suc.IH [of _ _ i]) simp_all
      then show ?thesis
        using same Continue p by simp
    qed (use same run p good in simp_all)
  qed
qed

lemma piece_stops:
  assumes "parser_ok P" "unat (nread P) \<le> HTTP_MAX_HEADER_SIZE" "a \<noteq> []" "b \<noteq> []" "length a + length b \<le> 2147483648"
    and first: "http_parser_execute logger P a = Return k P1" "http_errno P1 \<noteq> HPE_HEADER_OVERFLOW"
      "http_errno P1 \<noteq> HPE_OK \<or> k < length a"
  shows "http_parser_execute logger P (a @ b) = Return k P1"
proof (cases "http_errno P = HPE_OK")
  case True
  then show ?thesis
    using exec_loop_prefix [OF assms(4,5) first(2,3), of "\<lparr>parser = P, p_state = state P, marks = exec_marks (state P)\<rparr>" 0
        "length (a @ b) + 1" "length a + 1"] execute_run [OF _ True, of _ logger] start_ok [OF assms(1) True] start_marked
      assms(2,3) first(1) by (simp del: exec_loop.simps)
qed (use first(1) in \<open>simp add: http_parser_execute_def Let_def\<close>)

lemma execute_returns:
  assumes "parser_ok P" "t \<noteq> []"
  obtains k P' where "http_parser_execute logger P t = Return k P'" "k \<le> length t"
proof (cases "http_errno P = HPE_OK")
  case True
  then show ?thesis
    using exec_loop_good [OF logger_tame refl start_ok [OF assms(1) True], of t "length t + 1"]
      execute_run [OF assms(2) True, of logger] that by auto
qed (use that in \<open>simp add: http_parser_execute_def Let_def\<close>)

subsection \<open>Any number of pieces\<close>

text \<open>
  The pieces of an input handed over one after the other, as the parser asks its caller to do: until a
  piece is not taken whole, an error is reported or the protocol is to be upgraded.  The result is the
  number of characters taken, the parser and the pieces left.
\<close>

fun feed_on :: "'u http_parser_settings \<Rightarrow> 'u http_parser \<Rightarrow> string list \<Rightarrow> (nat \<times> 'u http_parser \<times> string list) option" where
  "feed_on S P [] = Some (0, P, [])"
| "feed_on S P (t # ts) =
     (case http_parser_execute S P t of
        Return k P' \<Rightarrow>
          if k = length t \<and> http_errno P' = HPE_OK \<and> \<not> upgrade P'
          then map_option (\<lambda>(n, rest). (k + n, rest)) (feed_on S P' ts)
          else Some (k, P', ts)
      | _ \<Rightarrow> None)"

definition agrees :: "(event list) http_parser \<Rightarrow> nat \<Rightarrow> (event list) http_parser \<Rightarrow> string \<Rightarrow> bool" where
  "agrees P k P2 t \<longleftrightarrow> (\<exists>P'. http_parser_execute logger P t = Return k P' \<and> http_errno P' = http_errno P2 \<and>
     (http_errno P2 = HPE_OK \<longrightarrow> P' = P2\<lparr>nread := nread P'\<rparr>))"

lemma agrees_same: "http_parser_execute logger P t = Return k P2 \<Longrightarrow> agrees P k P2 t"
  by (simp add: agrees_def)

lemma agrees_join:
  assumes "parser_ok P" "unat (nread P) \<le> HTTP_MAX_HEADER_SIZE" "a \<noteq> []" "b \<noteq> []" "length a + length b \<le> 2147483648"
    and "http_parser_execute logger P a = Return (length a) P1" "http_errno P1 = HPE_OK" "\<not> upgrade P1"
    and "agrees P1 k P2 b" "http_errno P2 \<noteq> HPE_HEADER_OVERFLOW"
  shows "agrees P (length a + k) P2 (a @ b)"
proof -
  obtain P3 where P3: "http_parser_execute logger P1 b = Return k P3" "http_errno P3 = http_errno P2"
      "http_errno P2 = HPE_OK \<longrightarrow> P3 = P2\<lparr>nread := nread P3\<rparr>"
    using assms(9) unfolding agrees_def by blast
  obtain P' where P': "http_parser_execute logger P (a @ b) = Return (length a + k) P'" "http_errno P' = http_errno P3"
      "http_errno P3 = HPE_OK \<longrightarrow> P' = P3\<lparr>nread := nread P'\<rparr>"
    using two_pieces_join [OF assms(1-8) P3(1)] P3(2) assms(10) by auto
  have "P3\<lparr>nread := w\<rparr> = P2\<lparr>nread := w\<rparr>" if "P3 = P2\<lparr>nread := nread P3\<rparr>" for w
    using that by (cases P3; cases P2; simp)
  then show ?thesis
    unfolding agrees_def using P3(2,3) P' by (intro exI [of _ P']) auto
qed

lemma feed_on_joins:
  assumes "parser_ok P" "unat (nread P) \<le> HTTP_MAX_HEADER_SIZE"
    and "ts \<noteq> []" "[] \<notin> set ts" "length (concat ts) \<le> 2147483648"
  shows "\<exists>k P2 rest. feed_on logger P ts = Some (k, P2, rest) \<and>
    (http_errno P2 = HPE_HEADER_OVERFLOW \<or> upgrade P2 \<and> rest \<noteq> [] \<or> agrees P k P2 (concat ts))"
  using assms
proof (induction ts arbitrary: P)
  case (Cons t ts)
  then have t: "t \<noteq> []" "length t \<le> two_gigabytes" "length t + length (concat ts) \<le> two_gigabytes" by auto
  obtain k P1 where run: "http_parser_execute logger P t = Return k P1" "k \<le> length t"
    using execute_returns [OF Cons.prems(1) t(1)] by blast
  have rest: "concat ts \<noteq> []" if "ts \<noteq> []"
    using that Cons.prems(4) by (cases ts) auto
  show ?case
  proof (cases "k = length t \<and> http_errno P1 = HPE_OK \<and> \<not> upgrade P1")
    case False
    have "agrees P k P1 (concat (t # ts))" if "http_errno P1 \<noteq> HPE_HEADER_OVERFLOW" "\<not> (upgrade P1 \<and> ts \<noteq> [])"
    proof (cases "ts = []")
      case True
      then show ?thesis using run(1) by (simp add: agrees_same)
    next
      case more: False
      then have "http_errno P1 \<noteq> HPE_OK \<or> k < length t" using False that(2) run(2) by auto
      then show ?thesis
        using piece_stops [OF Cons.prems(1,2) t(1) rest [OF more] t(3) run(1) that(1)] by (simp add: agrees_same)
    qed
    moreover have "feed_on logger P (t # ts) = Some (k, P1, ts)"
      by (simp only: feed_on.simps run(1) outcome.case if_not_P [OF False])
    ultimately show ?thesis by blast
  next
    case True
    then have whole: "http_parser_execute logger P t = Return (length t) P1" "http_errno P1 = HPE_OK" "\<not> upgrade P1"
      using run(1) by simp_all
    note kept = execute_keeps [OF Cons.prems(1,2) t(1,2) whole(1,2)]
    show ?thesis
    proof (cases "ts = []")
      case True
      then show ?thesis using whole by (simp add: agrees_same)
    next
      case more: False
      obtain n P2 left where IH: "feed_on logger P1 ts = Some (n, P2, left)"
        "http_errno P2 = HPE_HEADER_OVERFLOW \<or> upgrade P2 \<and> left \<noteq> [] \<or> agrees P1 n P2 (concat ts)"
        using Cons.IH [OF kept more] Cons.prems(4,5) by auto
      have "feed_on logger P (t # ts) = Some (length t + n, P2, left)" using whole IH(1) by simp
      moreover have "http_errno P2 = HPE_HEADER_OVERFLOW \<or> upgrade P2 \<and> left \<noteq> [] \<or>
          agrees P (length t + n) P2 (concat (t # ts))"
        using IH(2) agrees_join [OF Cons.prems(1,2) t(1) rest [OF more] t(3) whole] by auto
      ultimately show ?thesis by blast
    qed
  qed
qed simp

text \<open>
  C8: The parser does not see where its input is cut, as far as its limit on headers and an upgrade allow.
  Given to a parser that is in order, any input of at most \<open>2 ^ 31\<close> characters in any non-empty pieces, one after the other until one is not
  taken whole, reports an error or asks for an upgrade, there are three ends.  The headers have gone over
  the limit; or an upgrade was asked for before the last piece; or one call with all of the text stops at the
  same character with the same error number and, when there is no error, leaves the same parser, but for
  the number of header bytes, and the same log: every callback in the same order and all its data with the
  same bytes, data of one callback handed over in several pieces counted as one.  The first end is
  genuine, because a call counts the character it starts with again: pieces can be refused where the
  whole is not.
\<close>

theorem pieces_join:
  assumes "parser_ok P" "unat (nread P) \<le> HTTP_MAX_HEADER_SIZE"
    and "ts \<noteq> []" "[] \<notin> set ts" "length (concat ts) \<le> 2147483648"
  shows "\<exists>k P2 rest. feed_on logger P ts = Some (k, P2, rest) \<and>
    (http_errno P2 = HPE_HEADER_OVERFLOW \<or> upgrade P2 \<and> rest \<noteq> [] \<or>
     (\<exists>P'. http_parser_execute logger P (concat ts) = Return k P' \<and> http_errno P' = http_errno P2 \<and>
       (http_errno P2 = HPE_OK \<longrightarrow> P' = P2\<lparr>nread := nread P'\<rparr>)))"
  using feed_on_joins [OF assms] unfolding agrees_def .

definition logged_parser :: "event list http_parser" where
  "logged_parser = http_parser_init
     \<lparr>parser_type = HTTP_BOTH, flags = {}, state = s_dead, header_state = h_general, index = 0, nread = 0,
      content_length = 0, http_major = 0, http_minor = 0, status_code = 0, http_method = HTTP_DELETE,
      http_errno = HPE_OK, upgrade = False, data = []\<rparr> HTTP_REQUEST"

lemma field_marked: "exec_marks s_header_field = (\<lambda>_. None)(Header_Field := Some 0)"
  by (rule ext) (simp add: exec_marks_def)

lemma host_tokens:
  "TOKEN CHR ''H'' = CHR ''h''" "TOKEN CHR ''o'' = CHR ''o''" "TOKEN CHR ''s'' = CHR ''s''" "TOKEN CHR ''t'' = CHR ''t''"
  "TOKEN CHR '':'' = NUL"
  by code_simp+

lemmas field_simps = http_parser_execute_def field_marked Let_def logged_parser_def http_parser_init_def exec_at_header
  PARSING_HEADER_def HTTP_MAX_HEADER_SIZE_def exec_state_def exec_header_field_def host_tokens field_char_def
  COUNT_HEADER_SIZE_def callback_data exec_end_def RETURN_def segment_def log_data_def

theorem pieces_join_witness:
  "\<exists>P'. http_parser_execute logger (logged_parser\<lparr>state := s_header_field\<rparr>) ''Host:'' = Return 5 P' \<and>
    http_errno P' = HPE_OK \<and> state P' = s_header_value_discard_ws \<and> data P' = [Data Header_Field ''Host'']"
proof -
  let ?P = "logged_parser\<lparr>state := s_header_field\<rparr>"
    and ?P1 = "logged_parser\<lparr>state := s_header_field, nread := 3, data := [Data Header_Field ''Ho'']\<rparr>"
    and ?P2 = "logged_parser\<lparr>state := s_header_value_discard_ws, nread := 6, data := [Data Header_Field ''Host'']\<rparr>"
  have ok: "parser_ok ?P" "unat (nread ?P) \<le> HTTP_MAX_HEADER_SIZE" "http_errno ?P1 = HPE_OK" "\<not> upgrade ?P1"
      "http_errno ?P2 = HPE_OK" "data ?P2 = [Data Header_Field ''Host'']" "state ?P2 = s_header_value_discard_ws"
    by (simp_all add: logged_parser_def http_parser_init_def parser_ok_def state_ok_def CHUNK_STATES_def)
  have "http_parser_execute logger ?P ''Ho'' = Return 2 ?P1"
    by (simp add: field_simps)
  moreover have "http_parser_execute logger ?P1 ''st:'' = Return 3 ?P2"
    by (simp add: field_simps)
  ultimately have fed: "feed_on logger ?P [''Ho'', ''st:''] = Some (5, ?P2, [])"
    using ok by simp
  obtain P' w where joined: "http_parser_execute logger ?P (concat [''Ho'', ''st:'']) = Return 5 P'"
      and P': "P' = ?P2\<lparr>nread := w\<rparr>"
    using pieces_join [OF ok(1,2), of "[''Ho'', ''st:'']"] fed ok(5) by auto
  have "http_errno (?P2\<lparr>nread := w\<rparr>) = HPE_OK" "state (?P2\<lparr>nread := w\<rparr>) = s_header_value_discard_ws"
      "data (?P2\<lparr>nread := w\<rparr>) = [Data Header_Field ''Host'']"
    using ok(5-7) by simp_all
  then show ?thesis
    using joined P' by (intro exI [of _ P']) simp
qed

end
