(* ===== verification/Http_Client.thy ===== *)
theory Http_Client
  imports Http_Execute
begin

text \<open>
  The HTTP client of \<open>httpclient/src/http.c\<close>: the client's state, its input and output, and the callbacks it
  hands to the message parser.

  The repository declares \<open>struct ft_http_client_t\<close> and never defines it.  Its fields are those \<open>http.c\<close>
  uses: the sizes of the header buffers are the \<open>unsigned short\<close> the function that fills them asks for; a
  counter whose type nothing fixes is an integer.  HTTPS is compiled out.

  The operating system and the C library are the record \<open>http_env\<close>: the answer to each call, by the number
  of calls made before it.  A heap block is the string of its bytes.  \<open>None\<close> is a step without a defined
  result, a store outside a block above all, or a loop that never ends.
\<close>

subsection \<open>State and environment\<close>

datatype http_request_method_e = M_GET | M_POST | M_HEAD

datatype http_error_e =
    ERR_OK | ERR_INVALID_PARAM | ERR_OUT_MEMORY | ERR_OPEN_FILE | ERR_PARSE_REP
  | ERR_URL_INVALID | ERR_URL_INVALID_PROTO | ERR_URL_INVALID_HOST | ERR_URL_INVALID_IP | ERR_URL_RESOLVED_HOST
  | ERR_SOCKET_CREATE | ERR_SOCKET_SET_OPT | ERR_SOCKET_NOBLOCKING | ERR_SOCKET_CONNECT
  | ERR_SOCKET_CONNECT_TIMEOUT | ERR_SOCKET_SELECT | ERR_SOCKET_WRITE | ERR_SOCKET_READ | ERR_SOCKET_TIMEOUT
  | ERR_SOCKET_CLOSED | ERR_SOCKET_GET_OPT

datatype parser_statue_e = PARSERD_NONE | PARSERD_FIELD | PARSERD_VALUE | PARSERD_BODY
datatype proto_type_e = PROTO_HTTP | PROTO_HTTPS

type_synonym heap_block = string

record ft_http_client_t =
  cl_fd :: int
  cl_error_code :: http_error_e
  cl_status_code :: int
  cl_timeout :: int
  cl_exit :: bool
  cl_method :: http_request_method_e
  cl_proto_type :: proto_type_e
  cl_download :: bool
  cl_redirect :: bool
  cl_redirect_url :: "string option"
  cl_parser_statue :: parser_statue_e
  cl_header_field :: "heap_block option"
  cl_cur_field_size :: "16 word"
  cl_field_size :: "16 word"
  cl_header_value :: "heap_block option"
  cl_cur_value_size :: "16 word"
  cl_value_size :: "16 word"
  cl_body :: "heap_block option"
  cl_body_len :: int
  cl_content_length :: int
  cl_filename :: "string option"
  cl_pf :: bool
  cl_recv_cb :: bool

text \<open>What the client has asked of the system: how many calls, the bytes sent and the bytes of the file.\<close>

record http_io = ft_http_client_t +
  calls :: nat
  sent :: string
  written :: string

datatype errno = EINTR | EINPROGRESS | EWOULDBLOCK | EALREADY | Other_Error
datatype 'a reply = Reply 'a | Error errno

record http_env =
  env_alloc :: "nat \<Rightarrow> bool"
  env_junk :: "nat \<Rightarrow> char"
  env_time :: "nat \<Rightarrow> int \<times> int"
  env_select :: "nat \<Rightarrow> nat reply"
  env_sockopt :: "nat \<Rightarrow> int option"
  env_recv :: "nat \<Rightarrow> string reply"
  env_send :: "nat \<Rightarrow> nat reply"
  env_inet_addr :: "string \<Rightarrow> 32 word"
  env_gethostbyname :: "nat \<Rightarrow> string \<Rightarrow> (32 word) option"
  env_socket :: "nat \<Rightarrow> int"
  env_setsockopt :: "nat \<Rightarrow> bool"
  env_fcntl :: "nat \<Rightarrow> bool"
  env_connect :: "nat \<Rightarrow> 32 word \<times> 16 word \<Rightarrow> unit reply"
  env_fopen :: "nat \<Rightarrow> string \<Rightarrow> bool"
  env_progress :: "http_io \<Rightarrow> string \<Rightarrow> int \<times> http_io"

definition tick :: "http_io \<Rightarrow> http_io" where
  "tick s = s\<lparr>calls := calls s + 1\<rparr>"

text \<open>\<open>ft_http_new\<close>: the client of all zero bytes.\<close>

definition zero_client :: http_io where
  "zero_client =
     \<lparr>cl_fd = 0, cl_error_code = ERR_OK, cl_status_code = 0, cl_timeout = 0, cl_exit = False, cl_method = M_GET,
      cl_proto_type = PROTO_HTTP, cl_download = False, cl_redirect = False, cl_redirect_url = None,
      cl_parser_statue = PARSERD_NONE, cl_header_field = None, cl_cur_field_size = 0, cl_field_size = 0,
      cl_header_value = None, cl_cur_value_size = 0, cl_value_size = 0, cl_body = None, cl_body_len = 0,
      cl_content_length = 0, cl_filename = None, cl_pf = False, cl_recv_cb = False, calls = 0, sent = [], written = []\<rparr>"

definition ft_http_new :: "http_env \<Rightarrow> http_io option" where
  "ft_http_new E = (if env_alloc E 0 then Some (tick zero_client) else None)"

subsection \<open>Blocks\<close>

definition write_block :: "heap_block \<Rightarrow> nat \<Rightarrow> string \<Rightarrow> heap_block option" where
  "write_block b i t = (if i + length t \<le> length b then Some (take i b @ t @ drop (i + length t) b) else None)"

definition c_str :: "heap_block \<Rightarrow> string option" where
  "c_str b = (if NUL \<in> set b then Some (takeWhile (\<lambda>c. c \<noteq> NUL) b) else None)"

definition calloc :: "http_env \<Rightarrow> http_io \<Rightarrow> nat \<Rightarrow> heap_block option \<times> http_io" where
  "calloc E s n = ((if env_alloc E (calls s) then Some (replicate n NUL) else None), tick s)"

definition realloc :: "http_env \<Rightarrow> http_io \<Rightarrow> heap_block \<Rightarrow> nat \<Rightarrow> heap_block option \<times> http_io" where
  "realloc E s b n =
     ((if env_alloc E (calls s) then Some (take n b @ map (env_junk E) [length b..<n]) else None), tick s)"

definition strdup :: "http_env \<Rightarrow> http_io \<Rightarrow> string \<Rightarrow> string option \<times> http_io" where
  "strdup E s t = ((if env_alloc E (calls s) then Some t else None), tick s)"

text \<open>\<open>strcasecmp\<close> is zero.\<close>

definition lower :: "char \<Rightarrow> char" where
  "lower c = (if 65 \<le> ord c \<and> ord c \<le> 90 then chr (ord c + 32) else c)"

definition same_name :: "string \<Rightarrow> string \<Rightarrow> bool" where
  "same_name s t \<longleftrightarrow> map lower s = map lower t"

text \<open>\<open>atol\<close>, which the C library computes as \<open>strtol\<close> does: cut at the ends of \<open>long\<close>.\<close>

definition atol :: "string \<Rightarrow> int" where
  "atol s =
     (let s = dropWhile (\<lambda>c. c \<in> {CHR '' '', CHR 0x09, CHR 0x0A, CHR 0x0B, CHR 0x0C, CHR 0x0D}) s;
          neg = (peek s = CHR ''-'');
          ds = (if peek s \<in> {CHR ''-'', CHR ''+''} then tl s else s);
          v = int (decimal (takeWhile IS_NUM ds))
      in if neg then max (- (2 ^ 63)) (- v) else min (2 ^ 63 - 1) v)"

subsection \<open>Waiting, reading and writing\<close>

definition kSelectRead :: nat where "kSelectRead = 1"
definition kSelectWrite :: nat where "kSelectWrite = 2"
definition kSelectError :: nat where "kSelectError = 4"

text \<open>Division by 1000 as C rounds it, towards zero.\<close>

definition thousandth :: "int \<Rightarrow> int" where
  "thousandth x = (if x < 0 then - ((- x) div 1000) else x div 1000)"

text \<open>\<open>FD_SET\<close> has room for the descriptors below \<open>FD_SETSIZE\<close>.\<close>

partial_function (option) select_loop ::
    "http_env \<Rightarrow> int \<Rightarrow> int \<times> int \<Rightarrow> http_io \<Rightarrow> int \<Rightarrow> (int \<times> http_io) option" where
  "select_loop E timeout start s remaind =
     (if remaind > 0 then
        (if cl_fd s < 0 \<or> 1024 \<le> cl_fd s then None
         else case env_select E (calls s) of
           Reply r \<Rightarrow>
             (if r = 0 then Some (-1, tick s)
              else if env_sockopt E (calls s + 1) = Some 0 then Some (0, tick (tick s)) else Some (-1, tick (tick s)))
         | Error e \<Rightarrow>
             (if e = EINTR then
                (let elapsed = env_time E (calls s + 1);
                     remaind = timeout - ((fst elapsed - fst start) * 1000 + thousandth (snd elapsed - snd start))
                 in select_loop E timeout start (tick (tick s)) remaind)
              else Some (-1, tick s)))
      else Some (-1, s))"

definition socket_select :: "http_env \<Rightarrow> http_io \<Rightarrow> nat \<Rightarrow> int \<Rightarrow> (int \<times> http_io) option" where
  "socket_select E s mode timeout = select_loop E timeout (env_time E (calls s)) (tick s) timeout"

definition http_check_error :: "http_env \<Rightarrow> http_io \<Rightarrow> nat \<Rightarrow> errno \<Rightarrow> (int \<times> http_io) option" where
  "http_check_error E s mode error_code =
     (if error_code = EINTR then Some (0, s)
      else if error_code = EINPROGRESS \<or> error_code = EWOULDBLOCK then do {
        (r, s) \<leftarrow> socket_select E s mode (cl_timeout s);
        if r = 0 then Some (0, s) else Some (-1, s)
      } else Some (-1, s))"

text \<open>
  One function in the code, with a flag: sending the bytes of \<open>data\<close>, or receiving up to \<open>len\<close> of them.
  A receive returns no more than it was asked for, and a negative size asks for any number.
\<close>

partial_function (option) write_loop :: "http_env \<Rightarrow> string \<Rightarrow> http_io \<Rightarrow> nat \<Rightarrow> (int \<times> http_io) option" where
  "write_loop E text s n =
     (if cl_exit s then Some (-1, s)
      else if cl_proto_type s = PROTO_HTTPS then Some (int n, s)
      else case env_send E (calls s) of
        Reply r \<Rightarrow>
          (let r = min r (length text - n); s = (tick s)\<lparr>sent := sent s @ take r (drop n text)\<rparr>
           in if r = 0 then Some (int n, s)
              else if n + r < length text then write_loop E text s (n + r) else Some (int (n + r), s))
      | Error e \<Rightarrow> do {
          (c, s) \<leftarrow> http_check_error E (tick s) kSelectWrite e;
          if c = 0 then (if n < length text then write_loop E text s n else Some (int n, s)) else Some (-1, s)
        })"

partial_function (option) read_loop :: "http_env \<Rightarrow> nat \<Rightarrow> http_io \<Rightarrow> string \<Rightarrow> (int \<times> string \<times> http_io) option" where
  "read_loop E amount s got =
     (if cl_exit s then Some (-1, got, s)
      else if cl_proto_type s = PROTO_HTTPS then Some (int (length got), got, s)
      else case env_recv E (calls s) of
        Reply bs \<Rightarrow>
          (let bs = take (amount - length got) bs; s = tick s; all = got @ bs
           in if bs = [] then Some (int (length got), got, s)
              else if length all < amount then read_loop E amount s all else Some (int (length all), all, s))
      | Error e \<Rightarrow> do {
          (c, s) \<leftarrow> http_check_error E (tick s) kSelectRead e;
          if c = 0 then (if length got < amount then read_loop E amount s got else Some (int (length got), got, s))
          else Some (-1, got, s)
        })"

definition http_write :: "http_env \<Rightarrow> http_io \<Rightarrow> string \<Rightarrow> (int \<times> http_io) option" where
  "http_write E s text = write_loop E text s 0"

definition http_read :: "http_env \<Rightarrow> http_io \<Rightarrow> int \<Rightarrow> (int \<times> string \<times> http_io) option" where
  "http_read E s amount = (if amount < 0 then None else read_loop E (nat amount) s [])"

subsection \<open>The buffers of header names and values\<close>

definition DEFAULT_HEADER_SIZE :: nat where "DEFAULT_HEADER_SIZE = 128"

text \<open>A buffer, its used size and its size; the sizes are \<open>unsigned short\<close> and are stored cut to that.\<close>

type_synonym field_buffer = "heap_block option \<times> 16 word \<times> 16 word"

definition field_store :: "field_buffer \<Rightarrow> http_io \<Rightarrow> string \<Rightarrow> (int \<times> field_buffer \<times> http_io) option" where
  "field_store buf s at =
     (case buf of
        (None, cur_size, bsize) \<Rightarrow> Some (-1, buf, s)
      | (Some b, cur_size, bsize) \<Rightarrow> do {
          b \<leftarrow> write_block b (unat cur_size) at;
          let cur_size = cur_size + of_nat (length at);
          b \<leftarrow> write_block b (unat cur_size) [NUL];
          Some (0, (Some b, cur_size, bsize), s)
        })"

definition field_value_malloc ::
    "http_env \<Rightarrow> http_io \<Rightarrow> field_buffer \<Rightarrow> string \<Rightarrow> (int \<times> field_buffer \<times> http_io) option" where
  "field_value_malloc E s buf at =
     (case buf of
        (None, cur_size, bsize) \<Rightarrow>
          let bsize = of_nat (if length at > DEFAULT_HEADER_SIZE then length at else DEFAULT_HEADER_SIZE);
              (str, s) = calloc E s (unat bsize + 1)
          in field_store (str, if str = None then cur_size else 0, bsize) s at
      | (Some b, cur_size, bsize) \<Rightarrow>
          if unat cur_size + length at > unat bsize then
            (let bsize = of_nat (unat cur_size + length at);
                 (str, s) = realloc E s b (unat bsize + 1)
             in field_store (str, cur_size, bsize) s at)
          else field_store buf s at)"

definition parser_field_value :: "http_env \<Rightarrow> http_io \<Rightarrow> (int \<times> http_io) option" where
  "parser_field_value E s =
     (case (cl_header_field s, cl_header_value s) of
        (Some fb, Some vb) \<Rightarrow>
          if cl_cur_value_size s > 0 \<and> cl_cur_field_size s > 0 then do {
            field \<leftarrow> c_str fb;
            val \<leftarrow> c_str vb;
            if same_name field ''Location'' then
              (let (url, s) = strdup E s val
               in Some (-1, s\<lparr>cl_redirect_url := url, cl_redirect := True\<rparr>))
            else
              (let s = (if same_name field ''Content-Length'' then s\<lparr>cl_content_length := atol val\<rparr> else s)
               in Some (0, s\<lparr>cl_cur_field_size := 0, cl_cur_value_size := 0\<rparr>))
          } else Some (0, s)
      | _ \<Rightarrow> Some (0, s))"

subsection \<open>The callbacks\<close>

text \<open>The parser's user data is the client, or nothing once a step had no defined result.\<close>

type_synonym client_parser = "http_io option http_parser"

definition with_client :: "client_parser \<Rightarrow> (http_io \<Rightarrow> (int \<times> http_io) option) \<Rightarrow> int \<times> client_parser" where
  "with_client P f =
     (case data P \<bind> f of None \<Rightarrow> (-1, P\<lparr>data := None\<rparr>) | Some (r, s) \<Rightarrow> (r, P\<lparr>data := Some s\<rparr>))"

definition on_header_field_cb :: "http_env \<Rightarrow> (http_io option) http_data_cb" where
  "on_header_field_cb E P at = with_client P (\<lambda>s. do {
     (r, s) \<leftarrow> (if cl_parser_statue s = PARSERD_VALUE then parser_field_value E s else Some (0, s));
     if r \<noteq> 0 then Some (-1, s)
     else do {
       let s = s\<lparr>cl_parser_statue := PARSERD_FIELD\<rparr>;
       (r, (b, cur, sz), s) \<leftarrow> field_value_malloc E s (cl_header_field s, cl_cur_field_size s, cl_field_size s) at;
       Some (r, s\<lparr>cl_header_field := b, cl_cur_field_size := cur, cl_field_size := sz\<rparr>)
     }
   })"

definition on_header_value_cb :: "http_env \<Rightarrow> (http_io option) http_data_cb" where
  "on_header_value_cb E P at = with_client P (\<lambda>s.
     if cl_parser_statue s = PARSERD_FIELD \<or> cl_parser_statue s = PARSERD_VALUE then do {
       let s = s\<lparr>cl_parser_statue := PARSERD_VALUE\<rparr>;
       (r, (b, cur, sz), s) \<leftarrow> field_value_malloc E s (cl_header_value s, cl_cur_value_size s, cl_value_size s) at;
       Some (r, s\<lparr>cl_header_value := b, cl_cur_value_size := cur, cl_value_size := sz\<rparr>)
     } else Some (0, s))"

definition on_status_cb :: "(http_io option) http_data_cb" where
  "on_status_cb P at = with_client P (\<lambda>s. Some (0, s\<lparr>cl_status_code := int (status_code P)\<rparr>))"

definition on_headers_complete_cb :: "http_env \<Rightarrow> (http_io option) http_cb" where
  "on_headers_complete_cb E P = with_client P (\<lambda>s. do {
     (r, s) \<leftarrow> parser_field_value E s;
     if r \<noteq> 0 then Some (-1, s)
     else Some (0, s\<lparr>cl_header_field := None, cl_header_value := None, cl_parser_statue := PARSERD_BODY,
                   cl_cur_field_size := 0, cl_cur_value_size := 0\<rparr>)
   })"

definition on_download_file_cb :: "http_env \<Rightarrow> (http_io option) http_data_cb" where
  "on_download_file_cb E P at = with_client P (\<lambda>s.
     if 200 \<le> cl_status_code s \<and> cl_status_code s \<le> 299 then
       (let s = (if \<not> cl_pf s then
                   (case cl_filename s of
                      Some f \<Rightarrow> (tick s)\<lparr>cl_pf := env_fopen E (calls s) f\<rparr>
                    | None \<Rightarrow> s)
                 else s)
        in if \<not> cl_pf s then Some (-1, s)
           else let (r, s) = (if cl_recv_cb s then env_progress E s at else (0, s))
                in if r \<noteq> 0 then Some (-1, s) else Some (0, s\<lparr>written := written s @ at\<rparr>))
     else Some (0, s))"

definition on_body_cb :: "http_env \<Rightarrow> (http_io option) http_data_cb" where
  "on_body_cb E P at = with_client P (\<lambda>s.
     let (body, s) =
       (case cl_body s of
          None \<Rightarrow> calloc E s (if cl_content_length s > 0 then nat (cl_content_length s) + 1 else length at + 1)
        | Some b \<Rightarrow>
            if cl_content_length s \<le> 0 then realloc E s b (nat (cl_body_len s) + length at + 1) else (Some b, s))
     in case body of
          None \<Rightarrow> Some (-1, s\<lparr>cl_body := None\<rparr>)
        | Some b \<Rightarrow> do {
            b \<leftarrow> write_block b (nat (cl_body_len s)) at;
            Some (0, s\<lparr>cl_body := Some b, cl_body_len := cl_body_len s + int (length at)\<rparr>)
          })"

definition on_message_complete_cb :: "(http_io option) http_cb" where
  "on_message_complete_cb P = (0, P)"

text \<open>The parser as \<open>http_parser_init\<close> leaves it, with the client as its data.\<close>

definition response_parser :: "http_io \<Rightarrow> client_parser" where
  "response_parser s = http_parser_init
     \<lparr>parser_type = HTTP_REQUEST, flags = {}, state = s_dead, header_state = h_general, index = 0, nread = 0,
      content_length = 0, http_major = 0, http_minor = 0, status_code = 0, http_method = HTTP_DELETE,
      http_errno = HPE_OK, upgrade = False, data = Some s\<rparr> HTTP_RESPONSE"

definition client_settings :: "http_env \<Rightarrow> bool \<Rightarrow> (http_io option) http_parser_settings" where
  "client_settings E download = http_parser_settings_init\<lparr>
     on_body := Some (if download then on_download_file_cb E else on_body_cb E),
     on_message_complete := Some on_message_complete_cb,
     on_header_field := Some (on_header_field_cb E),
     on_header_value := Some (on_header_value_cb E),
     on_headers_complete := Some (on_headers_complete_cb E),
     on_status := Some on_status_cb\<rparr>"

end
