(* ===== verification/Http_Client_Buffers.thy ===== *)
theory Http_Client_Buffers
  imports Http_Client Http_Messages
begin

text \<open>
  The memory of the HTTP client: what the buffers of header names and values hold after any pieces, and what
  the block of a body does.  Each is exact: it says when the store stays inside its block and when it does not.
\<close>

subsection \<open>What a buffer holds\<close>

text \<open>The block has room for its size and a terminator, and starts with the text and its terminator.\<close>

fun holds :: "field_buffer \<Rightarrow> string \<Rightarrow> bool" where
  "holds (None, cur_size, cap) t \<longleftrightarrow> t = []"
| "holds (Some b, cur_size, cap) t \<longleftrightarrow> length b = unat cap + 1 \<and> unat cur_size = length t \<and>
     (\<exists>rest. b = t @ NUL # rest)"

lemma unat_of_nat_16: "n < 65536 \<Longrightarrow> unat (of_nat n :: 16 word) = n"
  by (simp add: unsigned_of_nat take_bit_nat_eq_self)

lemma unat_16_less: "unat (w :: 16 word) < 65536"
  using unsigned_less [of w] by simp

lemma field_store_fits:
  assumes "length b = unat cap + 1" "unat cur = length t" "take (length t) b = t" "length t + length at \<le> unat cap"
  shows "\<exists>buf'. field_store (Some b, cur, cap) s at = Some (0, buf', s) \<and> holds buf' (t @ at)"
proof -
  have "length t + length at < 65536"
    using assms(4) unat_16_less [of cap] by simp
  then have cur: "unat (cur + of_nat (length at)) = length t + length at"
    using assms(2) by (simp add: unat_word_ariths unat_of_nat_16)
  then show ?thesis
    using assms by (auto simp: field_store_def write_block_def Let_def min_def)
qed

lemma field_value_malloc_fits:
  assumes "holds buf t" "length t + length at < 65536" "env_alloc E (calls s)"
  shows "\<exists>buf' s'. field_value_malloc E s buf at = Some (0, buf', s') \<and> holds buf' (t @ at) \<and> s' \<in> {s, tick s}"
proof -
  obtain str cur cap where buf: "buf = (str, cur, cap)"
    by (cases buf)
  show ?thesis
  proof (cases str)
    case None
    define n where "n = (if length at > 128 then length at else 128)"
    have n: "unat (of_nat n :: 16 word) = n" "length at \<le> n"
      using assms(2) by (simp_all add: n_def unat_of_nat_16)
    have "\<exists>buf'. field_store (Some (replicate (n + 1) NUL), 0, of_nat n) (tick s) at = Some (0, buf', tick s) \<and> holds buf' at"
      using field_store_fits [of "replicate (n + 1) NUL" "of_nat n" 0 "[]" at "tick s"] n by simp
    moreover have "field_value_malloc E s buf at = field_store (Some (replicate (n + 1) NUL), 0, of_nat n) (tick s) at"
      using None assms(3) buf n(1)
      by (cases "128 < length at")
        (simp_all add: field_value_malloc_def calloc_def DEFAULT_HEADER_SIZE_def n_def Let_def del: replicate_Suc)
    ultimately show ?thesis
      using None assms(1) buf by auto
  next
    case (Some b)
    then have h: "length b = unat cap + 1" "unat cur = length t" "take (length t) b = t"
      using assms(1) buf by auto
    show ?thesis
    proof (cases "unat cur + length at > unat cap")
      case True
      define n where "n = unat cur + length at"
      define b1 where "b1 = take (n + 1) b @ map (env_junk E) [length b..<n + 1]"
      have n: "unat (of_nat n :: 16 word) = n" "length t + length at \<le> n"
        using assms(2) h(2) by (simp_all add: n_def unat_of_nat_16 del: of_nat_add)
      have "length b1 = n + 1" "take (length t) b1 = t"
        using True h by (auto simp: b1_def n_def min_def)
      then have "\<exists>buf'. field_store (Some b1, cur, of_nat n) (tick s) at = Some (0, buf', tick s) \<and> holds buf' (t @ at)"
        using field_store_fits [of b1 "of_nat n" cur t at "tick s"] n h(2) by simp
      moreover have "field_value_malloc E s buf at = field_store (Some b1, cur, of_nat n) (tick s) at"
        using Some True assms(3) buf n(1)
        by (simp add: field_value_malloc_def realloc_def n_def b1_def Let_def)
      ultimately show ?thesis
        by auto
    next
      case False
      then show ?thesis
        using field_store_fits [OF h, of at s] Some assms(3) buf h(2) by (auto simp: field_value_malloc_def)
    qed
  qed
qed

lemma field_store_overflows:
  "length b < unat cur + length at \<Longrightarrow> field_store (Some b, cur, cap) s at = None"
  by (simp add: field_store_def write_block_def)

lemma cut_size: "65536 \<le> n \<Longrightarrow> unat (of_nat n :: 16 word) + 1 < n"
  using mod_less_eq_dividend [of "n - 65536" 65536] by (simp add: unsigned_of_nat take_bit_eq_mod le_mod_geq)

lemma field_value_malloc_overflows:
  assumes "holds buf t" "65536 \<le> length t + length at" "env_alloc E (calls s)"
  shows "field_value_malloc E s buf at = None"
proof -
  obtain str cur cap where buf: "buf = (str, cur, cap)"
    by (cases buf)
  show ?thesis
  proof (cases str)
    case None
    define n where "n = length at"
    have "field_value_malloc E s buf at = field_store (Some (replicate (unat (of_nat n :: 16 word) + 1) NUL), 0, of_nat n) (tick s) at"
      using None assms buf by (simp add: field_value_malloc_def calloc_def DEFAULT_HEADER_SIZE_def n_def Let_def del: replicate_Suc)
    also have "\<dots> = None"
      by (rule field_store_overflows) (use cut_size [of n] None assms buf in \<open>simp add: n_def\<close>)
    finally show ?thesis .
  next
    case (Some b)
    then have h: "unat cur = length t"
      using assms(1) buf by auto
    define n where "n = unat cur + length at"
    define b1 where "b1 = take (unat (of_nat n :: 16 word) + 1) b @ map (env_junk E) [length b..<unat (of_nat n :: 16 word) + 1]"
    have "unat cap < n"
      using assms(2) h unat_16_less [of cap] by (simp add: n_def)
    then have "field_value_malloc E s buf at = field_store (Some b1, cur, of_nat n) (tick s) at"
      using Some assms(3) buf by (simp add: field_value_malloc_def realloc_def n_def b1_def Let_def)
    also have "\<dots> = None"
      by (rule field_store_overflows) (use cut_size [of n] assms(2) h in \<open>simp add: n_def b1_def\<close>)
    finally show ?thesis .
  qed
qed

text \<open>The pieces of a name or value as the callbacks store them.\<close>

fun fill :: "http_env \<Rightarrow> http_io \<Rightarrow> field_buffer \<Rightarrow> string list \<Rightarrow> (field_buffer \<times> http_io) option" where
  "fill E s buf [] = Some (buf, s)"
| "fill E s buf (at # ats) = do {
     (r, buf, s) \<leftarrow> field_value_malloc E s buf at;
     if r = 0 then fill E s buf ats else None
   }"

lemma fill_exact:
  assumes "\<And>k. env_alloc E k" "holds buf t" "length t < 65536"
  shows "if length t + length (concat ats) < 65536
    then \<exists>buf' s'. fill E s buf ats = Some (buf', s') \<and> holds buf' (t @ concat ats)
    else fill E s buf ats = None"
  using assms(2,3)
proof (induction ats arbitrary: s buf t)
  case (Cons at ats)
  show ?case
  proof (cases "length t + length at < 65536")
    case True
    obtain buf' s' where "field_value_malloc E s buf at = Some (0, buf', s')" "holds buf' (t @ at)"
      using field_value_malloc_fits [OF Cons.prems(1) True assms(1)] by blast
    then show ?thesis
      using Cons.IH [of buf' "t @ at" s'] True by (auto simp: add.assoc split: if_splits)
  next
    case False
    then show ?thesis
      using field_value_malloc_overflows [OF Cons.prems(1) _ assms(1)] by simp
  qed
qed auto

lemma c_str_append: "c_string t \<Longrightarrow> c_str (t @ NUL # r) = Some t"
  by (simp add: c_str_def c_string_def) (subst takeWhile_append2, auto)

lemma holds_c_str: "holds (Some b, cur, cap) t \<Longrightarrow> c_string t \<Longrightarrow> c_str b = Some t"
  using c_str_append by auto

text \<open>
  C9: The 16-bit sizes of the header buffers hold a name or a value of fewer than 65536 characters: then, with
  memory granted, storing it in any pieces leaves it in the buffer, terminated.  From 65536 characters on
  the size stored is cut, the block is reallocated too small, and the copy runs past its end; the
  parser's own limit on headers is 81920.
\<close>

theorem header_buffer_exact:
  assumes "\<And>k. env_alloc E k"
  shows "if length (concat pieces) < 65536
    then \<exists>buf s'. fill E s (None, cur, cap) pieces = Some (buf, s') \<and> holds buf (concat pieces)
    else fill E s (None, cur, cap) pieces = None"
  using fill_exact [OF assms, of "(None, cur, cap)" "[]" pieces s] by (auto split: if_splits)

definition quiet_env :: http_env where
  "quiet_env = \<lparr>env_alloc = (\<lambda>_. True), env_junk = (\<lambda>_. NUL), env_time = (\<lambda>_. (0, 0)), env_select = (\<lambda>_. Reply 1),
     env_sockopt = (\<lambda>_. Some 0), env_recv = (\<lambda>_. Reply []), env_send = (\<lambda>_. Reply 1460), env_inet_addr = (\<lambda>_. 1),
     env_gethostbyname = (\<lambda>_ _. Some 1), env_socket = (\<lambda>_. 3), env_setsockopt = (\<lambda>_. True), env_fcntl = (\<lambda>_. True),
     env_connect = (\<lambda>_ _. Error EINPROGRESS), env_fopen = (\<lambda>_ _. True), env_progress = (\<lambda>s _. (0, s))\<rparr>"

theorem header_buffer_exact_witness:
  "if length (concat [''Set-'', ''Cookie'']) < 65536
    then \<exists>buf s'. fill quiet_env zero_client (None, 0, 0) [''Set-'', ''Cookie''] = Some (buf, s') \<and> holds buf (concat [''Set-'', ''Cookie''])
    else fill quiet_env zero_client (None, 0, 0) [''Set-'', ''Cookie''] = None"
  by (rule header_buffer_exact) (simp add: quiet_env_def)

subsection \<open>The body\<close>

fun bodies :: "http_env \<Rightarrow> client_parser \<Rightarrow> string list \<Rightarrow> client_parser" where
  "bodies E P [] = P"
| "bodies E P (at # ats) = bodies E (snd (on_body_cb E P at)) ats"

lemma bodies_lost: "data P = None \<Longrightarrow> data (bodies E P ats) = None"
  by (induction ats arbitrary: P) (auto simp: on_body_cb_def with_client_def)

text \<open>A body of announced length: one block of that length and one more byte.\<close>

definition body_so_far :: "http_io \<Rightarrow> string \<Rightarrow> bool" where
  "body_so_far s t \<longleftrightarrow> cl_body_len s = int (length t) \<and>
     (case cl_body s of None \<Rightarrow> t = [] | Some b \<Rightarrow> length b = nat (cl_content_length s) + 1 \<and> take (length t) b = t)"

lemma on_body_announced:
  assumes "data P = Some s" "body_so_far s t" "0 < cl_content_length s" "env_alloc E (calls s)"
  shows "if length t + length at \<le> nat (cl_content_length s) + 1
    then \<exists>s'. data (snd (on_body_cb E P at)) = Some s' \<and> body_so_far s' (t @ at) \<and> cl_content_length s' = cl_content_length s
      \<and> cl_body s' \<noteq> None
    else data (snd (on_body_cb E P at)) = None"
proof (cases "cl_body s")
  case None
  then show ?thesis
    using assms by (auto simp: on_body_cb_def with_client_def calloc_def write_block_def body_so_far_def Let_def tick_def
        simp del: replicate_Suc)
next
  case (Some b)
  then show ?thesis
    using assms by (auto simp: on_body_cb_def with_client_def write_block_def body_so_far_def Let_def min_def)
qed

lemma bodies_announced:
  assumes "data P = Some s" "body_so_far s t" "0 < cl_content_length s" "\<And>k. env_alloc E k"
    "length t \<le> nat (cl_content_length s) + 1" "ats \<noteq> [] \<or> cl_body s \<noteq> None"
  shows "if length t + length (concat ats) \<le> nat (cl_content_length s) + 1
    then \<exists>s'. data (bodies E P ats) = Some s' \<and> body_so_far s' (t @ concat ats) \<and>
      cl_content_length s' = cl_content_length s \<and> cl_body s' \<noteq> None
    else data (bodies E P ats) = None"
  using assms(1-3,5,6)
proof (induction ats arbitrary: P s t)
  case Nil
  then show ?case by auto
next
  case (Cons at ats)
  show ?case
  proof (cases "length t + length at \<le> nat (cl_content_length s) + 1")
    case True
    obtain s' where s': "data (snd (on_body_cb E P at)) = Some s'" "body_so_far s' (t @ at)"
        "cl_content_length s' = cl_content_length s" "cl_body s' \<noteq> None"
      using on_body_announced [OF Cons.prems(1-3) assms(4), of at] True by auto
    then show ?thesis
      using Cons.IH [OF s'(1,2)] Cons.prems(3) True by (auto simp: add.assoc split: if_splits)
  next
    case False
    then show ?thesis
      using on_body_announced [OF Cons.prems(1-3) assms(4), of at] bodies_lost by auto
  qed
qed

lemma announced_body_lost:
  assumes "data P = Some s" "cl_body s = None" "cl_body_len s = 0" "0 < cl_content_length s" "\<And>k. env_alloc E k"
    "nat (cl_content_length s) + 1 < length (concat pieces)"
  shows "data (bodies E P pieces) = None"
proof -
  have "pieces \<noteq> []"
    using assms(6) by auto
  then show ?thesis
    using bodies_announced [OF assms(1) _ assms(4,5), of "[]" pieces] assms(2,3,6) by (simp add: body_so_far_def)
qed

text \<open>
  C10: A body of announced length goes into one block: with memory granted, the pieces are stored in order, and
  the block never overflows, exactly as long as the body is at most one byte longer than the
  announcement.  Nothing in the callback bounds it, so a longer body is written past the block.
\<close>

theorem announced_body_exact:
  assumes "data P = Some s" "cl_body s = None" "cl_body_len s = 0" "0 < cl_content_length s" "\<And>k. env_alloc E k" "pieces \<noteq> []"
  shows "if length (concat pieces) \<le> nat (cl_content_length s) + 1
    then \<exists>s' b. data (bodies E P pieces) = Some s' \<and> cl_body s' = Some b \<and> cl_body_len s' = int (length (concat pieces)) \<and>
      take (length (concat pieces)) b = concat pieces
    else data (bodies E P pieces) = None"
  using bodies_announced [OF assms(1) _ assms(4,5), of "[]" pieces] assms(2,3,6)
  by (auto simp: body_so_far_def split: if_splits)

definition told_two :: client_parser where
  "told_two = response_parser (zero_client\<lparr>cl_content_length := 2\<rparr>)"

theorem announced_body_exact_witness:
  "if length (concat [''ab'', ''cd'']) \<le> nat 2 + 1
    then \<exists>s' b. data (bodies quiet_env told_two [''ab'', ''cd'']) = Some s' \<and> cl_body s' = Some b \<and>
      cl_body_len s' = int (length (concat [''ab'', ''cd''])) \<and> take (length (concat [''ab'', ''cd''])) b = concat [''ab'', ''cd'']
    else data (bodies quiet_env told_two [''ab'', ''cd'']) = None"
  using announced_body_exact [of told_two "zero_client\<lparr>cl_content_length := 2\<rparr>" quiet_env "[''ab'', ''cd'']"]
  by (simp add: told_two_def response_parser_def http_parser_init_def zero_client_def quiet_env_def)

subsection \<open>Two readings of a Content-Length\<close>

lemma takeWhile_number: "\<forall>c \<in> set ds. IS_NUM c \<Longrightarrow> \<not> IS_NUM c \<Longrightarrow> takeWhile IS_NUM (ds @ c # s) = ds"
  by (subst takeWhile_append2) auto

lemma decimal_append: "decimal (ds @ es) \<ge> decimal ds * 10 ^ length es"
proof -
  have "foldl (\<lambda>v c. v * 10 + (ord c - ord CHR ''0'')) v es \<ge> v * 10 ^ length es" for v
  proof (induction es arbitrary: v)
    case (Cons e es)
    have "v * 10 ^ length (e # es) \<le> (v * 10 + (ord e - ord CHR ''0'')) * 10 ^ length es"
      by (simp add: algebra_simps)
    also have "\<dots> \<le> foldl (\<lambda>v c. v * 10 + (ord c - ord CHR ''0'')) v (e # es)"
      using Cons.IH [of "v * 10 + (ord e - ord CHR ''0'')"] by simp
    finally show ?case .
  qed simp
  then show ?thesis
    by (simp add: decimal_def)
qed

lemma atol_digits:
  assumes "ds \<noteq> []" "\<forall>c \<in> set ds. IS_NUM c" "int (decimal ds) < 2 ^ 63" "\<not> IS_NUM c"
  shows "atol (ds @ c # s) = int (decimal ds)"
proof -
  obtain d es where ds: "ds = d # es"
    using assms(1) by (cases ds) auto
  have "IS_NUM d"
    using assms(2) ds by simp
  then have d: "d \<notin> {CHR '' '', CHR 0x09, CHR 0x0A, CHR 0x0B, CHR 0x0C, CHR 0x0D}" "d \<noteq> CHR ''-''" "d \<noteq> CHR ''+''"
    by (auto simp: IS_NUM_def ord_def)
  have "dropWhile (\<lambda>c. c \<in> {CHR '' '', CHR 0x09, CHR 0x0A, CHR 0x0B, CHR 0x0C, CHR 0x0D}) (ds @ c # s) = ds @ c # s"
    using d(1) ds by simp
  then show ?thesis
    using d(2,3) takeWhile_number [OF assms(2,4), of s] assms(3) ds by (simp add: atol_def Let_def)
qed

lemma field_names [simp]:
  "same_name ''Content-Length'' ''Location'' = False" "same_name ''Content-Length'' ''Content-Length'' = True"
  by code_simp+

lemma digits_c_string: "\<forall>c \<in> set ds. IS_NUM c \<Longrightarrow> c_string ds"
  by (auto simp: c_string_def IS_NUM_def ord_def)

subsection \<open>The parser at a Content-Length\<close>

text \<open>The line of the value, whose text reaches the callback in one piece.\<close>

lemma value_line:
  assumes "http_errno P = HPE_OK" "state P = s_header_value_discard_ws" "header_state P = h_content_length"
    and "IS_NUM d" "\<forall>c \<in> set ds. IS_NUM c \<or> c = CHR '' ''" "continue_number (digit d) ds < CONTENT_LENGTH_LIMIT"
    and "unat (nread P) + length ds + 2 \<le> HTTP_MAX_HEADER_SIZE"
    and "on_header_value S = Some f" "\<And>Q. data Q = data P \<Longrightarrow> f Q (d # ds) = (0, Q\<lparr>data := D\<rparr>)"
  shows "http_parser_execute S P (d # ds @ CR # s) =
    exec_loop (Suc (length ds + length s)) S (d # ds @ CR # s) (length ds + 2)
      \<lparr>parser = P\<lparr>nread := nread P + of_nat (length ds + 2), index := 0,
         content_length := of_nat (continue_number (digit d) ds), header_state := h_content_length,
         data := D, state := s_header_almost_done\<rparr>,
       p_state = s_header_almost_done, marks = (\<lambda>_. None)\<rparr>"
proof -
  let ?input = "d # ds @ CR # s" and ?n = "continue_number (digit d) ds"
  let ?P1 = "P\<lparr>nread := nread P + 1, index := 0, content_length := of_nat (digit d)\<rparr>"
  let ?r1 = "\<lparr>parser = ?P1, p_state = s_header_value, marks = (\<lambda>_. None)(Header_Value := Some 0)\<rparr> :: 'a run"
  let ?r2 = "set_parser (\<lambda>P. P\<lparr>nread := nread P + 1\<rparr>) ?r1"
  have d: "digit d < CONTENT_LENGTH_LIMIT"
    using assms(4) by (auto simp: IS_NUM_def ord_def digit_def CONTENT_LENGTH_LIMIT_def)
  have n: "unat (content_length (parser ?r2)) = digit d"
    using unat_digit_number [OF d] by simp
  have nread1: "unat (nread P + 1) = unat (nread P) + 1"
    using COUNT_within(2) [of "\<lparr>parser = P, p_state = s_header_value, marks = (\<lambda>_. None)\<rparr>" 1] assms(7) by simp
  have nread2: "unat (nread P + 1 + 1) = unat (nread P) + 2"
    using COUNT_within(2) [of ?r1 1] assms(7) nread1 by simp
  have second: "exec_at S ?input 1 ?r1 = (case value_loop S ?input 1 1 h_content_length ?r2 (ds @ CR # s) of
       Again q ch r \<Rightarrow> exec_char 5 S ?input q ch r | res \<Rightarrow> res)"
    using assms(3,7) nread1
    by (subst exec_at_header) (simp_all add: PARSING_HEADER_def exec_state_def exec_header_value_def)
  have unmarked: "exec_marks s_header_value_discard_ws = (\<lambda>_. None)"
    by (rule ext) (simp add: exec_marks_def)
  have loop: "http_parser_execute S P ?input =
      (case exec_at S ?input 1 ?r1 of Continue q r \<Rightarrow> exec_loop (Suc (length ds + length s)) S ?input (q + 1) r | res \<Rightarrow> res)"
    using assms(1,2,7) content_length_first [OF assms(1,3,4), of S "ds @ CR # s"]
    by (simp add: http_parser_execute_def Let_def unmarked)
  have "value_loop S ?input 1 1 h_content_length ?r2 (ds @ CR # s) =
      value_loop S ?input 1 (1 + length ds) h_content_length
        (set_parser (\<lambda>P. P\<lparr>content_length := of_nat ?n\<rparr>) ?r2) (CR # s)"
    using value_loop_number [of ds ?r2 S ?input 1 1 "CR # s"] assms(5,6) d unfolding n by simp
  also have "\<dots> = value_done ?input 1 (1 + length ds) h_content_length
      \<lparr>parser = P\<lparr>nread := nread P + 1 + 1, index := 0, content_length := of_nat ?n, header_state := h_content_length,
        data := D, state := s_header_almost_done\<rparr>, p_state = s_header_almost_done, marks = (\<lambda>_. None)\<rparr>"
    using assms(1,8,9) by (cases P) (simp add: CALLBACK_DATA_def data_callback_def)
  also have "\<dots> = Continue (1 + length ds)
      \<lparr>parser = P\<lparr>nread := nread P + of_nat (length ds + 2), index := 0, content_length := of_nat ?n, header_state := h_content_length,
        data := D, state := s_header_almost_done\<rparr>, p_state = s_header_almost_done, marks = (\<lambda>_. None)\<rparr>"
    unfolding value_done_def using assms(7) nread2 by (subst COUNT_within(1)) (simp_all add: add.assoc)
  finally show ?thesis unfolding loop second by simp
qed


text \<open>The end of the headers: the line feed of the value's line and an empty line.\<close>

lemma exec_loop_step:
  "p < length input \<Longrightarrow> exec_loop (Suc k) S input p r =
    (case exec_at S input p r of Continue q r \<Rightarrow> exec_loop k S input (q + 1) r | res \<Rightarrow> res)"
  by simp

lemma exec_char_5: "exec_char 5 S input p ch r =
    (case exec_state S input p ch r of Again q ch r \<Rightarrow> exec_char 4 S input q ch r | res \<Rightarrow> res)"
proof -
  have five: "5 = Suc 4" by simp
  show ?thesis unfolding five by (rule exec_char.simps)
qed

lemma headers_end:
  assumes "input = a @ [LF, CR, LF] @ b" "length a = p"
    and "http_errno P = HPE_OK" "header_state P = h_content_length" "flags P = {}" "http_method P \<noteq> HTTP_CONNECT"
    and "content_length P \<noteq> 0" "content_length P \<noteq> ULLONG_MAX" "unat (nread P) + 3 \<le> HTTP_MAX_HEADER_SIZE"
    and "on_headers_complete S = Some g" "\<And>Q. data Q = data P \<Longrightarrow> g Q = (0, Q\<lparr>data := D\<rparr>)"
  shows "exec_loop (Suc (Suc (Suc k))) S input p \<lparr>parser = P, p_state = s_header_almost_done, marks = (\<lambda>_. None)\<rparr> =
    exec_loop k S input (p + 3)
      \<lparr>parser = P\<lparr>nread := 0, upgrade := False, data := D\<rparr>, p_state = s_body_identity, marks = (\<lambda>_. None)\<rparr>"
proof -
  have at: "input ! p = LF" "input ! (p + 1) = CR" "input ! (p + 2) = LF" "p + 2 < length input"
    using assms(1,2) by (auto simp: nth_append)
  define r1 where "r1 = \<lparr>parser = P\<lparr>nread := nread P + 1\<rparr>, p_state = s_header_value_lws, marks = (\<lambda>_. None)\<rparr>"
  define r2 where "r2 = \<lparr>parser = P\<lparr>nread := nread P + 2\<rparr>, p_state = s_headers_almost_done, marks = (\<lambda>_. None)\<rparr>"
  have n1: "unat (nread P + 1) = unat (nread P) + 1"
    using COUNT_within(2) [of "\<lparr>parser = P, p_state = s_dead, marks = (\<lambda>_. None)\<rparr>" 1] assms(9) by simp
  have n2: "unat (nread P + 2) = unat (nread P) + 2"
    using COUNT_within(2) [of "\<lparr>parser = P, p_state = s_dead, marks = (\<lambda>_. None)\<rparr>" 2] assms(9) by simp
  have 1: "exec_at S input p \<lparr>parser = P, p_state = s_header_almost_done, marks = (\<lambda>_. None)\<rparr> = Continue p r1"
    using assms(9) at(1)
    by (subst exec_at_header) (simp_all add: PARSING_HEADER_def exec_state_def exec_header_value_end_def STRICT_CHECK_def r1_def)
  have 2: "exec_at S input (p + 1) r1 = Continue (p + 1) r2"
    using assms(4,5,9) at(2) n1 unfolding r1_def r2_def
    by (subst exec_at_header) (simp_all add: exec_char_5 PARSING_HEADER_def exec_state_def exec_header_value_end_def
        exec_header_field_start_def end_flag_def token_flag_def)
  have 3: "exec_at S input (p + 2) r2 =
    Continue (p + 2) \<lparr>parser = P\<lparr>nread := 0, upgrade := False, data := D\<rparr>, p_state = s_body_identity, marks = (\<lambda>_. None)\<rparr>"
    using assms(3,5-11) at(3) n2 unfolding r2_def
    by (subst exec_at_header) (simp_all add: exec_char_5 PARSING_HEADER_def exec_state_def exec_headers_almost_done_def
        exec_headers_done_def STRICT_CHECK_def Let_def word_gt_0)
  show ?thesis
    using exec_loop_step [of p input "Suc (Suc k)"] exec_loop_step [of "p + 1" input "Suc k"] exec_loop_step [of "p + 2" input k]
      at(4) 1 2 3 by (simp add: numeral_3_eq_3)
qed

text \<open>A callback without a defined result for the body loses the client.\<close>

lemma body_lost:
  assumes "input = a @ b" "length a = p" "b \<noteq> []"
    and "http_errno P = HPE_OK" "content_length P \<noteq> 0" "content_length P \<noteq> ULLONG_MAX" "length b \<le> unat (content_length P)"
    and "on_body S = Some h" "\<And>Q. data Q = data P \<Longrightarrow> h Q b = (-1, Q\<lparr>data := D\<rparr>)"
  shows "\<exists>m Q. exec_loop (Suc (Suc k)) S input p \<lparr>parser = P, p_state = s_body_identity, marks = (\<lambda>_. None)\<rparr> = Return m Q \<and>
    data Q = D \<and> http_errno Q = HPE_CB_body"
proof -
  have n: "min (unat (content_length P)) (length input - p) = length b" "p < length input" "length input = p + length b"
    using assms(1-3,7) by auto
  let ?c = "content_length P - of_nat (length b)"
  let ?r = "\<lparr>parser = P\<lparr>content_length := ?c\<rparr>, p_state = s_body_identity, marks = (\<lambda>_. None)(Body := Some p)\<rparr>"
  have step: "exec_state S input p ch \<lparr>parser = P, p_state = s_body_identity, marks = (\<lambda>_. None)\<rparr> =
      (if ?c = 0 then CALLBACK_DATA S input Body (p + length b) (p + length b - 1) (goto s_message_done ?r) (Again (p + length b - 1) ch)
       else Continue (p + length b - 1) ?r)" for ch
    using assms n by (simp add: exec_state_def exec_body_def MARK_def Let_def)
  show ?thesis
  proof (cases "?c = 0")
    case True
    then show ?thesis
      using step assms n by (simp add: exec_at_def exec_char_twice PARSING_HEADER_def CALLBACK_DATA_def data_callback_def data_errno_def Let_def)
  next
    case False
    have "exec_end S input ?r = Return (length input) (P\<lparr>content_length := ?c, data := D, http_errno := HPE_CB_body, state := s_body_identity\<rparr>)"
      using assms n by (simp add: exec_end_def CALLBACK_DATA_def data_callback_def data_errno_def Let_def)
    then show ?thesis
      using False step assms n by (simp add: exec_at_def exec_char_twice PARSING_HEADER_def)
  qed
qed


text \<open>The three callbacks on a response whose Content-Length has a blank in it.\<close>

lemma with_client_lost: "data (snd (with_client P f)) = None \<Longrightarrow> with_client P f = (-1, P\<lparr>data := None\<rparr>)"
  by (auto simp: with_client_def split: option.splits)

lemma digit_no_blank: "IS_NUM c \<Longrightarrow> c \<noteq> CHR '' ''"
  by (auto simp: IS_NUM_def ord_def)

lemma number_with_blank:
  assumes "\<forall>c \<in> set (d # ds @ es). IS_NUM c"
  shows "continue_number (digit d) (ds @ CHR '' '' # es) = decimal (d # ds @ es)"
proof -
  have "filter (\<lambda>c. c \<noteq> CHR '' '') (ds @ es) = ds @ es"
    using assms digit_no_blank by (intro filter_True) auto
  then show ?thesis by (simp add: continue_number_def decimal_def digit_def)
qed

text \<open>The client has stored the name of the field and no value yet, and it has no body.\<close>

definition at_length_value :: "http_io \<Rightarrow> bool" where
  "at_length_value s \<longleftrightarrow> cl_parser_statue s = PARSERD_FIELD \<and> cl_cur_field_size s = 14 \<and>
     (\<exists>rest. cl_header_field s = Some (''Content-Length'' @ NUL # rest)) \<and>
     holds (cl_header_value s, cl_cur_value_size s, cl_value_size s) [] \<and> cl_body s = None \<and> cl_body_len s = 0"

lemma value_stored:
  assumes "at_length_value s" "\<And>k. env_alloc E k" "v \<noteq> []" "length v < 65536"
  obtains s1 b where "\<And>Q. data Q = Some s \<Longrightarrow> on_header_value_cb E Q v = (0, Q\<lparr>data := Some s1\<rparr>)"
    "cl_header_value s1 = Some b" "holds (Some b, cl_cur_value_size s1, cl_value_size s1) v"
    "cl_header_field s1 = cl_header_field s" "cl_cur_field_size s1 = 14" "cl_body s1 = None" "cl_body_len s1 = 0"
proof -
  define s0 where "s0 = s\<lparr>cl_parser_statue := PARSERD_VALUE\<rparr>"
  obtain b cur sz s' where st: "field_value_malloc E s0 (cl_header_value s0, cl_cur_value_size s0, cl_value_size s0) v =
      Some (0, (b, cur, sz), s')" "holds (b, cur, sz) v" "s' \<in> {s0, tick s0}"
    using field_value_malloc_fits [of "(cl_header_value s0, cl_cur_value_size s0, cl_value_size s0)" "[]" v E s0] assms
    by (auto simp: at_length_value_def s0_def)
  obtain c where c: "b = Some c" using st(2) assms(3) by (cases b) auto
  show ?thesis
  proof (rule that)
    show "on_header_value_cb E Q v = (0, Q\<lparr>data := Some (s'\<lparr>cl_header_value := b, cl_cur_value_size := cur, cl_value_size := sz\<rparr>)\<rparr>)"
      if "data Q = Some s" for Q
      using that assms(1) st(1) by (simp add: on_header_value_cb_def with_client_def at_length_value_def s0_def)
  qed (use st(2,3) assms(1) c in \<open>auto simp: s0_def tick_def at_length_value_def\<close>)
qed

lemma length_taken:
  assumes "cl_header_value s1 = Some b" "holds (Some b, cl_cur_value_size s1, cl_value_size s1) v"
    and "cl_header_field s1 = Some (''Content-Length'' @ NUL # rest)" "cl_cur_field_size s1 = 14"
    and "c_string v" "v \<noteq> []"
  obtains s2 where "\<And>Q. data Q = Some s1 \<Longrightarrow> on_headers_complete_cb E Q = (0, Q\<lparr>data := Some s2\<rparr>)"
    "cl_content_length s2 = atol v" "cl_body s2 = cl_body s1" "cl_body_len s2 = cl_body_len s1"
proof -
  have "c_str (''Content-Length'' @ NUL # rest) = Some ''Content-Length''"
    by (rule c_str_append) simp
  moreover have "0 < cl_cur_value_size s1" using assms(2,6) by (auto simp: word_gt_0)
  ultimately have "parser_field_value E s1 =
      Some (0, s1\<lparr>cl_content_length := atol v, cl_cur_field_size := 0, cl_cur_value_size := 0\<rparr>)"
    using assms(1,3,4) holds_c_str [OF assms(2,5)] by (simp add: parser_field_value_def)
  then show ?thesis
    by (intro that [of "s1\<lparr>cl_content_length := atol v, cl_cur_field_size := 0, cl_cur_value_size := 0,
      cl_header_field := None, cl_header_value := None, cl_parser_statue := PARSERD_BODY\<rparr>"])
      (simp_all add: on_headers_complete_cb_def with_client_def)
qed

lemma client_callbacks [simp]:
  "on_header_value (client_settings E False) = Some (on_header_value_cb E)"
  "on_headers_complete (client_settings E False) = Some (on_headers_complete_cb E)"
  "on_body (client_settings E False) = Some (on_body_cb E)"
  by (simp_all add: client_settings_def)

text \<open>The parser where the value of a Content-Length starts, before any header that sets a flag.\<close>

definition at_value :: "'u http_parser \<Rightarrow> bool" where
  "at_value P \<longleftrightarrow> http_errno P = HPE_OK \<and> state P = s_header_value_discard_ws \<and> header_state P = h_content_length \<and>
     flags P = {} \<and> http_method P \<noteq> HTTP_CONNECT"

lemma blank_run:
  assumes "ds \<noteq> []" "es \<noteq> []" "\<forall>c \<in> set (ds @ es). IS_NUM c" "0 < decimal ds" "decimal (ds @ es) < 2 ^ 63"
    and "at_value P" "data P = Some s" "at_length_value s" "\<And>k. env_alloc E k"
    and "length ds + length es < 65535" "unat (nread P) + length ds + length es + 5 \<le> HTTP_MAX_HEADER_SIZE"
  obtains Q s' where "data Q = Some s'" "cl_content_length s' = int (decimal ds)" "cl_body s' = None" "cl_body_len s' = 0"
    "http_errno Q = HPE_OK" "content_length Q = of_nat (decimal (ds @ es))"
    "\<And>body. http_parser_execute (client_settings E False) P (ds @ CHR '' '' # es @ [CR, LF, CR, LF] @ body) =
      exec_loop (length ds + length es + length body + 1) (client_settings E False) (ds @ CHR '' '' # es @ [CR, LF, CR, LF] @ body)
        (length ds + length es + 5) \<lparr>parser = Q, p_state = s_body_identity, marks = (\<lambda>_. None)\<rparr>"
proof -
  obtain d ds' where ds: "ds = d # ds'" using assms(1) by (cases ds) auto
  let ?v = "ds @ CHR '' '' # es" and ?S = "client_settings E False" and ?N = "decimal (ds @ es)"
  have v: "?v \<noteq> []" "length ?v < 65536" "c_string ?v"
    using assms(1,3,10) digits_c_string [of ds] digits_c_string [of es] by auto
  obtain s1 b where s1: "\<And>Q. data Q = Some s \<Longrightarrow> on_header_value_cb E Q ?v = (0, Q\<lparr>data := Some s1\<rparr>)"
    "cl_header_value s1 = Some b" "holds (Some b, cl_cur_value_size s1, cl_value_size s1) ?v"
    "cl_header_field s1 = cl_header_field s" "cl_cur_field_size s1 = 14" "cl_body s1 = None" "cl_body_len s1 = 0"
    using value_stored [OF assms(8,9) v(1,2)] by blast
  obtain rest where f: "cl_header_field s1 = Some (''Content-Length'' @ NUL # rest)"
    using s1(4) assms(8) by (auto simp: at_length_value_def)
  obtain s2 where s2: "\<And>Q. data Q = Some s1 \<Longrightarrow> on_headers_complete_cb E Q = (0, Q\<lparr>data := Some s2\<rparr>)"
    "cl_content_length s2 = atol ?v" "cl_body s2 = cl_body s1" "cl_body_len s2 = cl_body_len s1"
    using length_taken [OF s1(2,3) f s1(5) v(3,1)] by blast
  have "decimal ds \<le> decimal ds * 10 ^ length es" by simp
  also have "\<dots> \<le> ?N" by (rule decimal_append)
  finally have dec: "decimal ds < 2 ^ 63" "0 < ?N" using assms(4,5) by linarith+
  have atol: "atol ?v = int (decimal ds)"
    using atol_digits [of ds "CHR '' ''" es] assms(1,3) dec(1) by (simp add: IS_NUM_def ord_def)
  have N: "continue_number (digit d) (ds' @ CHR '' '' # es) = ?N"
    using number_with_blank [of d ds' es] assms(3) ds by simp
  have lim: "?N < CONTENT_LENGTH_LIMIT" using assms(5) by (simp add: CONTENT_LENGTH_LIMIT_def)
  have word: "of_nat ?N \<noteq> (0 :: 64 word)" "of_nat ?N \<noteq> ULLONG_MAX"
  proof -
    have u: "unat (of_nat ?N :: 64 word) = ?N" by (rule unat_digit_number [OF lim])
    show "of_nat ?N \<noteq> (0 :: 64 word)" using u dec(2) by (metis less_irrefl unat_0)
    show "of_nat ?N \<noteq> ULLONG_MAX"
    proof
      assume "of_nat ?N = ULLONG_MAX"
      then have "?N = unat ULLONG_MAX" using u by metis
      then show False using assms(5) by (simp add: ULLONG_MAX_def unsigned_minus_1_eq_mask mask_eq_exp_minus_1)
    qed
  qed
  let ?n = "length ds + length es + 1"
  define P1 where "P1 = P\<lparr>nread := nread P + of_nat (length (ds' @ CHR '' '' # es) + 2), index := 0,
         content_length := of_nat ?N, header_state := h_content_length,
         data := Some s1, state := s_header_almost_done\<rparr>"
  have nread: "unat (nread P1) + 3 \<le> HTTP_MAX_HEADER_SIZE"
    using COUNT_within(2) [of "\<lparr>parser = P, p_state = s_dead, marks = (\<lambda>_. None)\<rparr>" "length (ds' @ CHR '' '' # es) + 2"] assms(11) ds
    by (simp add: P1_def)
  define Q where "Q = P1\<lparr>nread := 0, upgrade := False, data := Some s2\<rparr>"
  show ?thesis
  proof (rule that [of Q s2])
    show "data Q = Some s2" "http_errno Q = HPE_OK" "content_length Q = of_nat ?N"
      using assms(6) by (simp_all add: Q_def P1_def at_value_def)
    show "cl_content_length s2 = int (decimal ds)" "cl_body s2 = None" "cl_body_len s2 = 0"
      using s2 atol s1 by simp_all
  next
    fix body
    let ?t = "ds @ CHR '' '' # es @ [CR, LF, CR, LF] @ body"
    have t: "?t = d # (ds' @ CHR '' '' # es) @ CR # ([LF, CR, LF] @ body)" using ds by simp
    have "http_parser_execute ?S P ?t = exec_loop (Suc (length (ds' @ CHR '' '' # es) + length ([LF, CR, LF] @ body))) ?S ?t
        (length (ds' @ CHR '' '' # es) + 2) \<lparr>parser = P1, p_state = s_header_almost_done, marks = (\<lambda>_. None)\<rparr>"
      unfolding t P1_def N [symmetric]
      by (rule value_line [where f = "on_header_value_cb E"])
        (use assms(3,6,7,11) s1(1) lim N ds in \<open>auto simp: at_value_def\<close>)
    also have "\<dots> = exec_loop (length (ds' @ CHR '' '' # es) + 1 + length body) ?S ?t
        (length (ds' @ CHR '' '' # es) + 2 + 3) \<lparr>parser = Q, p_state = s_body_identity, marks = (\<lambda>_. None)\<rparr>"
    proof -
      have "exec_loop (Suc (Suc (Suc (length (ds' @ CHR '' '' # es) + 1 + length body)))) ?S ?t
          (length (ds' @ CHR '' '' # es) + 2) \<lparr>parser = P1, p_state = s_header_almost_done, marks = (\<lambda>_. None)\<rparr> =
        exec_loop (length (ds' @ CHR '' '' # es) + 1 + length body) ?S ?t
          (length (ds' @ CHR '' '' # es) + 2 + 3) \<lparr>parser = P1\<lparr>nread := 0, upgrade := False, data := Some s2\<rparr>, p_state = s_body_identity, marks = (\<lambda>_. None)\<rparr>"
        by (rule headers_end [where a = "ds @ CHR '' '' # es @ [CR]" and b = body and g = "on_headers_complete_cb E"])
          (use assms(6) word nread s2(1) ds in \<open>auto simp: at_value_def P1_def\<close>)
      then show ?thesis by (simp add: Q_def)
    qed
    finally show "http_parser_execute ?S P ?t = exec_loop (length ds + length es + length body + 1) ?S ?t (length ds + length es + 5)
        \<lparr>parser = Q, p_state = s_body_identity, marks = (\<lambda>_. None)\<rparr>"
      using ds by simp
  qed
qed


text \<open>
  C11: A blank inside a Content-Length makes the client write past its block.  Given the value, the end of the
  headers and nothing else, \<open>http_parser_execute\<close> with the callbacks of the client takes everything, and
  then waits for as many bytes of body as all the digits say, while the client has kept the number before
  the blank.  Given the body with it, of a length that the parser accepts and that is more than one byte
  longer than the number before the blank, the same call makes the client write past the end of its block.
\<close>

theorem blank_in_length_overflows:
  assumes "ds \<noteq> []" "es \<noteq> []" "\<forall>c \<in> set (ds @ es). IS_NUM c" "0 < decimal ds" "decimal (ds @ es) < 2 ^ 63"
    and "at_value P" "data P = Some s" "at_length_value s" "\<And>k. env_alloc E k"
    and "length ds + length es < 65535" "unat (nread P) + length ds + length es + 5 \<le> HTTP_MAX_HEADER_SIZE"
    and "decimal ds + 1 < length body" "length body \<le> decimal (ds @ es)"
  defines "headers \<equiv> ds @ CHR '' '' # es @ [CR, LF, CR, LF]"
  shows "(\<exists>Q s'. http_parser_execute (client_settings E False) P headers = Return (length headers) Q \<and>
      state Q = s_body_identity \<and> content_length Q = of_nat (decimal (ds @ es)) \<and>
      data Q = Some s' \<and> cl_content_length s' = int (decimal ds)) \<and>
    (\<exists>n Q. http_parser_execute (client_settings E False) P (headers @ body) = Return n Q \<and> data Q = None)"
proof -
  let ?S = "client_settings E False"
  obtain Q s' where Q: "data Q = Some s'" "cl_content_length s' = int (decimal ds)" "cl_body s' = None" "cl_body_len s' = 0"
    "http_errno Q = HPE_OK" "content_length Q = of_nat (decimal (ds @ es))"
    and run: "\<And>body. http_parser_execute ?S P (ds @ CHR '' '' # es @ [CR, LF, CR, LF] @ body) =
      exec_loop (length ds + length es + length body + 1) ?S (ds @ CHR '' '' # es @ [CR, LF, CR, LF] @ body)
        (length ds + length es + 5) \<lparr>parser = Q, p_state = s_body_identity, marks = (\<lambda>_. None)\<rparr>"
    using blank_run [OF assms(1-11)] by blast
  have word: "unat (content_length Q) = decimal (ds @ es)"
    unfolding Q(6) using assms(5) by (intro unat_digit_number) (simp add: CONTENT_LENGTH_LIMIT_def)
  have nonzero: "content_length Q \<noteq> 0"
    using word assms(12,13) by auto
  have finite_length: "content_length Q \<noteq> ULLONG_MAX"
    using word assms(5) by (auto simp: ULLONG_MAX_def unsigned_minus_1_eq_mask mask_eq_exp_minus_1)
  have "length headers = length ds + length es + 5" by (simp add: headers_def)
  then have "http_parser_execute ?S P headers = Return (length headers) (Q\<lparr>state := s_body_identity\<rparr>)"
    using run [of "[]"] exec_loop_end [of "length ds + length es + 1" ?S headers] Q(5)
    by (simp add: headers_def exec_end_def CALLBACK_DATA_def RETURN_def Let_def)
  moreover have "\<exists>n R. http_parser_execute ?S P (headers @ body) = Return n R \<and> data R = None"
  proof -
    have b: "body \<noteq> []" using assms(12) by auto
    have lost: "on_body_cb E R body = (-1, R\<lparr>data := None\<rparr>)" if "data R = data Q" for R
    proof -
      have "data (bodies E R [body]) = None"
        using announced_body_lost [of R s' E "[body]"] that Q(1-4) assms(4,9,12) by simp
      then show ?thesis using with_client_lost by (simp add: on_body_cb_def)
    qed
    have fuel: "length ds + length es + length body + 1 = Suc (Suc (length ds + length es + length body - 1))"
      using assms(1) by (cases ds) auto
    have "\<exists>n R. exec_loop (Suc (Suc (length ds + length es + length body - 1))) ?S (ds @ CHR '' '' # es @ [CR, LF, CR, LF] @ body)
        (length ds + length es + 5) \<lparr>parser = Q, p_state = s_body_identity, marks = (\<lambda>_. None)\<rparr> = Return n R \<and>
        data R = None \<and> http_errno R = HPE_CB_body"
      by (rule body_lost [where a = "ds @ CHR '' '' # es @ [CR, LF, CR, LF]" and b = body and h = "on_body_cb E"])
        (use b Q(5) nonzero finite_length word assms(13) lost in auto)
    moreover have eq: "headers @ body = ds @ CHR '' '' # es @ [CR, LF, CR, LF] @ body" by (simp add: headers_def)
    ultimately show ?thesis unfolding eq run [of body] fuel by blast
  qed
  ultimately show ?thesis using Q by auto
qed

definition at_one_two :: client_parser where
  "at_one_two = (response_parser (zero_client\<lparr>cl_parser_statue := PARSERD_FIELD,
     cl_header_field := Some (''Content-Length'' @ [NUL]), cl_cur_field_size := 14, cl_field_size := 14\<rparr>))
     \<lparr>state := s_header_value_discard_ws, header_state := h_content_length\<rparr>"

theorem blank_in_length_overflows_witness:
  "\<exists>n Q. http_parser_execute (client_settings quiet_env False) at_one_two
     (''1 2'' @ [CR, LF, CR, LF] @ ''123456789012'') = Return n Q \<and> data Q = None"
  using blank_in_length_overflows [of "''1''" "''2''" at_one_two "zero_client\<lparr>cl_parser_statue := PARSERD_FIELD,
     cl_header_field := Some (''Content-Length'' @ [NUL]), cl_cur_field_size := 14, cl_field_size := 14\<rparr>" quiet_env "''123456789012''"]
  by (simp add: at_one_two_def at_value_def at_length_value_def response_parser_def http_parser_init_def zero_client_def
      quiet_env_def IS_NUM_def ord_def decimal_def HTTP_MAX_HEADER_SIZE_def)

end
