(* ===== verification/Http_Request.thy ===== *)
theory Http_Request
  imports Http_Client_Buffers
begin

text \<open>
  Requests of the HTTP client of \<open>httpclient/src/http.c\<close>: connecting to the host of a URL, sending the request,
  feeding the response to the message parser, following redirects, and the functions of the interface.
  HTTPS is compiled out, so \<open>https\<close> URLs are refused.
\<close>

subsection \<open>Connecting\<close>

text \<open>The bytes of a field of a URL; the text is a C string, so its terminator is the last byte there is.\<close>

definition url_part :: "string \<Rightarrow> http_parser_url \<Rightarrow> http_parser_url_fields \<Rightarrow> string option" where
  "url_part url u f =
     (if unat (off u f) + unat (len u f) \<le> length url then Some (take (unat (len u f)) (drop (unat (off u f)) url)) else None)"

definition close_socket :: "http_io \<Rightarrow> http_io" where
  "close_socket s = (if cl_fd s \<notin> {-1, 0, 1, 2} then (tick s)\<lparr>cl_fd := -1\<rparr> else s)"

definition socket_noblocking :: "http_env \<Rightarrow> http_io \<Rightarrow> int \<times> http_io" where
  "socket_noblocking E s =
     (if \<not> env_fcntl E (calls s) then (-1, tick s)
      else ((if env_fcntl E (calls s + 1) then 0 else -1), tick (tick s)))"

partial_function (option) connect_loop :: "http_env \<Rightarrow> http_io \<Rightarrow> 32 word \<times> 16 word \<Rightarrow> (http_error_e \<times> http_io) option" where
  "connect_loop E s sin =
     (case env_connect E (calls s) sin of
        Reply _ \<Rightarrow> connect_loop E (tick s) sin
      | Error e \<Rightarrow>
          if e = EINTR then connect_loop E (tick s) sin
          else if e = EINPROGRESS \<or> e = EWOULDBLOCK \<or> e = EALREADY then do {
            (r, s) \<leftarrow> socket_select E (tick s) kSelectWrite (cl_timeout s);
            if r = 0 then Some (ERR_OK, s) else Some (ERR_SOCKET_CONNECT_TIMEOUT, s)
          } else Some (ERR_SOCKET_CONNECT, tick s))"

definition INADDR_NONE :: "32 word" where "INADDR_NONE = -1"

definition resolve_host :: "http_env \<Rightarrow> http_io \<Rightarrow> string \<Rightarrow> (32 word) option \<times> http_io" where
  "resolve_host E s host =
     (let (address, s) =
        (if ord CHR ''0'' \<le> ord (peek host) \<and> ord (peek host) \<le> ord CHR ''9'' then (Some (env_inet_addr E host), s)
         else (env_gethostbyname E (calls s) host, tick s))
      in (if address = Some INADDR_NONE then None else address, s))"

definition open_connection :: "http_env \<Rightarrow> http_io \<Rightarrow> 32 word \<times> 16 word \<Rightarrow> (http_error_e \<times> http_io) option" where
  "open_connection E s sin =
     (let s = close_socket s;
          s = (tick s)\<lparr>cl_fd := env_socket E (calls s)\<rparr>
      in if cl_fd s = -1 then Some (ERR_SOCKET_CREATE, s)
         else if \<not> env_setsockopt E (calls s) then Some (ERR_SOCKET_SET_OPT, tick s)
         else let (r, s) = socket_noblocking E (tick s)
              in if r \<noteq> 0 then Some (ERR_SOCKET_NOBLOCKING, s) else connect_loop E s sin)"

definition connect_resolved ::
    "http_env \<Rightarrow> (32 word) option \<times> http_io \<Rightarrow> 16 word \<Rightarrow> (http_error_e \<times> http_io) option" where
  "connect_resolved E found port_no =
     (case found of
        (None, s) \<Rightarrow> Some (ERR_URL_RESOLVED_HOST, s)
      | (Some a, s) \<Rightarrow> open_connection E s (a, port_no))"

definition http_connect_host :: "http_env \<Rightarrow> http_io \<Rightarrow> string \<Rightarrow> http_parser_url \<Rightarrow> (http_error_e \<times> http_io) option" where
  "http_connect_host E s url u =
     (if UF_SCHEMA \<in> field_set u \<and> \<not> same_name ''http://'' (take 7 (drop (unat (off u UF_SCHEMA)) url))
      then Some (ERR_URL_INVALID_PROTO, s)
      else
        let s = (if UF_SCHEMA \<in> field_set u then s\<lparr>cl_proto_type := PROTO_HTTP\<rparr> else s);
            port_no = (if UF_PORT \<in> field_set u then of_int (atol (drop (unat (off u UF_PORT)) url)) else 80 :: 16 word)
        in if UF_HOST \<notin> field_set u then Some (ERR_URL_INVALID_HOST, s)
           else do {
             name \<leftarrow> url_part url u UF_HOST;
             host \<leftarrow> write_block (replicate 256 NUL) 0 name;
             host \<leftarrow> c_str host;
             connect_resolved E (resolve_host E s host) port_no
           })"

subsection \<open>Sending\<close>

definition DEFAULT_USER_AGENT_STR :: string where
  "DEFAULT_USER_AGENT_STR =
     ''User-Agent: Mozilla/5.0 (Windows NT 6.1; WOW64; rv:29.0) Gecko/20100101 Firefox/29.0'' @ [CR, LF]"

definition CONNECT_STR :: string where "CONNECT_STR = ''Connection: close'' @ [CR, LF]"
definition ACCEPT_STR :: string where "ACCEPT_STR = ''Accept: */*'' @ [CR, LF]"
definition CONTENT_LENGTH_STR :: string where "CONTENT_LENGTH_STR = ''Content-Length''"

definition CONTENT_TYPE_STR :: string where
  "CONTENT_TYPE_STR = ''Content-Type:application/x-www-form-urlencoded'' @ [CR, LF]"

definition CRLF :: string where "CRLF = [CR, LF]"

definition post_headers :: "string \<Rightarrow> string" where
  "post_headers post = CONTENT_TYPE_STR @ CONTENT_LENGTH_STR @ '':'' @ decimal_digits (length post) @ CRLF"

text \<open>The texts handed to \<open>http_read_write\<close>, in order.\<close>

definition request_parts ::
    "http_request_method_e \<Rightarrow> string \<Rightarrow> http_parser_url \<Rightarrow> string option \<Rightarrow> string option \<Rightarrow> string list option" where
  "request_parts m url u post user_header = do {
     path \<leftarrow> (if UF_PATH \<in> field_set u then url_part url u UF_PATH else Some ''/'');
     query \<leftarrow> (if UF_QUERY \<in> field_set u then map_option (\<lambda>q. [''?'', q]) (url_part url u UF_QUERY) else Some []);
     host \<leftarrow> url_part url u UF_HOST;
     let data = (case post of Some p \<Rightarrow> if p \<noteq> [] then [p] else [] | None \<Rightarrow> []);
     Some ((case m of M_GET \<Rightarrow> [''GET ''] | M_POST \<Rightarrow> [''POST ''] | M_HEAD \<Rightarrow> []) @ [path] @ query @
       ['' HTTP/1.1'' @ CRLF @ ''Host:'', host, CRLF @ CONNECT_STR @ ACCEPT_STR @ DEFAULT_USER_AGENT_STR] @
       (case user_header of Some t \<Rightarrow> [t] | None \<Rightarrow> []) @
       map post_headers data @ [CRLF] @ data)
   }"

text \<open>One \<open>CHECK\<close> after the other: whether each wrote something.\<close>

fun send_parts :: "http_env \<Rightarrow> http_io \<Rightarrow> string list \<Rightarrow> (bool \<times> http_io) option" where
  "send_parts E s [] = Some (True, s)"
| "send_parts E s (t # ts) = do {
     (r, s) \<leftarrow> http_write E s t;
     if r \<le> 0 then Some (False, s) else send_parts E s ts
   }"

subsection \<open>Receiving\<close>

definition RECV_BUF_SIZE :: int where "RECV_BUF_SIZE = 4 * 1024"

text \<open>
  The loop ends with an error code, or without one at the end of the input, at a redirect and after the rest
  of a body of known length, which is read into its block past the parser.
\<close>

definition receive_body :: "http_env \<Rightarrow> http_io \<Rightarrow> heap_block \<Rightarrow> (http_error_e option \<times> http_io) option" where
  "receive_body E s b = do {
     (nread, bytes, s) \<leftarrow> http_read E s (cl_content_length s - cl_body_len s);
     b \<leftarrow> write_block b (nat (cl_body_len s)) bytes;
     let s = s\<lparr>cl_body := Some b\<rparr>;
     if nread < 0 then Some (Some ERR_SOCKET_READ, s) else Some (None, s\<lparr>cl_body_len := cl_body_len s + nread\<rparr>)
   }"

partial_function (option) receive_loop :: "http_env \<Rightarrow> client_parser \<Rightarrow> (http_error_e option \<times> http_io) option" where
  "receive_loop E P = do {
     s \<leftarrow> data P;
     if \<not> cl_download s \<and> cl_parser_statue s = PARSERD_BODY \<and> cl_body s \<noteq> None \<and> 0 < cl_content_length s
     then receive_body E s (the (cl_body s))
     else do {
       (nread, bytes, s) \<leftarrow> http_read E s RECV_BUF_SIZE;
       if nread = 0 then Some (None, s)
       else if nread < 0 then Some (Some ERR_SOCKET_READ, s)
       else case http_parser_execute (client_settings E (cl_download s)) (P\<lparr>data := Some s\<rparr>) bytes of
         Return parsed P \<Rightarrow> do {
           s \<leftarrow> data P;
           if cl_redirect s then Some (None, s)
           else if int parsed \<noteq> nread then Some (Some ERR_PARSE_REP, s)
           else receive_loop E P
         }
       | _ \<Rightarrow> None
     }
   }"

subsection \<open>The request\<close>

definition begin_request :: "http_io \<Rightarrow> http_io" where
  "begin_request s =
     (let s = close_socket (s\<lparr>cl_body := None, cl_header_field := None, cl_header_value := None\<rparr>);
          s = s\<lparr>cl_redirect := False, cl_body_len := 0, cl_content_length := 0, cl_cur_field_size := 0,
                cl_cur_value_size := 0, cl_field_size := 0, cl_value_size := 0, cl_parser_statue := PARSERD_NONE,
                cl_error_code := ERR_OK\<rparr>
      in if cl_timeout s = 0 then s\<lparr>cl_timeout := 15000\<rparr> else s)"

text \<open>\<open>http->error_code = e\<close>, returned.\<close>

definition with_code :: "http_error_e \<Rightarrow> http_io \<Rightarrow> http_error_e \<times> http_io" where
  "with_code e s = (e, s\<lparr>cl_error_code := e\<rparr>)"

definition end_request :: "http_io \<Rightarrow> (http_error_e \<times> http_io) option" where
  "end_request s =
     (let s = (if cl_download s \<and> cl_pf s then (tick s)\<lparr>cl_pf := False\<rparr> else s)
      in case cl_body s of
           Some b \<Rightarrow>
             if 0 < cl_body_len s then do {
               b \<leftarrow> write_block b (nat (cl_body_len s)) [NUL];
               Some (cl_error_code s, s\<lparr>cl_body := Some b\<rparr>)
             } else Some (cl_error_code s, s)
         | None \<Rightarrow> Some (cl_error_code s, s))"

text \<open>The structure the URL is parsed into; a field that was not found is not read.\<close>

definition stack_url :: http_parser_url where
  "stack_url = \<lparr>field_set = {}, port = 0, off = (\<lambda>_. 0), len = (\<lambda>_. 0)\<rparr>"

definition one_request ::
    "http_env \<Rightarrow> http_io \<Rightarrow> string \<Rightarrow> string option \<Rightarrow> string option \<Rightarrow> (http_error_e option \<times> http_io) option" where
  "one_request E s url post user_header =
     (let s = begin_request s
      in case http_parser_parse_url url (length url) False stack_url of
           None \<Rightarrow> Some (Some ERR_URL_INVALID, s)
         | Some u \<Rightarrow> do {
             (r, s) \<leftarrow> http_connect_host E s url u;
             if r \<noteq> ERR_OK then Some (Some r, s)
             else do {
               parts \<leftarrow> request_parts (cl_method s) url u post user_header;
               (ok, s) \<leftarrow> send_parts E s parts;
               if \<not> ok then Some (Some ERR_SOCKET_WRITE, s) else receive_loop E (response_parser s)
             }
           })"

partial_function (option) http_internal_sync_request ::
    "http_env \<Rightarrow> http_io \<Rightarrow> string \<Rightarrow> string option \<Rightarrow> string option \<Rightarrow> (http_error_e \<times> http_io) option" where
  "http_internal_sync_request E s url post user_header = do {
     (e, s) \<leftarrow> one_request E s url post user_header;
     case e of
       Some e \<Rightarrow> Some (with_code e s)
     | None \<Rightarrow>
         if cl_redirect s then
           (case cl_redirect_url s of
              None \<Rightarrow> None
            | Some url \<Rightarrow> http_internal_sync_request E s url post user_header)
         else end_request s
   }"

subsection \<open>The interface\<close>

text \<open>A client pointer may be null.\<close>

definition ft_http_init :: int where "ft_http_init = 0"

text \<open>What \<open>ft_http_destroy\<close> leaves when it frees the structure itself.\<close>

definition ft_http_destroy :: "http_io option \<Rightarrow> http_io option" where
  "ft_http_destroy http = map_option (\<lambda>s.
     let s = close_socket (s\<lparr>cl_body := None, cl_header_field := None, cl_header_value := None,
                             cl_redirect_url := None, cl_filename := None\<rparr>)
     in if cl_pf s then (tick s)\<lparr>cl_pf := False\<rparr> else s) http"

definition ft_http_get_error_code :: "http_io option \<Rightarrow> http_error_e option" where
  "ft_http_get_error_code http = map_option cl_error_code http"

definition ft_http_get_status_code :: "http_io option \<Rightarrow> int" where
  "ft_http_get_status_code http = (case http of None \<Rightarrow> -1 | Some s \<Rightarrow> cl_status_code s)"

definition ft_http_set_timeout :: "http_io option \<Rightarrow> int \<Rightarrow> int \<times> http_io option" where
  "ft_http_set_timeout http timeout =
     (case http of None \<Rightarrow> (-1, None)
      | Some s \<Rightarrow> (0, Some (if timeout < 0 then s\<lparr>cl_timeout := 0\<rparr> else s\<lparr>cl_timeout := timeout\<rparr>)))"

definition ft_http_sync_request ::
    "http_env \<Rightarrow> http_io option \<Rightarrow> string \<Rightarrow> http_request_method_e \<Rightarrow> (heap_block option \<times> http_io option) option" where
  "ft_http_sync_request E http url m =
     (case http of None \<Rightarrow> Some (None, None)
      | Some s \<Rightarrow> do {
          (e, s) \<leftarrow> http_internal_sync_request E (s\<lparr>cl_method := m, cl_download := False\<rparr>) url None None;
          let s = s\<lparr>cl_error_code := e\<rparr>;
          Some (cl_body s, Some s)
        })"

text \<open>Posting a file and waiting are not implemented in the code: they return null and zero.\<close>

definition ft_http_sync_post_file :: "http_io option \<Rightarrow> string \<Rightarrow> string \<Rightarrow> string option" where
  "ft_http_sync_post_file http url filepath = None"

definition ft_http_wait_done :: "http_io option \<Rightarrow> int" where
  "ft_http_wait_done http = 0"

definition ft_http_sync_download_file ::
    "http_env \<Rightarrow> http_io option \<Rightarrow> string \<Rightarrow> string option \<Rightarrow> (http_error_e option \<times> http_io option) option" where
  "ft_http_sync_download_file E http url filepath =
     (case http of None \<Rightarrow> Some (None, None)
      | Some s \<Rightarrow>
          let s = s\<lparr>cl_method := M_GET, cl_download := True, cl_filename := None\<rparr>;
              (name, s) = (case filepath of None \<Rightarrow> (None, s) | Some f \<Rightarrow> strdup E s f);
              s = s\<lparr>cl_filename := name\<rparr>
          in if filepath \<noteq> None \<and> name = None then Some (Some ERR_OUT_MEMORY, Some (s\<lparr>cl_error_code := ERR_OUT_MEMORY\<rparr>))
             else do {
               (e, s) \<leftarrow> http_internal_sync_request E s url None None;
               Some (Some (if e = ERR_OK then ERR_OK else cl_error_code s), Some s)
             })"

definition ft_http_cancel_request :: "http_io option \<Rightarrow> http_io option" where
  "ft_http_cancel_request http = map_option (\<lambda>s. if cl_fd s \<noteq> -1 then close_socket s else s) http"

definition ft_http_exit :: "http_io option \<Rightarrow> http_io option" where
  "ft_http_exit http = map_option (\<lambda>s. s\<lparr>cl_exit := True\<rparr>) http"

definition ft_http_set_data_recv_cb :: "http_io option \<Rightarrow> bool \<Rightarrow> http_io option" where
  "ft_http_set_data_recv_cb http cb = map_option (\<lambda>s. s\<lparr>cl_recv_cb := cb\<rparr>) http"

subsection \<open>What sending sends\<close>

text \<open>Waiting changes nothing but the count of calls.\<close>

lemma tick_calls [simp]: "(tick s)\<lparr>calls := c\<rparr> = s\<lparr>calls := c\<rparr>" "tick s = s\<lparr>calls := calls s + 1\<rparr>"
  by (simp_all add: tick_def)

lemma select_loop_frame:
  assumes "select_loop E timeout start s remaind = Some rs"
  shows "\<exists>c. snd rs = s\<lparr>calls := c\<rparr>"
  using assms
proof (induction rule: select_loop.raw_induct [rotated, consumes 1, case_names step])
  case (step loop E timeout start s remaind y)
  note run = step.hyps
  show ?case
  proof (cases "env_select E (calls s)")
    case (Reply r)
    then show ?thesis
      using run by (auto split: if_splits intro: exI [of _ "calls s"] exI [of _ "Suc (calls s)"])
  next
    case (Error e)
    show ?thesis
    proof (cases "0 < remaind \<and> e = EINTR \<and> 0 \<le> cl_fd s \<and> cl_fd s < 1024")
      case True
      then obtain left where "loop E timeout start (tick (tick s)) left = Some y"
        using run Error by (auto simp: Let_def)
      from step.IH [OF this] show ?thesis
        by auto
    next
      case False
      then show ?thesis
        using run Error by (auto split: if_splits intro: exI [of _ "calls s"] exI [of _ "Suc (calls s)"])
    qed
  qed
qed

lemma check_error_frame:
  assumes "http_check_error E s mode e = Some (r, s')"
  shows "\<exists>c. s' = s\<lparr>calls := c\<rparr>"
  using assms select_loop_frame [of E "cl_timeout s" "env_time E (calls s)" "tick s" "cl_timeout s"]
  by (auto simp: http_check_error_def socket_select_def split: if_splits bind_splits intro: exI [of _ "calls s"])

text \<open>\<open>http_read_write\<close> sends the message from where it is on, in order and without gaps.\<close>

definition sends :: "http_io \<Rightarrow> string \<Rightarrow> nat \<Rightarrow> int \<times> http_io \<Rightarrow> bool" where
  "sends s message n rs \<longleftrightarrow> (\<exists>k c. n \<le> k \<and> k \<le> length message \<and> fst rs \<in> {int k, -1} \<and>
     snd rs = s\<lparr>sent := sent s @ take (k - n) (drop n message), calls := c\<rparr>)"

lemma sends_stop: "n \<le> length message \<Longrightarrow> r \<in> {int n, -1} \<Longrightarrow> sends s message n (r, s\<lparr>calls := c\<rparr>)"
  unfolding sends_def by (rule exI [of _ n], rule exI [of _ c]) auto

lemma sends_waited: "sends (s\<lparr>calls := c\<rparr>) message n rs \<Longrightarrow> sends s message n rs"
  by (auto simp: sends_def)

lemma sends_more:
  assumes "sends (s\<lparr>calls := c, sent := sent s @ take r (drop n message)\<rparr>) message (n + r) rs" "n + r \<le> length message"
  shows "sends s message n rs"
proof -
  obtain k c' where k: "n + r \<le> k" "k \<le> length message" "fst rs \<in> {int k, -1}"
      "snd rs = s\<lparr>sent := (sent s @ take r (drop n message)) @ take (k - (n + r)) (drop (n + r) message), calls := c'\<rparr>"
    using assms(1) by (auto simp: sends_def)
  have "take r (drop n message) @ take (k - (n + r)) (drop (n + r) message) = take (k - n) (drop n message)"
    using k(1) take_add [of r "k - (n + r)" "drop n message"] by (simp add: add.commute)
  then show ?thesis
    using k unfolding sends_def by (intro exI [of _ k] exI [of _ c']) simp
qed

lemma write_loop_sends:
  assumes "write_loop E message s n = Some rs" "n \<le> length message"
  shows "sends s message n rs"
  using assms
proof (induction rule: write_loop.raw_induct [rotated, consumes 1, case_names step])
  case (step loop E message s n y)
  note run = step.hyps and n = step.prems
  show ?case
  proof (cases "cl_exit s \<or> cl_proto_type s = PROTO_HTTPS")
    case True
    then show ?thesis
      using run n sends_stop [of n message _ s "calls s"] by (auto split: if_splits)
  next
    case False
    show ?thesis
    proof (cases "env_send E (calls s)")
      case (Reply r)
      define m where "m = min r (length message - n)"
      define s1 where "s1 = s\<lparr>calls := Suc (calls s), sent := sent s @ take m (drop n message)\<rparr>"
      have m: "n + m \<le> length message"
        using n by (simp add: m_def)
      have run: "(if m = 0 then Some (int n, s1) else if n + m < length message then loop E message s1 (n + m)
          else Some (int (n + m), s1)) = Some y"
        using run Reply False unfolding m_def s1_def by (simp add: Let_def split del: if_split)
      have "sends s1 message (n + m) y"
      proof (cases "m \<noteq> 0 \<and> n + m < length message")
        case True
        then show ?thesis
          using run step.IH m by auto
      next
        case False
        then show ?thesis
          using run m sends_stop [of "n + m" message _ s1 "calls s1"] by (auto split: if_splits)
      qed
      then show ?thesis
        unfolding s1_def using m by (rule sends_more)
    next
      case (Error e)
      obtain r s1 where e: "http_check_error E (tick s) kSelectWrite e = Some (r, s1)"
          "(if r = 0 then (if n < length message then loop E message s1 n else Some (int n, s1)) else Some (-1, s1)) = Some y"
        using run Error False by (auto simp del: tick_calls split: bind_splits)
      obtain c where s1: "s1 = s\<lparr>calls := c\<rparr>"
        using check_error_frame [OF e(1)] by auto
      have "sends s1 message n y"
        using e(2) n step.IH sends_stop [of n message _ s1 c] by (auto simp: s1 split: if_splits)
      then show ?thesis
        using sends_waited s1 by blast
    qed
  qed
qed

text \<open>A system that takes at least one byte whenever it is offered some takes them all.\<close>

definition taking :: "http_env \<Rightarrow> bool" where
  "taking E \<longleftrightarrow> (\<forall>k. \<exists>r > 0. env_send E k = Reply r)"

definition can_send :: "http_io \<Rightarrow> bool" where
  "can_send s \<longleftrightarrow> \<not> cl_exit s \<and> cl_proto_type s = PROTO_HTTP"

lemma write_loop_whole:
  assumes "taking E" "can_send s" "n < length message"
  shows "\<exists>c. write_loop E message s n = Some (int (length message), s\<lparr>calls := c, sent := sent s @ drop n message\<rparr>)"
  using assms(2,3)
proof (induction "length message - n" arbitrary: n s rule: less_induct)
  case less
  obtain r where r: "0 < r" "env_send E (calls s) = Reply r"
    using assms(1) by (auto simp: taking_def)
  define m where "m = min r (length message - n)"
  define s1 where "s1 = s\<lparr>calls := Suc (calls s), sent := sent s @ take m (drop n message)\<rparr>"
  have m: "0 < m" "n + m \<le> length message"
    using r less.prems(2) by (auto simp: m_def)
  have step: "write_loop E message s n =
      (if n + m < length message then write_loop E message s1 (n + m) else Some (int (n + m), s1))"
    using less.prems r m(1) by (subst write_loop.simps) (simp add: can_send_def m_def [symmetric] s1_def Let_def)
  have split: "take m (drop n message) @ drop (n + m) message = drop n message"
    by (metis append_take_drop_id drop_drop add.commute)
  show ?case
  proof (cases "n + m < length message")
    case True
    have "can_send s1"
      using less.prems(1) by (simp add: can_send_def s1_def)
    then obtain c where "write_loop E message s1 (n + m) =
        Some (int (length message), s1\<lparr>calls := c, sent := sent s1 @ drop (n + m) message\<rparr>)"
      using less.hyps [of "n + m" s1, OF diff_less_mono2] True m(1) by auto
    then have "write_loop E message s n = Some (int (length message), s\<lparr>calls := c, sent := sent s @ drop n message\<rparr>)"
      using step True split by (simp add: s1_def)
    then show ?thesis ..
  next
    case False
    then have "n + m = length message"
      using m(2) by simp
    then have "write_loop E message s n = Some (int (length message), s\<lparr>calls := Suc (calls s), sent := sent s @ drop n message\<rparr>)"
      using step split by (simp add: s1_def)
    then show ?thesis ..
  qed
qed

lemma send_parts_whole:
  assumes "taking E" "can_send s" "[] \<notin> set ts"
  shows "\<exists>c. send_parts E s ts = Some (True, s\<lparr>calls := c, sent := sent s @ concat ts\<rparr>)"
  using assms(2,3)
proof (induction ts arbitrary: s)
  case Nil
  have "send_parts E s [] = Some (True, s\<lparr>calls := calls s, sent := sent s @ concat []\<rparr>)"
    by simp
  then show ?case ..
next
  case (Cons t ts)
  have "0 < length t"
    using Cons.prems(2) by auto
  from write_loop_whole [OF assms(1) Cons.prems(1) this]
  obtain c where c: "http_write E s t = Some (int (length t), s\<lparr>calls := c, sent := sent s @ t\<rparr>)"
    unfolding http_write_def drop_0 ..
  have "can_send (s\<lparr>calls := c, sent := sent s @ t\<rparr>)" "t \<noteq> []"
    using Cons.prems by (auto simp: can_send_def)
  then obtain c' where "send_parts E (s\<lparr>calls := c, sent := sent s @ t\<rparr>) ts =
      Some (True, s\<lparr>calls := c, sent := sent s @ t\<rparr>\<lparr>calls := c', sent := (sent s @ t) @ concat ts\<rparr>)"
    using Cons.IH [of "s\<lparr>calls := c, sent := sent s @ t\<rparr>"] Cons.prems(2) by auto
  then have "send_parts E s (t # ts) = Some (True, s\<lparr>calls := c', sent := sent s @ concat (t # ts)\<rparr>)"
    using c \<open>t \<noteq> []\<close> by simp
  then show ?case ..
qed

text \<open>
  C12: A GET request is sent whole, however the system splits it: if every \<open>send\<close> takes at least one byte, the
  bytes sent are the request line with the path and query of the URL, the host and the fixed headers.
\<close>

theorem get_request_sent:
  assumes "taking E" "can_send s" "url_part url u UF_HOST = Some host" "host \<noteq> []"
    and "(if UF_PATH \<in> field_set u then url_part url u UF_PATH else Some ''/'') = Some path" "path \<noteq> []"
    and "(if UF_QUERY \<in> field_set u then map_option (Cons CHR ''?'') (url_part url u UF_QUERY) else Some []) = Some query"
      "query \<noteq> ''?''"
  shows "\<exists>parts c. request_parts M_GET url u None None = Some parts \<and>
    send_parts E s parts = Some (True, s\<lparr>calls := c, sent := sent s @ ''GET '' @ path @ query @
      '' HTTP/1.1'' @ CRLF @ ''Host:'' @ host @ CRLF @ CONNECT_STR @ ACCEPT_STR @ DEFAULT_USER_AGENT_STR @ CRLF\<rparr>)"
proof -
  define qs where "qs = (if UF_QUERY \<in> field_set u then [''?'', tl query] else [])"
  have q: "(if UF_QUERY \<in> field_set u then map_option (\<lambda>q. [''?'', q]) (url_part url u UF_QUERY) else Some []) = Some qs"
      "concat qs = query" "[] \<notin> set qs"
    using assms(7,8) by (auto simp: qs_def split: if_splits)
  define ts where "ts = [''GET '', path] @ qs @ ['' HTTP/1.1'' @ CRLF @ ''Host:'', host,
    CRLF @ CONNECT_STR @ ACCEPT_STR @ DEFAULT_USER_AGENT_STR, CRLF]"
  have "request_parts M_GET url u None None = Some ts"
    by (simp only: request_parts_def assms(3,5) q(1) bind.bind_lunit Let_def option.case http_request_method_e.case ts_def
        list.map append.simps append_assoc)
  moreover have "[] \<notin> set ts"
    using assms(4,6) q(3) by (simp add: ts_def CRLF_def)
  moreover have "concat ts = ''GET '' @ path @ query @ '' HTTP/1.1'' @ CRLF @ ''Host:'' @ host @ CRLF @
      CONNECT_STR @ ACCEPT_STR @ DEFAULT_USER_AGENT_STR @ CRLF"
    by (simp add: ts_def q(2))
  ultimately show ?thesis
    using send_parts_whole [OF assms(1,2), of ts] by auto
qed

lemma connect_loop_in_progress:
  assumes "connect_loop E s sin = Some rs" "fst rs = ERR_OK"
  shows "\<exists>k e. env_connect E k sin = Error e \<and> e \<in> {EINPROGRESS, EWOULDBLOCK, EALREADY}"
  using assms
proof (induction rule: connect_loop.raw_induct [rotated, consumes 1, case_names step])
  case (step loop E s sin y)
  note run = step.hyps and ok = step.prems
  show ?case
  proof (cases "env_connect E (calls s) sin")
    case (Reply r)
    then show ?thesis
      using run step.IH ok by auto
  next
    case (Error e)
    then show ?thesis
      using run step.IH ok by (cases e) (auto split: if_splits)
  qed
qed

theorem get_request_sent_witness:
  "\<exists>parts c. request_parts M_GET ''http://h/p?q'' \<lparr>field_set = {UF_SCHEMA, UF_HOST, UF_PATH, UF_QUERY}, port = 0,
       off = (\<lambda>f. if f = UF_HOST then 7 else if f = UF_PATH then 8 else if f = UF_QUERY then 11 else 0),
       len = (\<lambda>f. if f = UF_HOST then 1 else if f = UF_PATH then 2 else if f = UF_QUERY then 1 else 4)\<rparr> None None = Some parts \<and>
    send_parts quiet_env zero_client parts = Some (True, zero_client\<lparr>calls := c, sent := sent zero_client @ ''GET '' @ ''/p'' @ ''?q'' @
      '' HTTP/1.1'' @ CRLF @ ''Host:'' @ ''h'' @ CRLF @ CONNECT_STR @ ACCEPT_STR @ DEFAULT_USER_AGENT_STR @ CRLF\<rparr>)"
  by (rule get_request_sent) (simp_all add: taking_def quiet_env_def can_send_def zero_client_def url_part_def)

text \<open>A request with the method HEAD starts with the path: no branch writes its name.\<close>

lemma head_request_has_no_method:
  "request_parts M_HEAD url u None None = Some (t # ts) \<Longrightarrow>
   (if UF_PATH \<in> field_set u then url_part url u UF_PATH else Some ''/'') = Some t"
  by (auto simp: request_parts_def bind_Some_conv Let_def split: if_splits)

subsection \<open>What connecting reports\<close>

lemma host_buffer_exact:
  assumes "c_string name"
  shows "(write_block (replicate 256 NUL) 0 name \<bind> c_str) = (if length name < 256 then Some name else None)"
proof -
  have "c_str (name @ replicate (256 - length name) NUL) = Some name" if short: "length name < 256"
  proof -
    obtain k where "256 - length name = Suc k"
      using short by (cases "256 - length name") auto
    then show ?thesis
      using c_str_append [OF assms] by simp
  qed
  moreover have "c_str name = None"
    using assms by (simp add: c_str_def c_string_def)
  ultimately show ?thesis
    by (auto simp: write_block_def)
qed

lemma http_connect_host_short:
  assumes "UF_HOST \<in> field_set u" "UF_SCHEMA \<notin> field_set u" "url_part url u UF_HOST = Some name" "c_string name" "length name < 256"
  shows "http_connect_host E s url u =
    connect_resolved E (resolve_host E s name) (if UF_PORT \<in> field_set u then of_int (atol (drop (unat (off u UF_PORT)) url)) else 80)"
proof -
  obtain b where "write_block (replicate 256 NUL) 0 name = Some b" "c_str b = Some name"
    using host_buffer_exact [OF assms(4)] assms(5) by (auto simp: bind_Some_conv)
  then show ?thesis
    using assms by (simp add: http_connect_host_def)
qed

lemma open_connection_in_progress:
  "open_connection E s sin = Some (ERR_OK, s') \<Longrightarrow> \<exists>k e. env_connect E k sin = Error e \<and> e \<in> {EINPROGRESS, EWOULDBLOCK, EALREADY}"
  using connect_loop_in_progress
  by (fastforce simp: open_connection_def socket_noblocking_def Let_def split: if_splits)

lemma connect_resolved_in_progress:
  "connect_resolved E found port_no = Some (ERR_OK, s') \<Longrightarrow> \<exists>k sin e. env_connect E k sin = Error e \<and> e \<in> {EINPROGRESS, EWOULDBLOCK, EALREADY}"
  using open_connection_in_progress unfolding connect_resolved_def
  by (cases found; cases "fst found"; simp; blast)

text \<open>
  C13: A connection made at once is never reported as made: \<open>http_connect_host\<close> returns \<open>ERR_OK\<close> only when some
  \<open>connect\<close> failed with a code that says it is in progress.  A \<open>connect\<close> that succeeds is repeated, until
  the system refuses to connect the same socket again.
\<close>

theorem connect_ok_was_in_progress:
  assumes "http_connect_host E s url u = Some (ERR_OK, s')"
  shows "\<exists>k sin e. env_connect E k sin = Error e \<and> e \<in> {EINPROGRESS, EWOULDBLOCK, EALREADY}"
proof (rule ccontr)
  assume "\<not> ?thesis"
  then have "connect_resolved E found port_no \<noteq> Some (ERR_OK, s')" for found port_no
    using connect_resolved_in_progress by blast
  then show False
    using assms by (auto simp: http_connect_host_def Let_def bind_Some_conv split: if_splits)
qed

theorem connect_ok_was_in_progress_witness:
  "\<exists>k sin e. env_connect quiet_env k sin = Error e \<and> e \<in> {EINPROGRESS, EWOULDBLOCK, EALREADY}"
proof -
  have "\<exists>s'. connect_resolved quiet_env (resolve_host quiet_env (zero_client\<lparr>cl_timeout := 1000\<rparr>) ''h'') 80 = Some (ERR_OK, s')"
    by (simp add: connect_resolved_def resolve_host_def open_connection_def close_socket_def socket_noblocking_def
        quiet_env_def zero_client_def connect_loop.simps socket_select_def select_loop.simps INADDR_NONE_def ord_def)
  then have "\<exists>s'. http_connect_host quiet_env (zero_client\<lparr>cl_timeout := 1000\<rparr>) ''h''
      \<lparr>field_set = {UF_HOST}, port = 0, off = (\<lambda>_. 0), len = (\<lambda>_. 1)\<rparr> = Some (ERR_OK, s')"
    by (simp add: http_connect_host_short url_part_def)
  then show ?thesis
    using connect_ok_was_in_progress by blast
qed

lemma connected_again:
  assumes "env_connect E (calls s) sin = Reply ()" "env_connect E (calls s + 1) sin = Error Other_Error"
  shows "\<exists>s'. connect_loop E s sin = Some (ERR_SOCKET_CONNECT, s')"
  using assms by (subst connect_loop.simps, simp, subst connect_loop.simps, simp)

text \<open>
  The host of a URL is copied into a buffer of 256 bytes without a check: a host of 256 characters or more
  runs past it, or leaves it without a terminator for the resolver to read past.
\<close>

theorem long_host_overflows:
  assumes "UF_HOST \<in> field_set u" "UF_SCHEMA \<in> field_set u \<longrightarrow> same_name ''http://'' (take 7 (drop (unat (off u UF_SCHEMA)) url))"
    and "c_string url" "256 \<le> unat (len u UF_HOST)"
  shows "http_connect_host E s url u = None"
proof -
  have "(url_part url u UF_HOST \<bind> (\<lambda>name. write_block (replicate 256 NUL) 0 name \<bind> c_str)) = None"
  proof (cases "url_part url u UF_HOST")
    case (Some name)
    then have name: "name = take (unat (len u UF_HOST)) (drop (unat (off u UF_HOST)) url)" "length name = unat (len u UF_HOST)"
      by (auto simp: url_part_def split: if_splits)
    have "c_string name"
      using assms(3) name(1) by (auto simp: c_string_def dest: in_set_takeD in_set_dropD)
    then show ?thesis
      using Some host_buffer_exact [of name] name(2) assms(4) by simp
  qed simp
  then show ?thesis
    using assms(1,2) by (cases "url_part url u UF_HOST")
      (auto simp: http_connect_host_def Let_def bind_eq_None_conv)
qed

theorem long_host_overflows_witness:
  "http_connect_host quiet_env zero_client (''http://'' @ replicate 256 CHR ''a'')
    \<lparr>field_set = {UF_SCHEMA, UF_HOST}, port = 0, off = (\<lambda>f. if f = UF_HOST then 7 else 0), len = (\<lambda>f. 256)\<rparr> = None"
  by (rule long_host_overflows) (simp_all add: same_name_def c_string_def)

subsection \<open>The code of a request\<close>

lemma end_request_code: "end_request s = Some rs \<Longrightarrow> cl_error_code (snd rs) = fst rs"
  by (auto simp: end_request_def Let_def bind_Some_conv split: option.splits if_splits)

text \<open>
  The code a request returns is the one it leaves in the client, after any number of redirects.
\<close>

theorem request_code_stored:
  assumes "http_internal_sync_request E s url post user_header = Some rs"
  shows "cl_error_code (snd rs) = fst rs"
  using assms
proof (induction rule: http_internal_sync_request.raw_induct [rotated, consumes 1, case_names step])
  case (step request E s url post user_header y)
  then show ?case
    by (auto simp: bind_Some_conv with_code_def end_request_code split: option.splits if_splits)
qed

end
