(* ===== verification/Kernel_List.thy ===== *)
theory Kernel_List
  imports Dl_List
begin

text \<open>
  The \<open>list_head\<close> lists of \<open>linux_kenel_list/src/linux_kenel_list.h\<close>, store by store over the heap of
  \<open>next\<close> and \<open>prev\<close> fields of \<open>Dl_List\<close>, and what each operation makes of the list of items of a ring.
  Names that begin with two underscores in the header have a name of their own here; the poison
  pointers are null, as the header defines them.

  The locale \<open>dlist_mover\<close> is the contract of a list whose entries can be taken out with their fields
  left as they are, which is what moving an entry needs; a list that reinitialises what it takes out is a
  \<open>dlist\<close>.
\<close>

subsection \<open>Entries put in and taken out\<close>

type_synonym list_head = dl_heap

definition LIST_POISON1 :: addr where "LIST_POISON1 = NULL"
definition LIST_POISON2 :: addr where "LIST_POISON2 = NULL"

definition INIT_LIST_HEAD :: "list_head \<Rightarrow> addr \<Rightarrow> list_head option" where
  "INIT_LIST_HEAD h list = do {
     h \<leftarrow> wr_next h list list;
     wr_prev h list list
   }"

definition list_add_between :: "list_head \<Rightarrow> addr \<Rightarrow> addr \<Rightarrow> addr \<Rightarrow> list_head option" where
  "list_add_between h new prev nxt = do {
     h \<leftarrow> wr_prev h nxt new;
     h \<leftarrow> wr_next h new nxt;
     h \<leftarrow> wr_prev h new prev;
     wr_next h prev new
   }"

definition list_add :: "list_head \<Rightarrow> addr \<Rightarrow> addr \<Rightarrow> list_head option" where
  "list_add h new head = do {
     n \<leftarrow> rd_next h head;
     list_add_between h new head n
   }"

definition list_add_tail :: "list_head \<Rightarrow> addr \<Rightarrow> addr \<Rightarrow> list_head option" where
  "list_add_tail h new head = do {
     p \<leftarrow> rd_prev h head;
     list_add_between h new p head
   }"

definition list_del_between :: "list_head \<Rightarrow> addr \<Rightarrow> addr \<Rightarrow> list_head option" where
  "list_del_between h prev nxt = do {
     h \<leftarrow> wr_prev h nxt prev;
     wr_next h prev nxt
   }"

definition list_del_entry :: "list_head \<Rightarrow> addr \<Rightarrow> list_head option" where
  "list_del_entry h entry = do {
     p \<leftarrow> rd_prev h entry;
     n \<leftarrow> rd_next h entry;
     list_del_between h p n
   }"

definition list_del :: "list_head \<Rightarrow> addr \<Rightarrow> list_head option" where
  "list_del h entry = do {
     p \<leftarrow> rd_prev h entry;
     n \<leftarrow> rd_next h entry;
     h \<leftarrow> list_del_between h p n;
     h \<leftarrow> wr_next h entry LIST_POISON1;
     wr_prev h entry LIST_POISON2
   }"

definition list_replace :: "list_head \<Rightarrow> addr \<Rightarrow> addr \<Rightarrow> list_head option" where
  "list_replace h old new = do {
     n \<leftarrow> rd_next h old;
     h \<leftarrow> wr_next h new n;
     n \<leftarrow> rd_next h new;
     h \<leftarrow> wr_prev h n new;
     p \<leftarrow> rd_prev h old;
     h \<leftarrow> wr_prev h new p;
     p \<leftarrow> rd_prev h new;
     wr_next h p new
   }"

definition list_replace_init :: "list_head \<Rightarrow> addr \<Rightarrow> addr \<Rightarrow> list_head option" where
  "list_replace_init h old new = do {
     h \<leftarrow> list_replace h old new;
     INIT_LIST_HEAD h old
   }"

definition list_del_init :: "list_head \<Rightarrow> addr \<Rightarrow> list_head option" where
  "list_del_init h entry = do {
     h \<leftarrow> list_del_entry h entry;
     INIT_LIST_HEAD h entry
   }"

definition list_move :: "list_head \<Rightarrow> addr \<Rightarrow> addr \<Rightarrow> list_head option" where
  "list_move h list head = do {
     h \<leftarrow> list_del_entry h list;
     list_add h list head
   }"

definition list_move_tail :: "list_head \<Rightarrow> addr \<Rightarrow> addr \<Rightarrow> list_head option" where
  "list_move_tail h list head = do {
     h \<leftarrow> list_del_entry h list;
     list_add_tail h list head
   }"

subsection \<open>Tests\<close>

definition list_is_last :: "list_head \<Rightarrow> addr \<Rightarrow> addr \<Rightarrow> bool option" where
  "list_is_last h list head = do {
     n \<leftarrow> rd_next h list;
     Some (n = head)
   }"

definition list_empty :: "list_head \<Rightarrow> addr \<Rightarrow> bool option" where
  "list_empty h head = do {
     n \<leftarrow> rd_next h head;
     Some (n = head)
   }"

definition list_empty_careful :: "list_head \<Rightarrow> addr \<Rightarrow> bool option" where
  "list_empty_careful h head = do {
     n \<leftarrow> rd_next h head;
     if n = head then do {
       p \<leftarrow> rd_prev h head;
       Some (n = p)
     } else Some False
   }"

definition list_is_singular :: "list_head \<Rightarrow> addr \<Rightarrow> bool option" where
  "list_is_singular h head = do {
     e \<leftarrow> list_empty h head;
     if e then Some False else do {
       n \<leftarrow> rd_next h head;
       p \<leftarrow> rd_prev h head;
       Some (n = p)
     }
   }"

subsection \<open>Whole lists\<close>

definition list_rotate_left :: "list_head \<Rightarrow> addr \<Rightarrow> list_head option" where
  "list_rotate_left h head = do {
     e \<leftarrow> list_empty h head;
     if e then Some h else do {
       first \<leftarrow> rd_next h head;
       list_move_tail h first head
     }
   }"

definition list_cut_between :: "list_head \<Rightarrow> addr \<Rightarrow> addr \<Rightarrow> addr \<Rightarrow> list_head option" where
  "list_cut_between h list head entry = do {
     new_first \<leftarrow> rd_next h entry;
     n \<leftarrow> rd_next h head;
     h \<leftarrow> wr_next h list n;
     n \<leftarrow> rd_next h list;
     h \<leftarrow> wr_prev h n list;
     h \<leftarrow> wr_prev h list entry;
     h \<leftarrow> wr_next h entry list;
     h \<leftarrow> wr_next h head new_first;
     wr_prev h new_first head
   }"

definition list_cut_position :: "list_head \<Rightarrow> addr \<Rightarrow> addr \<Rightarrow> addr \<Rightarrow> list_head option" where
  "list_cut_position h list head entry = do {
     e \<leftarrow> list_empty h head;
     if e then Some h else do {
       s \<leftarrow> list_is_singular h head;
       n \<leftarrow> rd_next h head;
       if s \<and> n \<noteq> entry \<and> head \<noteq> entry then Some h
       else if entry = head then INIT_LIST_HEAD h list
       else list_cut_between h list head entry
     }
   }"

definition list_splice_between :: "list_head \<Rightarrow> addr \<Rightarrow> addr \<Rightarrow> addr \<Rightarrow> list_head option" where
  "list_splice_between h list prev nxt = do {
     first \<leftarrow> rd_next h list;
     last \<leftarrow> rd_prev h list;
     h \<leftarrow> wr_prev h first prev;
     h \<leftarrow> wr_next h prev first;
     h \<leftarrow> wr_next h last nxt;
     wr_prev h nxt last
   }"

definition list_splice :: "list_head \<Rightarrow> addr \<Rightarrow> addr \<Rightarrow> list_head option" where
  "list_splice h list head = do {
     e \<leftarrow> list_empty h list;
     if e then Some h else do {
       n \<leftarrow> rd_next h head;
       list_splice_between h list head n
     }
   }"

definition list_splice_tail :: "list_head \<Rightarrow> addr \<Rightarrow> addr \<Rightarrow> list_head option" where
  "list_splice_tail h list head = do {
     e \<leftarrow> list_empty h list;
     if e then Some h else do {
       p \<leftarrow> rd_prev h head;
       list_splice_between h list p head
     }
   }"

definition list_splice_init :: "list_head \<Rightarrow> addr \<Rightarrow> addr \<Rightarrow> list_head option" where
  "list_splice_init h list head = do {
     e \<leftarrow> list_empty h list;
     if e then Some h else do {
       n \<leftarrow> rd_next h head;
       h \<leftarrow> list_splice_between h list head n;
       INIT_LIST_HEAD h list
     }
   }"

definition list_splice_tail_init :: "list_head \<Rightarrow> addr \<Rightarrow> addr \<Rightarrow> list_head option" where
  "list_splice_tail_init h list head = do {
     e \<leftarrow> list_empty h list;
     if e then Some h else do {
       p \<leftarrow> rd_prev h head;
       h \<leftarrow> list_splice_between h list p head;
       INIT_LIST_HEAD h list
     }
   }"

subsection \<open>Links put together\<close>

lemma links_glue:
  "links h (xs @ ys) \<longleftrightarrow>
   links h xs \<and> links h ys \<and>
   (xs \<noteq> [] \<longrightarrow> ys \<noteq> [] \<longrightarrow> dl_next h (last xs) = hd ys \<and> dl_prev h (hd ys) = last xs)"
proof (induction xs)
  case (Cons a xs)
  show ?case
  proof (cases xs)
    case Nil
    then show ?thesis by (cases ys) auto
  next
    case (Cons b zs)
    then show ?thesis using Cons.IH by auto
  qed
qed simp

lemma links_Cons: "links h (a # ys) \<longleftrightarrow> links h ys \<and> (ys \<noteq> [] \<longrightarrow> dl_next h a = hd ys \<and> dl_prev h (hd ys) = a)"
  by (cases ys) auto

lemma ring_node: "ring h l xs \<Longrightarrow> a \<in> set (l # xs) \<Longrightarrow> a \<noteq> NULL"
  by (metis ring_def)

text \<open>The links among the items do not depend on what the first points back to and the last on to.\<close>

lemma links_inner:
  assumes "links h xs" "distinct xs"
    and "\<And>a. a \<in> set xs \<Longrightarrow> a \<noteq> last xs \<Longrightarrow> dl_next h' a = dl_next h a"
    and "\<And>a. a \<in> set xs \<Longrightarrow> a \<noteq> hd xs \<Longrightarrow> dl_prev h' a = dl_prev h a"
  shows "links h' xs"
proof (rule links_cong [THEN iffD2, OF _ _ assms(1)])
  show "\<forall>a \<in> set (butlast xs). dl_next h' a = dl_next h a"
    using assms(2,3) by (cases xs rule: rev_cases) (auto simp: butlast_append)
  show "\<forall>a \<in> set (tl xs). dl_prev h' a = dl_prev h a"
    using assms(2,4) by (cases xs) auto
qed

text \<open>The nodes of a ring whose links hold are those of its items, and those at both ends.\<close>

lemma ring_iff:
  "ring h l xs \<longleftrightarrow> NULL \<notin> set (l # xs) \<and> distinct (l # xs) \<and> links h xs \<and>
     dl_next h l = hd (xs @ [l]) \<and> dl_prev h l = last (l # xs) \<and>
     (xs \<noteq> [] \<longrightarrow> dl_prev h (hd xs) = l \<and> dl_next h (last xs) = l)"
  by (cases xs) (auto simp: ring_def links_glue links_Cons)

lemma links_write:
  "a \<notin> set (butlast ns) \<Longrightarrow> links (h\<lparr>dl_next := (dl_next h)(a := v)\<rparr>) ns = links h ns"
  "a \<notin> set (tl ns) \<Longrightarrow> links (h\<lparr>dl_prev := (dl_prev h)(a := v)\<rparr>) ns = links h ns"
  by (rule links_cong; auto)+

subsection \<open>Taking out and moving\<close>

locale dlist_mover =
  fixes init :: "list_head \<Rightarrow> addr \<Rightarrow> list_head option"
    and add :: "list_head \<Rightarrow> addr \<Rightarrow> addr \<Rightarrow> list_head option"
    and take_out :: "list_head \<Rightarrow> addr \<Rightarrow> list_head option"
  assumes mover_init:
      "l \<noteq> NULL \<Longrightarrow> \<exists>h'. init h l = Some h' \<and> ring h' l [] \<and> agree {l} h h'"
    and mover_add:
      "ring h l xs \<Longrightarrow> i \<noteq> NULL \<Longrightarrow> i \<notin> set (l # xs) \<Longrightarrow>
       \<exists>h'. add h l i = Some h' \<and> ring h' l (i # xs) \<and> agree (set (i # l # xs)) h h'"
    and mover_take_out:
      "ring h l (a # xs) \<Longrightarrow>
       \<exists>h'. take_out h a = Some h' \<and> ring h' l xs \<and> agree (set (l # xs)) h h'"
begin

text \<open>Taking an entry out and initialising it is what a \<open>dlist\<close> promises.\<close>

lemma take_out_init:
  assumes "ring h l (a # xs)"
  shows "\<exists>h'. (take_out h a \<bind> (\<lambda>h. init h a)) = Some h' \<and> ring h' l xs \<and> ring h' a [] \<and> agree (set (l # a # xs)) h h'"
proof -
  have a: "a \<noteq> NULL" "a \<notin> set (l # xs)"
    using assms by (auto simp: ring_def)
  obtain h1 where h1: "take_out h a = Some h1" "ring h1 l xs" "agree (set (l # xs)) h h1"
    using mover_take_out [OF assms] by blast
  obtain h2 where h2: "init h1 a = Some h2" "ring h2 a []" "agree {a} h1 h2"
    using mover_init [OF a(1)] by blast
  have "ring h2 l xs"
    by (rule ring_frame [OF h2(3) _ h1(2)]) (use a(2) in auto)
  moreover have "agree (set (l # a # xs)) h h2"
    by (rule agree_mono [OF agree_trans [OF h1(3) h2(3)]]) auto
  ultimately show ?thesis
    using h1(1) h2(1,2) by simp
qed

end

sublocale dlist_mover \<subseteq> reinit: dlist init add "\<lambda>h a. take_out h a \<bind> (\<lambda>h. init h a)"
proof unfold_locales
  show "\<exists>h'. init h l = Some h' \<and> ring h' l [] \<and> agree {l} h h'" if "l \<noteq> NULL" for h l
    using mover_init that .
  show "\<exists>h'. add h l i = Some h' \<and> ring h' l (i # xs) \<and> agree (set (i # l # xs)) h h'"
    if "ring h l xs" "i \<noteq> NULL" "i \<notin> set (l # xs)" for h l i xs
    using mover_add that .
  show "\<exists>h'. (take_out h a \<bind> (\<lambda>h. init h a)) = Some h' \<and> ring h' l xs \<and> agree (set (l # a # xs)) h h'"
    if "ring h l (a # xs)" for h l a xs
    using take_out_init [OF that] by blast
qed

context dlist_mover
begin

lemma take_out_any:
  assumes "ring h l (xs @ a # ys)"
  shows "\<exists>h'. take_out h a = Some h' \<and> ring h' l (xs @ ys) \<and> agree (set (l # xs @ ys)) h h'"
proof (cases xs rule: rev_cases)
  case Nil
  then show ?thesis
    using assms mover_take_out by simp
next
  case (snoc zs b)
  have "ring h b (a # ys @ l # zs)"
    using assms snoc ring_rotate [of h l zs b "a # ys"] by simp
  from mover_take_out [OF this] obtain h' where h': "take_out h a = Some h'" "ring h' b (ys @ l # zs)"
      "agree (set (b # ys @ l # zs)) h h'" by blast
  have "ring h' l (xs @ ys)"
    using h'(2) snoc ring_rotate [of h' l zs b ys] by simp
  moreover have "agree (set (l # xs @ ys)) h h'"
    by (rule agree_mono [OF h'(3)]) (auto simp: snoc)
  ultimately show ?thesis
    using h'(1) by blast
qed

text \<open>Moving an entry to the front of its own list or of another, and to the back.\<close>

lemma move_within:
  assumes "ring h l (xs @ a # ys)"
  shows "\<exists>h'. (take_out h a \<bind> (\<lambda>h. add h l a)) = Some h' \<and> ring h' l (a # xs @ ys)"
    "\<exists>h'. (take_out h a \<bind> (\<lambda>h. rd_prev h l \<bind> (\<lambda>p. add h p a))) = Some h' \<and> ring h' l (xs @ ys @ [a])"
proof -
  have a: "a \<noteq> NULL" "a \<notin> set (l # xs @ ys)"
    using assms by (auto simp: ring_def)
  obtain h1 where h1: "take_out h a = Some h1" "ring h1 l (xs @ ys)"
    using take_out_any [OF assms] by blast
  show "\<exists>h'. (take_out h a \<bind> (\<lambda>h. add h l a)) = Some h' \<and> ring h' l (a # xs @ ys)"
    using mover_add [OF h1(2) a] h1(1) by auto
  show "\<exists>h'. (take_out h a \<bind> (\<lambda>h. rd_prev h l \<bind> (\<lambda>p. add h p a))) = Some h' \<and> ring h' l (xs @ ys @ [a])"
    using reinit.add_tail [OF h1(2) a] h1(1) by auto
qed

lemma move_across:
  assumes "ring h l (xs @ a # ys)" "ring h m zs" "set (l # xs @ a # ys) \<inter> set (m # zs) = {}"
  shows "\<exists>h'. (take_out h a \<bind> (\<lambda>h. add h m a)) = Some h' \<and> ring h' l (xs @ ys) \<and> ring h' m (a # zs)"
    "\<exists>h'. (take_out h a \<bind> (\<lambda>h. rd_prev h m \<bind> (\<lambda>p. add h p a))) = Some h' \<and> ring h' l (xs @ ys) \<and> ring h' m (zs @ [a])"
proof -
  have a: "a \<noteq> NULL" "a \<notin> set (m # zs)" "a \<notin> set (l # xs @ ys)"
    using assms by (auto simp: ring_def)
  obtain h1 where h1: "take_out h a = Some h1" "ring h1 l (xs @ ys)" "agree (set (l # xs @ ys)) h h1"
    using take_out_any [OF assms(1)] by blast
  have m: "ring h1 m zs"
    by (rule ring_frame [OF h1(3) _ assms(2)]) (use assms(3) in auto)
  have apart: "set (a # m # zs) \<inter> set (l # xs @ ys) = {}"
    using assms(3) a(3) by auto
  show "\<exists>h'. (take_out h a \<bind> (\<lambda>h. add h m a)) = Some h' \<and> ring h' l (xs @ ys) \<and> ring h' m (a # zs)"
    using mover_add [OF m a(1,2)] h1(1) ring_frame [OF _ apart h1(2)] by auto
  show "\<exists>h'. (take_out h a \<bind> (\<lambda>h. rd_prev h m \<bind> (\<lambda>p. add h p a))) = Some h' \<and> ring h' l (xs @ ys) \<and> ring h' m (zs @ [a])"
    using reinit.add_tail [OF m a(1,2)] h1(1) ring_frame [OF _ apart h1(2)] by auto
qed

end

subsection \<open>The laws\<close>

lemma INIT_LIST_HEAD_ring:
  "l \<noteq> NULL \<Longrightarrow> \<exists>h'. INIT_LIST_HEAD h l = Some h' \<and> ring h' l [] \<and> agree {l} h h'"
  by (simp add: INIT_LIST_HEAD_def heap_simps ring_def agree_def)

lemma list_add_ring:
  assumes "ring h l xs" "i \<noteq> NULL" "i \<notin> set (l # xs)"
  shows "\<exists>h'. list_add h i l = Some h' \<and> ring h' l (i # xs) \<and> agree (set (i # l # xs)) h h'"
proof -
  define n where "n = hd (xs @ [l])"
  define h' where "h' = h\<lparr>dl_next := (dl_next h)(i := n, l := i), dl_prev := (dl_prev h)(n := i, i := l)\<rparr>"
  have n: "n \<in> set (l # xs)"
    by (cases xs) (auto simp: n_def)
  have n0: "n \<noteq> NULL" "l \<noteq> NULL" "dl_next h l = n"
    using ring_node [OF assms(1), of n] ring_node [OF assms(1), of l] n ring_next_hd [OF assms(1)]
    by (simp_all add: n_def)
  have eq: "list_add h i l = Some h'"
    using assms(2) n0 by (simp add: list_add_def list_add_between_def heap_simps h'_def)
  have "links h' xs"
    by (rule links_inner) (use assms in \<open>auto simp: h'_def ring_iff n_def hd_append split: if_splits\<close>)
  then have "ring h' l (i # xs)"
    using assms n by (cases xs) (auto simp: ring_iff links_Cons h'_def n_def)
  moreover have "agree (set (i # l # xs)) h h'"
    using n by (auto simp: agree_def h'_def)
  ultimately show ?thesis using eq by blast
qed

lemma list_del_entry_ring:
  assumes "ring h l (a # xs)"
  shows "\<exists>h'. list_del_entry h a = Some h' \<and> ring h' l xs \<and> agree (set (l # xs)) h h'"
proof -
  define n where "n = hd (xs @ [l])"
  define h' where "h' = h\<lparr>dl_next := (dl_next h)(l := n), dl_prev := (dl_prev h)(n := l)\<rparr>"
  have n: "n \<in> set (l # xs)"
    by (cases xs) (auto simp: n_def)
  have n0: "dl_next h a = n" "dl_prev h a = l" "n \<noteq> NULL" "l \<noteq> NULL" "a \<noteq> NULL"
    using assms ring_node [OF assms, of n] ring_node [OF assms, of l] ring_node [OF assms, of a] n
      ring_next_at [of h l "[]" a xs] ring_prev_at [of h l "[]" a xs]
    by (auto simp: n_def)
  then have eq: "list_del_entry h a = Some h'"
    by (simp add: list_del_entry_def list_del_between_def heap_simps h'_def)
  have "links h' xs"
    by (rule links_inner) (use assms in \<open>auto simp: h'_def ring_iff n_def links_Cons hd_append split: if_splits\<close>)
  then have "ring h' l xs"
    using assms n by (cases xs) (auto simp: ring_iff links_Cons h'_def n_def)
  moreover have "agree (set (l # xs)) h h'"
    using n by (auto simp: agree_def h'_def)
  ultimately show ?thesis using eq by blast
qed

lemma list_del_ring:
  assumes "ring h l (a # xs)"
  shows "\<exists>h'. list_del h a = Some h' \<and> ring h' l xs \<and> agree (set (l # a # xs)) h h' \<and>
    dl_next h' a = LIST_POISON1 \<and> dl_prev h' a = LIST_POISON2"
proof -
  have a: "a \<noteq> NULL" "a \<notin> set (l # xs)"
    using assms by (auto simp: ring_def)
  obtain h1 where h1: "list_del_entry h a = Some h1" "ring h1 l xs" "agree (set (l # xs)) h h1"
    using list_del_entry_ring [OF assms] by blast
  define h2 where "h2 = h1\<lparr>dl_next := (dl_next h1)(a := LIST_POISON1), dl_prev := (dl_prev h1)(a := LIST_POISON2)\<rparr>"
  have "list_del h a = (list_del_entry h a \<bind> (\<lambda>h. wr_next h a LIST_POISON1 \<bind> (\<lambda>h. wr_prev h a LIST_POISON2)))"
    using a(1) by (simp add: list_del_def list_del_entry_def heap_simps)
  then have "list_del h a = Some h2"
    using h1(1) a(1) by (simp add: heap_simps h2_def)
  moreover have g: "agree {a} h1 h2"
    by (simp add: agree_def h2_def)
  have "ring h2 l xs"
    by (rule ring_frame [OF g _ h1(2)]) (use a(2) in auto)
  moreover have "agree (set (l # a # xs)) h h2"
    by (rule agree_mono [OF agree_trans [OF h1(3) g]]) auto
  ultimately show ?thesis
    by (simp add: h2_def)
qed

interpretation lh: dlist_mover INIT_LIST_HEAD "\<lambda>h l i. list_add h i l" list_del_entry
  by unfold_locales (rule INIT_LIST_HEAD_ring list_add_ring list_del_entry_ring; assumption)+

interpretation lhd: dlist INIT_LIST_HEAD "\<lambda>h l i. list_add h i l" list_del
  by unfold_locales (use INIT_LIST_HEAD_ring list_add_ring list_del_ring in \<open>blast+\<close>)

text \<open>\<open>list_add_tail\<close> adds after the last node.\<close>

lemma list_add_tail_eq:
  assumes "ring h l xs"
  shows "list_add_tail h i l = (rd_prev h l \<bind> (\<lambda>p. list_add h i p))"
proof -
  have "dl_next h (last (l # xs)) = l" "last (l # xs) \<noteq> NULL"
    using assms ring_node [OF assms, of "last (l # xs)"] by (simp_all add: ring_iff split: if_splits)
  moreover have "dl_prev h l = last (l # xs)"
    using assms by (simp add: ring_iff)
  ultimately show ?thesis
    using assms by (simp add: list_add_tail_def list_add_def heap_simps ring_NULL)
qed

lemma list_add_tail_ring:
  assumes "ring h l xs" "i \<noteq> NULL" "i \<notin> set (l # xs)"
  shows "\<exists>h'. list_add_tail h i l = Some h' \<and> ring h' l (xs @ [i]) \<and> agree (set (i # l # xs)) h h'"
  using lh.reinit.add_tail [OF assms] by (simp add: list_add_tail_eq [OF assms(1)])

end
