(* ===== verification/Kernel_Splice.thy ===== *)
theory Kernel_Splice
  imports Kernel_List
begin

text \<open>
  What the operations of \<open>linux_kenel_list.h\<close> on whole lists make of the lists of items: replacing a node
  or a head, splicing one list into another at the front or the back, cutting a list in two, rotating it,
  and the tests.
\<close>

subsection \<open>Replacing, splicing and cutting\<close>

lemma list_replace_ring:
  assumes "ring h old xs" "new \<noteq> NULL" "new \<notin> set (old # xs)"
  shows "\<exists>h'. list_replace h old new = Some h' \<and> ring h' new xs \<and> agree (set (old # new # xs)) h h'"
proof -
  define n where "n = hd (xs @ [old])"
  define p where "p = (if xs = [] then new else last xs)"
  define h' where "h' = h\<lparr>dl_next := (dl_next h)(new := n, p := new),
    dl_prev := (dl_prev h)(n := new, new := p)\<rparr>"
  have n: "n \<in> set (old # xs)" and p: "p \<in> set (new # xs)"
    by (auto simp: n_def p_def hd_append)
  have n0: "n \<noteq> NULL" "old \<noteq> NULL" "p \<noteq> NULL" "dl_next h old = n" "new \<noteq> n" "new \<noteq> old"
    using assms ring_node [OF assms(1), of n] ring_node [OF assms(1), of old] ring_node [OF assms(1), of p] n p
      ring_next_hd [OF assms(1)] by (auto simp: n_def)
  have "(if n = old then new else dl_prev h old) = p"
    using assms(1) by (auto simp: ring_iff n_def p_def hd_append split: if_splits)
  then have eq: "list_replace h old new = Some h'"
    using assms(2) n0 by (auto simp: list_replace_def heap_simps h'_def)
  have "links h' xs"
    by (rule links_inner) (use assms in \<open>auto simp: h'_def ring_iff n_def p_def hd_append split: if_splits\<close>)
  then have "ring h' new xs"
    using assms n0 p by (auto simp: ring_iff links_Cons h'_def n_def p_def hd_append split: if_splits)
  moreover have "agree (set (old # new # xs)) h h'"
    using n p by (auto simp: agree_def h'_def)
  ultimately show ?thesis using eq by blast
qed

lemma list_replace_at:
  assumes "ring h l (xs @ old # ys)" "new \<noteq> NULL" "new \<notin> set (l # xs @ old # ys)"
  shows "\<exists>h'. list_replace h old new = Some h' \<and> ring h' l (xs @ new # ys)"
proof -
  have "ring h old (ys @ l # xs)"
    using assms(1) by (simp add: ring_rotate)
  from list_replace_ring [OF this assms(2)] assms(3) show ?thesis
    by (auto simp: ring_rotate)
qed

lemma list_splice_between_ring:
  assumes "ring h l xs" "xs \<noteq> []" "ring h m ys" "set (l # xs) \<inter> set (m # ys) = {}"
  shows "\<exists>h'. list_splice_between h l m (hd (ys @ [m])) = Some h' \<and> ring h' m (xs @ ys) \<and>
    agree (set (m # xs @ ys)) h h'"
proof -
  define n where "n = hd (ys @ [m])"
  define h' where "h' = h\<lparr>dl_next := (dl_next h)(m := hd xs, last xs := n),
    dl_prev := (dl_prev h)(hd xs := m, n := last xs)\<rparr>"
  have n: "n \<in> set (m # ys)"
    by (auto simp: n_def hd_append)
  have nodes: "n \<noteq> NULL" "l \<noteq> NULL" "m \<noteq> NULL" "hd xs \<noteq> NULL" "last xs \<noteq> NULL"
    using assms(2) n ring_node [OF assms(3), of n] ring_node [OF assms(1), of l] ring_node [OF assms(3), of m]
      ring_node [OF assms(1), of "hd xs"] ring_node [OF assms(1), of "last xs"] by auto
  have "dl_next h l = hd xs" "dl_prev h l = last xs"
    using assms(1,2) by (simp_all add: ring_iff)
  then have eq: "list_splice_between h l m n = Some h'"
    using nodes by (simp add: list_splice_between_def heap_simps h'_def)
  have ends: "hd xs \<in> set xs" "last xs \<in> set xs"
    using assms(2) by auto
  then have "hd xs \<notin> set ys" "last xs \<notin> set ys"
    using assms(4) by auto
  note ends = ends this
  have "links h' xs"
    by (rule links_inner) (use assms n in \<open>auto simp: h'_def ring_iff\<close>)
  moreover have "links h' ys"
    by (rule links_inner) (use assms ends in \<open>auto simp: h'_def ring_iff n_def hd_append split: if_splits\<close>)
  ultimately have "ring h' m (xs @ ys)"
    using assms nodes ends by (auto simp: ring_iff links_glue h'_def n_def hd_append split: if_splits)
  moreover have "agree (set (m # xs @ ys)) h h'"
    using n assms(2) by (auto simp: agree_def h'_def)
  ultimately show ?thesis using eq n_def by blast
qed

lemma list_cut_between_ring:
  assumes "ring h m (xs @ ys)" "xs \<noteq> []" "l \<noteq> NULL" "l \<notin> set (m # xs @ ys)"
  shows "\<exists>h'. list_cut_between h l m (last xs) = Some h' \<and> ring h' l xs \<and> ring h' m ys \<and>
    agree (set (l # m # xs @ ys)) h h'"
proof -
  define n where "n = hd (ys @ [m])"
  define h' where "h' = h\<lparr>dl_next := (dl_next h)(l := hd xs, last xs := l, m := n),
    dl_prev := (dl_prev h)(hd xs := l, l := last xs, n := m)\<rparr>"
  have n: "n \<in> set (m # ys)"
    by (auto simp: n_def hd_append)
  have nodes: "n \<noteq> NULL" "m \<noteq> NULL" "hd xs \<noteq> NULL" "last xs \<noteq> NULL" "hd xs \<in> set xs" "last xs \<in> set xs"
    using assms(2) n ring_node [OF assms(1), of n] ring_node [OF assms(1), of m]
      ring_node [OF assms(1), of "hd xs"] ring_node [OF assms(1), of "last xs"] by auto
  have at: "dl_next h m = hd xs" "dl_next h (last xs) = n"
    using assms(1,2) by (auto simp: ring_iff links_glue n_def hd_append)
  have "distinct (m # xs @ ys)"
    using assms(1) by (simp add: ring_def)
  then have apart: "last xs \<noteq> l" "l \<noteq> m" "hd xs \<noteq> l" "last xs \<notin> set ys" "hd xs \<notin> set ys" "last xs \<noteq> m" "n \<noteq> l"
    using assms(4) nodes n by auto
  have eq: "list_cut_between h l m (last xs) = Some h'"
    using nodes assms(3) at apart by (simp add: list_cut_between_def heap_simps h'_def)
  have "links h' xs"
    by (rule links_inner) (use assms n in \<open>auto simp: h'_def ring_iff links_glue\<close>)
  then have l: "ring h' l xs"
    using assms nodes n apart by (auto simp: ring_iff h'_def)
  have inner: "links h' ys"
    by (rule links_inner) (use assms nodes apart in \<open>auto simp: h'_def ring_iff links_glue n_def hd_append split: if_splits\<close>)
  have m: "ring h' m ys"
  proof (cases "ys = []")
    case True
    then show ?thesis
      using assms nodes apart by (simp add: ring_iff h'_def n_def)
  next
    case False
    have "dl_prev h m = last ys" "dl_next h (last ys) = m" "last ys \<in> set ys" "m \<notin> set ys" "hd ys \<noteq> l" "last ys \<noteq> l"
      using assms(1,4) False apart last_in_set [OF False] hd_in_set [OF False] by (auto simp: ring_iff)
    moreover from this have "last ys \<noteq> last xs"
      using apart by metis
    ultimately show ?thesis
      using assms(1) inner False nodes apart by (auto simp: ring_iff h'_def n_def)
  qed
  have "agree (set (l # m # xs @ ys)) h h'"
    using n nodes by (auto simp: agree_def h'_def)
  then show ?thesis using eq l m by blast
qed

subsection \<open>The operations on whole lists\<close>

lemma ring_ends:
  assumes "ring h l xs"
  shows "rd_next h l = Some (hd (xs @ [l]))" "rd_prev h l = Some (last (l # xs))"
  using assms ring_next_hd [OF assms] ring_prev [OF assms] by (simp_all add: heap_simps ring_NULL)

lemma list_empty_ring: "ring h l xs \<Longrightarrow> list_empty h l = Some (xs = [])"
  by (cases xs) (auto simp: list_empty_def heap_simps ring_iff)

lemma list_is_last_ring:
  assumes "ring h l (xs @ a # ys)"
  shows "list_is_last h a l = Some (ys = [])"
  using assms ring_node [OF assms, of a] ring_next_at [OF assms]
  by (cases ys) (auto simp: list_is_last_def heap_simps ring_iff)

lemma list_empty_careful_ring: "ring h l xs \<Longrightarrow> list_empty_careful h l = Some (xs = [])"
  by (cases xs) (auto simp: list_empty_careful_def heap_simps ring_iff)

lemma list_is_singular_ring:
  assumes "ring h l xs"
  shows "list_is_singular h l = Some (length xs = 1)"
proof (cases xs)
  case Nil
  then show ?thesis
    using assms by (simp add: list_is_singular_def list_empty_ring)
next
  case (Cons x ys)
  have "x = last (x # ys) \<longleftrightarrow> ys = []"
    using assms Cons by (cases ys rule: rev_cases) (auto simp: ring_def)
  moreover have "rd_next h l = Some x" "rd_prev h l = Some (last (x # ys))"
    using ring_ends [OF assms] Cons by simp_all
  ultimately show ?thesis
    using Cons list_empty_ring [OF assms] by (simp add: list_is_singular_def)
qed

lemma list_splice_ring:
  assumes "ring h l xs" "ring h m ys" "set (l # xs) \<inter> set (m # ys) = {}"
  shows "\<exists>h'. list_splice h l m = Some h' \<and> ring h' m (xs @ ys) \<and> agree (set (m # xs @ ys)) h h'"
proof (cases "xs = []")
  case True
  then show ?thesis
    using assms list_empty_ring [OF assms(1)] by (simp add: list_splice_def)
next
  case False
  have "rd_next h m = Some (hd (ys @ [m]))"
    using ring_ends [OF assms(2)] by simp
  then show ?thesis
    using list_splice_between_ring [OF assms(1) False assms(2,3)] list_empty_ring [OF assms(1)] False
    by (simp add: list_splice_def)
qed

lemma list_splice_tail_between:
  assumes "ring h l xs" "xs \<noteq> []" "ring h m ys" "set (l # xs) \<inter> set (m # ys) = {}"
  shows "\<exists>h'. list_splice_between h l (last (m # ys)) m = Some h' \<and> ring h' m (ys @ xs) \<and>
    agree (set (m # xs @ ys)) h h'"
proof (cases ys rule: rev_cases)
  case Nil
  then show ?thesis
    using list_splice_between_ring [OF assms] by simp
next
  case (snoc zs b)
  have "ring h b (m # zs)"
    using assms(3) snoc ring_rotate [of h m zs b "[]"] by simp
  moreover have "set (l # xs) \<inter> set (b # m # zs) = {}"
    using assms(4) snoc by auto
  ultimately obtain h' where h': "list_splice_between h l b m = Some h'" "ring h' b (xs @ m # zs)"
      "agree (set (b # xs @ m # zs)) h h'"
    using list_splice_between_ring [OF assms(1,2), of b "m # zs"] by auto
  have "ring h' m (ys @ xs)"
    using h'(2) snoc ring_rotate [of h' m zs b xs] by simp
  moreover have "agree (set (m # xs @ ys)) h h'"
    by (rule agree_mono [OF h'(3)]) (auto simp: snoc)
  ultimately show ?thesis
    using h'(1) snoc by auto
qed

lemma list_splice_tail_ring:
  assumes "ring h l xs" "ring h m ys" "set (l # xs) \<inter> set (m # ys) = {}"
  shows "\<exists>h'. list_splice_tail h l m = Some h' \<and> ring h' m (ys @ xs) \<and> agree (set (m # xs @ ys)) h h'"
proof (cases "xs = []")
  case True
  then show ?thesis
    using assms list_empty_ring [OF assms(1)] by (simp add: list_splice_tail_def)
next
  case False
  have "rd_prev h m = Some (last (m # ys))"
    using ring_ends [OF assms(2)] by simp
  then show ?thesis
    using list_splice_tail_between [OF assms(1) False assms(2,3)] list_empty_ring [OF assms(1)] False
    by (simp add: list_splice_tail_def)
qed

text \<open>The emptied list is initialised last; the joined one does not hold its head.\<close>

lemma init_after:
  assumes "ring h m zs" "l \<noteq> NULL" "l \<notin> set (m # zs)"
  shows "\<exists>h'. INIT_LIST_HEAD h l = Some h' \<and> ring h' l [] \<and> ring h' m zs"
  using INIT_LIST_HEAD_ring [OF assms(2), of h] ring_frame [OF _ _ assms(1), of "{l}"] assms(3) by auto

lemma list_splice_init_eq:
  "list_splice_init h l m =
     (list_empty h l \<bind> (\<lambda>e. if e then Some h else list_splice h l m \<bind> (\<lambda>h. INIT_LIST_HEAD h l)))"
  "list_splice_tail_init h l m =
     (list_empty h l \<bind> (\<lambda>e. if e then Some h else list_splice_tail h l m \<bind> (\<lambda>h. INIT_LIST_HEAD h l)))"
  by (cases "list_empty h l"; simp add: list_splice_init_def list_splice_tail_init_def
      list_splice_def list_splice_tail_def)+

lemma list_splice_init_ring:
  assumes "ring h l xs" "ring h m ys" "set (l # xs) \<inter> set (m # ys) = {}"
  shows "\<exists>h'. list_splice_init h l m = Some h' \<and> ring h' m (xs @ ys) \<and> ring h' l []"
    "\<exists>h'. list_splice_tail_init h l m = Some h' \<and> ring h' m (ys @ xs) \<and> ring h' l []"
proof -
  have l: "l \<noteq> NULL" "l \<notin> set (m # xs @ ys)" "l \<notin> set (m # ys @ xs)"
    using assms(3) ring_NULL(1) [OF assms(1)] ring_distinct [OF assms(1)] by auto
  obtain h1 where h1: "list_splice h l m = Some h1" "ring h1 m (xs @ ys)"
    using list_splice_ring [OF assms] by blast
  obtain h2 where h2: "list_splice_tail h l m = Some h2" "ring h2 m (ys @ xs)"
    using list_splice_tail_ring [OF assms] by blast
  show "\<exists>h'. list_splice_init h l m = Some h' \<and> ring h' m (xs @ ys) \<and> ring h' l []"
    using h1 init_after [OF h1(2) l(1,2)] assms list_empty_ring [OF assms(1)]
    by (auto simp: list_splice_init_eq)
  show "\<exists>h'. list_splice_tail_init h l m = Some h' \<and> ring h' m (ys @ xs) \<and> ring h' l []"
    using h2 init_after [OF h2(2) l(1,3)] assms list_empty_ring [OF assms(1)]
    by (auto simp: list_splice_init_eq)
qed

lemma list_cut_position_ring:
  assumes "ring h m (xs @ ys)" "xs \<noteq> []" "l \<noteq> NULL" "l \<notin> set (m # xs @ ys)"
  shows "\<exists>h'. list_cut_position h l m (last xs) = Some h' \<and> ring h' l xs \<and> ring h' m ys"
proof -
  have "last xs \<noteq> m"
    using assms(1) last_in_set [OF assms(2)] by (auto simp: ring_def)
  moreover have "hd (xs @ ys) = last xs" if "length (xs @ ys) = Suc 0"
    using that assms(2) by (cases xs) auto
  moreover have "rd_next h m = Some (hd (xs @ ys))"
    using ring_ends [OF assms(1)] assms(2) by simp
  ultimately have "list_cut_position h l m (last xs) = list_cut_between h l m (last xs)"
    using assms(2) list_empty_ring [OF assms(1)] list_is_singular_ring [OF assms(1)]
    by (auto simp: list_cut_position_def)
  then show ?thesis
    using list_cut_between_ring [OF assms] by auto
qed

text \<open>Cutting at the head leaves the list, and so does an entry that is not on a list of one.\<close>

lemma list_cut_position_guards:
  assumes "ring h m ys"
  shows "l \<noteq> NULL \<Longrightarrow> l \<notin> set (m # ys) \<Longrightarrow> ys \<noteq> [] \<Longrightarrow>
      \<exists>h'. list_cut_position h l m m = Some h' \<and> ring h' l [] \<and> ring h' m ys"
    "ys = [] \<Longrightarrow> list_cut_position h l m e = Some h"
    "ys = [a] \<Longrightarrow> e \<noteq> a \<Longrightarrow> e \<noteq> m \<Longrightarrow> list_cut_position h l m e = Some h"
proof -
  note tests = list_empty_ring [OF assms] list_is_singular_ring [OF assms]
  have n: "rd_next h m = Some (hd (ys @ [m]))"
    using ring_ends [OF assms] by simp
  show "\<exists>h'. list_cut_position h l m m = Some h' \<and> ring h' l [] \<and> ring h' m ys"
    if "l \<noteq> NULL" "l \<notin> set (m # ys)" "ys \<noteq> []"
    using init_after [OF assms that(1,2)] tests n that(3) by (simp add: list_cut_position_def)
  show "list_cut_position h l m e = Some h" if "ys = []"
    using tests that by (simp add: list_cut_position_def)
  show "list_cut_position h l m e = Some h" if "ys = [a]" "e \<noteq> a" "e \<noteq> m"
    using tests n that by (auto simp: list_cut_position_def)
qed

lemma list_rotate_left_ring:
  assumes "ring h l xs"
  shows "\<exists>h'. list_rotate_left h l = Some h' \<and> ring h' l (rotate1 xs)"
proof (cases xs)
  case Nil
  then show ?thesis
    using assms list_empty_ring [OF assms] by (simp add: list_rotate_left_def)
next
  case (Cons a ys)
  obtain h1 where h1: "list_del_entry h a = Some h1" "ring h1 l ys"
    using list_del_entry_ring assms Cons by blast
  have a: "a \<noteq> NULL" "a \<notin> set (l # ys)"
    using assms Cons by (auto simp: ring_def)
  have "rd_next h l = Some a"
    using ring_ends [OF assms] Cons by simp
  then show ?thesis
    using list_add_tail_ring [OF h1(2) a] h1(1) Cons list_empty_ring [OF assms]
    by (auto simp: list_rotate_left_def list_move_tail_def)
qed

text \<open>
  C38: Cutting and splicing are inverse: \<open>list_cut_position\<close> at any entry moves the front of the list up to
  and including it to the other head, \<open>list_splice\<close> puts it back, and the list is the one it was.
\<close>

theorem list_cut_splice:
  assumes "ring h m (xs @ a # ys)" "l \<noteq> NULL" "l \<notin> set (m # xs @ a # ys)"
  shows "\<exists>h1 h2. list_cut_position h l m a = Some h1 \<and> ring h1 l (xs @ [a]) \<and> ring h1 m ys \<and>
    list_splice h1 l m = Some h2 \<and> ring h2 m (xs @ a # ys)"
proof -
  obtain h1 where h1: "list_cut_position h l m a = Some h1" "ring h1 l (xs @ [a])" "ring h1 m ys"
    using list_cut_position_ring [of h m "xs @ [a]" ys l] assms by auto
  have "set (l # xs @ [a]) \<inter> set (m # ys) = {}"
    using assms(1,3) by (auto simp: ring_def)
  then obtain h2 where "list_splice h1 l m = Some h2" "ring h2 m ((xs @ [a]) @ ys)"
    using list_splice_ring [OF h1(2,3)] by blast
  then show ?thesis
    using h1 by simp
qed

theorem list_cut_splice_witness:
  "\<exists>h1 h2. list_cut_position \<lparr>dl_next = (\<lambda>a. if a = 3 then 1 else a + 1), dl_prev = (\<lambda>a. if a = 1 then 3 else a - 1)\<rparr> 4 1 2 = Some h1 \<and>
    ring h1 4 ([] @ [2]) \<and> ring h1 1 [3] \<and> list_splice h1 4 1 = Some h2 \<and> ring h2 1 ([] @ 2 # [3])"
  by (rule list_cut_splice) (simp_all add: ring_def)

end
