(* ===== verification/Kernel_Loops.thy ===== *)
theory Kernel_Loops
  imports Kernel_Splice
begin

text \<open>
  The traversal macros of \<open>linux_kenel_list.h\<close>, over a body that is given the node (or the object) it is at
  and may change the heap and a value of its own.  A body that fails, or a null node, ends a loop without a
  result, and so does a loop that never meets its head again: the loops are partial functions.  The link a
  loop follows, \<open>next\<close> or \<open>prev\<close>, is a parameter of the two loop forms all the macros expand to.

  An object is at an address; its \<open>list_head\<close> member is \<open>offset\<close> bytes further on, in 64-bit arithmetic.
\<close>

type_synonym 's loop_state = "list_head \<times> 's"
type_synonym 's loop_body = "'s loop_state \<Rightarrow> addr \<Rightarrow> 's loop_state option"
type_synonym link = "list_head \<Rightarrow> addr \<Rightarrow> addr option"

definition list_entry :: "addr \<Rightarrow> nat \<Rightarrow> addr" where
  "list_entry ptr offset = (ptr + (2 ^ 64 - offset)) mod 2 ^ 64"

definition entry_member :: "addr \<Rightarrow> nat \<Rightarrow> addr" where
  "entry_member pos offset = (pos + offset) mod 2 ^ 64"

subsection \<open>Loops over nodes\<close>

partial_function (option) node_loop :: "link \<Rightarrow> 's loop_body \<Rightarrow> 's loop_state \<Rightarrow> addr \<Rightarrow> addr \<Rightarrow> 's loop_state option" where
  "node_loop link body st pos head =
     (if pos = head then Some st
      else do {
        st \<leftarrow> body st pos;
        pos \<leftarrow> link (fst st) pos;
        node_loop link body st pos head
      })"

partial_function (option) node_loop_safe ::
    "link \<Rightarrow> 's loop_body \<Rightarrow> 's loop_state \<Rightarrow> addr \<Rightarrow> addr \<Rightarrow> addr \<Rightarrow> 's loop_state option" where
  "node_loop_safe link body st pos n head =
     (if pos = head then Some st
      else do {
        st \<leftarrow> body st pos;
        m \<leftarrow> link (fst st) n;
        node_loop_safe link body st n m head
      })"

definition list_for_each :: "'s loop_body \<Rightarrow> 's loop_state \<Rightarrow> addr \<Rightarrow> 's loop_state option" where
  "list_for_each body st head = do {
     pos \<leftarrow> rd_next (fst st) head;
     node_loop rd_next body st pos head
   }"

definition list_for_each_prev :: "'s loop_body \<Rightarrow> 's loop_state \<Rightarrow> addr \<Rightarrow> 's loop_state option" where
  "list_for_each_prev body st head = do {
     pos \<leftarrow> rd_prev (fst st) head;
     node_loop rd_prev body st pos head
   }"

definition list_for_each_safe :: "'s loop_body \<Rightarrow> 's loop_state \<Rightarrow> addr \<Rightarrow> 's loop_state option" where
  "list_for_each_safe body st head = do {
     pos \<leftarrow> rd_next (fst st) head;
     n \<leftarrow> rd_next (fst st) pos;
     node_loop_safe rd_next body st pos n head
   }"

definition list_for_each_prev_safe :: "'s loop_body \<Rightarrow> 's loop_state \<Rightarrow> addr \<Rightarrow> 's loop_state option" where
  "list_for_each_prev_safe body st head = do {
     pos \<leftarrow> rd_prev (fst st) head;
     n \<leftarrow> rd_prev (fst st) pos;
     node_loop_safe rd_prev body st pos n head
   }"

subsection \<open>Loops over the objects the nodes are embedded in\<close>

partial_function (option) entry_loop ::
    "link \<Rightarrow> nat \<Rightarrow> 's loop_body \<Rightarrow> 's loop_state \<Rightarrow> addr \<Rightarrow> addr \<Rightarrow> 's loop_state option" where
  "entry_loop link offset body st pos head =
     (if entry_member pos offset = head then Some st
      else do {
        st \<leftarrow> body st pos;
        n \<leftarrow> link (fst st) (entry_member pos offset);
        entry_loop link offset body st (list_entry n offset) head
      })"

partial_function (option) entry_loop_safe ::
    "link \<Rightarrow> nat \<Rightarrow> 's loop_body \<Rightarrow> 's loop_state \<Rightarrow> addr \<Rightarrow> addr \<Rightarrow> addr \<Rightarrow> 's loop_state option" where
  "entry_loop_safe link offset body st pos n head =
     (if entry_member pos offset = head then Some st
      else do {
        st \<leftarrow> body st pos;
        m \<leftarrow> link (fst st) (entry_member n offset);
        entry_loop_safe link offset body st n (list_entry m offset) head
      })"

definition list_first_entry :: "list_head \<Rightarrow> addr \<Rightarrow> nat \<Rightarrow> addr option" where
  "list_first_entry h head offset = do {
     n \<leftarrow> rd_next h head;
     Some (list_entry n offset)
   }"

definition list_for_each_entry :: "'s loop_body \<Rightarrow> 's loop_state \<Rightarrow> addr \<Rightarrow> nat \<Rightarrow> 's loop_state option" where
  "list_for_each_entry body st head offset = do {
     n \<leftarrow> rd_next (fst st) head;
     entry_loop rd_next offset body st (list_entry n offset) head
   }"

definition list_for_each_entry_reverse :: "'s loop_body \<Rightarrow> 's loop_state \<Rightarrow> addr \<Rightarrow> nat \<Rightarrow> 's loop_state option" where
  "list_for_each_entry_reverse body st head offset = do {
     p \<leftarrow> rd_prev (fst st) head;
     entry_loop rd_prev offset body st (list_entry p offset) head
   }"

definition list_prepare_entry :: "addr \<Rightarrow> addr \<Rightarrow> nat \<Rightarrow> addr" where
  "list_prepare_entry pos head offset = (if pos \<noteq> NULL then pos else list_entry head offset)"

definition list_for_each_entry_continue ::
    "'s loop_body \<Rightarrow> 's loop_state \<Rightarrow> addr \<Rightarrow> addr \<Rightarrow> nat \<Rightarrow> 's loop_state option" where
  "list_for_each_entry_continue body st pos head offset = do {
     n \<leftarrow> rd_next (fst st) (entry_member pos offset);
     entry_loop rd_next offset body st (list_entry n offset) head
   }"

definition list_for_each_entry_continue_reverse ::
    "'s loop_body \<Rightarrow> 's loop_state \<Rightarrow> addr \<Rightarrow> addr \<Rightarrow> nat \<Rightarrow> 's loop_state option" where
  "list_for_each_entry_continue_reverse body st pos head offset = do {
     p \<leftarrow> rd_prev (fst st) (entry_member pos offset);
     entry_loop rd_prev offset body st (list_entry p offset) head
   }"

definition list_for_each_entry_from ::
    "'s loop_body \<Rightarrow> 's loop_state \<Rightarrow> addr \<Rightarrow> addr \<Rightarrow> nat \<Rightarrow> 's loop_state option" where
  "list_for_each_entry_from body st pos head offset = entry_loop rd_next offset body st pos head"

definition list_for_each_entry_safe :: "'s loop_body \<Rightarrow> 's loop_state \<Rightarrow> addr \<Rightarrow> nat \<Rightarrow> 's loop_state option" where
  "list_for_each_entry_safe body st head offset = do {
     p \<leftarrow> rd_next (fst st) head;
     n \<leftarrow> rd_next (fst st) (entry_member (list_entry p offset) offset);
     entry_loop_safe rd_next offset body st (list_entry p offset) (list_entry n offset) head
   }"

definition list_for_each_entry_safe_continue ::
    "'s loop_body \<Rightarrow> 's loop_state \<Rightarrow> addr \<Rightarrow> addr \<Rightarrow> nat \<Rightarrow> 's loop_state option" where
  "list_for_each_entry_safe_continue body st pos head offset = do {
     p \<leftarrow> rd_next (fst st) (entry_member pos offset);
     n \<leftarrow> rd_next (fst st) (entry_member (list_entry p offset) offset);
     entry_loop_safe rd_next offset body st (list_entry p offset) (list_entry n offset) head
   }"

definition list_for_each_entry_safe_from ::
    "'s loop_body \<Rightarrow> 's loop_state \<Rightarrow> addr \<Rightarrow> addr \<Rightarrow> nat \<Rightarrow> 's loop_state option" where
  "list_for_each_entry_safe_from body st pos head offset = do {
     n \<leftarrow> rd_next (fst st) (entry_member pos offset);
     entry_loop_safe rd_next offset body st pos (list_entry n offset) head
   }"

definition list_for_each_entry_safe_reverse ::
    "'s loop_body \<Rightarrow> 's loop_state \<Rightarrow> addr \<Rightarrow> nat \<Rightarrow> 's loop_state option" where
  "list_for_each_entry_safe_reverse body st head offset = do {
     p \<leftarrow> rd_prev (fst st) head;
     n \<leftarrow> rd_prev (fst st) (entry_member (list_entry p offset) offset);
     entry_loop_safe rd_prev offset body st (list_entry p offset) (list_entry n offset) head
   }"

definition list_safe_reset_next :: "list_head \<Rightarrow> addr \<Rightarrow> nat \<Rightarrow> addr option" where
  "list_safe_reset_next h pos offset = do {
     n \<leftarrow> rd_next h (entry_member pos offset);
     Some (list_entry n offset)
   }"

subsection \<open>Visits\<close>

text \<open>The body run at each node of a list in turn.\<close>

fun visit :: "'s loop_body \<Rightarrow> 's loop_state \<Rightarrow> addr list \<Rightarrow> 's loop_state option" where
  "visit body st [] = Some st"
| "visit body st (a # as) = (body st a \<bind> (\<lambda>st. visit body st as))"

fun follows :: "link \<Rightarrow> list_head \<Rightarrow> addr list \<Rightarrow> addr \<Rightarrow> bool" where
  "follows link h [] l \<longleftrightarrow> True"
| "follows link h (a # as) l \<longleftrightarrow> a \<noteq> l \<and> link h a = Some (hd (as @ [l])) \<and> follows link h as l"

lemma ring_follows_next:
  assumes "ring h l (xs @ ys)"
  shows "follows rd_next h ys l"
  using assms
proof (induction ys arbitrary: xs)
  case (Cons a ys)
  have "follows rd_next h ys l"
    using Cons.IH [of "xs @ [a]"] Cons.prems by simp
  then show ?case
    using Cons.prems ring_next_at [OF Cons.prems] ring_node [OF Cons.prems, of a]
    by (auto simp: heap_simps ring_def)
qed simp

lemma ring_follows_prev:
  assumes "ring h l (rev ys @ xs)"
  shows "follows rd_prev h ys l"
  using assms
proof (induction ys arbitrary: xs)
  case (Cons a ys)
  have at: "ring h l (rev ys @ a # xs)"
    using Cons.prems by simp
  have "last (l # rev ys) = hd (ys @ [l])"
    by (cases ys) auto
  then show ?case
    using Cons.IH [of "a # xs"] at ring_prev_at [OF at] ring_node [OF at, of a]
    by (auto simp: heap_simps ring_def)
qed simp

lemma node_loop_visit:
  assumes "follows link h ys l"
    and "\<And>h s a h' s'. body (h, s) a = Some (h', s') \<Longrightarrow> link h' = link h"
  shows "node_loop link body (h, s) (hd (ys @ [l])) l = visit body (h, s) ys"
  using assms(1)
proof (induction ys arbitrary: h s)
  case Nil
  then show ?case by (simp add: node_loop.simps)
next
  case (Cons a ys)
  show ?case
  proof (cases "body (h, s) a")
    case None
    then show ?thesis
      using Cons.prems by (subst node_loop.simps) simp
  next
    case (Some st)
    obtain h' s' where st: "st = (h', s')"
      by (cases st)
    have same: "link h' = link h"
      using assms(2) Some st by simp
    then have "follows link h' zs l = follows link h zs l" for zs
      by (induction zs) auto
    then show ?thesis
      using Cons Some st same by (subst node_loop.simps) simp
  qed
qed

text \<open>The visits of \<open>list_for_each\<close> and \<open>list_for_each_prev\<close>, when the body leaves the links alone.\<close>

lemma list_for_each_visit:
  assumes "ring h l xs" "\<And>h s a h' s'. body (h, s) a = Some (h', s') \<Longrightarrow> dl_next h' = dl_next h"
  shows "list_for_each body (h, s) l = visit body (h, s) xs"
proof -
  have "rd_next h' = rd_next h" if "body (h, s) a = Some (h', s')" for h s a h' s'
    using assms(2) [OF that] by (auto simp: rd_next_def)
  then show ?thesis
    using node_loop_visit [OF ring_follows_next [of h l "[]" xs], of body s] assms(1) ring_ends [OF assms(1)]
    by (simp add: list_for_each_def)
qed

lemma list_for_each_prev_visit:
  assumes "ring h l xs" "\<And>h s a h' s'. body (h, s) a = Some (h', s') \<Longrightarrow> dl_prev h' = dl_prev h"
  shows "list_for_each_prev body (h, s) l = visit body (h, s) (rev xs)"
proof -
  have "rd_prev h' = rd_prev h" if "body (h, s) a = Some (h', s')" for h s a h' s'
    using assms(2) [OF that] by (auto simp: rd_prev_def)
  moreover have "last (l # xs) = hd (rev xs @ [l])"
    by (cases xs rule: rev_cases) auto
  ultimately show ?thesis
    using node_loop_visit [OF ring_follows_prev [of h l "rev xs" "[]"], of body s] assms(1) ring_ends [OF assms(1)]
    by (simp add: list_for_each_prev_def)
qed

subsection \<open>A loop over objects is the loop over their nodes\<close>

lemma member_entry:
  assumes "p < 2 ^ 64" "offset \<le> 2 ^ 64"
  shows "entry_member (list_entry p offset) offset = p"
proof -
  have "entry_member (list_entry p offset) offset = (p + (2 ^ 64 - offset) + offset) mod 2 ^ 64"
    by (simp only: entry_member_def list_entry_def mod_add_left_eq)
  also have "\<dots> = (p + 2 ^ 64) mod 2 ^ 64"
    using assms(2) by (metis add.assoc le_add_diff_inverse2)
  finally show ?thesis
    using assms(1) by simp
qed

definition below64 :: "link \<Rightarrow> list_head \<Rightarrow> bool" where
  "below64 link h \<longleftrightarrow> (\<forall>a b. link h a = Some b \<longrightarrow> b < 2 ^ 64)"

lemma entry_loop_node:
  assumes "entry_loop link offset body st pos head = Some r" "offset \<le> 2 ^ 64"
    and "\<And>st. P st \<Longrightarrow> below64 link (fst st)" "\<And>st a st'. P st \<Longrightarrow> body st a = Some st' \<Longrightarrow> P st'"
    and "P st" "p < 2 ^ 64" "pos = list_entry p offset"
  shows "node_loop link (\<lambda>st q. body st (list_entry q offset)) st p head = Some r"
  using assms
proof (induction arbitrary: p rule: entry_loop.raw_induct [rotated, consumes 1, case_names step])
  case (step loop link offset body st pos head y)
  have m: "entry_member pos offset = p"
    using step.prems by (simp add: member_entry)
  show ?case
  proof (cases "p = head")
    case True
    then show ?thesis
      using step.hyps m by (subst node_loop.simps) simp
  next
    case False
    then obtain st1 n where b: "body st pos = Some st1" "link (fst st1) p = Some n"
        "loop link offset body st1 (list_entry n offset) head = Some y"
      using step.hyps m by (auto split: bind_splits)
    have st1: "P st1"
      using step.prems(3,4) b(1) by blast
    have "n < 2 ^ 64"
      using step.prems(2) [OF st1] b(2) by (auto simp: below64_def)
    from step.IH [OF b(3) step.prems(1-3) st1 this refl] False b step.prems(6)
    show ?thesis
      by (subst node_loop.simps) simp
  qed
qed

lemma node_loop_entry:
  assumes "node_loop link body st p head = Some r" "offset \<le> 2 ^ 64"
    and "\<And>st. P st \<Longrightarrow> below64 link (fst st)" "\<And>st a st'. P st \<Longrightarrow> f st a = Some st' \<Longrightarrow> P st'"
    and "P st" "p < 2 ^ 64" "body = (\<lambda>st q. f st (list_entry q offset))"
  shows "entry_loop link offset f st (list_entry p offset) head = Some r"
  using assms
proof (induction rule: node_loop.raw_induct [rotated, consumes 1, case_names step])
  case (step loop link body st p head y)
  have m: "entry_member (list_entry p offset) offset = p"
    using step.prems by (simp add: member_entry)
  show ?case
  proof (cases "p = head")
    case True
    then show ?thesis
      using step.hyps m by (subst entry_loop.simps) simp
  next
    case False
    then obtain st1 n where b: "f st (list_entry p offset) = Some st1" "link (fst st1) p = Some n"
        "loop link body st1 n head = Some y"
      using step.hyps step.prems(6) by (auto split: bind_splits)
    have st1: "P st1"
      using step.prems(3,4) b(1) by blast
    have "n < 2 ^ 64"
      using step.prems(2) [OF st1] b(2) by (auto simp: below64_def)
    from step.IH [OF b(3) step.prems(1-3) st1 this step.prems(6)] False b m
    show ?thesis
      by (subst entry_loop.simps) simp
  qed
qed

lemma entry_loop_eq:
  assumes "offset \<le> 2 ^ 64"
    and "\<And>st. P st \<Longrightarrow> below64 link (fst st)" "\<And>st a st'. P st \<Longrightarrow> body st a = Some st' \<Longrightarrow> P st'"
    and "P st" "p < 2 ^ 64"
  shows "entry_loop link offset body st (list_entry p offset) head =
    node_loop link (\<lambda>st q. body st (list_entry q offset)) st p head"
proof -
  have "node_loop link (\<lambda>st q. body st (list_entry q offset)) st p head = Some r"
    if "entry_loop link offset body st (list_entry p offset) head = Some r" for r
    by (rule entry_loop_node [where P = P, OF that assms(1)]) (use assms in auto)
  moreover have "entry_loop link offset body st (list_entry p offset) head = Some r"
    if "node_loop link (\<lambda>st q. body st (list_entry q offset)) st p head = Some r" for r
    by (rule node_loop_entry [where P = P, OF that assms(1)]) (use assms in auto)
  ultimately show ?thesis
    by (metis not_None_eq)
qed

lemma list_for_each_entry_visit:
  assumes "ring h l xs" "below64 rd_next h" "offset \<le> 2 ^ 64"
    and "\<And>h s a h' s'. body (h, s) a = Some (h', s') \<Longrightarrow> dl_next h' = dl_next h"
  shows "list_for_each_entry body (h, s) l offset = visit (\<lambda>st q. body st (list_entry q offset)) (h, s) xs"
proof -
  let ?P = "\<lambda>st :: 'a loop_state. dl_next (fst st) = dl_next h"
  have P: "?P st'" if "?P st" "body st a = Some st'" for st a st'
    using assms(4) [of "fst st" "snd st" a "fst st'" "snd st'"] that by simp
  have below: "below64 rd_next (fst st)" if "?P st" for st
  proof -
    have "rd_next (fst st) = rd_next h"
      using that by (auto simp: rd_next_def)
    then show ?thesis
      using assms(2) by (simp add: below64_def)
  qed
  have n: "rd_next h l = Some (hd (xs @ [l]))" "hd (xs @ [l]) < 2 ^ 64"
    using ring_ends [OF assms(1)] assms(2) by (auto simp: below64_def)
  have "list_for_each_entry body (h, s) l offset =
      node_loop rd_next (\<lambda>st q. body st (list_entry q offset)) (h, s) (hd (xs @ [l])) l"
    using entry_loop_eq [where P = ?P and st = "(h, s)", OF assms(3) below P _ n(2)] n(1)
    by (simp add: list_for_each_entry_def)
  also have "\<dots> = list_for_each (\<lambda>st q. body st (list_entry q offset)) (h, s) l"
    using n(1) by (simp add: list_for_each_def)
  also have "\<dots> = visit (\<lambda>st q. body st (list_entry q offset)) (h, s) xs"
    by (rule list_for_each_visit [OF assms(1)]) (use assms(4) in blast)
  finally show ?thesis .
qed

subsection \<open>Loops that survive the removal of the node they are at\<close>

lemma node_loop_safe_invariant:
  assumes step: "\<And>h s us a vs. I h s us (a # vs) \<Longrightarrow> \<exists>h' s' us'. body (h, s) a = Some (h', s') \<and> I h' s' us' vs"
    and ring: "\<And>h s us vs. I h s us vs \<Longrightarrow> ring h l (us @ vs)"
    and "I h s us vs" "vs \<noteq> [] \<longrightarrow> n = hd (tl vs @ [l])"
  shows "\<exists>h' s' us'. node_loop_safe rd_next body (h, s) (hd (vs @ [l])) n l = Some (h', s') \<and> I h' s' us' []"
  using assms(3,4)
proof (induction vs arbitrary: h s us n)
  case Nil
  then show ?case by (auto simp: node_loop_safe.simps)
next
  case (Cons a vs)
  obtain h' s' us' where b: "body (h, s) a = Some (h', s')" "I h' s' us' vs"
    using step [OF Cons.prems(1)] by blast
  have r: "ring h' l (us' @ vs)"
    using ring [OF b(2)] .
  have a: "a \<noteq> l"
    using ring [OF Cons.prems(1)] by (auto simp: ring_def)
  have n: "n = hd (vs @ [l])"
    using Cons.prems(2) by simp
  have "n \<noteq> NULL"
    using ring_node [OF r, of n] n by (cases vs) auto
  then have m: "rd_next h' n = Some (dl_next h' n)"
    by (simp add: heap_simps)
  have "vs \<noteq> [] \<longrightarrow> dl_next h' n = hd (tl vs @ [l])"
    using ring_next_at [of h' l us' n "tl vs"] r n by (cases vs) auto
  from Cons.IH [OF b(2) this] show ?case
    using a n b(1) m by (subst node_loop_safe.simps) simp
qed

lemma list_for_each_safe_invariant:
  assumes step: "\<And>h s us a vs. I h s us (a # vs) \<Longrightarrow> \<exists>h' s' us'. body (h, s) a = Some (h', s') \<and> I h' s' us' vs"
    and ring: "\<And>h s us vs. I h s us vs \<Longrightarrow> ring h l (us @ vs)"
    and "I h s [] xs"
  shows "\<exists>h' s' us'. list_for_each_safe body (h, s) l = Some (h', s') \<and> I h' s' us' []"
proof -
  have r: "ring h l xs"
    using ring [OF assms(3)] by simp
  define p where "p = hd (xs @ [l])"
  have p: "rd_next h l = Some p"
    using ring_ends [OF r] by (simp add: p_def)
  have "p \<noteq> NULL"
    using ring_node [OF r, of p] by (cases xs) (auto simp: p_def)
  then have n: "rd_next h p = Some (dl_next h p)"
    by (simp add: heap_simps)
  have "xs \<noteq> [] \<longrightarrow> dl_next h p = hd (tl xs @ [l])"
    using ring_next_at [of h l "[]" p "tl xs"] r by (cases xs) (auto simp: p_def)
  from node_loop_safe_invariant [of I body l, OF step ring assms(3) this] show ?thesis
    using p n by (simp add: list_for_each_safe_def p_def)
qed

text \<open>A body that deletes the nodes of a kind and keeps a list of them.\<close>

definition delete_if :: "(addr \<Rightarrow> bool) \<Rightarrow> addr list loop_body" where
  "delete_if doomed st a =
     (if doomed a then do {
        h \<leftarrow> list_del (fst st) a;
        Some (h, snd st @ [a])
      } else Some st)"

lemma list_del_at:
  assumes "ring h l (us @ a # vs)"
  shows "\<exists>h'. list_del h a = Some h' \<and> ring h' l (us @ vs)"
  using lhd.unlink_any [OF assms] by blast

text \<open>Without the saved link, the loop reads the poison the deletion left, and the next step fails.\<close>

lemma node_loop_NULL:
  assumes "l \<noteq> NULL" "\<And>a. doomed a"
  shows "node_loop rd_next (delete_if doomed) st NULL l = None"
proof -
  have "delete_if doomed st NULL = None"
    using assms(2) by (simp add: delete_if_def list_del_def rd_prev_def)
  then show ?thesis
    using assms(1) by (subst node_loop.simps) simp
qed


text \<open>
  C37: Deleting nodes while walking with \<open>list_for_each_safe\<close> is sound: on every well-formed ring the loop ends
  without touching null, the body gets exactly the nodes of the list in order, the ring left holds the
  nodes that were not deleted in their order.
\<close>

theorem list_for_each_safe_delete:
  assumes "ring h l xs"
  shows "\<exists>h'. list_for_each_safe (delete_if doomed) (h, []) l = Some (h', filter doomed xs) \<and>
    ring h' l (filter (\<lambda>a. \<not> doomed a) xs)"
proof -
  define I where "I h s us vs \<longleftrightarrow> ring h l (us @ vs) \<and>
    us @ filter (\<lambda>a. \<not> doomed a) vs = filter (\<lambda>a. \<not> doomed a) xs \<and> s @ filter doomed vs = filter doomed xs" for h s us vs
  have step: "\<exists>h' s' us'. delete_if doomed (h, s) a = Some (h', s') \<and> I h' s' us' vs" if I: "I h s us (a # vs)" for h s us a vs
  proof (cases "doomed a")
    case True
    obtain h' where "list_del h a = Some h'" "ring h' l (us @ vs)"
      using list_del_at I I_def by blast
    then have "delete_if doomed (h, s) a = Some (h', s @ [a])" "I h' (s @ [a]) us vs"
      using I True by (simp_all add: delete_if_def I_def)
    then show ?thesis by blast
  next
    case False
    then have "delete_if doomed (h, s) a = Some (h, s)" "I h s (us @ [a]) vs"
      using I by (simp_all add: delete_if_def I_def)
    then show ?thesis by blast
  qed
  have "I h [] [] xs"
    using assms by (simp add: I_def)
  from list_for_each_safe_invariant [of I "delete_if doomed" l, OF step _ this] show ?thesis
    by (fastforce simp: I_def)
qed

theorem list_for_each_safe_delete_witness:
  "\<exists>h'. list_for_each_safe (delete_if even) (\<lparr>dl_next = (\<lambda>a. if a = 3 then 1 else a + 1),
      dl_prev = (\<lambda>a. if a = 1 then 3 else a - 1)\<rparr>, []) 1 = Some (h', filter even [2, 3]) \<and>
    ring h' 1 (filter odd [2, 3])"
  by (rule list_for_each_safe_delete) (simp add: ring_def)

text \<open>
  The plain \<open>list_for_each\<close> does not survive the deletion of the node it is at: on every ring with a node,
  deleting as it goes takes the loop to the null pointer that \<open>list_del\<close> stores, and it fails there.
\<close>

theorem list_for_each_delete_fails:
  assumes "ring h l (a # xs)"
  shows "list_for_each (delete_if (\<lambda>_. True)) (h, ds) l = None"
proof -
  have a: "a \<noteq> l" "a \<noteq> NULL" "l \<noteq> NULL"
    using assms by (auto simp: ring_def)
  obtain h' where h': "list_del h a = Some h'" "dl_next h' a = LIST_POISON1"
    using list_del_ring [OF assms] by blast
  have "rd_next h' a = Some NULL"
    using h'(2) a by (simp add: heap_simps LIST_POISON1_def)
  moreover have "delete_if (\<lambda>_. True) (h, ds) a = Some (h', ds @ [a])"
    using h'(1) by (simp add: delete_if_def)
  moreover have "rd_next h l = Some a"
    using ring_ends [OF assms] by simp
  ultimately show ?thesis
    using a node_loop_NULL [of l "\<lambda>_. True"] by (simp add: list_for_each_def) (subst node_loop.simps, simp)
qed

theorem list_for_each_delete_fails_witness:
  "list_for_each (delete_if (\<lambda>_. True)) (\<lparr>dl_next = (\<lambda>a. if a = 1 then 2 else 1),
    dl_prev = (\<lambda>a. if a = 1 then 2 else 1)\<rparr>, []) 1 = None"
  by (rule list_for_each_delete_fails [of _ _ 2 "[]"]) (simp add: ring_def)

end
