(* ===== verification/Kernel_Hlist.thy ===== *)
theory Kernel_Hlist
  imports Kernel_Loops
begin

text \<open>
  The \<open>hlist\<close> of \<open>linux_kenel_list.h\<close>: a head of one pointer, and nodes that point at the next node and at
  the pointer that points at them.  A cell is such a pointer: the \<open>first\<close> of a head or the \<open>next\<close> of a node;
  the null \<open>pprev\<close> is \<open>None\<close>.  The operations are written store by store.
\<close>

subsection \<open>The heap\<close>

datatype hl_cell = First addr | Next addr

record hl_heap =
  hl_first :: "addr \<Rightarrow> addr"
  hl_next :: "addr \<Rightarrow> addr"
  hl_pprev :: "addr \<Rightarrow> hl_cell option"

definition rd_first :: "hl_heap \<Rightarrow> addr \<Rightarrow> addr option" where
  "rd_first h a = (if a = NULL then None else Some (hl_first h a))"

definition wr_first :: "hl_heap \<Rightarrow> addr \<Rightarrow> addr \<Rightarrow> hl_heap option" where
  "wr_first h a v = (if a = NULL then None else Some (h\<lparr>hl_first := (hl_first h)(a := v)\<rparr>))"

definition rd_hnext :: "hl_heap \<Rightarrow> addr \<Rightarrow> addr option" where
  "rd_hnext h a = (if a = NULL then None else Some (hl_next h a))"

definition wr_hnext :: "hl_heap \<Rightarrow> addr \<Rightarrow> addr \<Rightarrow> hl_heap option" where
  "wr_hnext h a v = (if a = NULL then None else Some (h\<lparr>hl_next := (hl_next h)(a := v)\<rparr>))"

definition rd_pprev :: "hl_heap \<Rightarrow> addr \<Rightarrow> hl_cell option option" where
  "rd_pprev h a = (if a = NULL then None else Some (hl_pprev h a))"

definition wr_pprev :: "hl_heap \<Rightarrow> addr \<Rightarrow> hl_cell option \<Rightarrow> hl_heap option" where
  "wr_pprev h a v = (if a = NULL then None else Some (h\<lparr>hl_pprev := (hl_pprev h)(a := v)\<rparr>))"

text \<open>A store through a \<open>pprev\<close>.\<close>

definition wr_cell :: "hl_heap \<Rightarrow> hl_cell option \<Rightarrow> addr \<Rightarrow> hl_heap option" where
  "wr_cell h c v = (case c of None \<Rightarrow> None | Some (First l) \<Rightarrow> wr_first h l v | Some (Next a) \<Rightarrow> wr_hnext h a v)"

lemma hl_load_store [heap_simps]:
  "a \<noteq> NULL \<Longrightarrow> rd_first h a = Some (hl_first h a)"
  "a \<noteq> NULL \<Longrightarrow> wr_first h a v = Some (h\<lparr>hl_first := (hl_first h)(a := v)\<rparr>)"
  "a \<noteq> NULL \<Longrightarrow> rd_hnext h a = Some (hl_next h a)"
  "a \<noteq> NULL \<Longrightarrow> wr_hnext h a v = Some (h\<lparr>hl_next := (hl_next h)(a := v)\<rparr>)"
  "a \<noteq> NULL \<Longrightarrow> rd_pprev h a = Some (hl_pprev h a)"
  "a \<noteq> NULL \<Longrightarrow> wr_pprev h a c = Some (h\<lparr>hl_pprev := (hl_pprev h)(a := c)\<rparr>)"
  by (simp_all add: rd_first_def wr_first_def rd_hnext_def wr_hnext_def rd_pprev_def wr_pprev_def)

subsection \<open>The operations\<close>

definition LIST_POISON2_cell :: "hl_cell option" where "LIST_POISON2_cell = None"

definition INIT_HLIST_HEAD :: "hl_heap \<Rightarrow> addr \<Rightarrow> hl_heap option" where
  "INIT_HLIST_HEAD h ptr = wr_first h ptr NULL"

definition INIT_HLIST_NODE :: "hl_heap \<Rightarrow> addr \<Rightarrow> hl_heap option" where
  "INIT_HLIST_NODE h n = do {
     h \<leftarrow> wr_hnext h n NULL;
     wr_pprev h n None
   }"

definition hlist_unhashed :: "hl_heap \<Rightarrow> addr \<Rightarrow> bool option" where
  "hlist_unhashed h n = do {
     p \<leftarrow> rd_pprev h n;
     Some (p = None)
   }"

definition hlist_empty :: "hl_heap \<Rightarrow> addr \<Rightarrow> bool option" where
  "hlist_empty h l = do {
     f \<leftarrow> rd_first h l;
     Some (f = NULL)
   }"

definition hlist_unlink :: "hl_heap \<Rightarrow> addr \<Rightarrow> hl_heap option" where
  "hlist_unlink h n = do {
     nxt \<leftarrow> rd_hnext h n;
     pprev \<leftarrow> rd_pprev h n;
     h \<leftarrow> wr_cell h pprev nxt;
     if nxt \<noteq> NULL then wr_pprev h nxt pprev else Some h
   }"

definition hlist_del :: "hl_heap \<Rightarrow> addr \<Rightarrow> hl_heap option" where
  "hlist_del h n = do {
     h \<leftarrow> hlist_unlink h n;
     h \<leftarrow> wr_hnext h n LIST_POISON1;
     wr_pprev h n LIST_POISON2_cell
   }"

definition hlist_del_init :: "hl_heap \<Rightarrow> addr \<Rightarrow> hl_heap option" where
  "hlist_del_init h n = do {
     u \<leftarrow> hlist_unhashed h n;
     if \<not> u then do {
       h \<leftarrow> hlist_unlink h n;
       INIT_HLIST_NODE h n
     } else Some h
   }"

definition hlist_add_head :: "hl_heap \<Rightarrow> addr \<Rightarrow> addr \<Rightarrow> hl_heap option" where
  "hlist_add_head h n l = do {
     first \<leftarrow> rd_first h l;
     h \<leftarrow> wr_hnext h n first;
     h \<leftarrow> (if first \<noteq> NULL then wr_pprev h first (Some (Next n)) else Some h);
     h \<leftarrow> wr_first h l n;
     wr_pprev h n (Some (First l))
   }"

definition hlist_add_before :: "hl_heap \<Rightarrow> addr \<Rightarrow> addr \<Rightarrow> hl_heap option" where
  "hlist_add_before h n nxt = do {
     pprev \<leftarrow> rd_pprev h nxt;
     h \<leftarrow> wr_pprev h n pprev;
     h \<leftarrow> wr_hnext h n nxt;
     h \<leftarrow> wr_pprev h nxt (Some (Next n));
     pprev \<leftarrow> rd_pprev h n;
     wr_cell h pprev n
   }"

definition hlist_add_after :: "hl_heap \<Rightarrow> addr \<Rightarrow> addr \<Rightarrow> hl_heap option" where
  "hlist_add_after h n nxt = do {
     v \<leftarrow> rd_hnext h n;
     h \<leftarrow> wr_hnext h nxt v;
     h \<leftarrow> wr_hnext h n nxt;
     h \<leftarrow> wr_pprev h nxt (Some (Next n));
     v \<leftarrow> rd_hnext h nxt;
     if v \<noteq> NULL then wr_pprev h v (Some (Next nxt)) else Some h
   }"

definition hlist_add_fake :: "hl_heap \<Rightarrow> addr \<Rightarrow> hl_heap option" where
  "hlist_add_fake h n = wr_pprev h n (Some (Next n))"

definition hlist_move_list :: "hl_heap \<Rightarrow> addr \<Rightarrow> addr \<Rightarrow> hl_heap option" where
  "hlist_move_list h old new = do {
     f \<leftarrow> rd_first h old;
     h \<leftarrow> wr_first h new f;
     f \<leftarrow> rd_first h new;
     h \<leftarrow> (if f \<noteq> NULL then wr_pprev h f (Some (First new)) else Some h);
     wr_first h old NULL
   }"

subsection \<open>Traversals\<close>

text \<open>
  The loops end at the null pointer.  The entry forms set a second cursor to the object that embeds the node
  before each run of the body.
\<close>

type_synonym 's hl_state = "hl_heap \<times> 's"
type_synonym 's hl_body = "'s hl_state \<Rightarrow> addr \<Rightarrow> 's hl_state option"

partial_function (option) hl_loop :: "'s hl_body \<Rightarrow> 's hl_state \<Rightarrow> addr \<Rightarrow> 's hl_state option" where
  "hl_loop body st pos =
     (if pos = NULL then Some st
      else do {
        st \<leftarrow> body st pos;
        pos \<leftarrow> rd_hnext (fst st) pos;
        hl_loop body st pos
      })"

partial_function (option) hl_loop_safe :: "'s hl_body \<Rightarrow> 's hl_state \<Rightarrow> addr \<Rightarrow> 's hl_state option" where
  "hl_loop_safe body st pos =
     (if pos = NULL then Some st
      else do {
        n \<leftarrow> rd_hnext (fst st) pos;
        st \<leftarrow> body st pos;
        hl_loop_safe body st n
      })"

definition hlist_for_each :: "'s hl_body \<Rightarrow> 's hl_state \<Rightarrow> addr \<Rightarrow> 's hl_state option" where
  "hlist_for_each body st head = do {
     pos \<leftarrow> rd_first (fst st) head;
     hl_loop body st pos
   }"

definition hlist_for_each_safe :: "'s hl_body \<Rightarrow> 's hl_state \<Rightarrow> addr \<Rightarrow> 's hl_state option" where
  "hlist_for_each_safe body st head = do {
     pos \<leftarrow> rd_first (fst st) head;
     hl_loop_safe body st pos
   }"

definition hlist_entry :: "addr \<Rightarrow> nat \<Rightarrow> addr" where
  "hlist_entry ptr offset = list_entry ptr offset"

definition hlist_for_each_entry :: "'s hl_body \<Rightarrow> 's hl_state \<Rightarrow> addr \<Rightarrow> nat \<Rightarrow> 's hl_state option" where
  "hlist_for_each_entry body st head offset = do {
     pos \<leftarrow> rd_first (fst st) head;
     hl_loop (\<lambda>st pos. body st (hlist_entry pos offset)) st pos
   }"

definition hlist_for_each_entry_continue :: "'s hl_body \<Rightarrow> 's hl_state \<Rightarrow> addr \<Rightarrow> nat \<Rightarrow> 's hl_state option" where
  "hlist_for_each_entry_continue body st pos offset = do {
     pos \<leftarrow> rd_hnext (fst st) pos;
     hl_loop (\<lambda>st pos. body st (hlist_entry pos offset)) st pos
   }"

definition hlist_for_each_entry_from :: "'s hl_body \<Rightarrow> 's hl_state \<Rightarrow> addr \<Rightarrow> nat \<Rightarrow> 's hl_state option" where
  "hlist_for_each_entry_from body st pos offset = hl_loop (\<lambda>st pos. body st (hlist_entry pos offset)) st pos"

definition hlist_for_each_entry_safe :: "'s hl_body \<Rightarrow> 's hl_state \<Rightarrow> addr \<Rightarrow> nat \<Rightarrow> 's hl_state option" where
  "hlist_for_each_entry_safe body st head offset = do {
     pos \<leftarrow> rd_first (fst st) head;
     hl_loop_safe (\<lambda>st pos. body st (hlist_entry pos offset)) st pos
   }"

subsection \<open>The list of nodes behind a head\<close>

fun cell_addr :: "hl_cell \<Rightarrow> addr" where
  "cell_addr (First l) = l"
| "cell_addr (Next a) = a"

fun set_cell :: "hl_heap \<Rightarrow> hl_cell \<Rightarrow> addr \<Rightarrow> hl_heap" where
  "set_cell h (First l) v = h\<lparr>hl_first := (hl_first h)(l := v)\<rparr>"
| "set_cell h (Next a) v = h\<lparr>hl_next := (hl_next h)(a := v)\<rparr>"

definition set_pprev :: "hl_heap \<Rightarrow> addr \<Rightarrow> hl_cell option \<Rightarrow> hl_heap" where
  "set_pprev h a c = (if a = NULL then h else h\<lparr>hl_pprev := (hl_pprev h)(a := c)\<rparr>)"

fun cell_val :: "hl_heap \<Rightarrow> hl_cell \<Rightarrow> addr" where
  "cell_val h (First l) = hl_first h l"
| "cell_val h (Next a) = hl_next h a"

text \<open>
  From the cell \<open>c\<close>, each cell leads to the next node and that node points back to the cell; a list starts
  at the \<open>first\<close> of its head and ends where a cell is null.
\<close>

fun hseg :: "hl_heap \<Rightarrow> hl_cell \<Rightarrow> addr list \<Rightarrow> bool" where
  "hseg h c [] \<longleftrightarrow> True"
| "hseg h c (a # as) \<longleftrightarrow> cell_val h c = a \<and> a \<noteq> NULL \<and> hl_pprev h a = Some c \<and> hseg h (Next a) as"

definition end_cell :: "hl_cell \<Rightarrow> addr list \<Rightarrow> hl_cell" where
  "end_cell c as = (if as = [] then c else Next (last as))"

definition hlist :: "hl_heap \<Rightarrow> addr \<Rightarrow> addr list \<Rightarrow> bool" where
  "hlist h l xs \<longleftrightarrow> l \<noteq> NULL \<and> distinct xs \<and> hseg h (First l) xs \<and> cell_val h (end_cell (First l) xs) = NULL"

lemma set_cell_simps [simp]:
  "cell_val (set_cell h c v) d = (if d = c then v else cell_val h d)"
  "hl_pprev (set_cell h c v) = hl_pprev h"
  "cell_val (set_pprev h a p) d = cell_val h d"
  "hl_pprev (set_pprev h a p) x = (if a \<noteq> NULL \<and> x = a then p else hl_pprev h x)"
  by (cases c; cases d; simp add: set_pprev_def)+

lemma set_fields [simp]:
  "hl_next (set_cell h c v) a = (if c = Next a then v else hl_next h a)"
  "hl_first (set_cell h c v) l = (if c = First l then v else hl_first h l)"
  "hl_next (set_pprev h a p) = hl_next h"
  "hl_first (set_pprev h a p) = hl_first h"
  by (cases c; simp add: set_pprev_def)+

declare set_cell.simps [simp del]

lemma set_pprev_NULL [simp]: "set_pprev h NULL p = h"
  by (simp add: set_pprev_def)

lemma stores_as_set:
  "cell_addr c \<noteq> NULL \<Longrightarrow> wr_cell h (Some c) v = Some (set_cell h c v)"
  "a \<noteq> NULL \<Longrightarrow> wr_hnext h a v = Some (set_cell h (Next a) v)"
  "a \<noteq> NULL \<Longrightarrow> wr_first h a v = Some (set_cell h (First a) v)"
  "a \<noteq> NULL \<Longrightarrow> wr_pprev h a p = Some (set_pprev h a p)"
  "a \<noteq> NULL \<Longrightarrow> rd_hnext h a = Some (cell_val h (Next a))"
  "a \<noteq> NULL \<Longrightarrow> rd_first h a = Some (cell_val h (First a))"
  "a \<noteq> NULL \<Longrightarrow> rd_pprev h a = Some (hl_pprev h a)"
  "(if a \<noteq> NULL then Some (set_pprev h a p) else Some h) = Some (set_pprev h a p)"
  by (cases c; simp add: wr_cell_def heap_simps set_pprev_def set_cell.simps)+

lemma hseg_append: "hseg h c (us @ vs) \<longleftrightarrow> hseg h c us \<and> hseg h (end_cell c us) vs"
  by (induction us arbitrary: c) (auto simp: end_cell_def)

lemma end_cell_simps [simp]:
  "end_cell c [] = c" "end_cell c (a # as) = end_cell (Next a) as" "end_cell c (us @ vs) = end_cell (end_cell c us) vs"
  by (auto simp: end_cell_def)

text \<open>The cells read on the way, which do not include the one at the end.\<close>

fun seg_cells :: "hl_cell \<Rightarrow> addr list \<Rightarrow> hl_cell set" where
  "seg_cells c [] = {}"
| "seg_cells c (a # as) = insert c (seg_cells (Next a) as)"

lemma seg_cells_sub: "seg_cells c xs \<subseteq> insert c (Next ` set xs)"
  by (induction xs arbitrary: c) auto

lemma end_cell_fresh: "distinct xs \<Longrightarrow> c \<notin> Next ` set xs \<Longrightarrow> end_cell c xs \<notin> seg_cells c xs"
proof (induction xs arbitrary: c)
  case (Cons a xs)
  have "end_cell (Next a) xs \<noteq> c"
    using Cons.prems by (auto simp: end_cell_def)
  then show ?case
    using Cons by auto
qed simp

lemma hseg_cong:
  assumes "\<And>d. d \<in> seg_cells c xs \<Longrightarrow> cell_val h' d = cell_val h d"
    and "\<And>a. a \<in> set xs \<Longrightarrow> hl_pprev h' a = hl_pprev h a"
  shows "hseg h' c xs = hseg h c xs"
  using assms
proof (induction xs arbitrary: c)
  case (Cons a xs)
  have "hseg h' (Next a) xs = hseg h (Next a) xs"
    by (rule Cons.IH) (use Cons.prems in auto)
  then show ?case
    using Cons.prems by simp
qed simp

lemma hseg_node: "hseg h c xs \<Longrightarrow> a \<in> set xs \<Longrightarrow> a \<noteq> NULL"
  by (induction xs arbitrary: c) auto

lemma hlist_node: "hlist h l xs \<Longrightarrow> a \<in> set xs \<Longrightarrow> a \<noteq> NULL"
  using hseg_node by (auto simp: hlist_def)

text \<open>A list seen from one position: what leads to it, and what follows.\<close>

lemma hlist_split:
  "hlist h l (us @ vs) \<longleftrightarrow> l \<noteq> NULL \<and> distinct (us @ vs) \<and> hseg h (First l) us \<and>
     hseg h (end_cell (First l) us) vs \<and> cell_val h (end_cell (end_cell (First l) us) vs) = NULL"
  by (auto simp: hlist_def hseg_append)

lemma end_cell_addr: "l \<noteq> NULL \<Longrightarrow> hseg h (First l) us \<Longrightarrow> cell_addr (end_cell (First l) us) \<noteq> NULL"
  using hseg_node [of h "First l" us "last us"] by (auto simp: end_cell_def)

lemma end_cell_apart:
  assumes "distinct (us @ vs)"
  shows "end_cell (First l) us \<notin> seg_cells (First l) us" "end_cell (First l) us \<notin> Next ` set vs"
proof -
  show "end_cell (First l) us \<notin> seg_cells (First l) us"
    using assms end_cell_fresh [of us "First l"] by auto
  have "us \<noteq> [] \<Longrightarrow> last us \<notin> set vs"
    using assms by (metis disjoint_iff distinct_append last_in_set)
  then show "end_cell (First l) us \<notin> Next ` set vs"
    by (auto simp: end_cell_def)
qed

subsection \<open>What the operations make of the lists\<close>

lemma hlist_unlink_list:
  assumes "hlist h l (us @ a # vs)"
  shows "\<exists>h'. hlist_unlink h a = Some h' \<and> hlist h' l (us @ vs)"
proof -
  define c where "c = end_cell (First l) us"
  define b where "b = cell_val h (Next a)"
  define h' where "h' = set_pprev (set_cell h c b) b (Some c)"
  have segs: "hseg h (First l) us" "hl_pprev h a = Some c" "hseg h (Next a) vs" "a \<noteq> NULL" "l \<noteq> NULL"
      "cell_val h (end_cell (Next a) vs) = NULL" "distinct (us @ a # vs)"
    using assms by (simp_all add: hlist_split c_def)
  have c: "cell_addr c \<noteq> NULL" "c \<notin> seg_cells (First l) us" "c \<notin> Next ` set (a # vs)"
    using end_cell_addr [OF segs(5,1)] end_cell_apart [OF segs(7)] unfolding c_def by auto
  have "hl_next h a = b"
    by (simp add: b_def)
  then have eq: "hlist_unlink h a = Some h'"
    using segs c(1) by (simp add: hlist_unlink_def stores_as_set h'_def)
  have "b \<notin> set us"
    using segs(3,6,7) hseg_node [OF segs(1)] by (cases vs) (auto simp: b_def)
  then have "hseg h' (First l) us = hseg h (First l) us"
    by (intro hseg_cong) (use c in \<open>auto simp: h'_def\<close>)
  moreover have "hseg h' c vs \<and> cell_val h' (end_cell c vs) = NULL"
  proof (cases vs)
    case Nil
    then show ?thesis
      using segs(6) by (simp add: h'_def b_def)
  next
    case (Cons x ys)
    have x: "b = x" "x \<noteq> NULL"
      using segs(3) Cons by (simp_all add: b_def)
    have "hseg h' (Next x) ys = hseg h (Next x) ys"
      by (rule hseg_cong) (use c(3) segs(7) seg_cells_sub [of "Next x" ys] Cons x in \<open>auto simp: h'_def\<close>)
    moreover have "end_cell (Next x) ys \<noteq> c"
      using c(3) Cons by (auto simp: end_cell_def)
    ultimately show ?thesis
      using segs(3,6) Cons x by (auto simp: h'_def)
  qed
  ultimately have "hlist h' l (us @ vs)"
    using segs by (simp add: hlist_split c_def)
  then show ?thesis
    using eq by blast
qed

text \<open>A node put in at a cell: it takes over what the cell led to.\<close>

lemma hlist_insert_list:
  assumes "hlist h l (us @ vs)" "n \<noteq> NULL" "n \<notin> set (us @ vs)"
  defines "c \<equiv> end_cell (First l) us"
  defines "b \<equiv> cell_val h c"
  assumes "\<And>d. cell_val h' d = (if d = Next n then b else if d = c then n else cell_val h d)"
    and "\<And>x. hl_pprev h' x = (if x = n then Some c else if b \<noteq> NULL \<and> x = b then Some (Next n) else hl_pprev h x)"
  shows "hlist h' l (us @ n # vs)"
proof -
  have segs: "hseg h (First l) us" "hseg h c vs" "l \<noteq> NULL" "cell_val h (end_cell c vs) = NULL" "distinct (us @ vs)"
    using assms(1) by (simp_all add: hlist_split c_def)
  have c: "c \<notin> seg_cells (First l) us" "c \<notin> Next ` set (n # vs)"
    using segs(5) assms(3) end_cell_apart [of us "n # vs"] unfolding c_def by auto
  have b: "b = (if vs = [] then NULL else hd vs)"
    using segs(2,4) by (cases vs) (simp_all add: b_def)
  have "b \<notin> set us"
    using b segs(5) hseg_node [OF segs(1)] by (cases vs) auto
  then have "hseg h' (First l) us = hseg h (First l) us"
    by (intro hseg_cong) (use c assms(3) seg_cells_sub [of "First l" us] in \<open>auto simp: assms(6,7)\<close>)
  moreover have "hseg h' (Next n) vs \<and> cell_val h' (end_cell (Next n) vs) = NULL"
  proof (cases vs)
    case Nil
    then show ?thesis
      using b assms(6) [of "Next n"] by simp
  next
    case (Cons x ys)
    have x: "b = x" "x \<noteq> NULL" "x \<noteq> n"
      using segs(2) b Cons assms(3) by auto
    have "hseg h' (Next x) ys = hseg h (Next x) ys"
      by (rule hseg_cong) (use c(2) segs(5) assms(3) seg_cells_sub [of "Next x" ys] Cons x in \<open>auto simp: assms(6,7)\<close>)
    moreover have "end_cell (Next x) ys \<noteq> c" "end_cell (Next x) ys \<noteq> Next n"
      using c(2) Cons assms(3) by (auto simp: end_cell_def)
    ultimately show ?thesis
      using segs(2,4) Cons x assms(6) [of "Next n"] by (auto simp: assms(6,7))
  qed
  moreover have "c \<noteq> Next n"
    using c(2) by auto
  ultimately show ?thesis
    using segs assms(2,3) by (auto simp: hlist_split c_def [symmetric] assms(6,7))
qed

text \<open>A node that is not on the list can be written.\<close>

lemma hlist_frame:
  assumes "hlist h l xs"
    and "\<And>d. d = First l \<or> d \<in> Next ` set xs \<Longrightarrow> cell_val h' d = cell_val h d"
    and "\<And>a. a \<in> set xs \<Longrightarrow> hl_pprev h' a = hl_pprev h a"
  shows "hlist h' l xs"
proof -
  have "hseg h' (First l) xs = hseg h (First l) xs"
    by (rule hseg_cong) (use assms(2,3) seg_cells_sub [of "First l" xs] in blast)+
  moreover have "cell_val h' (end_cell (First l) xs) = cell_val h (end_cell (First l) xs)"
    by (rule assms(2)) (auto simp: end_cell_def)
  ultimately show ?thesis
    using assms(1) by (simp add: hlist_def)
qed

lemma hlist_add_head_list:
  assumes "hlist h l xs" "n \<noteq> NULL" "n \<notin> set xs"
  shows "\<exists>h'. hlist_add_head h n l = Some h' \<and> hlist h' l (n # xs)"
proof -
  define b where "b = cell_val h (First l)"
  define h' where "h' = set_pprev (set_cell (set_pprev (set_cell h (Next n) b) b (Some (Next n))) (First l) n) n (Some (First l))"
  have l: "l \<noteq> NULL" "hl_first h l = b"
    using assms(1) by (simp_all add: hlist_def b_def)
  have "hlist_add_head h n l = Some h'"
    using l assms(2) by (simp add: hlist_add_head_def stores_as_set h'_def)
  moreover have "hlist h' l ([] @ n # xs)"
    by (rule hlist_insert_list [of h]) (use assms l in \<open>auto simp: h'_def b_def\<close>)
  ultimately show ?thesis
    by simp
qed

lemma hlist_add_before_list:
  assumes "hlist h l (us @ b # vs)" "n \<noteq> NULL" "n \<notin> set (us @ b # vs)"
  shows "\<exists>h'. hlist_add_before h n b = Some h' \<and> hlist h' l (us @ n # b # vs)"
proof -
  define c where "c = end_cell (First l) us"
  define h' where "h' = set_cell (set_pprev (set_cell (set_pprev h n (Some c)) (Next n) b) b (Some (Next n))) c n"
  have at: "hl_pprev h b = Some c" "cell_val h c = b" "b \<noteq> NULL" "cell_addr c \<noteq> NULL" "n \<noteq> b"
    using assms end_cell_addr by (auto simp: hlist_split c_def)
  have "c \<noteq> Next n"
    using end_cell_apart(2) [of us "n # b # vs" l] assms by (auto simp: hlist_def c_def)
  moreover have "hlist_add_before h n b = Some h'"
    using at assms(2) by (simp add: hlist_add_before_def stores_as_set h'_def)
  moreover have "hlist h' l (us @ n # b # vs)"
    by (rule hlist_insert_list [of h]) (use assms at \<open>c \<noteq> Next n\<close> in \<open>auto simp: h'_def c_def [symmetric]\<close>)
  ultimately show ?thesis
    by simp
qed

lemma hlist_add_after_list:
  assumes "hlist h l (us @ a # vs)" "n \<noteq> NULL" "n \<notin> set (us @ a # vs)"
  shows "\<exists>h'. hlist_add_after h a n = Some h' \<and> hlist h' l (us @ a # n # vs)"
proof -
  define b where "b = cell_val h (Next a)"
  define h' where "h' = set_pprev (set_pprev (set_cell (set_cell h (Next n) b) (Next a) n) n (Some (Next a))) b (Some (Next n))"
  have at: "hl_next h a = b" "a \<noteq> NULL" "n \<noteq> a"
    using assms by (auto simp: hlist_split b_def)
  have "b = (if vs = [] then NULL else hd vs)"
    using assms(1) by (cases vs) (simp_all add: hlist_split b_def)
  then have b: "b \<noteq> n"
    using assms(2,3) by (cases vs) auto
  have "hlist_add_after h a n = Some h'"
    using at assms(2) by (simp add: hlist_add_after_def stores_as_set h'_def)
  moreover have "hlist h' l ((us @ [a]) @ n # vs)"
    by (rule hlist_insert_list [of h]) (use assms at b in \<open>auto simp: h'_def\<close>)
  ultimately show ?thesis
    by simp
qed

lemma hlist_del_list:
  assumes "hlist h l (us @ a # vs)"
  shows "\<exists>h'. hlist_del h a = Some h' \<and> hlist h' l (us @ vs) \<and> hl_next h' a = LIST_POISON1 \<and> hl_pprev h' a = LIST_POISON2_cell"
    "\<exists>h'. hlist_del_init h a = Some h' \<and> hlist h' l (us @ vs) \<and> hlist_unhashed h' a = Some True"
proof -
  obtain h1 where h1: "hlist_unlink h a = Some h1" "hlist h1 l (us @ vs)"
    using hlist_unlink_list [OF assms] by blast
  have a: "a \<noteq> NULL" "a \<notin> set (us @ vs)" "hl_pprev h a \<noteq> None"
    using assms by (auto simp: hlist_split)
  define h2 where "h2 = set_pprev (set_cell h1 (Next a) NULL) a None"
  have "hlist h2 l (us @ vs)"
    by (rule hlist_frame [OF h1(2)]) (use a in \<open>auto simp: h2_def\<close>)
  moreover have "hlist_del h a = Some h2" "hlist_del_init h a = Some h2"
    using h1(1) a by (simp_all add: hlist_del_def hlist_del_init_def hlist_unhashed_def INIT_HLIST_NODE_def
        stores_as_set h2_def LIST_POISON1_def LIST_POISON2_cell_def)
  moreover have "hl_next h2 a = LIST_POISON1" "hl_pprev h2 a = None"
    using a(1) by (auto simp: h2_def LIST_POISON1_def set_pprev_def)
  ultimately show "\<exists>h'. hlist_del h a = Some h' \<and> hlist h' l (us @ vs) \<and> hl_next h' a = LIST_POISON1 \<and> hl_pprev h' a = LIST_POISON2_cell"
      "\<exists>h'. hlist_del_init h a = Some h' \<and> hlist h' l (us @ vs) \<and> hlist_unhashed h' a = Some True"
    using a(1) by (simp_all add: hlist_unhashed_def stores_as_set LIST_POISON2_cell_def)
qed

lemma hlist_move_list_list:
  assumes "hlist h old xs" "new \<noteq> NULL" "new \<noteq> old"
  shows "\<exists>h'. hlist_move_list h old new = Some h' \<and> hlist h' new xs \<and> hlist h' old []"
proof -
  define b where "b = cell_val h (First old)"
  define h' where "h' = set_cell (set_pprev (set_cell h (First new) b) b (Some (First new))) (First old) NULL"
  have o: "old \<noteq> NULL" "hl_first h old = b"
    using assms(1) by (simp_all add: hlist_def b_def)
  have eq: "hlist_move_list h old new = Some h'"
    using o assms(2) by (simp add: hlist_move_list_def stores_as_set h'_def)
  have old: "hl_first h' old = NULL"
    using assms(3) by (auto simp: h'_def set_pprev_def)
  have "hseg h' (First new) xs \<and> cell_val h' (end_cell (First new) xs) = NULL"
  proof (cases xs)
    case Nil
    then have "b = NULL"
      using assms(1) by (simp add: hlist_def b_def)
    then show ?thesis
      using Nil assms(3) by (simp add: h'_def)
  next
    case (Cons x ys)
    have x: "b = x" "x \<noteq> NULL" "hseg h (Next x) ys" "x \<notin> set ys" "cell_val h (end_cell (Next x) ys) = NULL"
      using assms(1) Cons by (simp_all add: hlist_def b_def)
    have "hseg h' (Next x) ys = hseg h (Next x) ys"
      by (rule hseg_cong) (use x(4) seg_cells_sub [of "Next x" ys] x(1) in \<open>auto simp: h'_def\<close>)
    moreover have "cell_val h' (First new) = x" "cell_val h' (end_cell (Next x) ys) = NULL"
      using assms(3) x by (auto simp: h'_def end_cell_def set_pprev_def)
    ultimately show ?thesis
      using Cons x by (simp add: h'_def)
  qed
  then show ?thesis
    using eq old assms o(1) by (simp add: hlist_def)
qed

subsection \<open>Loops that survive the removal of the node they are at\<close>

lemma hl_loop_safe_invariant:
  assumes step: "\<And>h s us a vs. I h s us (a # vs) \<Longrightarrow> \<exists>h' s' us'. body (h, s) a = Some (h', s') \<and> I h' s' us' vs"
    and list: "\<And>h s us vs. I h s us vs \<Longrightarrow> hlist h l (us @ vs)"
    and "I h s us vs" "pos = (if vs = [] then NULL else hd vs)"
  shows "\<exists>h' s' us'. hl_loop_safe body (h, s) pos = Some (h', s') \<and> I h' s' us' []"
  using assms(3,4)
proof (induction vs arbitrary: h s us pos)
  case Nil
  then show ?case by (auto simp: hl_loop_safe.simps)
next
  case (Cons a vs)
  obtain h' s' us' where b: "body (h, s) a = Some (h', s')" "I h' s' us' vs"
    using step [OF Cons.prems(1)] by blast
  have a: "a \<noteq> NULL"
    using list [OF Cons.prems(1)] by (simp add: hlist_split)
  have "cell_val h (Next a) = (if vs = [] then NULL else hd vs)"
    using list [OF Cons.prems(1)] by (cases vs) (simp_all add: hlist_split)
  then have n: "rd_hnext h a = Some (if vs = [] then NULL else hd vs)"
    using a by (simp add: heap_simps)
  from Cons.IH [OF b(2) refl] show ?case
    using a b(1) n Cons.prems(2) by (subst hl_loop_safe.simps) simp
qed

definition hdelete_if :: "(addr \<Rightarrow> bool) \<Rightarrow> addr list hl_body" where
  "hdelete_if doomed st a =
     (if doomed a then do {
        h \<leftarrow> hlist_del (fst st) a;
        Some (h, snd st @ [a])
      } else Some st)"

lemma hlist_for_each_safe_delete:
  assumes "hlist h l xs"
  shows "\<exists>h'. hlist_for_each_safe (hdelete_if doomed) (h, []) l = Some (h', filter doomed xs) \<and>
    hlist h' l (filter (\<lambda>a. \<not> doomed a) xs)"
proof -
  define I where "I h s us vs \<longleftrightarrow> hlist h l (us @ vs) \<and>
    us @ filter (\<lambda>a. \<not> doomed a) vs = filter (\<lambda>a. \<not> doomed a) xs \<and> s @ filter doomed vs = filter doomed xs" for h s us vs
  have step: "\<exists>h' s' us'. hdelete_if doomed (h, s) a = Some (h', s') \<and> I h' s' us' vs" if I: "I h s us (a # vs)" for h s us a vs
  proof (cases "doomed a")
    case True
    obtain h' where "hlist_del h a = Some h'" "hlist h' l (us @ vs)"
      using hlist_del_list(1) I I_def by blast
    then have "hdelete_if doomed (h, s) a = Some (h', s @ [a])" "I h' (s @ [a]) us vs"
      using I True by (simp_all add: hdelete_if_def I_def)
    then show ?thesis by blast
  next
    case False
    then have "hdelete_if doomed (h, s) a = Some (h, s)" "I h s (us @ [a]) vs"
      using I by (simp_all add: hdelete_if_def I_def)
    then show ?thesis by blast
  qed
  have "rd_first h l = Some (if xs = [] then NULL else hd xs)"
    using assms by (cases xs) (simp_all add: hlist_def heap_simps)
  moreover have "I h [] [] xs"
    using assms by (simp add: I_def)
  ultimately show ?thesis
    using hl_loop_safe_invariant [of I "hdelete_if doomed" l h "[]" "[]" xs, OF step _ _ refl]
    by (fastforce simp: I_def hlist_for_each_safe_def)
qed

subsection \<open>Sequences of operations\<close>

datatype hl_op = Add_Head addr | Add_Before addr addr | Add_After addr addr | Delete addr | Delete_Init addr

fun hl_step :: "addr \<Rightarrow> hl_heap \<Rightarrow> hl_op \<Rightarrow> hl_heap option" where
  "hl_step l h (Add_Head n) = hlist_add_head h n l"
| "hl_step l h (Add_Before n b) = hlist_add_before h n b"
| "hl_step l h (Add_After a n) = hlist_add_after h a n"
| "hl_step l h (Delete a) = hlist_del h a"
| "hl_step l h (Delete_Init a) = hlist_del_init h a"

fun hl_run :: "addr \<Rightarrow> hl_heap \<Rightarrow> hl_op list \<Rightarrow> hl_heap option" where
  "hl_run l h [] = Some h"
| "hl_run l h (op # ops) = (hl_step l h op \<bind> (\<lambda>h. hl_run l h ops))"

text \<open>The same on the list of nodes, with the use each operation allows.\<close>

fun list_step :: "addr list \<Rightarrow> hl_op \<Rightarrow> addr list" where
  "list_step xs (Add_Head n) = n # xs"
| "list_step xs (Add_Before n b) = takeWhile (\<lambda>x. x \<noteq> b) xs @ n # dropWhile (\<lambda>x. x \<noteq> b) xs"
| "list_step xs (Add_After a n) = takeWhile (\<lambda>x. x \<noteq> a) xs @ a # n # tl (dropWhile (\<lambda>x. x \<noteq> a) xs)"
| "list_step xs (Delete a) = remove1 a xs"
| "list_step xs (Delete_Init a) = remove1 a xs"

fun allowed :: "addr list \<Rightarrow> hl_op \<Rightarrow> bool" where
  "allowed xs (Add_Head n) \<longleftrightarrow> n \<noteq> NULL \<and> n \<notin> set xs"
| "allowed xs (Add_Before n b) \<longleftrightarrow> n \<noteq> NULL \<and> n \<notin> set xs \<and> b \<in> set xs"
| "allowed xs (Add_After a n) \<longleftrightarrow> n \<noteq> NULL \<and> n \<notin> set xs \<and> a \<in> set xs"
| "allowed xs (Delete a) \<longleftrightarrow> a \<in> set xs"
| "allowed xs (Delete_Init a) \<longleftrightarrow> a \<in> set xs"

fun all_allowed :: "addr list \<Rightarrow> hl_op list \<Rightarrow> bool" where
  "all_allowed xs [] \<longleftrightarrow> True"
| "all_allowed xs (op # ops) \<longleftrightarrow> allowed xs op \<and> all_allowed (list_step xs op) ops"

lemma hl_step_list:
  assumes "hlist h l xs" "allowed xs op"
  shows "\<exists>h'. hl_step l h op = Some h' \<and> hlist h' l (list_step xs op)"
proof -
  have at: "takeWhile (\<lambda>x. x \<noteq> b) (us @ b # vs) = us" "dropWhile (\<lambda>x. x \<noteq> b) (us @ b # vs) = b # vs"
      "remove1 b (us @ b # vs) = us @ vs" if "b \<notin> set us" for b and us vs :: "addr list"
    using that by (induction us) auto
  show ?thesis
  proof (cases op)
    case (Add_Head n)
    then show ?thesis
      using assms hlist_add_head_list by simp
  next
    case (Add_Before n b)
    then obtain us vs where "xs = us @ b # vs" "b \<notin> set us"
      using assms(2) split_list_first [of b xs] by auto
    then show ?thesis
      using assms Add_Before at hlist_add_before_list [of h l us b vs n] by auto
  next
    case (Add_After a n)
    then obtain us vs where "xs = us @ a # vs" "a \<notin> set us"
      using assms(2) split_list_first [of a xs] by auto
    then show ?thesis
      using assms Add_After at hlist_add_after_list [of h l us a vs n] by auto
  next
    case (Delete a)
    then obtain us vs where "xs = us @ a # vs" "a \<notin> set us"
      using assms(2) split_list_first [of a xs] by auto
    then show ?thesis
      using assms Delete at hlist_del_list(1) [of h l us a vs] by auto
  next
    case (Delete_Init a)
    then obtain us vs where "xs = us @ a # vs" "a \<notin> set us"
      using assms(2) split_list_first [of a xs] by auto
    then show ?thesis
      using assms Delete_Init at hlist_del_list(2) [of h l us a vs] by auto
  qed
qed

text \<open>
  C39: The \<open>hlist\<close> operations refine lists: from a well-formed list, any sequence of additions at the head,
  before or after a node on the list, and of removals of nodes on the list runs without touching null, and
  its result is the well-formed list the same sequence makes of the list of nodes.
\<close>

theorem hlist_refines_list:
  assumes "hlist h l xs" "all_allowed xs ops"
  shows "\<exists>h'. hl_run l h ops = Some h' \<and> hlist h' l (foldl list_step xs ops)"
  using assms
proof (induction ops arbitrary: h xs)
  case (Cons op ops)
  then show ?case
    using hl_step_list [of h l xs op] Cons.IH [of _ "list_step xs op"] by auto
qed simp

theorem hlist_refines_list_witness:
  "\<exists>h'. hl_run 1 \<lparr>hl_first = (\<lambda>_. NULL), hl_next = (\<lambda>_. NULL), hl_pprev = (\<lambda>_. None)\<rparr>
      [Add_Head 2, Add_After 2 3, Add_Before 4 3, Delete 2] = Some h' \<and>
    hlist h' 1 (foldl list_step [] [Add_Head 2, Add_After 2 3, Add_Before 4 3, Delete 2])"
  by (rule hlist_refines_list) (simp_all add: hlist_def)

end
