(* ===== verification/Kernel_Queue.thy ===== *)
theory Kernel_Queue
  imports Kernel_Loops
begin

text \<open>
  The queue of \<open>linux_kenel_list/src/queue.c\<close> on a \<open>list_head\<close>: new entries go in at the tail, \<open>out_queue\<close>
  takes the first one out and initialises it.  The abstract queue is the list of its entries.
\<close>

definition queue_creat :: "list_head \<Rightarrow> addr \<Rightarrow> list_head option" where
  "queue_creat h list = INIT_LIST_HEAD h list"

definition in_queue :: "list_head \<Rightarrow> addr \<Rightarrow> addr \<Rightarrow> list_head option" where
  "in_queue h new head = list_add_tail h new head"

definition out_queue :: "list_head \<Rightarrow> addr \<Rightarrow> list_head option" where
  "out_queue h head = do {
     n \<leftarrow> rd_next h head;
     list_del_init h n
   }"

text \<open>The counter is an \<open>int\<close>; counting past its range has no defined result.\<close>

definition count_node :: "int loop_body" where
  "count_node st a = (if snd st < 2147483647 then Some (fst st, snd st + 1) else None)"

definition get_queue_size :: "list_head \<Rightarrow> addr \<Rightarrow> int option" where
  "get_queue_size h head =
     (if head = NULL then Some (-1)
      else do {
        st \<leftarrow> list_for_each count_node (h, 0) head;
        Some (snd st)
      })"

definition is_empt_queue :: "list_head \<Rightarrow> addr \<Rightarrow> bool option" where
  "is_empt_queue h head = list_empty h head"

subsection \<open>The abstract queue\<close>

datatype queue_op = In addr | Out

fun fifo :: "addr list \<Rightarrow> queue_op \<Rightarrow> addr list" where
  "fifo xs (In a) = xs @ [a]"
| "fifo xs Out = tl xs"

fun queue_step :: "addr \<Rightarrow> list_head \<Rightarrow> queue_op \<Rightarrow> list_head option" where
  "queue_step q h (In a) = in_queue h a q"
| "queue_step q h Out = out_queue h q"

fun queue_run :: "addr \<Rightarrow> list_head \<Rightarrow> queue_op list \<Rightarrow> list_head option" where
  "queue_run q h [] = Some h"
| "queue_run q h (op # ops) = (queue_step q h op \<bind> (\<lambda>h. queue_run q h ops))"

text \<open>An entry put in must not be null, the head, or on the queue already.\<close>

fun well_used :: "addr \<Rightarrow> addr list \<Rightarrow> queue_op list \<Rightarrow> bool" where
  "well_used q xs [] \<longleftrightarrow> True"
| "well_used q xs (op # ops) \<longleftrightarrow>
     (case op of In a \<Rightarrow> a \<noteq> NULL \<and> a \<notin> set (q # xs) | Out \<Rightarrow> True) \<and> well_used q (fifo xs op) ops"

lemma in_queue_ring:
  assumes "ring h q xs" "a \<noteq> NULL" "a \<notin> set (q # xs)"
  shows "\<exists>h'. in_queue h a q = Some h' \<and> ring h' q (xs @ [a])"
  using list_add_tail_ring [OF assms] unfolding in_queue_def by blast

lemma list_del_init_eq: "list_del_init = (\<lambda>h a. list_del_entry h a \<bind> (\<lambda>h. INIT_LIST_HEAD h a))"
  by (simp add: list_del_init_def fun_eq_iff)

text \<open>Taking out of an empty queue unlinks and initialises the head, which leaves it empty.\<close>

lemma out_queue_ring:
  assumes "ring h q xs"
  shows "\<exists>h'. out_queue h q = Some h' \<and> ring h' q (tl xs) \<and> (xs \<noteq> [] \<longrightarrow> ring h' (hd xs) [])"
proof (cases xs)
  case Nil
  then have q: "q \<noteq> NULL" "dl_next h q = q" "dl_prev h q = q"
    using assms by (simp_all add: ring_def)
  then have "out_queue h q = INIT_LIST_HEAD (h\<lparr>dl_prev := (dl_prev h)(q := q), dl_next := (dl_next h)(q := q)\<rparr>) q"
    by (simp add: out_queue_def list_del_init_def list_del_entry_def list_del_between_def heap_simps)
  then show ?thesis
    using INIT_LIST_HEAD_ring [OF q(1)] Nil by fastforce
next
  case (Cons a ys)
  obtain h' where "list_del_init h a = Some h'" "ring h' q ys" "ring h' a []"
    using lh.take_out_init [of h q a ys] assms Cons by (auto simp: list_del_init_eq)
  moreover have "rd_next h q = Some a"
    using ring_ends [OF assms] Cons by simp
  ultimately show ?thesis
    using Cons by (simp add: out_queue_def)
qed

lemma queue_run_ring:
  assumes "ring h q xs" "well_used q xs ops"
  shows "\<exists>h'. queue_run q h ops = Some h' \<and> ring h' q (foldl fifo xs ops)"
  using assms
proof (induction ops arbitrary: h xs)
  case (Cons op ops)
  have "\<exists>h1. queue_step q h op = Some h1 \<and> ring h1 q (fifo xs op)"
    using Cons.prems in_queue_ring out_queue_ring by (cases op) fastforce+
  then show ?case
    using Cons.IH [of _ "fifo xs op"] Cons.prems(2) by auto
qed simp

lemma visit_count:
  "0 \<le> s \<Longrightarrow> s + int (length xs) \<le> 2147483647 \<Longrightarrow> visit count_node (h, s) xs = Some (h, s + int (length xs))"
  by (induction xs arbitrary: s) (auto simp: count_node_def)

lemma get_queue_size_ring:
  assumes "ring h q xs" "length xs \<le> 2147483647"
  shows "get_queue_size h q = Some (int (length xs))"
proof -
  have "list_for_each count_node (h, 0) q = visit count_node (h, 0) xs"
    by (rule list_for_each_visit [OF assms(1)]) (auto simp: count_node_def split: if_splits)
  then show ?thesis
    using assms visit_count [of 0 xs h] by (simp add: get_queue_size_def ring_NULL)
qed

text \<open>
  The queue refines a list: from a well-formed queue, any sequence of \<open>in_queue\<close> of entries not on it and
  \<open>out_queue\<close>, on the empty queue too, runs without touching null and ends in the queue whose entries are
  those of the abstract FIFO list; \<open>get_queue_size\<close> returns its length while that fits an \<open>int\<close> and
  \<open>is_empt_queue\<close> tells whether it is empty.
\<close>

theorem queue_refines_fifo:
  assumes "ring h q xs" "well_used q xs ops"
  shows "\<exists>h'. queue_run q h ops = Some h' \<and> ring h' q (foldl fifo xs ops) \<and>
    (length (foldl fifo xs ops) \<le> 2147483647 \<longrightarrow>
       get_queue_size h' q = Some (int (length (foldl fifo xs ops)))) \<and>
    is_empt_queue h' q = Some (foldl fifo xs ops = [])"
  using queue_run_ring [OF assms] get_queue_size_ring list_empty_ring unfolding is_empt_queue_def by blast

theorem queue_refines_fifo_witness:
  "\<exists>h'. queue_run 1 \<lparr>dl_next = (\<lambda>a. 1), dl_prev = (\<lambda>a. 1)\<rparr> [Out, In 2, In 3, Out] = Some h' \<and>
    ring h' 1 (foldl fifo [] [Out, In 2, In 3, Out]) \<and>
    (length (foldl fifo [] [Out, In 2, In 3, Out]) \<le> 2147483647 \<longrightarrow>
       get_queue_size h' 1 = Some (int (length (foldl fifo [] [Out, In 2, In 3, Out])))) \<and>
    is_empt_queue h' 1 = Some (foldl fifo [] [Out, In 2, In 3, Out] = [])"
  by (rule queue_refines_fifo) (simp_all add: ring_def)

end
