(* ===== verification/Dllist.thy ===== *)
theory Dllist
  imports Kernel_Queue
begin

text \<open>
  The list macros of \<open>dllist/src/dllist.h\<close>, over the heap of \<open>Dl_List\<close>.  The header repeats the operations of
  \<open>eloop/src/list.h\<close> and adds replacing, moving and splicing, written after the kernel's; its definitions
  carry the suffix \<open>_dll\<close> here.
\<close>

subsection \<open>The operations of the header\<close>

definition dl_list_init_dll :: "dl_heap \<Rightarrow> addr \<Rightarrow> dl_heap option" where
  "dl_list_init_dll h list = do {
     h \<leftarrow> wr_next h list list;
     wr_prev h list list
   }"

definition dl_list_add_dll :: "dl_heap \<Rightarrow> addr \<Rightarrow> addr \<Rightarrow> dl_heap option" where
  "dl_list_add_dll h list item = do {
     n \<leftarrow> rd_next h list;
     h \<leftarrow> wr_next h item n;
     h \<leftarrow> wr_prev h item list;
     n \<leftarrow> rd_next h list;
     h \<leftarrow> wr_prev h n item;
     wr_next h list item
   }"

definition dl_list_add_tail_dll :: "dl_heap \<Rightarrow> addr \<Rightarrow> addr \<Rightarrow> dl_heap option" where
  "dl_list_add_tail_dll h list item = do {
     p \<leftarrow> rd_prev h list;
     dl_list_add_dll h p item
   }"

definition list_del_dll :: "dl_heap \<Rightarrow> addr \<Rightarrow> addr \<Rightarrow> dl_heap option" where
  "list_del_dll h prev nxt = do {
     h \<leftarrow> wr_prev h nxt prev;
     wr_next h prev nxt
   }"

definition dl_list_del_dll :: "dl_heap \<Rightarrow> addr \<Rightarrow> dl_heap option" where
  "dl_list_del_dll h item = do {
     p \<leftarrow> rd_prev h item;
     n \<leftarrow> rd_next h item;
     h \<leftarrow> list_del_dll h p n;
     h \<leftarrow> wr_next h item NULL;
     wr_prev h item NULL
   }"

definition dl_list_empty_dll :: "dl_heap \<Rightarrow> addr \<Rightarrow> bool option" where
  "dl_list_empty_dll h list = do {
     n \<leftarrow> rd_next h list;
     Some (n = list)
   }"

text \<open>The counter is an \<open>int\<close>, converted to \<open>unsigned int\<close> at the end.\<close>

partial_function (option) dl_list_count_dll :: "dl_heap \<Rightarrow> addr \<Rightarrow> addr \<Rightarrow> int \<Rightarrow> int option" where
  "dl_list_count_dll h list item count =
     (if item = list then Some count
      else if count < 2147483647 then rd_next h item \<bind> (\<lambda>n. dl_list_count_dll h list n (count + 1))
      else None)"

definition dl_list_len_dll :: "dl_heap \<Rightarrow> addr \<Rightarrow> 32 word option" where
  "dl_list_len_dll h list = do {
     item \<leftarrow> rd_next h list;
     count \<leftarrow> dl_list_count_dll h list item 0;
     Some (word_of_int count)
   }"

definition dl_list_replace_dll :: "dl_heap \<Rightarrow> addr \<Rightarrow> addr \<Rightarrow> dl_heap option" where
  "dl_list_replace_dll h old new = do {
     n \<leftarrow> rd_next h old;
     h \<leftarrow> wr_next h new n;
     n \<leftarrow> rd_next h new;
     h \<leftarrow> wr_prev h n new;
     p \<leftarrow> rd_prev h old;
     h \<leftarrow> wr_prev h new p;
     p \<leftarrow> rd_prev h new;
     wr_next h p new
   }"

definition dl_list_replace_init_dll :: "dl_heap \<Rightarrow> addr \<Rightarrow> addr \<Rightarrow> dl_heap option" where
  "dl_list_replace_init_dll h old new = do {
     h \<leftarrow> dl_list_replace_dll h old new;
     dl_list_init_dll h old
   }"

definition dl_list_move_dll :: "dl_heap \<Rightarrow> addr \<Rightarrow> addr \<Rightarrow> dl_heap option" where
  "dl_list_move_dll h item head = do {
     p \<leftarrow> rd_prev h item;
     n \<leftarrow> rd_next h item;
     h \<leftarrow> list_del_dll h p n;
     dl_list_add_dll h head item
   }"

definition dl_list_move_tail_dll :: "dl_heap \<Rightarrow> addr \<Rightarrow> addr \<Rightarrow> dl_heap option" where
  "dl_list_move_tail_dll h item head = do {
     p \<leftarrow> rd_prev h item;
     n \<leftarrow> rd_next h item;
     h \<leftarrow> list_del_dll h p n;
     dl_list_add_tail_dll h head item
   }"

definition dl_list_splice_after_dll :: "dl_heap \<Rightarrow> addr \<Rightarrow> addr \<Rightarrow> dl_heap option" where
  "dl_list_splice_after_dll h list head = do {
     first \<leftarrow> rd_next h list;
     last \<leftarrow> rd_prev h list;
     at \<leftarrow> rd_next h head;
     h \<leftarrow> wr_prev h first head;
     h \<leftarrow> wr_next h head first;
     h \<leftarrow> wr_next h last at;
     wr_prev h at last
   }"

definition dl_list_splice_dll :: "dl_heap \<Rightarrow> addr \<Rightarrow> addr \<Rightarrow> dl_heap option" where
  "dl_list_splice_dll h list head = do {
     e \<leftarrow> dl_list_empty_dll h list;
     if \<not> e then dl_list_splice_after_dll h list head else Some h
   }"

definition dl_list_splice_init_dll :: "dl_heap \<Rightarrow> addr \<Rightarrow> addr \<Rightarrow> dl_heap option" where
  "dl_list_splice_init_dll h list head = do {
     e \<leftarrow> dl_list_empty_dll h list;
     if \<not> e then do {
       h \<leftarrow> dl_list_splice_after_dll h list head;
       dl_list_init_dll h list
     } else Some h
   }"

definition dl_list_entry_dll :: "addr \<Rightarrow> nat \<Rightarrow> addr" where
  "dl_list_entry_dll item offset = (item + (2 ^ 64 - offset)) mod 2 ^ 64"

definition dl_list_first_dll :: "dl_heap \<Rightarrow> addr \<Rightarrow> nat \<Rightarrow> addr option" where
  "dl_list_first_dll h list offset = do {
     e \<leftarrow> dl_list_empty_dll h list;
     if e then Some NULL else do {
       n \<leftarrow> rd_next h list;
       Some (dl_list_entry_dll n offset)
     }
   }"

definition dl_list_last_dll :: "dl_heap \<Rightarrow> addr \<Rightarrow> nat \<Rightarrow> addr option" where
  "dl_list_last_dll h list offset = do {
     e \<leftarrow> dl_list_empty_dll h list;
     if e then Some NULL else do {
       p \<leftarrow> rd_prev h list;
       Some (dl_list_entry_dll p offset)
     }
   }"

text \<open>The loops are the kernel's loops over objects.\<close>

definition dl_list_for_each_dll :: "'s loop_body \<Rightarrow> 's loop_state \<Rightarrow> addr \<Rightarrow> nat \<Rightarrow> 's loop_state option" where
  "dl_list_for_each_dll body st list offset = do {
     n \<leftarrow> rd_next (fst st) list;
     entry_loop rd_next offset body st (dl_list_entry_dll n offset) list
   }"

definition dl_list_for_each_safe_dll :: "'s loop_body \<Rightarrow> 's loop_state \<Rightarrow> addr \<Rightarrow> nat \<Rightarrow> 's loop_state option" where
  "dl_list_for_each_safe_dll body st list offset = do {
     p \<leftarrow> rd_next (fst st) list;
     n \<leftarrow> rd_next (fst st) (entry_member (dl_list_entry_dll p offset) offset);
     entry_loop_safe rd_next offset body st (dl_list_entry_dll p offset) (dl_list_entry_dll n offset) list
   }"

definition dl_list_for_each_reverse_dll :: "'s loop_body \<Rightarrow> 's loop_state \<Rightarrow> addr \<Rightarrow> nat \<Rightarrow> 's loop_state option" where
  "dl_list_for_each_reverse_dll body st list offset = do {
     p \<leftarrow> rd_prev (fst st) list;
     entry_loop rd_prev offset body st (dl_list_entry_dll p offset) list
   }"

subsection \<open>The same operations as the other list headers\<close>

lemma dll_as_dl:
  "dl_list_init_dll = dl_list_init" "dl_list_add_dll = dl_list_add" "dl_list_add_tail_dll = dl_list_add_tail"
  "dl_list_empty_dll = dl_list_empty"
  by (simp_all add: fun_eq_iff dl_list_init_dll_def dl_list_init_def dl_list_add_dll_def dl_list_add_def
      dl_list_add_tail_dll_def dl_list_add_tail_def dl_list_empty_dll_def dl_list_empty_def)

lemma dll_as_kernel:
  "dl_list_init_dll = INIT_LIST_HEAD" "dl_list_del_dll = list_del" "dl_list_empty_dll = list_empty"
  "dl_list_replace_dll = list_replace" "dl_list_replace_init_dll = list_replace_init"
  "list_del_dll = list_del_between"
  by (simp_all add: fun_eq_iff dl_list_init_dll_def INIT_LIST_HEAD_def dl_list_del_dll_def list_del_def
      list_del_dll_def list_del_between_def LIST_POISON1_def LIST_POISON2_def dl_list_empty_dll_def list_empty_def
      dl_list_replace_dll_def list_replace_def dl_list_replace_init_dll_def list_replace_init_def)

lemma dl_list_splice_after_eq:
  "dl_list_splice_after_dll h l m = (rd_next h m \<bind> list_splice_between h l m)"
  by (cases "rd_next h l"; cases "rd_prev h l"; cases "rd_next h m")
    (simp_all add: dl_list_splice_after_dll_def list_splice_between_def)

lemma dll_splice_as_kernel:
  "dl_list_splice_dll = list_splice" "dl_list_splice_init_dll = list_splice_init"
proof -
  have e: "dl_list_empty_dll h l = list_empty h l" for h l
    by (simp add: dll_as_kernel)
  have "dl_list_splice_dll h l m = list_splice h l m" "dl_list_splice_init_dll h l m = list_splice_init h l m" for h l m
    by (cases "list_empty h l"; cases "rd_next h m";
        simp add: dl_list_splice_dll_def list_splice_def dl_list_splice_init_dll_def list_splice_init_def
          dl_list_splice_after_eq dll_as_kernel(1) e)+
  then show "dl_list_splice_dll = list_splice" "dl_list_splice_init_dll = list_splice_init"
    by (simp_all add: fun_eq_iff)
qed

lemma dl_list_move_eq:
  "dl_list_move_dll h a l = (list_del_entry h a \<bind> (\<lambda>h. dl_list_add h l a))"
  "dl_list_move_tail_dll h a l = (list_del_entry h a \<bind> (\<lambda>h. rd_prev h l \<bind> (\<lambda>p. dl_list_add h p a)))"
  by (cases "rd_prev h a"; cases "rd_next h a";
      simp add: dl_list_move_dll_def dl_list_move_tail_dll_def list_del_entry_def dll_as_kernel(6) dll_as_dl
        dl_list_add_tail_def)+

interpretation dll: dlist_mover dl_list_init_dll dl_list_add_dll list_del_entry
  unfolding dll_as_dl by unfold_locales (rule dl_list_init_ring dl_list_add_ring list_del_entry_ring; assumption)+

interpretation dlld: dlist dl_list_init_dll dl_list_add_dll dl_list_del_dll
  unfolding dll_as_dl dll_as_kernel
  by unfold_locales (use dl_list_init_ring dl_list_add_ring list_del_ring in \<open>blast+\<close>)

lemma dl_list_count_dll_ring:
  assumes "ring h l (xs @ ys)" "0 \<le> k" "k + int (length ys) \<le> 2147483647"
  shows "dl_list_count_dll h l (hd (ys @ [l])) k = Some (k + int (length ys))"
  using assms
proof (induction ys arbitrary: xs k)
  case Nil
  then show ?case by (simp add: dl_list_count_dll.simps)
next
  case (Cons y ys)
  have y: "y \<noteq> l" "y \<noteq> NULL"
    using Cons.prems(1) by (auto dest: ring_distinct ring_NULL)
  have "dl_list_count_dll h l (hd (ys @ [l])) (k + 1) = Some (k + 1 + int (length ys))"
    using Cons.IH [of "xs @ [y]" "k + 1"] Cons.prems by simp
  then show ?case
    using y ring_next_at [OF Cons.prems(1)] Cons.prems(2,3)
    by (subst dl_list_count_dll.simps) (simp add: heap_simps)
qed

lemma dl_list_len_dll_ring:
  assumes "ring h l xs" "length xs \<le> 2147483647"
  shows "dl_list_len_dll h l = Some (word_of_nat (length xs))"
  using dl_list_count_dll_ring [of h l "[]" xs 0] assms ring_ends [OF assms(1)]
  by (simp add: dl_list_len_dll_def)

subsection \<open>Lists of requests\<close>

text \<open>
  Everything the header does to whole lists, as a value: where an entry goes and what it leaves.
\<close>

datatype dll_op = Push addr | Append addr | Remove addr | Raise addr | Lower addr | Swap addr addr

fun dll_step :: "addr \<Rightarrow> dl_heap \<Rightarrow> dll_op \<Rightarrow> dl_heap option" where
  "dll_step l h (Push i) = dl_list_add_dll h l i"
| "dll_step l h (Append i) = dl_list_add_tail_dll h l i"
| "dll_step l h (Remove a) = dl_list_del_dll h a"
| "dll_step l h (Raise a) = dl_list_move_dll h a l"
| "dll_step l h (Lower a) = dl_list_move_tail_dll h a l"
| "dll_step l h (Swap old new) = dl_list_replace_dll h old new"

fun dll_spec :: "addr list \<Rightarrow> dll_op \<Rightarrow> addr list" where
  "dll_spec xs (Push i) = i # xs"
| "dll_spec xs (Append i) = xs @ [i]"
| "dll_spec xs (Remove a) = remove1 a xs"
| "dll_spec xs (Raise a) = a # remove1 a xs"
| "dll_spec xs (Lower a) = remove1 a xs @ [a]"
| "dll_spec xs (Swap old new) = map (\<lambda>x. if x = old then new else x) xs"

fun dll_ok :: "addr \<Rightarrow> addr list \<Rightarrow> dll_op \<Rightarrow> bool" where
  "dll_ok l xs (Push i) \<longleftrightarrow> i \<noteq> NULL \<and> i \<notin> set (l # xs)"
| "dll_ok l xs (Append i) \<longleftrightarrow> i \<noteq> NULL \<and> i \<notin> set (l # xs)"
| "dll_ok l xs (Remove a) \<longleftrightarrow> a \<in> set xs"
| "dll_ok l xs (Raise a) \<longleftrightarrow> a \<in> set xs"
| "dll_ok l xs (Lower a) \<longleftrightarrow> a \<in> set xs"
| "dll_ok l xs (Swap old new) \<longleftrightarrow> old \<in> set xs \<and> new \<noteq> NULL \<and> new \<notin> set (l # xs)"

fun dll_run :: "addr \<Rightarrow> dl_heap \<Rightarrow> dll_op list \<Rightarrow> dl_heap option" where
  "dll_run l h [] = Some h"
| "dll_run l h (op # ops) = (dll_step l h op \<bind> (\<lambda>h. dll_run l h ops))"

fun all_dll_ok :: "addr \<Rightarrow> addr list \<Rightarrow> dll_op list \<Rightarrow> bool" where
  "all_dll_ok l xs [] \<longleftrightarrow> True"
| "all_dll_ok l xs (op # ops) \<longleftrightarrow> dll_ok l xs op \<and> all_dll_ok l (dll_spec xs op) ops"

lemma dll_step_ring:
  assumes "ring h l xs" "dll_ok l xs op"
  shows "\<exists>h'. dll_step l h op = Some h' \<and> ring h' l (dll_spec xs op)"
proof -
  have at: "\<exists>us vs. xs = us @ a # vs \<and> remove1 a xs = us @ vs \<and>
      map (\<lambda>x. if x = a then b else x) xs = us @ b # vs" if a: "a \<in> set xs" for a b
  proof -
    obtain us vs where xs: "xs = us @ a # vs" "a \<notin> set us"
      using split_list_first [OF a] by blast
    have "a \<notin> set vs"
      using assms(1) xs by (auto simp: ring_def)
    then have "map (\<lambda>x. if x = a then b else x) xs = us @ b # vs"
      using xs by (auto intro!: map_idI)
    then show ?thesis
      using xs by (auto simp: remove1_append)
  qed
  show ?thesis
  proof (cases op)
    case (Push i)
    then show ?thesis
      using assms dl_list_add_ring [of h l xs i] by (auto simp: dll_as_dl)
  next
    case (Append i)
    then show ?thesis
      using assms dl.add_tail [of h l xs i] by (auto simp: dll_as_dl dl_list_add_tail_def)
  next
    case (Remove a)
    then show ?thesis
      using assms at [of a a] list_del_at [of h l _ a] by (fastforce simp: dll_as_kernel)
  next
    case (Raise a)
    then show ?thesis
      using assms at [of a a] dll.move_within(1) [of h l _ a] by (fastforce simp: dl_list_move_eq dll_as_dl)
  next
    case (Lower a)
    then show ?thesis
      using assms at [of a a] dll.move_within(2) [of h l _ a] by (fastforce simp: dl_list_move_eq dll_as_dl)
  next
    case (Swap old new)
    then obtain us vs where xs: "xs = us @ old # vs" "map (\<lambda>x. if x = old then new else x) xs = us @ new # vs"
      using assms(2) at [of old new] by auto
    then show ?thesis
      using assms Swap list_replace_at [of h l us old vs new] by (auto simp: dll_as_kernel)
  qed
qed

text \<open>
  C40: The operations of \<open>dllist.h\<close> on the entries of a list refine operations on sequences: from a well-formed
  list, any sequence of insertions at either end, deletions, moves to either end and replacements of
  entries on the list runs without touching null and ends in the well-formed list of the sequence that
  results; \<open>dl_list_len\<close> then returns its length.
\<close>

theorem dllist_refines_sequence:
  assumes "ring h l xs" "all_dll_ok l xs ops" "length (foldl dll_spec xs ops) \<le> 2147483647"
  shows "\<exists>h'. dll_run l h ops = Some h' \<and> ring h' l (foldl dll_spec xs ops) \<and>
    dl_list_len_dll h' l = Some (word_of_nat (length (foldl dll_spec xs ops)))"
proof -
  have "\<exists>h'. dll_run l h ops = Some h' \<and> ring h' l (foldl dll_spec xs ops)"
    using assms(1,2)
  proof (induction ops arbitrary: h xs)
    case (Cons op ops)
    then show ?case
      using dll_step_ring [of h l xs op] Cons.IH [of _ "dll_spec xs op"] by auto
  qed simp
  then show ?thesis
    using dl_list_len_dll_ring assms(3) by blast
qed

theorem dllist_refines_sequence_witness:
  "\<exists>h'. dll_run 1 \<lparr>dl_next = (\<lambda>a. 1), dl_prev = (\<lambda>a. 1)\<rparr> [Push 2, Append 3, Push 4, Lower 2, Swap 3 5, Raise 5, Remove 4] = Some h' \<and>
    ring h' 1 (foldl dll_spec [] [Push 2, Append 3, Push 4, Lower 2, Swap 3 5, Raise 5, Remove 4]) \<and>
    dl_list_len_dll h' 1 =
      Some (word_of_nat (length (foldl dll_spec [] [Push 2, Append 3, Push 4, Lower 2, Swap 3 5, Raise 5, Remove 4])))"
  by (rule dllist_refines_sequence) (simp_all add: ring_def)

end
