(* ===== verification/Bin_Crc.thy ===== *)
theory Bin_Crc
  imports Prelude
begin

unbundle bit_operations_syntax

text \<open>
  \<open>bin_crc_make/src/main.c\<close>: the table-driven CRC-32 of a firmware image, and the program that appends it to
  the image.  The reference is the shift register of the polynomial, one bit at a time; the images the
  program writes all have the same checksum.
\<close>

subsection \<open>The checksum\<close>

definition crc32tab :: "32 word list" where
  "crc32tab =
    [0x00000000, 0x77073096, 0xee0e612c, 0x990951ba, 0x076dc419, 0x706af48f, 0xe963a535, 0x9e6495a3,
     0x0edb8832, 0x79dcb8a4, 0xe0d5e91e, 0x97d2d988, 0x09b64c2b, 0x7eb17cbd, 0xe7b82d07, 0x90bf1d91,
     0x1db71064, 0x6ab020f2, 0xf3b97148, 0x84be41de, 0x1adad47d, 0x6ddde4eb, 0xf4d4b551, 0x83d385c7,
     0x136c9856, 0x646ba8c0, 0xfd62f97a, 0x8a65c9ec, 0x14015c4f, 0x63066cd9, 0xfa0f3d63, 0x8d080df5,
     0x3b6e20c8, 0x4c69105e, 0xd56041e4, 0xa2677172, 0x3c03e4d1, 0x4b04d447, 0xd20d85fd, 0xa50ab56b,
     0x35b5a8fa, 0x42b2986c, 0xdbbbc9d6, 0xacbcf940, 0x32d86ce3, 0x45df5c75, 0xdcd60dcf, 0xabd13d59,
     0x26d930ac, 0x51de003a, 0xc8d75180, 0xbfd06116, 0x21b4f4b5, 0x56b3c423, 0xcfba9599, 0xb8bda50f,
     0x2802b89e, 0x5f058808, 0xc60cd9b2, 0xb10be924, 0x2f6f7c87, 0x58684c11, 0xc1611dab, 0xb6662d3d,
     0x76dc4190, 0x01db7106, 0x98d220bc, 0xefd5102a, 0x71b18589, 0x06b6b51f, 0x9fbfe4a5, 0xe8b8d433,
     0x7807c9a2, 0x0f00f934, 0x9609a88e, 0xe10e9818, 0x7f6a0dbb, 0x086d3d2d, 0x91646c97, 0xe6635c01,
     0x6b6b51f4, 0x1c6c6162, 0x856530d8, 0xf262004e, 0x6c0695ed, 0x1b01a57b, 0x8208f4c1, 0xf50fc457,
     0x65b0d9c6, 0x12b7e950, 0x8bbeb8ea, 0xfcb9887c, 0x62dd1ddf, 0x15da2d49, 0x8cd37cf3, 0xfbd44c65,
     0x4db26158, 0x3ab551ce, 0xa3bc0074, 0xd4bb30e2, 0x4adfa541, 0x3dd895d7, 0xa4d1c46d, 0xd3d6f4fb,
     0x4369e96a, 0x346ed9fc, 0xad678846, 0xda60b8d0, 0x44042d73, 0x33031de5, 0xaa0a4c5f, 0xdd0d7cc9,
     0x5005713c, 0x270241aa, 0xbe0b1010, 0xc90c2086, 0x5768b525, 0x206f85b3, 0xb966d409, 0xce61e49f,
     0x5edef90e, 0x29d9c998, 0xb0d09822, 0xc7d7a8b4, 0x59b33d17, 0x2eb40d81, 0xb7bd5c3b, 0xc0ba6cad,
     0xedb88320, 0x9abfb3b6, 0x03b6e20c, 0x74b1d29a, 0xead54739, 0x9dd277af, 0x04db2615, 0x73dc1683,
     0xe3630b12, 0x94643b84, 0x0d6d6a3e, 0x7a6a5aa8, 0xe40ecf0b, 0x9309ff9d, 0x0a00ae27, 0x7d079eb1,
     0xf00f9344, 0x8708a3d2, 0x1e01f268, 0x6906c2fe, 0xf762575d, 0x806567cb, 0x196c3671, 0x6e6b06e7,
     0xfed41b76, 0x89d32be0, 0x10da7a5a, 0x67dd4acc, 0xf9b9df6f, 0x8ebeeff9, 0x17b7be43, 0x60b08ed5,
     0xd6d6a3e8, 0xa1d1937e, 0x38d8c2c4, 0x4fdff252, 0xd1bb67f1, 0xa6bc5767, 0x3fb506dd, 0x48b2364b,
     0xd80d2bda, 0xaf0a1b4c, 0x36034af6, 0x41047a60, 0xdf60efc3, 0xa867df55, 0x316e8eef, 0x4669be79,
     0xcb61b38c, 0xbc66831a, 0x256fd2a0, 0x5268e236, 0xcc0c7795, 0xbb0b4703, 0x220216b9, 0x5505262f,
     0xc5ba3bbe, 0xb2bd0b28, 0x2bb45a92, 0x5cb36a04, 0xc2d7ffa7, 0xb5d0cf31, 0x2cd99e8b, 0x5bdeae1d,
     0x9b64c2b0, 0xec63f226, 0x756aa39c, 0x026d930a, 0x9c0906a9, 0xeb0e363f, 0x72076785, 0x05005713,
     0x95bf4a82, 0xe2b87a14, 0x7bb12bae, 0x0cb61b38, 0x92d28e9b, 0xe5d5be0d, 0x7cdcefb7, 0x0bdbdf21,
     0x86d3d2d4, 0xf1d4e242, 0x68ddb3f8, 0x1fda836e, 0x81be16cd, 0xf6b9265b, 0x6fb077e1, 0x18b74777,
     0x88085ae6, 0xff0f6a70, 0x66063bca, 0x11010b5c, 0x8f659eff, 0xf862ae69, 0x616bffd3, 0x166ccf45,
     0xa00ae278, 0xd70dd2ee, 0x4e048354, 0x3903b3c2, 0xa7672661, 0xd06016f7, 0x4969474d, 0x3e6e77db,
     0xaed16a4a, 0xd9d65adc, 0x40df0b66, 0x37d83bf0, 0xa9bcae53, 0xdebb9ec5, 0x47b2cf7f, 0x30b5ffe9,
     0xbdbdf21c, 0xcabac28a, 0x53b39330, 0x24b4a3a6, 0xbad03605, 0xcdd70693, 0x54de5729, 0x23d967bf,
     0xb3667a2e, 0xc4614ab8, 0x5d681b02, 0x2a6f2b94, 0xb40bbe37, 0xc30c8ea1, 0x5a05df1b, 0x2d02ef8d]"

text \<open>One turn of the loop; the index is at most 255, the length of the table.\<close>

definition crc_turn :: "32 word \<Rightarrow> 8 word \<Rightarrow> 32 word" where
  "crc_turn crc b = (crc32tab ! unat ((crc XOR ucast b) AND 0xff)) XOR drop_bit 8 crc"

text \<open>A read behind the buffer has no result.\<close>

function crc32_loop :: "8 word list \<Rightarrow> nat \<Rightarrow> nat \<Rightarrow> 32 word \<Rightarrow> 32 word option" where
  "crc32_loop buf n i crc =
     (if i < n
      then if i < length buf then crc32_loop buf n (i + 1) (crc_turn crc (buf ! i)) else None
      else Some crc)"
  by pat_completeness auto
termination by (relation "measure (\<lambda>(buf, n, i, crc). n - i)") auto

declare crc32_loop.simps [simp del]

definition crc32 :: "8 word list \<Rightarrow> 32 word \<Rightarrow> 32 word option" where
  "crc32 buf n = map_option (\<lambda>crc. crc XOR 0xFFFFFFFF) (crc32_loop buf (unat n) 0 0xFFFFFFFF)"

subsection \<open>The program\<close>

text \<open>
  What the system answers: the size \<open>lstat\<close> reports, the contents \<open>fopen\<close> opens, the block \<open>malloc\<close>
  grants with the bytes that happen to be in it, how many bytes \<open>fread\<close> delivers before an error, whether
  the output can be created, and how many bytes fit in it.
\<close>

record crc_sys =
  lstat_size :: "int option"
  fopen_in :: "8 word list option"
  malloc_block :: "nat \<Rightarrow> 8 word list option"
  fread_limit :: nat
  fopen_out :: bool
  fwrite_room :: nat

text \<open>What is left behind: undefined behaviour, no output file, or an output file with its name and contents.\<close>

datatype crc_outcome = Undefined | No_Output | Output string "8 word list"

fun hex_digits :: "nat \<Rightarrow> string" where
  "hex_digits n =
     (if n < 16 then [''0123456789abcdef'' ! n]
      else hex_digits (n div 16) @ [''0123456789abcdef'' ! (n mod 16)])"

declare hex_digits.simps [simp del]

definition output_file_name :: "32 word \<Rightarrow> string" where
  "output_file_name crc_res = ''output_crc_'' @ hex_digits (unat crc_res) @ ''.bin''"

definition crc_buff :: "32 word \<Rightarrow> 8 word list" where
  "crc_buff crc_res =
     [ucast crc_res, ucast (drop_bit 8 crc_res), ucast (drop_bit 16 crc_res), ucast (drop_bit 24 crc_res)]"

text \<open>
  The buffer after \<open>fread\<close>.  The size is an \<open>int\<close>; \<open>malloc\<close> and \<open>fread\<close> get it as \<open>size_t\<close>.  A null pointer
  is harmless only if nothing is read through it.
\<close>

definition read_image :: "crc_sys \<Rightarrow> int \<Rightarrow> 8 word list \<Rightarrow> 8 word list option" where
  "read_image S file_size content =
     (let n = nat (file_size mod 2 ^ 64)
      in if n = 0 then Some []
         else case malloc_block S n of
                None \<Rightarrow> None
              | Some block \<Rightarrow>
                  let k = min (fread_limit S) (min n (length content))
                  in if k \<le> length block then Some (take k content @ drop k block) else None)"

text \<open>The two writes; what \<open>fwrite\<close> took is in the file when the program ends.\<close>

definition write_image :: "crc_sys \<Rightarrow> int \<Rightarrow> 8 word list \<Rightarrow> 32 word \<Rightarrow> crc_outcome" where
  "write_image S file_size read_buff crc_res =
     (if \<not> fopen_out S then No_Output
      else let n = nat (file_size mod 2 ^ 64);
               write_cnt = min (fwrite_room S) n
           in if write_cnt \<noteq> n then Output (output_file_name crc_res) (take write_cnt read_buff)
              else Output (output_file_name crc_res)
                     (take n read_buff @ take (min (fwrite_room S - n) 4) (crc_buff crc_res)))"

definition crc_main :: "crc_sys \<Rightarrow> crc_outcome" where
  "crc_main S =
     (case lstat_size S of
        None \<Rightarrow> No_Output
      | Some st_size \<Rightarrow>
          let file_size = c_int st_size
          in case fopen_in S of
               None \<Rightarrow> No_Output
             | Some content \<Rightarrow>
                 case read_image S file_size content of
                   None \<Rightarrow> Undefined
                 | Some read_buff \<Rightarrow>
                     case crc32 read_buff (of_int file_size) of
                       None \<Rightarrow> Undefined
                     | Some crc_res \<Rightarrow> write_image S file_size read_buff crc_res)"

subsection \<open>The shift register\<close>

definition crc_bit :: "32 word \<Rightarrow> 32 word" where
  "crc_bit r = (if bit r 0 then drop_bit 1 r XOR 0xEDB88320 else drop_bit 1 r)"

text \<open>The reference feeds the bits of every byte, lowest first, into the low end of the register.\<close>

definition feed_bit :: "32 word \<Rightarrow> bool \<Rightarrow> 32 word" where
  "feed_bit r x = (if bit r 0 \<noteq> x then drop_bit 1 r XOR 0xEDB88320 else drop_bit 1 r)"

definition byte_bits :: "8 word \<Rightarrow> bool list" where
  "byte_bits b = map (bit b) [0..<8]"

definition crc32_reference :: "8 word list \<Rightarrow> 32 word" where
  "crc32_reference msg = NOT (foldl feed_bit (NOT 0) (concat (map byte_bits msg)))"

lemma crc_bit_xor: "crc_bit (x XOR y) = crc_bit x XOR crc_bit y"
  by (auto simp: crc_bit_def bit_xor_iff drop_bit_xor ac_simps)

lemma crc_bits_xor: "(crc_bit ^^ n) (x XOR y) = (crc_bit ^^ n) x XOR (crc_bit ^^ n) y"
  by (induction n) (auto simp: crc_bit_xor)

lemma crc_bits_high: "\<forall>i<n. \<not> bit y i \<Longrightarrow> (crc_bit ^^ n) y = drop_bit n y"
proof (induction n)
  case (Suc n)
  then have "(crc_bit ^^ n) y = drop_bit n y" by simp
  moreover have "\<not> bit (drop_bit n y) 0"
    using Suc.prems by (simp add: bit_drop_bit_eq)
  moreover have "drop_bit 1 (drop_bit n y) = drop_bit (Suc n) y"
    by (simp add: drop_bit_drop_bit)
  ultimately show ?case
    by (simp add: crc_bit_def [of "drop_bit n y"] del: drop_bit_Suc)
qed simp

lemma crc_bits_8:
  "(crc_bit ^^ 8) r =
     crc_bit (crc_bit (crc_bit (crc_bit (crc_bit (crc_bit (crc_bit (crc_bit r)))))))"
  by (simp add: eval_nat_numeral)

text \<open>
  The table holds what eight turns of the shift register make of its index.  The second half of every
  initial part of length \<open>2 n\<close> is the first half, changed by the entry in the middle.
\<close>

definition crc_entries :: "nat \<Rightarrow> 32 word list" where
  "crc_entries n = map (\<lambda>i. (crc_bit ^^ 8) (of_nat i)) [0..<n]"

lemma of_nat_xor_above:
  assumes "i < 2 ^ k"
  shows "(of_nat (i + 2 ^ k) :: 32 word) = of_nat i XOR of_nat (2 ^ k)"
proof -
  have "i AND 2 ^ k = 0"
    using assms by (simp add: and_exp_eq_0_iff_not_bit bit_iff_odd)
  then have "i + 2 ^ k = i XOR 2 ^ k"
    by (simp add: disjunctive_xor_eq_or disjunctive_add_eq_or)
  then show ?thesis
    by (simp add: of_nat_xor_eq)
qed

lemma crc_entries_double:
  "crc_entries (2 ^ Suc k) =
     crc_entries (2 ^ k) @ map (\<lambda>x. x XOR (crc_bit ^^ 8) (of_nat (2 ^ k))) (crc_entries (2 ^ k))"
proof -
  have "[0..<2 ^ Suc k] = [0..<2 ^ k] @ map (\<lambda>i. i + 2 ^ k) [0..<2 ^ k]"
    using upt_add_eq_append [of 0 "2 ^ k" "2 ^ k"] by (simp add: map_add_upt mult_2)
  then show ?thesis
    by (auto simp: crc_entries_def of_nat_xor_above crc_bits_xor simp del: of_nat_add of_nat_power)
qed

lemma crc_entries_one: "crc_entries (Suc 0) = [0]"
  by (simp add: crc_entries_def crc_bits_high)

lemma crc32tab_entries: "crc_entries 256 = crc32tab"
  using crc_entries_double [of 0] crc_entries_double [of 1] crc_entries_double [of 2]
    crc_entries_double [of 3] crc_entries_double [of 4] crc_entries_double [of 5]
    crc_entries_double [of 6] crc_entries_double [of 7]
  by (simp add: crc_entries_one crc_bits_8 crc_bit_def crc32tab_def)

lemma crc32tab_nth: "i < 256 \<Longrightarrow> crc32tab ! i = (crc_bit ^^ 8) (of_nat i)"
  by (simp add: crc32tab_entries [symmetric] crc_entries_def)

lemma crc_turn_bits: "crc_turn r b = (crc_bit ^^ 8) (r XOR ucast b)"
proof -
  let ?x = "r XOR ucast b" and ?m = "mask 8 :: 32 word"
  have m: "0xff = ?m" by (simp add: mask_eq_exp_minus_1)
  have "crc32tab ! unat (?x AND ?m) = (crc_bit ^^ 8) (?x AND ?m)"
  proof -
    have "?x AND 0xff \<le> 0xff" by (rule word_and_le1)
    then have "unat (?x AND 0xff) < 256"
      by (simp add: word_le_nat_alt)
    then show ?thesis
      by (simp add: crc32tab_nth m)
  qed
  moreover have "drop_bit 8 r = (crc_bit ^^ 8) (?x AND NOT ?m)"
  proof -
    have "(crc_bit ^^ 8) (?x AND NOT ?m) = drop_bit 8 (?x AND NOT ?m)"
      by (rule crc_bits_high) (simp add: bit_simps)
    also have "\<dots> = drop_bit 8 r"
      using impossible_bit [of "8 + _" b]
      by (intro bit_word_eqI) (auto simp: bit_simps dest: bit_imp_le_length)
    finally show ?thesis by simp
  qed
  moreover have "?x = (?x AND ?m) XOR (?x AND NOT ?m)"
    by (rule bit_word_eqI) (auto simp: bit_simps)
  ultimately show ?thesis
    using crc_bits_xor [of 8 "?x AND ?m" "?x AND NOT ?m"] by (simp add: crc_turn_def m)
qed

subsection \<open>Bits into the register\<close>

abbreviation bits_word :: "bool list \<Rightarrow> 32 word" where
  "bits_word xs \<equiv> horner_sum of_bool 2 xs"

lemma feed_bit_xor: "feed_bit r x = crc_bit (r XOR of_bool x)"
  by (cases x) (auto simp: feed_bit_def crc_bit_def bit_simps drop_bit_xor)

text \<open>Up to 32 bits may as well be added to the register at once.\<close>

lemma feed_bits: "length xs \<le> 32 \<Longrightarrow> foldl feed_bit r xs = (crc_bit ^^ length xs) (r XOR bits_word xs)"
proof (induction xs rule: rev_induct)
  case (snoc x xs)
  let ?n = "length xs"
  let ?h = "push_bit ?n (of_bool x) :: 32 word"
  have "bits_word (xs @ [x]) = bits_word xs XOR ?h"
    by (rule bit_word_eqI) (auto simp: bit_simps bit_horner_sum_bit_word_iff nth_append)
  moreover have "(crc_bit ^^ ?n) ?h = of_bool x"
  proof -
    have "(crc_bit ^^ ?n) ?h = drop_bit ?n ?h"
      by (rule crc_bits_high) (simp add: bit_simps)
    also have "\<dots> = of_bool x"
      using snoc.prems by (intro bit_word_eqI) (auto simp: bit_simps)
    finally show ?thesis .
  qed
  ultimately show ?case
    using snoc by (simp add: feed_bit_xor crc_bits_xor xor.assoc [symmetric])
qed simp

lemma bits_word_byte: "bits_word (byte_bits b) = ucast b"
proof (rule bit_word_eqI)
  fix n
  show "bit (bits_word (byte_bits b)) n = bit (ucast b :: 32 word) n" if "n < LENGTH(32)"
    using that bit_imp_le_length [of b n]
    by (cases "n < 8") (auto simp: byte_bits_def bit_horner_sum_bit_word_iff bit_simps)
qed

lemma crc_turn_feeds: "crc_turn r b = foldl feed_bit r (byte_bits b)"
  using bits_word_byte [of b] by (simp add: crc_turn_bits feed_bits byte_bits_def)

lemma crc_turns_feed: "foldl crc_turn r msg = foldl feed_bit r (concat (map byte_bits msg))"
  by (induction msg arbitrary: r) (auto simp: crc_turn_feeds)

lemma crc32_loop_turns:
  "i \<le> n \<Longrightarrow> i \<le> length buf \<Longrightarrow> crc32_loop buf n i crc =
     (if n \<le> length buf then Some (foldl crc_turn crc (drop i (take n buf))) else None)"
proof (induction buf n i crc rule: crc32_loop.induct)
  case (1 buf n i crc)
  show ?case
  proof (cases "i < n \<and> i < length buf")
    case True
    then have "n \<le> length buf \<Longrightarrow> drop i (take n buf) = buf ! i # drop (i + 1) (take n buf)"
      by (simp add: Cons_nth_drop_Suc [symmetric])
    then show ?thesis
      using 1 True by (subst crc32_loop.simps) auto
  next
    case False
    then show ?thesis
      using 1 by (subst crc32_loop.simps) auto
  qed
qed

lemma all_ones: "(0xFFFFFFFF :: 32 word) = - 1"
  by simp

text \<open>
  C16: The checksum of the first \<open>n\<close> bytes of a buffer is the one of the shift register, one bit at a time
  through the polynomial 0xEDB88320; a size beyond the buffer reads behind it.
\<close>

theorem crc32_is_shift_register:
  "crc32 buf n = (if unat n \<le> length buf then Some (crc32_reference (take (unat n) buf)) else None)"
  by (simp add: crc32_def crc32_loop_turns crc_turns_feed crc32_reference_def all_ones)

subsection \<open>What the checksum detects\<close>

lemma crc_bit_zero: "crc_bit z = 0 \<Longrightarrow> z = 0"
proof (rule bit_word_eqI)
  assume z: "crc_bit z = 0"
  have "bit (crc_bit z) 31 = bit z 0"
    by (auto simp: crc_bit_def bit_simps dest: bit_imp_le_length)
  then have low: "\<not> bit z 0"
    using z by simp
  then have "drop_bit 1 z = 0"
    using z by (simp add: crc_bit_def)
  then have "bit z (Suc i) = False" for i
    using bit_drop_bit_eq [of 1 z] by (metis bit_0_eq bot_apply bot_bool_def comp_apply plus_1_eq_Suc)
  then show "bit z n = bit 0 n" for n
    using low by (cases n) auto
qed

lemma xor_cancel: "z XOR x = z XOR y \<longleftrightarrow> x = y" "x XOR z = y XOR z \<longleftrightarrow> x = y" for x :: "32 word"
proof -
  have *: "x = y" if "z XOR x = z XOR y" for x y z :: "32 word"
  proof -
    have "z XOR (z XOR x) = z XOR (z XOR y)" using that by simp
    then show ?thesis by simp
  qed
  then show "z XOR x = z XOR y \<longleftrightarrow> x = y" by blast
  show "x XOR z = y XOR z \<longleftrightarrow> x = y"
    using * [of z x y] by (auto simp: xor.commute)
qed

lemma crc_bits_inj: "(crc_bit ^^ n) x = (crc_bit ^^ n) y \<longleftrightarrow> x = y"
proof
  have zero: "(crc_bit ^^ n) z = 0 \<Longrightarrow> z = 0" for z
    by (induction n arbitrary: z) (auto dest: crc_bit_zero)
  assume "(crc_bit ^^ n) x = (crc_bit ^^ n) y"
  then have "(crc_bit ^^ n) (x XOR y) = 0"
    by (simp add: crc_bits_xor)
  then have "x XOR y = x XOR x"
    using zero by simp
  then show "x = y"
    by (simp only: xor_cancel)
qed simp

lemma feed_bits_inj: "foldl feed_bit r xs = foldl feed_bit s xs \<Longrightarrow> r = s"
proof (induction xs arbitrary: r s)
  case (Cons x xs)
  then have "crc_bit (r XOR of_bool x) = crc_bit (s XOR of_bool x)"
    by (simp add: feed_bit_xor)
  then show ?case
    using crc_bits_inj [of 1 "r XOR of_bool x" "s XOR of_bool x"]
    by (simp add: xor_cancel)
qed simp

lemma bits_word_inj: "length xs = length ys \<Longrightarrow> length xs \<le> 32 \<Longrightarrow> bits_word xs = bits_word ys \<Longrightarrow> xs = ys"
proof (rule nth_equalityI)
  assume *: "length xs = length ys" "length xs \<le> 32" "bits_word xs = bits_word ys"
  show "xs ! i = ys ! i" if "i < length xs" for i
    using * that bit_horner_sum_bit_word_iff [of xs i, where ?'a = 32]
      bit_horner_sum_bit_word_iff [of ys i, where ?'a = 32]
    by simp
qed

lemma feed_burst:
  assumes "length xs = length ys" "length xs \<le> 32"
    and "foldl feed_bit r (pre @ xs @ post) = foldl feed_bit r (pre @ ys @ post)"
  shows "xs = ys"
proof -
  let ?r = "foldl feed_bit r pre"
  have "foldl feed_bit ?r xs = foldl feed_bit ?r ys"
    using assms(3) feed_bits_inj by simp
  then have "?r XOR bits_word xs = ?r XOR bits_word ys"
    using assms(1,2) by (simp add: feed_bits crc_bits_inj)
  then have "bits_word xs = bits_word ys"
    by (simp add: xor_cancel)
  then show ?thesis
    using assms(1,2) bits_word_inj by blast
qed

lemma byte_bits_inj: "byte_bits a = byte_bits b \<Longrightarrow> a = b"
  by (rule bit_word_eqI) (auto simp: byte_bits_def)

lemma message_bits_inj:
  "length m1 = length m2 \<Longrightarrow> concat (map byte_bits m1) = concat (map byte_bits m2) \<Longrightarrow> m1 = m2"
proof (induction m1 m2 rule: list_induct2)
  case (Cons a m1 b m2)
  then have "byte_bits a = byte_bits b \<and> concat (map byte_bits m1) = concat (map byte_bits m2)"
    by (simp add: byte_bits_def)
  then show ?case
    using Cons byte_bits_inj by auto
qed simp

text \<open>
  C17: Two images of the same length have different checksums when their bits differ only within a burst of
  at most 32 bits.
\<close>

theorem crc_detects_burst:
  assumes "length m1 = length m2" "m1 \<noteq> m2"
    and "concat (map byte_bits m1) = pre @ xs @ post" "concat (map byte_bits m2) = pre @ ys @ post"
    and "length xs = length ys" "length xs \<le> 32"
    and "unat n = length m1"
  shows "crc32 m1 n \<noteq> crc32 m2 n"
proof
  assume "crc32 m1 n = crc32 m2 n"
  then have "foldl feed_bit (NOT 0) (pre @ xs @ post) = foldl feed_bit (NOT 0) (pre @ ys @ post)"
    using assms by (simp add: crc32_def crc32_loop_turns crc_turns_feed all_ones del: foldl_append)
  then have "xs = ys"
    using assms(5,6) by (blast intro: feed_burst)
  then show False
    using assms message_bits_inj by metis
qed

theorem crc_detects_burst_witness:
  "crc32 [0x10, 0x20] 2 \<noteq> crc32 [0x10, 0x28] 2"
  by (rule crc_detects_burst [where pre = "byte_bits 0x10" and xs = "byte_bits 0x20"
        and ys = "byte_bits 0x28" and post = "[]"])
     (simp_all add: byte_bits_def)

subsection \<open>The image that is written\<close>

lemma feed_crc_buff: "foldl crc_turn r (crc_buff w) = (crc_bit ^^ 32) (r XOR w)"
proof -
  have "concat (map byte_bits (crc_buff w)) = map (bit w) [0..<32]"
    by (simp add: crc_buff_def byte_bits_def upt_rec bit_simps) (simp add: eval_nat_numeral)
  moreover have "bits_word (map (bit w) [0..<32]) = w"
    by (rule bit_word_eqI) (auto simp: bit_horner_sum_bit_word_iff)
  ultimately show ?thesis
    using feed_bits [of "map (bit w) [0..<32]" r] by (simp add: crc_turns_feed)
qed

lemma crc_of_ones: "(crc_bit ^^ 32) (- 1) = 0xDEBB20E3"
proof -
  have "(crc_bit ^^ 32) r = (crc_bit ^^ 8) ((crc_bit ^^ 8) ((crc_bit ^^ 8) ((crc_bit ^^ 8) r)))" for r
    using funpow_add [of 8 24 crc_bit] funpow_add [of 8 16 crc_bit] funpow_add [of 8 8 crc_bit] by simp
  moreover have "(crc_bit ^^ 8) 0xFFFFFFFF = 0x2DFD1072"
    by (simp only: crc_bits_8) (simp add: crc_bit_def)
  moreover have "(crc_bit ^^ 8) 0x2DFD1072 = 0xBE26ED00"
    by (simp only: crc_bits_8) (simp add: crc_bit_def)
  moreover have "(crc_bit ^^ 8) 0xBE26ED00 = 0x00BE26ED"
    by (simp only: crc_bits_8) (simp add: crc_bit_def)
  moreover have "(crc_bit ^^ 8) 0x00BE26ED = 0xDEBB20E3"
    by (simp only: crc_bits_8) (simp add: crc_bit_def)
  ultimately have "(crc_bit ^^ 32) 0xFFFFFFFF = 0xDEBB20E3" by (simp only:)
  then show ?thesis by (simp only: all_ones)
qed

lemma crc32_of_image:
  assumes "crc32 buf n = Some w" "unat n = length buf" "unat m = length buf + 4"
  shows "crc32 (buf @ crc_buff w) m = Some 0x2144DF1C"
proof -
  let ?r = "foldl crc_turn (NOT 0) buf"
  have "w = NOT ?r"
    using assms(1,2) by (simp add: crc32_def crc32_loop_turns all_ones)
  then have "foldl crc_turn (NOT 0) (buf @ crc_buff w) = (crc_bit ^^ 32) (NOT 0)"
    by (simp add: feed_crc_buff)
  then show ?thesis
    using assms(3) by (simp add: crc32_def crc32_loop_turns crc_of_ones all_ones crc_buff_def)
qed

lemma unat_of_nat_32: "n < 2 ^ 32 \<Longrightarrow> unat (of_nat n :: 32 word) = n"
  by (simp add: unsigned_of_nat take_bit_nat_eq_self del: of_nat_add of_nat_Suc)

lemma read_image_full:
  "length content < 2 ^ 31 \<Longrightarrow>
   malloc_block S (length content) = Some block \<Longrightarrow> length block = length content \<Longrightarrow>
   read_image S (int (length content)) content =
     Some (take (fread_limit S) content @ drop (fread_limit S) block)"
  by (auto simp: read_image_def Let_def min_def nat_mod_as_int [symmetric])

lemma write_image_whole:
  assumes "length buf = n" "n < 2 ^ 31" "fopen_out S" "n + 4 \<le> fwrite_room S"
  shows "write_image S (int n) buf w = Output (output_file_name w) (buf @ crc_buff w)"
proof -
  have "take (min (fwrite_room S - n) 4) (crc_buff w) = crc_buff w"
    using assms(4) by (simp add: crc_buff_def)
  then show ?thesis
    using assms by (simp add: write_image_def Let_def)
qed

text \<open>
  The number of bytes read is only printed: after a short read the rest of the block, whatever it holds,
  goes into the checksum and into the image.
\<close>

lemma short_read_image:
  assumes "lstat_size S = Some (int (length content))" "length content < 2 ^ 31"
    and "fopen_in S = Some content" "fopen_out S"
    and "malloc_block S (length content) = Some block" "length block = length content"
    and "length content + 4 \<le> fwrite_room S"
  shows "let buf = take (fread_limit S) content @ drop (fread_limit S) block
         in \<exists>w. crc32 buf (of_nat (length buf)) = Some w \<and>
              crc_main S = Output (output_file_name w) (buf @ crc_buff w)"
proof -
  let ?n = "length content" and ?buf = "take (fread_limit S) content @ drop (fread_limit S) block"
  have len: "length ?buf = ?n"
    using assms(6) by simp
  have n: "unat (of_nat ?n :: 32 word) = ?n"
    using assms(2) by (simp add: unat_of_nat_32)
  then obtain w where w: "crc32 ?buf (of_nat ?n) = Some w"
    using len by (simp add: crc32_def crc32_loop_turns)
  have "c_int (int ?n) = int ?n"
    using assms(2) by (simp add: c_int_small)
  moreover have "write_image S (int ?n) ?buf w = Output (output_file_name w) (?buf @ crc_buff w)"
    using assms(2,4,7) len by (intro write_image_whole) simp_all
  ultimately have "crc_main S = Output (output_file_name w) (?buf @ crc_buff w)"
    using assms w by (simp add: crc_main_def read_image_full del: append_take_drop_id)
  then show ?thesis
    using w len by (simp add: Let_def)
qed

text \<open>
  C18: When the image is read and written whole, the file that is left is the image with its checksum behind
  it, and its own checksum is the same constant for every image.
\<close>

theorem image_carries_checksum:
  assumes "lstat_size S = Some (int (length content))" "length content < 2 ^ 31"
    and "fopen_in S = Some content" "fopen_out S"
    and "malloc_block S (length content) = Some block" "length block = length content"
    and "length content \<le> fread_limit S" "length content + 4 \<le> fwrite_room S"
  shows "\<exists>w. crc32 content (of_nat (length content)) = Some w \<and>
             crc_main S = Output (output_file_name w) (content @ crc_buff w) \<and>
             crc32 (content @ crc_buff w) (of_nat (length content + 4)) = Some 0x2144DF1C"
proof -
  have n: "unat (of_nat (length content) :: 32 word) = length content"
    "unat (of_nat (length content + 4) :: 32 word) = length content + 4"
    using assms(2) by (simp_all add: unat_of_nat_32 del: of_nat_add)
  obtain w where "crc32 content (of_nat (length content)) = Some w"
    "crc_main S = Output (output_file_name w) (content @ crc_buff w)"
    using short_read_image [of S content block] assms by (auto simp: Let_def)
  with n show ?thesis
    using crc32_of_image by blast
qed

theorem image_carries_checksum_witness:
  "\<exists>w. crc32 [1, 2, 3] 3 = Some w \<and>
       crc_main \<lparr>lstat_size = Some 3, fopen_in = Some [1, 2, 3], malloc_block = (\<lambda>n. Some [0, 0, 0]),
         fread_limit = 10, fopen_out = True, fwrite_room = 10\<rparr> =
         Output (output_file_name w) ([1, 2, 3] @ crc_buff w) \<and>
       crc32 ([1, 2, 3] @ crc_buff w) 7 = Some 0x2144DF1C"
  using image_carries_checksum [of "\<lparr>lstat_size = Some 3, fopen_in = Some [1, 2, 3],
      malloc_block = (\<lambda>n. Some [0, 0, 0]), fread_limit = 10, fopen_out = True, fwrite_room = 10\<rparr>"
      "[1, 2, 3]" "[0, 0, 0]"]
  by simp

text \<open>The name of the output fits in its 100 characters.\<close>

lemma hex_digits_length: "n < 16 ^ k \<Longrightarrow> 0 < k \<Longrightarrow> length (hex_digits n) \<le> k"
proof (induction n arbitrary: k rule: hex_digits.induct)
  case (1 n)
  then show ?case
  proof (cases "n < 16")
    case False
    then obtain k' where k: "k = Suc k'" "0 < k'"
      using 1 by (cases k; cases "k - 1") auto
    then have "n div 16 < 16 ^ k'"
      using 1 by (simp add: div_less_iff_less_mult mult.commute)
    then show ?thesis
      using 1 False k by (subst hex_digits.simps) simp
  next
    case True
    then show ?thesis
      using 1 by (subst hex_digits.simps) simp
  qed
qed

lemma output_file_name_fits: "length (output_file_name w) < 100"
  using hex_digits_length [of "unat w" 8] unsigned_less [of w, where ?'a = nat]
  by (simp add: output_file_name_def)

end
