(* ===== verification/Lf_Log.thy ===== *)
theory Lf_Log
  imports Prelude
begin

text \<open>
  The log library \<open>log/src/lf_log.c\<close>: messages go to the terminal or, in turn, to three files, of which the
  next is taken when one has reached the size given at the start.
\<close>

subsection \<open>State\<close>

text \<open>
  The static variables of the file, and the world they act on: the files by name and what was printed.  An
  open stream is the name of its file, and what was put into it counts as its contents.  The mutex is
  initialised or not; \<open>LOG_PRINT\<close> is compiled to nothing.
\<close>

record log_state =
  g_ucLogFileName :: "string list"
  g_ucLogFileNo :: nat
  g_ulPrintLogPlaceFlag :: nat
  g_ulPrintDebugLogFlag :: nat
  g_ulLogFileSize :: nat
  pFile :: "string option"
  g_ulLogInitFlag :: nat
  g_stSaveLogMutexLock :: bool
  log_files :: "string \<Rightarrow> string option"
  terminal :: string

text \<open>Which files can be opened, and how much of a text is written at the end of a file.\<close>

record log_env =
  fopen_allowed :: "string \<Rightarrow> bool"
  fputs_takes :: "string \<Rightarrow> string \<Rightarrow> string \<Rightarrow> nat"

definition STR_COMM_SIZE :: nat where "STR_COMM_SIZE = 128"
definition STR_MAX_SIZE :: nat where "STR_MAX_SIZE = 1024"
definition MAX_LOG_FILE_NUM :: nat where "MAX_LOG_FILE_NUM = 3"
definition PRINT_LOG_TO_TERM :: nat where "PRINT_LOG_TO_TERM = 0"
definition PRINT_LOG_TO_FILE :: nat where "PRINT_LOG_TO_FILE = 1"

definition log_start :: "(string \<Rightarrow> string option) \<Rightarrow> log_state" where
  "log_start fs = \<lparr>g_ucLogFileName = replicate MAX_LOG_FILE_NUM [], g_ucLogFileNo = 0,
     g_ulPrintLogPlaceFlag = 0, g_ulPrintDebugLogFlag = 0, g_ulLogFileSize = 0, pFile = None,
     g_ulLogInitFlag = 0, g_stSaveLogMutexLock = False, log_files = fs, terminal = []\<rparr>"

definition LOG_SetPrintLogPlaceFlag :: "nat \<Rightarrow> log_state \<Rightarrow> log_state" where
  "LOG_SetPrintLogPlaceFlag flag st = st\<lparr>g_ulPrintLogPlaceFlag := flag\<rparr>"

definition LOG_SetPrintDebugLogFlag :: "nat \<Rightarrow> log_state \<Rightarrow> log_state" where
  "LOG_SetPrintDebugLogFlag flag st = st\<lparr>g_ulPrintDebugLogFlag := flag\<rparr>"

subsection \<open>Texts\<close>

text \<open>\<open>snprintf\<close> into \<open>n\<close> characters keeps one for the terminator.\<close>

definition snprintf :: "nat \<Rightarrow> string \<Rightarrow> string" where
  "snprintf n s = take (n - 1) s"

record log_time =
  tm_year :: int
  tm_mon :: int
  tm_mday :: int
  tm_hour :: int
  tm_min :: int
  tm_sec :: int
  tv_usec :: int

definition LOG_PrintLogTime :: "log_time \<Rightarrow> nat \<Rightarrow> string" where
  "LOG_PrintLogTime t ulBufLen =
     snprintf (ulBufLen - 1)
       (zero_padded 4 (tm_year t + 1900) @ ''-'' @ zero_padded 2 (tm_mon t + 1) @ ''-'' @
        zero_padded 2 (tm_mday t) @ '' '' @ zero_padded 2 (tm_hour t) @ '':'' @ zero_padded 2 (tm_min t) @
        '':'' @ zero_padded 2 (tm_sec t) @ '' '' @ zero_padded 3 (tv_usec t div 1000) @ ''ms'')"

text \<open>
  The buffers for the time and the type are passed with their sizes and are never null: the checks for it
  cannot fail, and both functions return 0.
\<close>

datatype log_type = LOG_DEBUG | LOG_ERROR | LOG_WARNING | LOG_ACTION | LOG_SYSTEM | OTHER_TYPE

primrec log_type_name :: "log_type \<Rightarrow> string" where
  "log_type_name LOG_DEBUG = ''DEBUG''"
| "log_type_name LOG_ERROR = ''ERROR''"
| "log_type_name LOG_WARNING = ''WARNING''"
| "log_type_name LOG_ACTION = ''ACTION''"
| "log_type_name LOG_SYSTEM = ''SYSTEM''"
| "log_type_name OTHER_TYPE = ''UNKNOWN''"

text \<open>\<open>strncpy\<close> into a buffer of zeros, of which the last is left alone.\<close>

definition LOG_LogTypeToStr :: "log_type \<Rightarrow> nat \<Rightarrow> string" where
  "LOG_LogTypeToStr ucType ulBufLen = take (ulBufLen - 1) (log_type_name ucType)"

definition log_text :: "log_time \<Rightarrow> log_type \<Rightarrow> string \<Rightarrow> string" where
  "log_text t ucType info =
     snprintf (STR_MAX_SIZE - 1)
       (''['' @ LOG_PrintLogTime t STR_COMM_SIZE @ ''] ['' @ LOG_LogTypeToStr ucType STR_COMM_SIZE @ ''] '' @ info)"

subsection \<open>Files\<close>

definition get_file_size :: "log_state \<Rightarrow> string \<Rightarrow> int" where
  "get_file_size st path = (case log_files st path of None \<Rightarrow> -1 | Some s \<Rightarrow> int (length s))"

text \<open>
  The size is a \<open>long\<close> that is kept in an \<open>int\<close>; its comparison with the limit is unsigned, after it was
  found to be positive.  A file without a name cannot be opened.
\<close>

definition LOG_OpenLogFile :: "log_env \<Rightarrow> log_state \<Rightarrow> 64 word \<times> log_state" where
  "LOG_OpenLogFile E st =
     (if pFile st \<noteq> None then (0, st)
      else let path = g_ucLogFileName st ! g_ucLogFileNo st;
               found = (log_files st path \<noteq> None);
               len = (if found then c_int (get_file_size st path) else 0)
           in if found \<and> len < 0 then (-1, st)
              else let append = (0 < len \<and> nat len < g_ulLogFileSize st)
                   in if path = [] \<or> \<not> fopen_allowed E path then (-1, st)
                      else (0, st\<lparr>pFile := Some path,
                                  log_files := (if append then log_files st else (log_files st)(path \<mapsto> []))\<rparr>))"

definition fputs :: "log_env \<Rightarrow> string \<Rightarrow> string \<Rightarrow> log_state \<Rightarrow> log_state" where
  "fputs E s path st =
     (let old = (case log_files st path of None \<Rightarrow> [] | Some old \<Rightarrow> old)
      in st\<lparr>log_files := (log_files st)(path \<mapsto> old @ take (fputs_takes E path old s) s)\<rparr>)"

definition write_open_file :: "log_env \<Rightarrow> string \<Rightarrow> log_state \<Rightarrow> log_state" where
  "write_open_file E ucLogInfo st =
     (case pFile st of
        None \<Rightarrow> st
      | Some path \<Rightarrow>
          let st = fputs E ucLogInfo path st;
              ulFileLen = nat (get_file_size st path)
          in if g_ulLogFileSize st \<le> ulFileLen
             then st\<lparr>g_ucLogFileNo := (g_ucLogFileNo st + 1) mod MAX_LOG_FILE_NUM, pFile := None\<rparr>
             else st)"

text \<open>Locking a mutex that is not initialised, or was destroyed, has no defined result.\<close>

definition LOG_PrintLog :: "log_env \<Rightarrow> log_time \<Rightarrow> log_type \<Rightarrow> string option \<Rightarrow> log_state \<Rightarrow> (64 word \<times> log_state) option" where
  "LOG_PrintLog E t ucType pucLogInfo st =
     (case pucLogInfo of
        None \<Rightarrow> Some (-1, st)
      | Some info \<Rightarrow>
          let ucLogInfo = log_text t ucType info
          in if g_ulPrintLogPlaceFlag st = PRINT_LOG_TO_TERM
             then Some (0, st\<lparr>terminal := terminal st @ ucLogInfo\<rparr>)
             else if \<not> g_stSaveLogMutexLock st then None
             else Some (0, write_open_file E ucLogInfo (snd (LOG_OpenLogFile E st))))"

subsection \<open>Start and end\<close>

definition log_file_name :: "string \<Rightarrow> nat \<Rightarrow> string" where
  "log_file_name name i = snprintf (STR_COMM_SIZE - 1) (''./'' @ name @ ''_'' @ zero_padded 2 (int i))"

definition LOG_Init :: "string option \<Rightarrow> nat \<Rightarrow> log_state \<Rightarrow> 64 word \<times> log_state" where
  "LOG_Init ucLogFileName ulFileSize st =
     (case ucLogFileName of
        None \<Rightarrow> (-1, st)
      | Some name \<Rightarrow>
          if \<not> 0 < ulFileSize then (-1, st)
          else if g_ulPrintLogPlaceFlag st \<noteq> PRINT_LOG_TO_FILE \<or> g_ulLogInitFlag st \<noteq> 0
          then (0, st\<lparr>terminal := terminal st @ ''g_ulPrintLogPlaceFlag = '' @
                      zero_padded 0 (c_long (int (g_ulPrintLogPlaceFlag st))) @ '' g_ulLogInitFlag = '' @
                      zero_padded 0 (c_long (int (g_ulLogInitFlag st))) @ [CHR 0x0A]\<rparr>)
          else let names = map (log_file_name name) [0..<MAX_LOG_FILE_NUM]
               in (0, st\<lparr>g_ucLogFileName := names, g_ulLogFileSize := ulFileSize, g_ulLogInitFlag := 1,
                         g_stSaveLogMutexLock := True,
                         terminal := terminal st @ concat (map (\<lambda>n. ''Log File: '' @ n @ [CHR 0x0A]) names)\<rparr>))"

definition LOG_Destroy :: "log_state \<Rightarrow> log_state option" where
  "LOG_Destroy st =
     (if \<not> g_stSaveLogMutexLock st then None
      else Some (st\<lparr>pFile := None, g_stSaveLogMutexLock := False\<rparr>))"

text \<open>The macro that is called with the place of the message in the program.\<close>

definition LOG_INFO ::
  "log_env \<Rightarrow> log_time \<Rightarrow> log_type \<Rightarrow> string \<Rightarrow> string \<Rightarrow> int \<Rightarrow> string \<Rightarrow> log_state \<Rightarrow> (64 word \<times> log_state) option" where
  "LOG_INFO E t ucType msg file_name line func st =
     (let info = snprintf (STR_MAX_SIZE - 1)
                   (msg @ ''  ['' @ file_name @ ''] [line:'' @ zero_padded 0 line @ ''] ['' @ func @ '']'' @ [CHR 0x0A])
      in if g_ulPrintLogPlaceFlag st = PRINT_LOG_TO_TERM
         then if g_ulPrintDebugLogFlag st = 0 \<and> ucType = LOG_DEBUG then Some (0, st)
              else LOG_PrintLog E t ucType (Some info) st
         else LOG_PrintLog E t ucType (Some info) st)"

subsection \<open>Sizes and names\<close>

lemma log_text_length: "length (log_text t ty info) \<le> 1022"
  by (simp add: log_text_def snprintf_def STR_MAX_SIZE_def)

lemma log_file_name_cases:
  "log_file_name name 0 = take 126 (''./'' @ name @ ''_00'')"
  "log_file_name name (Suc 0) = take 126 (''./'' @ name @ ''_01'')"
  "log_file_name name 2 = take 126 (''./'' @ name @ ''_02'')"
  by (simp_all add: log_file_name_def snprintf_def STR_COMM_SIZE_def zero_padded_def decimal_digits.simps)

lemma below_three: "i < MAX_LOG_FILE_NUM \<longleftrightarrow> i = 0 \<or> i = Suc 0 \<or> i = 2"
  by (auto simp: MAX_LOG_FILE_NUM_def)

lemma log_file_name_inj:
  assumes "length name \<le> 121" "i < MAX_LOG_FILE_NUM" "j < MAX_LOG_FILE_NUM"
  shows "log_file_name name i = log_file_name name j \<longleftrightarrow> i = j"
  using assms by (auto simp: below_three log_file_name_cases)

lemma log_file_name_not_empty: "i < MAX_LOG_FILE_NUM \<Longrightarrow> log_file_name name i \<noteq> []"
  by (auto simp: below_three log_file_name_cases)

text \<open>A name of 122 characters or more leaves no room for the number: there is one file instead of three.\<close>

lemma long_name_one_file:
  assumes "122 \<le> length name" "i < MAX_LOG_FILE_NUM" "j < MAX_LOG_FILE_NUM"
  shows "log_file_name name i = log_file_name name j"
proof -
  have "124 - length name = 0 \<or> 124 - length name = Suc 0 \<or> 124 - length name = Suc (Suc 0)"
    using assms(1) by auto
  then have "take 126 (''./'' @ name @ ''_0'' @ d) = take 126 (''./'' @ name @ ''_0'')" for d
    by auto
  from this [of "''0''"] this [of "''1''"] this [of "''2''"] show ?thesis
    using assms(2,3) by (auto simp: below_three log_file_name_cases)
qed

subsection \<open>Steps of a program that logs\<close>

inductive log_step :: "log_env \<Rightarrow> log_state \<Rightarrow> log_state \<Rightarrow> bool" for E where
  set_place: "log_step E st (LOG_SetPrintLogPlaceFlag flag st)"
| set_debug: "log_step E st (LOG_SetPrintDebugLogFlag flag st)"
| init: "LOG_Init name n st = (r, st') \<Longrightarrow> log_step E st st'"
| print: "LOG_PrintLog E t ty info st = Some (r, st') \<Longrightarrow> log_step E st st'"
| info: "LOG_INFO E t ty msg file_name line func st = Some (r, st') \<Longrightarrow> log_step E st st'"
| destroy: "LOG_Destroy st = Some st' \<Longrightarrow> log_step E st st'"

inductive_cases log_stepE: "log_step E st st'"

text \<open>
  What holds between two calls: the open file is one of the three and below the limit, other files are as
  they were, and a file that was written is shorter than the limit and one message more.
\<close>

definition log_ok :: "(string \<Rightarrow> string option) \<Rightarrow> log_state \<Rightarrow> bool" where
  "log_ok fs st \<longleftrightarrow>
     length (g_ucLogFileName st) = MAX_LOG_FILE_NUM \<and> g_ucLogFileNo st < MAX_LOG_FILE_NUM \<and>
     (g_ulLogInitFlag st = 0 \<longrightarrow>
        g_ucLogFileName st = replicate MAX_LOG_FILE_NUM [] \<and> g_ulLogFileSize st = 0 \<and> log_files st = fs \<and>
        \<not> g_stSaveLogMutexLock st) \<and>
     (g_ulLogInitFlag st \<noteq> 0 \<longrightarrow> 0 < g_ulLogFileSize st) \<and>
     (\<forall>p. pFile st = Some p \<longrightarrow>
        p \<in> set (g_ucLogFileName st) \<and> p \<noteq> [] \<and>
        (\<exists>c. log_files st p = Some c \<and> length c < g_ulLogFileSize st)) \<and>
     (\<forall>p. p \<notin> set (g_ucLogFileName st) \<or> p = [] \<longrightarrow> log_files st p = fs p) \<and>
     (\<forall>p. log_files st p = fs p \<or>
        (\<exists>c. log_files st p = Some c \<and> length c < g_ulLogFileSize st + 1022))"

lemma open_file_ok:
  assumes "log_ok fs st" "LOG_OpenLogFile E st = (r, st')"
    and "g_ulLogFileSize st + 1022 \<le> 2 ^ 31" "\<forall>p c. fs p = Some c \<longrightarrow> length c < 2 ^ 31"
    and "g_ulLogInitFlag st \<noteq> 0"
  shows "log_ok fs st' \<and> g_ulLogFileSize st' = g_ulLogFileSize st \<and> g_ulLogInitFlag st' = g_ulLogInitFlag st"
proof -
  let ?path = "g_ucLogFileName st ! g_ucLogFileNo st"
  have path: "?path \<in> set (g_ucLogFileName st)"
    using assms(1) by (simp add: log_ok_def)
  have len: "c_int (int (length c)) = int (length c)" if "log_files st ?path = Some c" for c
  proof -
    from assms(1) have "log_files st ?path = fs ?path \<or>
        (\<exists>c. log_files st ?path = Some c \<and> length c < g_ulLogFileSize st + 1022)"
      by (simp add: log_ok_def)
    then have "length c < 2 ^ 31"
      using that assms(3,4) by fastforce
    then show ?thesis
      by (simp add: c_int_small)
  qed
  show ?thesis
  proof (cases "r = 0 \<and> pFile st = None")
    case True
    then have "?path \<noteq> []" "st' = st\<lparr>pFile := Some ?path,
        log_files := (if \<exists>c. log_files st ?path = Some c \<and> c \<noteq> [] \<and> length c < g_ulLogFileSize st
                      then log_files st else (log_files st)(?path \<mapsto> []))\<rparr>"
      using assms(2) len
      by (auto simp: LOG_OpenLogFile_def Let_def get_file_size_def split: if_splits)
    then show ?thesis
      using assms(1,5) path by (auto simp: log_ok_def)
  next
    case False
    then have "st' = st"
      using assms(2) by (auto simp: LOG_OpenLogFile_def Let_def split: if_splits)
    then show ?thesis
      using assms(1) by simp
  qed
qed

lemma write_open_file_ok:
  assumes "log_ok fs st" "length s \<le> 1022" "g_ulLogInitFlag st \<noteq> 0"
  shows "log_ok fs (write_open_file E s st)"
proof (cases "pFile st")
  case (Some p)
  then obtain c where c: "p \<in> set (g_ucLogFileName st)" "p \<noteq> []" "log_files st p = Some c"
    "length c < g_ulLogFileSize st"
    using assms(1) by (auto simp: log_ok_def)
  let ?c = "c @ take (fputs_takes E p c s) s"
  have "length ?c < g_ulLogFileSize st + 1022"
    using c(4) assms(2) by simp
  then show ?thesis
    using assms(1,3) c Some
    by (auto simp: write_open_file_def fputs_def get_file_size_def Let_def log_ok_def MAX_LOG_FILE_NUM_def)
qed (use assms in \<open>simp add: write_open_file_def\<close>)

lemma print_ok:
  assumes "LOG_PrintLog E t ty info st = Some (r, st')" "log_ok fs st"
    and "g_ulLogFileSize st' + 1022 \<le> 2 ^ 31" "\<forall>p c. fs p = Some c \<longrightarrow> length c < 2 ^ 31"
  shows "log_ok fs st'"
proof (cases "info = None \<or> g_ulPrintLogPlaceFlag st = PRINT_LOG_TO_TERM")
  case True
  then show ?thesis
    using assms(1,2) by (auto simp: LOG_PrintLog_def Let_def log_ok_def split: option.splits)
next
  case False
  then obtain i r1 st1 where i: "info = Some i" "g_stSaveLogMutexLock st"
    "LOG_OpenLogFile E st = (r1, st1)" "st' = write_open_file E (log_text t ty i) st1"
    using assms(1) by (cases "LOG_OpenLogFile E st") (auto simp: LOG_PrintLog_def Let_def split: if_splits)
  have flag: "g_ulLogInitFlag st \<noteq> 0"
    using assms(2) i(2) by (auto simp: log_ok_def)
  have "g_ulLogFileSize st' = g_ulLogFileSize st1"
    by (simp add: i(4) write_open_file_def fputs_def Let_def split: option.splits)
  moreover have "g_ulLogFileSize st1 = g_ulLogFileSize st"
    using i(3) by (auto simp: LOG_OpenLogFile_def Let_def split: if_splits)
  ultimately have "log_ok fs st1" "g_ulLogInitFlag st1 \<noteq> 0"
    using open_file_ok [OF assms(2) i(3)] assms(3,4) flag by auto
  then show ?thesis
    using write_open_file_ok log_text_length i(4) by blast
qed

lemma log_ok_flags:
  "log_ok fs (st\<lparr>g_ulPrintLogPlaceFlag := flag\<rparr>) = log_ok fs st"
  "log_ok fs (st\<lparr>g_ulPrintDebugLogFlag := flag\<rparr>) = log_ok fs st"
  "log_ok fs (st\<lparr>terminal := x\<rparr>) = log_ok fs st"
  by (simp_all add: log_ok_def)

lemma log_init_ok:
  assumes "LOG_Init name n st = (r, st')" "log_ok fs st"
  shows "log_ok fs st'"
proof -
  have st': "st' = snd (LOG_Init name n st)"
    using assms(1) by simp
  show ?thesis
  proof (cases "\<exists>base. name = Some base \<and> 0 < n \<and> g_ulPrintLogPlaceFlag st = PRINT_LOG_TO_FILE \<and> g_ulLogInitFlag st = 0")
    case True
    then obtain base where base: "name = Some base" "0 < n" "g_ulPrintLogPlaceFlag st = PRINT_LOG_TO_FILE"
      "g_ulLogInitFlag st = 0"
      by blast
    then have "pFile st = None" "log_files st = fs" "g_ucLogFileNo st < MAX_LOG_FILE_NUM"
      using assms(2) by (auto simp: log_ok_def MAX_LOG_FILE_NUM_def)
    with base show ?thesis
      by (simp add: st' LOG_Init_def Let_def log_ok_def)
  next
    case False
    then show ?thesis
      using assms(2) by (auto simp: st' LOG_Init_def Let_def log_ok_flags split: option.split)
  qed
qed

lemma destroy_ok:
  assumes "LOG_Destroy st = Some st'" "log_ok fs st"
  shows "log_ok fs st'"
proof -
  have "st' = st\<lparr>pFile := None, g_stSaveLogMutexLock := False\<rparr>"
    using assms(1) by (simp add: LOG_Destroy_def split: if_splits)
  then show ?thesis
    using assms(2) by (simp add: log_ok_def)
qed

text \<open>The size is set once.\<close>

definition limit_from_init :: "log_state \<Rightarrow> bool" where
  "limit_from_init st \<longleftrightarrow> (g_ulLogInitFlag st = 0 \<longrightarrow> g_ulLogFileSize st = 0)"

lemma open_keeps_limit:
  "g_ulLogFileSize (snd (LOG_OpenLogFile E st)) = g_ulLogFileSize st"
  "g_ulLogInitFlag (snd (LOG_OpenLogFile E st)) = g_ulLogInitFlag st"
  by (simp_all add: LOG_OpenLogFile_def Let_def)

lemma write_keeps_limit:
  "g_ulLogFileSize (write_open_file E s st) = g_ulLogFileSize st"
  "g_ulLogInitFlag (write_open_file E s st) = g_ulLogInitFlag st"
  by (simp_all add: write_open_file_def fputs_def Let_def split: option.split)

lemma print_keeps_limit:
  assumes "LOG_PrintLog E t ty i st = Some (r, st')"
  shows "g_ulLogFileSize st' = g_ulLogFileSize st \<and> g_ulLogInitFlag st' = g_ulLogInitFlag st"
proof -
  have "st' = snd (the (LOG_PrintLog E t ty i st))"
    using assms by simp
  then show ?thesis
    using assms
    by (cases i) (simp_all add: LOG_PrintLog_def Let_def open_keeps_limit write_keeps_limit split: if_splits)
qed

lemma init_keeps_limit:
  "LOG_Init name n st = (r, st') \<Longrightarrow> limit_from_init st \<Longrightarrow>
   g_ulLogFileSize st \<le> g_ulLogFileSize st' \<and> limit_from_init st'"
proof -
  assume "LOG_Init name n st = (r, st')" "limit_from_init st"
  moreover from this have "st' = snd (LOG_Init name n st)" by simp
  ultimately show ?thesis
    by (simp add: LOG_Init_def Let_def limit_from_init_def split: option.split)
qed

lemma destroy_keeps_limit:
  "LOG_Destroy st = Some st' \<Longrightarrow>
   g_ulLogFileSize st' = g_ulLogFileSize st \<and> g_ulLogInitFlag st' = g_ulLogInitFlag st"
  by (auto simp: LOG_Destroy_def split: if_splits)

lemma step_keeps_limit:
  assumes "log_step E st st'" "limit_from_init st"
  shows "g_ulLogFileSize st \<le> g_ulLogFileSize st' \<and> limit_from_init st'"
  using assms(1)
proof cases
  case (info t ty msg file_name line func r)
  then have "st' = st \<or> (\<exists>i. LOG_PrintLog E t ty i st = Some (r, st'))"
    by (auto simp: LOG_INFO_def Let_def split: if_splits)
  then show ?thesis
    using assms(2) by (auto simp: limit_from_init_def dest: print_keeps_limit)
next
  case (init name n r)
  then show ?thesis
    using init_keeps_limit assms(2) by blast
qed (use assms(2) in \<open>auto simp: LOG_SetPrintLogPlaceFlag_def LOG_SetPrintDebugLogFlag_def
       limit_from_init_def dest: print_keeps_limit destroy_keeps_limit\<close>)

lemma step_ok:
  assumes "log_step E st st'" "log_ok fs st"
    and "g_ulLogFileSize st' + 1022 \<le> 2 ^ 31" "\<forall>p c. fs p = Some c \<longrightarrow> length c < 2 ^ 31"
  shows "log_ok fs st'"
  using assms(1)
proof cases
  case (info t ty msg file_name line func r)
  then have "st' = st \<or> (\<exists>i. LOG_PrintLog E t ty i st = Some (r, st'))"
    by (auto simp: LOG_INFO_def Let_def split: if_splits)
  then show ?thesis
    using print_ok assms(2-4) by blast
next
  case (print t ty info r)
  then show ?thesis
    using print_ok assms(2-4) by blast
next
  case (init name n r)
  then show ?thesis
    using log_init_ok assms(2) by blast
next
  case destroy
  then show ?thesis
    using destroy_ok assms(2) by blast
qed (use assms(2) in \<open>simp_all add: LOG_SetPrintLogPlaceFlag_def LOG_SetPrintDebugLogFlag_def log_ok_flags\<close>)

text \<open>
  C15: Whatever a program does with the library, from its start on: a file that the library wrote is shorter
  than the size given to \<open>LOG_Init\<close> and the longest message, 1022 characters, and all files other than
  the three log files are as they were.
\<close>

theorem log_files_bounded:
  assumes "(log_step E)\<^sup>*\<^sup>* (log_start fs) st"
    and "g_ulLogFileSize st + 1022 \<le> 2 ^ 31" "\<forall>p c. fs p = Some c \<longrightarrow> length c < 2 ^ 31"
  shows "log_files st p = fs p \<or>
    (p \<in> set (g_ucLogFileName st) \<and> (\<exists>c. log_files st p = Some c \<and> length c < g_ulLogFileSize st + 1022))"
proof -
  have "limit_from_init st \<and> (g_ulLogFileSize st + 1022 \<le> 2 ^ 31 \<longrightarrow> log_ok fs st)"
    using assms(1)
  proof (induction rule: rtranclp_induct)
    case base
    then show ?case
      by (simp add: log_ok_def limit_from_init_def log_start_def MAX_LOG_FILE_NUM_def)
  next
    case (step st st')
    then show ?case
      using step_keeps_limit [of E st st'] step_ok [of E st st' fs] assms(3) by auto
  qed
  then have "log_ok fs st"
    using assms(2) by simp
  then show ?thesis
    by (auto simp: log_ok_def)
qed

definition whole_env :: log_env where
  "whole_env = \<lparr>fopen_allowed = (\<lambda>_. True), fputs_takes = (\<lambda>_ _ s. length s)\<rparr>"

theorem log_files_bounded_witness:
  "let st = snd (LOG_Init (Some ''a'') 50 (LOG_SetPrintLogPlaceFlag 1 (log_start (\<lambda>_. None))))
   in log_files st ''x'' = None \<or>
      (''x'' \<in> set (g_ucLogFileName st) \<and> (\<exists>c. log_files st ''x'' = Some c \<and> length c < 50 + 1022))"
proof -
  let ?st = "LOG_SetPrintLogPlaceFlag 1 (log_start (\<lambda>_. None))"
  obtain r st where st: "LOG_Init (Some ''a'') 50 ?st = (r, st)"
    by fastforce
  then have "(log_step whole_env)\<^sup>*\<^sup>* (log_start (\<lambda>_. None)) st"
    by (meson log_step.init log_step.set_place r_into_rtranclp rtranclp.rtrancl_into_rtrancl)
  moreover have "g_ulLogFileSize st = 50"
    using st by (auto simp: LOG_Init_def LOG_SetPrintLogPlaceFlag_def log_start_def PRINT_LOG_TO_FILE_def Let_def)
  ultimately show ?thesis
    using log_files_bounded [of whole_env "\<lambda>_. None" st "''x''"] st by (simp add: Let_def)
qed

subsection \<open>The ring of three files\<close>

text \<open>
  What the files hold: the closed files in the order in which they were filled, and the one that is being
  written.  A file is closed by the message that brings it to the limit.
\<close>

type_synonym ring = "string list \<times> string option"

definition ring_print :: "nat \<Rightarrow> ring \<Rightarrow> string \<Rightarrow> ring" where
  "ring_print limit R m =
     (case R of (closed, cur) \<Rightarrow>
        let c = (case cur of None \<Rightarrow> [] | Some c \<Rightarrow> c) @ m
        in if limit \<le> length c then (closed @ [c], None) else (closed, Some c))"

text \<open>The file with number \<open>k\<close> holds the open text, or the last closed one whose turn it was.\<close>

definition ring_closed :: "string list \<Rightarrow> nat \<Rightarrow> string option" where
  "ring_closed closed k =
     (case filter (\<lambda>i. i mod MAX_LOG_FILE_NUM = k) (rev [0..<length closed]) of
        [] \<Rightarrow> None
      | i # is \<Rightarrow> Some (closed ! i))"

definition ring_file :: "ring \<Rightarrow> nat \<Rightarrow> string option" where
  "ring_file R k =
     (case R of (closed, cur) \<Rightarrow>
        if cur \<noteq> None \<and> k = length closed mod MAX_LOG_FILE_NUM then cur else ring_closed closed k)"

lemma ring_closed_snoc:
  "ring_closed (closed @ [c]) k =
     (if k = length closed mod MAX_LOG_FILE_NUM then Some c else ring_closed closed k)"
proof (cases "k = length closed mod MAX_LOG_FILE_NUM")
  case True
  then show ?thesis
    by (simp add: ring_closed_def)
next
  case False
  let ?is = "filter (\<lambda>i. i mod MAX_LOG_FILE_NUM = k) (rev [0..<length closed])"
  have "ring_closed (closed @ [c]) k = (case ?is of [] \<Rightarrow> None | i # is \<Rightarrow> Some ((closed @ [c]) ! i))"
    using False by (simp add: ring_closed_def)
  also have "\<dots> = ring_closed closed k"
  proof (cases ?is)
    case (Cons i r)
    then have "i \<in> set ?is" by (metis list.set_intros(1))
    then have "i < length closed" by simp
    then show ?thesis
      using Cons by (simp add: ring_closed_def nth_append)
  qed (simp add: ring_closed_def)
  finally show ?thesis
    using False by simp
qed

lemma ring_closed_in: "ring_closed closed k = Some c \<Longrightarrow> c \<in> set closed"
  by (induction closed rule: rev_induct) (auto simp: ring_closed_snoc ring_closed_def [of "[]"] split: if_splits)

definition log_ring :: "string \<Rightarrow> nat \<Rightarrow> ring \<Rightarrow> log_state \<Rightarrow> bool" where
  "log_ring name limit R st \<longleftrightarrow>
     (case R of (closed, cur) \<Rightarrow>
        let no = length closed mod MAX_LOG_FILE_NUM
        in 0 < limit \<and>
           g_ucLogFileName st = map (log_file_name name) [0..<MAX_LOG_FILE_NUM] \<and> g_ucLogFileNo st = no \<and>
           g_ulPrintLogPlaceFlag st = PRINT_LOG_TO_FILE \<and> g_ulLogFileSize st = limit \<and> g_stSaveLogMutexLock st \<and>
           pFile st = map_option (\<lambda>_. log_file_name name no) cur \<and>
           (\<forall>k < MAX_LOG_FILE_NUM. log_files st (log_file_name name k) = ring_file R k) \<and>
           (\<forall>c \<in> set closed. limit \<le> length c \<and> length c < 2 ^ 31) \<and>
           (\<forall>c. cur = Some c \<longrightarrow> length c < limit))"

lemma open_log_ring:
  assumes ring: "log_ring name limit (closed, cur) st" and E: "\<forall>p. fopen_allowed E p"
  shows "\<exists>fs. snd (LOG_OpenLogFile E st) =
      st\<lparr>pFile := Some (log_file_name name (length closed mod MAX_LOG_FILE_NUM)), log_files := fs\<rparr> \<and>
    fs (log_file_name name (length closed mod MAX_LOG_FILE_NUM)) = Some (case cur of None \<Rightarrow> [] | Some c \<Rightarrow> c) \<and>
    (\<forall>p. p \<noteq> log_file_name name (length closed mod MAX_LOG_FILE_NUM) \<longrightarrow> fs p = log_files st p)"
proof -
  let ?no = "length closed mod MAX_LOG_FILE_NUM"
  let ?path = "log_file_name name ?no"
  have no: "?no < MAX_LOG_FILE_NUM" by (simp add: MAX_LOG_FILE_NUM_def)
  have st: "g_ucLogFileName st ! g_ucLogFileNo st = ?path" "g_ulLogFileSize st = limit"
    "pFile st = map_option (\<lambda>_. ?path) cur" "log_files st ?path = ring_file (closed, cur) ?no"
    "\<forall>c \<in> set closed. limit \<le> length c \<and> length c < 2 ^ 31"
    using ring no by (simp_all add: log_ring_def Let_def)
  show ?thesis
  proof (cases cur)
    case (Some c)
    then have "snd (LOG_OpenLogFile E st) = st"
      using st(3) by (simp add: LOG_OpenLogFile_def)
    moreover have "st = st\<lparr>pFile := Some ?path, log_files := log_files st\<rparr>"
      using st(3) Some by simp
    ultimately show ?thesis
      using st(4) Some by (intro exI [of _ "log_files st"]) (simp add: ring_file_def)
  next
    case None
    have "\<not> (0 < c_int (int (length c)) \<and> nat (c_int (int (length c))) < limit) \<and> \<not> c_int (int (length c)) < 0"
      if "log_files st ?path = Some c" for c
    proof -
      have "c \<in> set closed"
        using that st(4) None by (auto simp: ring_file_def dest: ring_closed_in)
      then show ?thesis
        using st(5) by (simp add: c_int_small linorder_not_less)
    qed
    then have "snd (LOG_OpenLogFile E st) = st\<lparr>pFile := Some ?path, log_files := (log_files st)(?path \<mapsto> [])\<rparr>"
      using st(1-3) None E log_file_name_not_empty [OF no]
      by (cases "log_files st ?path") (auto simp: LOG_OpenLogFile_def get_file_size_def Let_def)
    then show ?thesis
      using None by (intro exI [of _ "(log_files st)(?path \<mapsto> [])"]) simp
  qed
qed

lemma write_whole:
  assumes "pFile st = Some path" "log_files st path = Some old" "\<forall>p old s. length s \<le> fputs_takes E p old s"
  shows "write_open_file E m st =
     (if g_ulLogFileSize st \<le> length (old @ m)
      then st\<lparr>g_ucLogFileNo := (g_ucLogFileNo st + 1) mod MAX_LOG_FILE_NUM, pFile := None,
              log_files := (log_files st)(path \<mapsto> old @ m)\<rparr>
      else st\<lparr>log_files := (log_files st)(path \<mapsto> old @ m)\<rparr>)"
  using assms by (simp add: write_open_file_def fputs_def get_file_size_def Let_def)

lemma log_ring_print:
  assumes ring: "log_ring name limit R st" and name: "length name \<le> 121"
    and limit: "limit + 1022 \<le> 2 ^ 31" and m: "length m \<le> 1022"
    and E: "\<forall>p. fopen_allowed E p" "\<forall>p old s. length s \<le> fputs_takes E p old s"
  shows "log_ring name limit (ring_print limit R m) (write_open_file E m (snd (LOG_OpenLogFile E st)))"
proof -
  obtain closed cur where R: "R = (closed, cur)" by fastforce
  let ?no = "length closed mod MAX_LOG_FILE_NUM" and ?c = "case cur of None \<Rightarrow> [] | Some c \<Rightarrow> c"
  let ?path = "log_file_name name ?no"
  have no: "?no < MAX_LOG_FILE_NUM" by (simp add: MAX_LOG_FILE_NUM_def)
  obtain fs where fs: "snd (LOG_OpenLogFile E st) = st\<lparr>pFile := Some ?path, log_files := fs\<rparr>"
    "fs ?path = Some ?c" "\<And>p. p \<noteq> ?path \<Longrightarrow> fs p = log_files st p"
    using open_log_ring [of name limit closed cur st E] ring E(1) R by auto
  have len: "length ?c < limit"
    using ring by (auto simp: log_ring_def R Let_def split: option.split)
  have files: "(fs(?path \<mapsto> ?c @ m)) (log_file_name name k) =
      (if k = ?no then Some (?c @ m) else ring_closed closed k)" if "k < MAX_LOG_FILE_NUM" for k
    using that no name fs(3) ring
    by (auto simp: log_file_name_inj log_ring_def R Let_def ring_file_def)
  show ?thesis
  proof (cases "limit \<le> length (?c @ m)")
    case True
    then have "ring_print limit R m = (closed @ [?c @ m], None)"
      by (simp add: ring_print_def R Let_def)
    moreover have "length (?c @ m) < 2 ^ 31"
      using len m limit by simp
    moreover have "length (closed @ [?c @ m]) mod MAX_LOG_FILE_NUM = (?no + 1) mod MAX_LOG_FILE_NUM"
      by (simp add: mod_Suc_eq)
    ultimately show ?thesis
      using True ring files fs(1,2) E(2)
      by (simp add: write_whole log_ring_def R Let_def ring_file_def ring_closed_snoc)
  next
    case False
    then show ?thesis
      using ring files fs(1,2) E(2)
      by (simp add: write_whole log_ring_def R Let_def ring_print_def ring_file_def)
  qed
qed

text \<open>The messages of a program, each with its time and type; none of them fails.\<close>

fun print_all :: "log_env \<Rightarrow> (log_time \<times> log_type \<times> string) list \<Rightarrow> log_state \<Rightarrow> log_state option" where
  "print_all E [] st = Some st"
| "print_all E ((t, ty, info) # ms) st =
     (case LOG_PrintLog E t ty (Some info) st of
        None \<Rightarrow> None
      | Some (r, st) \<Rightarrow> if r = 0 then print_all E ms st else None)"

lemma print_all_ring:
  assumes "length name \<le> 121" "limit + 1022 \<le> 2 ^ 31"
    and "\<forall>p. fopen_allowed E p" "\<forall>p old s. length s \<le> fputs_takes E p old s"
  shows "log_ring name limit R st \<Longrightarrow>
     \<exists>st'. print_all E ms st = Some st' \<and>
       log_ring name limit (foldl (ring_print limit) R (map (\<lambda>(t, ty, info). log_text t ty info) ms)) st'"
proof (induction ms arbitrary: R st)
  case (Cons m ms)
  obtain t ty info where m: "m = (t, ty, info)" by (cases m)
  let ?st = "write_open_file E (log_text t ty info) (snd (LOG_OpenLogFile E st))"
  have "LOG_PrintLog E t ty (Some info) st = Some (0, ?st)"
    using Cons(2) by (cases R) (simp add: LOG_PrintLog_def log_ring_def Let_def PRINT_LOG_TO_FILE_def PRINT_LOG_TO_TERM_def)
  moreover have "log_ring name limit (ring_print limit R (log_text t ty info)) ?st"
    using log_ring_print [OF Cons(2) assms(1,2) log_text_length assms(3,4)] .
  ultimately show ?case
    using Cons(1) by (simp add: m)
qed simp

lemma ring_keeps_messages:
  "foldl (ring_print limit) (closed, cur) ms = (closed', cur') \<Longrightarrow>
   concat closed' @ (case cur' of None \<Rightarrow> [] | Some c \<Rightarrow> c) =
     concat closed @ (case cur of None \<Rightarrow> [] | Some c \<Rightarrow> c) @ concat ms"
  by (induction ms arbitrary: closed cur) (auto simp: ring_print_def Let_def split: option.splits if_splits)

definition log_opened :: "string \<Rightarrow> nat \<Rightarrow> (string \<Rightarrow> string option) \<Rightarrow> log_state" where
  "log_opened name limit fs = snd (LOG_Init (Some name) limit (LOG_SetPrintLogPlaceFlag PRINT_LOG_TO_FILE (log_start fs)))"

lemma log_opened_ring:
  assumes "0 < limit" "\<forall>k < MAX_LOG_FILE_NUM. fs (log_file_name name k) = None"
  shows "log_ring name limit ([], None) (log_opened name limit fs)"
  using assms
  by (simp add: log_opened_def log_ring_def LOG_Init_def LOG_SetPrintLogPlaceFlag_def log_start_def Let_def
      ring_file_def ring_closed_def)

text \<open>
  C14: The three log files are a ring.  After any messages their texts, in order, are cut into filled files,
  each at least of the given size, and a last one that is not full; each of the three files holds the last
  text whose turn it was.
\<close>

theorem log_refines_ring:
  assumes "length name \<le> 121" "0 < limit" "limit + 1022 \<le> 2 ^ 31"
    and "\<forall>p. fopen_allowed E p" "\<forall>p old s. length s \<le> fputs_takes E p old s"
    and "\<forall>k < MAX_LOG_FILE_NUM. fs (log_file_name name k) = None"
  shows "\<exists>st closed cur. print_all E ms (log_opened name limit fs) = Some st \<and>
     foldl (ring_print limit) ([], None) (map (\<lambda>(t, ty, info). log_text t ty info) ms) = (closed, cur) \<and>
     concat closed @ (case cur of None \<Rightarrow> [] | Some c \<Rightarrow> c) = concat (map (\<lambda>(t, ty, info). log_text t ty info) ms) \<and>
     (\<forall>c \<in> set closed. limit \<le> length c) \<and> (\<forall>c. cur = Some c \<longrightarrow> length c < limit) \<and>
     (\<forall>k < MAX_LOG_FILE_NUM. log_files st (log_file_name name k) = ring_file (closed, cur) k)"
proof -
  let ?ms = "map (\<lambda>(t, ty, info). log_text t ty info) ms"
  obtain closed cur where R: "foldl (ring_print limit) ([], None) ?ms = (closed, cur)"
    by fastforce
  then obtain st where "print_all E ms (log_opened name limit fs) = Some st" "log_ring name limit (closed, cur) st"
    using print_all_ring [OF assms(1,3,4,5) log_opened_ring [OF assms(2,6)]] by metis
  then show ?thesis
    using R ring_keeps_messages [OF R] by (intro exI [of _ st] exI [of _ closed] exI [of _ cur]) (simp add: log_ring_def Let_def)
qed

definition noon :: log_time where
  "noon = \<lparr>tm_year = 124, tm_mon = 0, tm_mday = 1, tm_hour = 12, tm_min = 0, tm_sec = 0, tv_usec = 5000\<rparr>"

theorem log_refines_ring_witness:
  "\<exists>st closed cur. print_all whole_env [(noon, LOG_ERROR, ''x''), (noon, LOG_ERROR, ''y'')] (log_opened ''a'' 20 (\<lambda>_. None)) = Some st \<and>
     foldl (ring_print 20) ([], None) (map (\<lambda>(t, ty, info). log_text t ty info) [(noon, LOG_ERROR, ''x''), (noon, LOG_ERROR, ''y'')]) = (closed, cur) \<and>
     concat closed @ (case cur of None \<Rightarrow> [] | Some c \<Rightarrow> c) =
       concat (map (\<lambda>(t, ty, info). log_text t ty info) [(noon, LOG_ERROR, ''x''), (noon, LOG_ERROR, ''y'')]) \<and>
     (\<forall>c \<in> set closed. 20 \<le> length c) \<and> (\<forall>c. cur = Some c \<longrightarrow> length c < 20) \<and>
     (\<forall>k < MAX_LOG_FILE_NUM. log_files st (log_file_name ''a'' k) = ring_file (closed, cur) k)"
  by (rule log_refines_ring) (simp_all add: whole_env_def)

subsection \<open>Where messages are lost\<close>

text \<open>A file of 2 GiB or more has a negative size as an \<open>int\<close>: it is not opened, and messages are dropped.\<close>

lemma c_int_wraps_once:
  assumes "2 ^ 31 \<le> x" "x < 2 ^ 32"
  shows "c_int x = x - 2 ^ 32"
proof -
  have "take_bit 32 (x + 2 ^ 31) = x - 2 ^ 31"
    using assms mod_pos_pos_trivial [of "x - 2 ^ 31" "2 ^ 32"] mod_add_self2 [of "x - 2 ^ 31" "2 ^ 32"]
    by (simp add: take_bit_eq_mod add.commute)
  then show ?thesis
    by (simp add: c_int_def signed_take_bit_eq_take_bit_shift)
qed

lemma huge_file_stops_log:
  assumes "pFile st = None" "log_files st (g_ucLogFileName st ! g_ucLogFileNo st) = Some c"
    and "2 ^ 31 \<le> length c" "length c < 2 ^ 32"
    and "g_stSaveLogMutexLock st" "g_ulPrintLogPlaceFlag st \<noteq> PRINT_LOG_TO_TERM"
  shows "LOG_PrintLog E t ty (Some info) st = Some (0, st)"
proof -
  have "c_int (int (length c)) = int (length c) - 2 ^ 32"
    using assms(3,4) by (intro c_int_wraps_once) simp_all
  then have "LOG_OpenLogFile E st = (-1, st)"
    using assms(1-4) by (simp add: LOG_OpenLogFile_def get_file_size_def Let_def)
  then show ?thesis
    using assms(1,5,6) by (simp add: LOG_PrintLog_def write_open_file_def Let_def)
qed

text \<open>
  \<open>LOG_Destroy\<close> leaves the mark that the library was started: a second \<open>LOG_Init\<close> reports success and does
  not set up the mutex again, which the next message locks.
\<close>

lemma restart_locks_destroyed_mutex:
  assumes "LOG_Destroy st = Some st1" "g_ulLogInitFlag st \<noteq> 0" "g_ulPrintLogPlaceFlag st \<noteq> PRINT_LOG_TO_TERM" "0 < n"
  shows "fst (LOG_Init (Some name) n st1) = 0 \<and>
    LOG_PrintLog E t ty (Some info) (snd (LOG_Init (Some name) n st1)) = None"
proof -
  have "st1 = st\<lparr>pFile := None, g_stSaveLogMutexLock := False\<rparr>"
    using assms(1) by (simp add: LOG_Destroy_def split: if_splits)
  then show ?thesis
    using assms(2-4) by (simp add: LOG_Init_def LOG_PrintLog_def Let_def)
qed

text \<open>The flag against debug messages is only asked when messages go to the terminal.\<close>

lemma debug_flag_ignored_for_files:
  "g_ulPrintLogPlaceFlag st \<noteq> PRINT_LOG_TO_TERM \<Longrightarrow>
   LOG_INFO E t LOG_DEBUG msg file_name line func (LOG_SetPrintDebugLogFlag 0 st) =
   LOG_PrintLog E t LOG_DEBUG (Some (snprintf (STR_MAX_SIZE - 1)
     (msg @ ''  ['' @ file_name @ ''] [line:'' @ zero_padded 0 line @ ''] ['' @ func @ '']'' @ [CHR 0x0A])))
     (LOG_SetPrintDebugLogFlag 0 st)"
  by (simp add: LOG_INFO_def LOG_SetPrintDebugLogFlag_def Let_def)

end
