(* ===== verification/Time_Str.thy ===== *)
theory Time_Str
  imports Lf_Log
begin

text \<open>
  The conversions of times in \<open>time_str/src/main.c\<close>, a time to its text in local time and back, and in
  \<open>time/src/main.c\<close>.  \<open>localtime\<close> and
  \<open>mktime\<close> know the time zone and are arguments; the formats of \<open>sprintf\<close> and \<open>strptime\<close> are written out.
\<close>

record struct_tm =
  tms_year :: int
  tms_mon :: int
  tms_mday :: int
  tms_hour :: int
  tms_min :: int
  tms_sec :: int
  tms_isdst :: int

definition tm_zero :: struct_tm where
  "tm_zero = \<lparr>tms_year = 0, tms_mon = 0, tms_mday = 0, tms_hour = 0, tms_min = 0, tms_sec = 0, tms_isdst = 0\<rparr>"

definition time_to_timestr :: "(int \<Rightarrow> struct_tm) \<Rightarrow> int \<Rightarrow> string" where
  "time_to_timestr localtime timestamp =
     (let p = localtime timestamp
      in zero_padded 0 (1900 + tms_year p) @ ''-'' @ zero_padded 2 (1 + tms_mon p) @ ''-'' @
         zero_padded 2 (tms_mday p) @ '' '' @ zero_padded 2 (tms_hour p) @ '':'' @
         zero_padded 2 (tms_min p) @ '':'' @ zero_padded 2 (tms_sec p))"

subsection \<open>Reading the text\<close>

definition is_digit :: "char \<Rightarrow> bool" where
  "is_digit c \<longleftrightarrow> c \<in> set ''0123456789''"

definition digit_value :: "char \<Rightarrow> int" where
  "digit_value c = of_char c - 48"

definition digits_value :: "string \<Rightarrow> int" where
  "digits_value ds = foldl (\<lambda>v c. v * 10 + digit_value c) 0 ds"

definition is_space :: "char \<Rightarrow> bool" where
  "is_space c \<longleftrightarrow> c \<in> {CHR '' '', CHR 0x09, CHR 0x0A, CHR 0x0B, CHR 0x0C, CHR 0x0D}"

text \<open>A number of at most \<open>n\<close> digits from \<open>lo\<close> to \<open>hi\<close>, after blanks.\<close>

definition get_number :: "int \<Rightarrow> int \<Rightarrow> nat \<Rightarrow> string \<Rightarrow> (int \<times> string) option" where
  "get_number lo hi n s =
     (let s = dropWhile is_space s;
          ds = takeWhile is_digit (take n s);
          v = digits_value ds
      in if ds \<noteq> [] \<and> lo \<le> v \<and> v \<le> hi then Some (v, drop (length ds) s) else None)"

text \<open>The directives of the format; a blank in it matches any blanks, other characters themselves.\<close>

datatype directive = Year | Month | Day | Hour | Minute | Second | Literal char | Blanks

definition time_format :: "directive list" where
  "time_format = [Year, Literal CHR ''-'', Month, Literal CHR ''-'', Day, Blanks, Hour, Literal CHR '':'',
     Minute, Literal CHR '':'', Second]"

definition literal :: "char \<Rightarrow> string \<Rightarrow> string option" where
  "literal c s = (case s of [] \<Rightarrow> None | d # r \<Rightarrow> if d = c then Some r else None)"

primrec directive_step :: "directive \<Rightarrow> string \<Rightarrow> struct_tm \<Rightarrow> (string \<times> struct_tm) option" where
  "directive_step Year s tm = map_option (\<lambda>(v, r). (r, tm\<lparr>tms_year := v - 1900\<rparr>)) (get_number 0 9999 4 s)"
| "directive_step Month s tm = map_option (\<lambda>(v, r). (r, tm\<lparr>tms_mon := v - 1\<rparr>)) (get_number 1 12 2 s)"
| "directive_step Day s tm = map_option (\<lambda>(v, r). (r, tm\<lparr>tms_mday := v\<rparr>)) (get_number 1 31 2 s)"
| "directive_step Hour s tm = map_option (\<lambda>(v, r). (r, tm\<lparr>tms_hour := v\<rparr>)) (get_number 0 23 2 s)"
| "directive_step Minute s tm = map_option (\<lambda>(v, r). (r, tm\<lparr>tms_min := v\<rparr>)) (get_number 0 59 2 s)"
| "directive_step Second s tm = map_option (\<lambda>(v, r). (r, tm\<lparr>tms_sec := v\<rparr>)) (get_number 0 61 2 s)"
| "directive_step (Literal c) s tm = map_option (\<lambda>r. (r, tm)) (literal c s)"
| "directive_step Blanks s tm = Some (dropWhile is_space s, tm)"

text \<open>Where the text does not match, the fields read so far are kept.\<close>

fun strptime :: "directive list \<Rightarrow> string \<Rightarrow> struct_tm \<Rightarrow> struct_tm" where
  "strptime [] s tm = tm"
| "strptime (d # ds) s tm =
     (case directive_step d s tm of None \<Rightarrow> tm | Some (r, tm) \<Rightarrow> strptime ds r tm)"

text \<open>The result of \<open>strptime\<close> is not looked at.\<close>

definition timestr_to_time :: "(struct_tm \<Rightarrow> int) \<Rightarrow> string \<Rightarrow> int" where
  "timestr_to_time mktime time_str = mktime (strptime time_format time_str tm_zero)"

subsection \<open>Numbers\<close>

lemma decimal_digit: "n < 10 \<Longrightarrow> is_digit (''0123456789'' ! n) \<and> digit_value (''0123456789'' ! n) = int n"
  by (auto simp: is_digit_def digit_value_def numeral_eq_Suc less_Suc_eq)

lemma decimal_digits_read:
  "digits_value (decimal_digits n) = int n \<and> list_all is_digit (decimal_digits n) \<and> decimal_digits n \<noteq> []"
proof (induction n rule: decimal_digits.induct)
  case (1 n)
  then show ?case
    using decimal_digit [of n] decimal_digit [of "n mod 10"] div_mult_mod_eq [of "int n" 10]
    by (subst (1 2 3) decimal_digits.simps) (auto simp: digits_value_def zdiv_int zmod_int)
qed

lemma decimal_digits_length: "n < 10 ^ k \<Longrightarrow> 0 < k \<Longrightarrow> length (decimal_digits n) \<le> k"
proof (induction n arbitrary: k rule: decimal_digits.induct)
  case (1 n)
  then show ?case
  proof (cases "n < 10")
    case False
    then obtain k' where k: "k = Suc k'" "0 < k'"
      using 1 by (cases k; cases "k - 1") auto
    then have "n div 10 < 10 ^ k'"
      using 1 by (simp add: div_less_iff_less_mult mult.commute)
    then show ?thesis
      using 1 False k by (subst decimal_digits.simps) simp
  next
    case True
    then show ?thesis
      using 1 by (subst decimal_digits.simps) simp
  qed
qed

lemma digits_value_zeros: "digits_value (replicate k CHR ''0'' @ ds) = digits_value ds"
  by (induction k) (auto simp: digits_value_def digit_value_def)

lemma is_digit_zero: "is_digit CHR ''0''"
  by (simp add: is_digit_def)

lemma zero_padded_read:
  assumes "0 \<le> x" "x < 10 ^ w" "0 < w"
  shows "digits_value (zero_padded w x) = x" "list_all is_digit (zero_padded w x)" "length (zero_padded w x) = w"
proof -
  have "length (decimal_digits (nat x)) \<le> w"
    using assms by (intro decimal_digits_length) (simp_all add: nat_less_iff)
  then show "length (zero_padded w x) = w"
    using assms(1) by (simp add: zero_padded_def Let_def)
  show "digits_value (zero_padded w x) = x" "list_all is_digit (zero_padded w x)"
    using assms(1) decimal_digits_read [of "nat x"] is_digit_zero
    by (simp_all add: zero_padded_def Let_def digits_value_zeros list_all_iff ball_Un)
qed

lemma get_number_read:
  assumes "list_all is_digit ds" "ds \<noteq> []" "length ds \<le> n" "lo \<le> digits_value ds" "digits_value ds \<le> hi"
    and "length ds = n \<or> (\<exists>c r'. r = c # r' \<and> \<not> is_digit c)"
  shows "get_number lo hi n (ds @ r) = Some (digits_value ds, r)"
proof -
  have "\<not> is_space (hd ds)"
    using assms(1,2) by (cases ds) (auto simp: is_digit_def is_space_def)
  then have "dropWhile is_space (ds @ r) = ds @ r"
    using assms(2) by (cases ds) auto
  moreover have "takeWhile is_digit (take n (ds @ r)) = ds"
    using assms(1,3,6) by (auto simp: list_all_iff takeWhile_append takeWhile_eq_all_conv [THEN iffD2] take_Cons split: nat.split)
  ultimately show ?thesis
    using assms(2,4,5) by (simp add: get_number_def)
qed

lemma get_two_digits:
  assumes "0 \<le> x" "x < 100" "lo \<le> x" "x \<le> hi"
  shows "get_number lo hi 2 (zero_padded 2 x @ r) = Some (x, r)" "get_number lo hi 2 (zero_padded 2 x) = Some (x, [])"
proof -
  note z = zero_padded_read [of x 2]
  have "zero_padded 2 x \<noteq> []" using z(3) assms by auto
  then show "get_number lo hi 2 (zero_padded 2 x @ r) = Some (x, r)" for r
    using get_number_read [of "zero_padded 2 x" 2 lo hi r] z assms by simp
  from this [of "[]"] show "get_number lo hi 2 (zero_padded 2 x) = Some (x, [])" by simp
qed

lemma get_year:
  assumes "0 \<le> y" "y \<le> 9999"
  shows "get_number 0 9999 4 (zero_padded 0 y @ CHR ''-'' # r) = Some (y, CHR ''-'' # r)"
proof -
  have "length (decimal_digits (nat y)) \<le> 4"
    using assms by (intro decimal_digits_length) (simp_all add: nat_less_iff)
  then show ?thesis
    using get_number_read [of "decimal_digits (nat y)" 4 0 9999 "CHR ''-'' # r"] decimal_digits_read [of "nat y"] assms
    by (simp add: zero_padded_def Let_def is_digit_def)
qed

definition tm_in_range :: "struct_tm \<Rightarrow> bool" where
  "tm_in_range p \<longleftrightarrow> - 1900 \<le> tms_year p \<and> tms_year p \<le> 8099 \<and> 0 \<le> tms_mon p \<and> tms_mon p \<le> 11 \<and>
     1 \<le> tms_mday p \<and> tms_mday p \<le> 31 \<and> 0 \<le> tms_hour p \<and> tms_hour p \<le> 23 \<and> 0 \<le> tms_min p \<and> tms_min p \<le> 59 \<and>
     0 \<le> tms_sec p \<and> tms_sec p \<le> 60"

text \<open>
  C19: The text of a time up to the year 9999 is read back field by field; only whether it was summer time is
  lost, the way back takes every text for standard time.
\<close>

theorem timestr_reads_fields:
  assumes "tm_in_range (localtime t)"
  shows "timestr_to_time mktime (time_to_timestr localtime t) = mktime ((localtime t)\<lparr>tms_isdst := 0\<rparr>)"
proof -
  let ?p = "localtime t"
  have blank: "dropWhile is_space (zero_padded 2 (tms_hour ?p) @ r) = zero_padded 2 (tms_hour ?p) @ r"
    "is_space CHR '' ''" for r
  proof -
    note z = zero_padded_read [of "tms_hour ?p" 2]
    show "dropWhile is_space (zero_padded 2 (tms_hour ?p) @ r) = zero_padded 2 (tms_hour ?p) @ r"
      using z assms by (cases "zero_padded 2 (tms_hour ?p)") (auto simp: is_space_def is_digit_def tm_in_range_def)
    show "is_space CHR '' ''" by (simp add: is_space_def)
  qed
  have "timestr_to_time mktime (time_to_timestr localtime t) =
      mktime \<lparr>tms_year = tms_year ?p, tms_mon = tms_mon ?p, tms_mday = tms_mday ?p,
        tms_hour = tms_hour ?p, tms_min = tms_min ?p, tms_sec = tms_sec ?p, tms_isdst = 0\<rparr>"
    using assms
    by (simp add: timestr_to_time_def time_to_timestr_def Let_def time_format_def tm_in_range_def get_year get_two_digits
        literal_def blank tm_zero_def)
  also have "\<lparr>tms_year = tms_year ?p, tms_mon = tms_mon ?p, tms_mday = tms_mday ?p,
      tms_hour = tms_hour ?p, tms_min = tms_min ?p, tms_sec = tms_sec ?p, tms_isdst = 0\<rparr> = ?p\<lparr>tms_isdst := 0\<rparr>"
    by (rule struct_tm.equality) simp_all
  finally show ?thesis .
qed

theorem timestr_reads_fields_witness:
  "timestr_to_time (\<lambda>p. tms_hour p * 3600 + tms_isdst p)
     (time_to_timestr (\<lambda>t. \<lparr>tms_year = 122, tms_mon = 1, tms_mday = 16, tms_hour = 7, tms_min = 54, tms_sec = 31,
        tms_isdst = 1\<rparr>) 0) = 7 * 3600"
  by (subst timestr_reads_fields) (simp_all add: tm_in_range_def)

lemma time_to_timestr_fits:
  "tm_in_range (localtime t) \<Longrightarrow> length (time_to_timestr localtime t) < 40"
  using decimal_digits_length [of "nat (1900 + tms_year (localtime t))" 4]
  by (simp add: time_to_timestr_def Let_def zero_padded_read tm_in_range_def nat_less_iff) (simp add: zero_padded_def Let_def)

subsection \<open>Times in milliseconds\<close>

text \<open>
  \<open>time/src/main.c\<close>: the wall clock in milliseconds, and a point of time some milliseconds ahead.  The sums of
  \<open>long\<close> values are taken without their bounds, which no date near today reaches.
\<close>

record timespec =
  tv_sec :: int
  tv_nsec :: int

definition TIMER_getAbsNow :: "timespec \<Rightarrow> 64 word" where
  "TIMER_getAbsNow tv = word_of_int (tv_nsec tv) div (1000 * 1000) + word_of_int (tv_sec tv) * 1000"

text \<open>Division in C rounds towards 0, and the remainder has the sign of the dividend.\<close>

definition quot_1000 :: "int \<Rightarrow> int" where
  "quot_1000 x = (if x < 0 then - ((- x) div 1000) else x div 1000)"

definition rem_1000 :: "int \<Rightarrow> int" where
  "rem_1000 x = x - 1000 * quot_1000 x"

function carry_nsecs :: "timespec \<Rightarrow> timespec" where
  "carry_nsecs tv =
     (if 1000 * 1000 * 1000 < tv_nsec tv
      then carry_nsecs (tv\<lparr>tv_sec := tv_sec tv + 1, tv_nsec := tv_nsec tv - 1000 * 1000 * 1000\<rparr>) else tv)"
  by pat_completeness auto
termination by (relation "measure (\<lambda>tv. nat (tv_nsec tv))") auto

declare carry_nsecs.simps [simp del]

definition make_timespec :: "timespec \<Rightarrow> int \<Rightarrow> timespec" where
  "make_timespec now timeout_mSecs =
     carry_nsecs (now\<lparr>tv_sec := tv_sec now + quot_1000 timeout_mSecs,
                      tv_nsec := tv_nsec now + rem_1000 timeout_mSecs * 1000 * 1000\<rparr>)"

lemma carry_nsecs_same:
  "tv_sec (carry_nsecs tv) * 10 ^ 9 + tv_nsec (carry_nsecs tv) = tv_sec tv * 10 ^ 9 + tv_nsec tv"
  "0 \<le> tv_nsec tv \<Longrightarrow> 0 \<le> tv_nsec (carry_nsecs tv) \<and> tv_nsec (carry_nsecs tv) \<le> 10 ^ 9"
  by (induction tv rule: carry_nsecs.induct, subst (1 2) carry_nsecs.simps, simp)
     (induction tv rule: carry_nsecs.induct, subst (1 2) carry_nsecs.simps, simp)

text \<open>The point of time is exact; its nanoseconds may be a whole second, as the next lemma shows.\<close>

theorem make_timespec_exact:
  assumes "0 \<le> tv_nsec now" "0 \<le> t"
  shows "tv_sec (make_timespec now t) * 10 ^ 9 + tv_nsec (make_timespec now t) =
           tv_sec now * 10 ^ 9 + tv_nsec now + t * 10 ^ 6 \<and>
         0 \<le> tv_nsec (make_timespec now t) \<and> tv_nsec (make_timespec now t) \<le> 10 ^ 9"
proof -
  have "0 \<le> rem_1000 t" "1000 * quot_1000 t + rem_1000 t = t"
    using assms(2) mult_div_mod_eq [of 1000 t] pos_mod_sign [of 1000 t] by (simp_all add: rem_1000_def quot_1000_def)
  moreover let ?tv = "now\<lparr>tv_sec := tv_sec now + quot_1000 t, tv_nsec := tv_nsec now + rem_1000 t * 1000 * 1000\<rparr>"
  have "tv_sec ?tv * 10 ^ 9 + tv_nsec ?tv = tv_sec now * 10 ^ 9 + tv_nsec now + (1000 * quot_1000 t + rem_1000 t) * 10 ^ 6"
    by simp
  ultimately show ?thesis
    using assms(1) carry_nsecs_same [of ?tv] unfolding make_timespec_def by simp
qed

theorem make_timespec_exact_witness:
  "tv_sec (make_timespec \<lparr>tv_sec = 5, tv_nsec = 999000000\<rparr> 1500) * 10 ^ 9 +
     tv_nsec (make_timespec \<lparr>tv_sec = 5, tv_nsec = 999000000\<rparr> 1500) = 7499000000"
  using make_timespec_exact [of "\<lparr>tv_sec = 5, tv_nsec = 999000000\<rparr>" 1500] by simp

text \<open>A whole second of nanoseconds is not carried: the result is no valid \<open>timespec\<close>.\<close>

lemma whole_second_not_carried:
  "make_timespec \<lparr>tv_sec = 5, tv_nsec = 999000000\<rparr> 1 = \<lparr>tv_sec = 5, tv_nsec = 10 ^ 9\<rparr>"
  by (simp add: make_timespec_def quot_1000_def rem_1000_def carry_nsecs.simps)

end
