(* ===== verification/Bits_N_Bits.thy ===== *)
theory Bits_N_Bits
  imports Prelude
begin

unbundle bit_operations_syntax

text \<open>
  The macros of \<open>bit_set_get/src/bitsnbits.h\<close> on single bits and bit fields of an unsigned value, and its
  constants for sizes.  A value narrower than \<open>int\<close> is promoted to it; a shift by a negative amount or by the
  width of its operand, and an \<open>int\<close> out of range, have no result.  \<open>_bit_IsSet\<close> and \<open>_bit_IsClr\<close> call a
  macro \<open>_bit\<close> that does not exist, and have no definition here.
\<close>

subsection \<open>Single bits\<close>

text \<open>\<open>1ULL << N\<close>; the constants \<open>_bit0\<close> to \<open>_bit63\<close> are its values.\<close>

definition bitN :: "int \<Rightarrow> 64 word option" where
  "bitN N = (if 0 \<le> N \<and> N < 64 then Some (push_bit (nat N) 1) else None)"

text \<open>The value is widened for the operation and cut when it is stored.\<close>

definition bit_Set :: "'a::len word \<Rightarrow> int \<Rightarrow> 'a word option" where
  "bit_Set v N = map_option (\<lambda>m. ucast (ucast v OR m)) (bitN N)"

definition bit_Clr :: "'a::len word \<Rightarrow> int \<Rightarrow> 'a word option" where
  "bit_Clr v N = map_option (\<lambda>m. ucast (ucast v AND NOT m)) (bitN N)"

definition promoted_width :: "'a::len word \<Rightarrow> int" where
  "promoted_width v = int (max 32 LENGTH('a))"

definition bitXof :: "'a::len word \<Rightarrow> int \<Rightarrow> 'a word option" where
  "bitXof v N = (if 0 \<le> N \<and> N < promoted_width v then Some (drop_bit (nat N) v AND 1) else None)"

subsection \<open>Bit fields, ranges and sizes\<close>

text \<open>The mask is \<open>(1 << (MSB - LSB + 1)) - 1\<close>, an \<open>int\<close>: a shift by 31 or more leaves its range.\<close>

definition bitsXYof :: "'a::len word \<Rightarrow> int \<Rightarrow> int \<Rightarrow> 'a word option" where
  "bitsXYof v MSB LSB =
     (if 0 \<le> LSB \<and> LSB < promoted_width v \<and> 0 \<le> MSB - LSB + 1 \<and> MSB - LSB + 1 < 31
      then Some (drop_bit (nat LSB) v AND mask (nat (MSB - LSB + 1)))
      else None)"

definition inrange :: "int \<Rightarrow> int \<Rightarrow> int \<Rightarrow> bool" where
  "inrange V L HPLUS1 \<longleftrightarrow> V \<ge> L \<and> V < HPLUS1"

definition nK :: "int \<Rightarrow> int option" where
  "nK n = int_result (n * 1024)"

definition nM :: "int \<Rightarrow> int option" where
  "nM n = do { k \<leftarrow> nK 1; x \<leftarrow> int_result (n * k); int_result (x * k) }"

definition nG :: "int \<Rightarrow> int option" where
  "nG n = do { m \<leftarrow> nM 1; k \<leftarrow> nK 1; x \<leftarrow> int_result (n * m); int_result (x * k) }"

subsection \<open>What they compute\<close>

lemma mask_is_int_mask: "0 \<le> w \<Longrightarrow> w < 31 \<Longrightarrow> int_result (2 ^ nat w - 1) = Some (mask (nat w))"
proof -
  assume "0 \<le> w" "w < 31"
  then have "(2 :: int) ^ nat w \<le> 2 ^ 30"
    by (intro power_increasing) auto
  moreover have "(0 :: int) < 2 ^ nat w" by simp
  moreover have "- (2 ^ 31) \<le> x - 1 \<and> x - 1 < 2 ^ 31" if "x \<le> 2 ^ 30" "0 < x" for x :: int
    using that by simp
  ultimately have "- (2 ^ 31) \<le> (2 :: int) ^ nat w - 1 \<and> (2 :: int) ^ nat w - 1 < 2 ^ 31"
    by blast
  then show ?thesis
    by (simp add: int_result_def mask_eq_exp_minus_1)
qed

text \<open>
  A bit field of at most 30 bits is read exactly: bit \<open>i\<close> of the result is bit \<open>LSB + i\<close> of the value,
  up to the width of the field.
\<close>

theorem bit_field_exact:
  fixes v :: "'a::len word"
  assumes "0 \<le> LSB" "LSB \<le> MSB" "LSB < int LENGTH('a)" "MSB - LSB < 30"
  shows "\<exists>r. bitsXYof v MSB LSB = Some r \<and> (\<forall>i. bit r i \<longleftrightarrow> int i \<le> MSB - LSB \<and> bit v (nat LSB + i))"
  using assms
  by (auto simp: bitsXYof_def promoted_width_def bit_simps nat_less_iff dest: bit_imp_le_length)

theorem bit_field_exact_witness:
  "\<exists>r. bitsXYof (0x35 :: 8 word) 6 4 = Some r \<and> (\<forall>i. bit r i \<longleftrightarrow> int i \<le> 6 - 4 \<and> bit (0x35 :: 8 word) (nat 4 + i))"
  by (rule bit_field_exact) simp_all

text \<open>
  Setting a bit and clearing it change that bit, as it is read back, and no other.
\<close>

theorem set_and_clear_read_back:
  fixes v :: "'a::len word"
  assumes "LENGTH('a) \<le> 64" "0 \<le> N" "N < int LENGTH('a)"
  shows "\<exists>s c. bit_Set v N = Some s \<and> bit_Clr v N = Some c \<and> bitXof s N = Some 1 \<and> bitXof c N = Some 0 \<and>
    (\<forall>M. M \<noteq> N \<longrightarrow> bitXof s M = bitXof v M \<and> bitXof c M = bitXof v M)"
proof -
  define s c :: "'a word" where sc: "s = ucast (ucast v OR push_bit (nat N) 1 :: 64 word)"
    "c = ucast (ucast v AND NOT (push_bit (nat N) 1) :: 64 word)"
  have n: "nat N < LENGTH('a)" "nat N < 64" "N < 64" using assms by linarith+
  have bits: "bit s i \<longleftrightarrow> bit v i \<or> i = nat N" "bit c i \<longleftrightarrow> bit v i \<and> i \<noteq> nat N" for i
    using assms n unfolding sc by (auto simp: bit_simps dest: bit_imp_le_length)
  have one: "drop_bit k w AND 1 = of_bool (bit w k)" for k and w :: "'a word"
    by (rule bit_word_eqI) (auto simp: bit_simps)
  have "bitXof s N = Some 1" "bitXof c N = Some 0"
    using assms by (simp_all add: bitXof_def promoted_width_def one bits)
  moreover have "bitXof s M = bitXof v M \<and> bitXof c M = bitXof v M" if "M \<noteq> N" for M
    using assms that by (auto simp: bitXof_def promoted_width_def one bits nat_eq_iff)
  ultimately show ?thesis
    using assms n by (simp add: bit_Set_def bit_Clr_def bitN_def sc)
qed

theorem set_and_clear_read_back_witness:
  "\<exists>s c. bit_Set (0x35 :: 8 word) 1 = Some s \<and> bit_Clr (0x35 :: 8 word) 1 = Some c \<and> bitXof s 1 = Some 1 \<and>
    bitXof c 1 = Some 0 \<and>
    (\<forall>M. M \<noteq> 1 \<longrightarrow> bitXof s M = bitXof (0x35 :: 8 word) M \<and> bitXof c M = bitXof (0x35 :: 8 word) M)"
  by (rule set_and_clear_read_back) simp_all

text \<open>A field of 31 bits or more, a whole word for example, has no defined result.\<close>

lemma wide_field_undefined: "31 \<le> MSB - LSB + 1 \<Longrightarrow> bitsXYof v MSB LSB = None"
  by (simp add: bitsXYof_def)

text \<open>The constants from 2 GiB on leave the range of \<open>int\<close>; the header takes the limit to be 4 GiB.\<close>

lemma sizes_out_of_range: "nM 2048 = None" "nG 2 = None" "nG 3 = None"
  by (simp_all add: nM_def nG_def nK_def int_result_def)

lemma sizes_in_range:
  "- 2048 \<le> n \<Longrightarrow> n < 2048 \<Longrightarrow> nM n = Some (n * 2 ^ 20)" "nG 1 = Some (2 ^ 30)"
  by (auto simp: nM_def nG_def nK_def int_result_def)

end
