(* ===== verification/File_Delete.thy ===== *)
theory File_Delete
  imports Prelude
begin

text \<open>
  The recursive deletion of \<open>file/src/file_delete.c\<close>.  A node of the file system is a regular file, a directory
  with the entries that \<open>readdir\<close> lists, itself and its parent among them, or something else, such as a link.
\<close>

datatype fs_node = Reg | Other | Dir "(string \<times> fs_node) list"

text \<open>What may be removed and opened.\<close>

record fs_env =
  may_remove :: "string \<Rightarrow> bool"
  may_rmdir :: "string \<Rightarrow> bool"
  may_open :: "string \<Rightarrow> bool"

definition PATH_MAX :: nat where "PATH_MAX = 4096"

definition is_dir :: "fs_node \<Rightarrow> bool" where
  "is_dir n = (case n of Dir _ \<Rightarrow> True | _ \<Rightarrow> False)"

definition is_file :: "fs_node \<Rightarrow> bool" where
  "is_file n = (n = Reg)"

definition is_special_dir :: "string \<Rightarrow> bool" where
  "is_special_dir path \<longleftrightarrow> path = ''.'' \<or> path = ''..''"

text \<open>The path is built in an array of \<open>PATH_MAX\<close> characters; a longer one runs over its end.\<close>

definition get_file_path :: "string \<Rightarrow> string \<Rightarrow> string option" where
  "get_file_path path file_name =
     (if path = [] then None
      else let p = path @ (if last path \<noteq> CHR ''/'' then ''/'' else []) @ file_name
           in if length p < PATH_MAX then Some p else None)"

text \<open>\<open>rmdir\<close> removes a directory that lists nothing but itself and its parent.\<close>

definition try_rmdir :: "fs_env \<Rightarrow> string \<Rightarrow> fs_node option \<Rightarrow> fs_node option" where
  "try_rmdir E path n =
     (case n of
        Some (Dir es) \<Rightarrow> if may_rmdir E path \<and> (\<forall>(name, _) \<in> set es. is_special_dir name) then None else n
      | _ \<Rightarrow> n)"

text \<open>
  \<open>fds\<close> counts the descriptors that are left: the directory streams are never closed.  The result is what is
  left of the node.
\<close>

function (sequential) delete_file :: "fs_env \<Rightarrow> string \<Rightarrow> nat \<Rightarrow> fs_node \<Rightarrow> (nat \<times> fs_node option) option"
  and delete_entries :: "fs_env \<Rightarrow> string \<Rightarrow> nat \<Rightarrow> (string \<times> fs_node) list \<Rightarrow> (nat \<times> (string \<times> fs_node) list) option" where
  "delete_file E path fds n =
     (if is_file n then Some (fds, if may_remove E path then None else Some n)
      else case n of
        Dir es \<Rightarrow>
          if fds = 0 \<or> \<not> may_open E path then Some (fds, Some n)
          else map_option (\<lambda>(fds', es'). (fds', Some (Dir es'))) (delete_entries E path (fds - 1) es)
      | _ \<Rightarrow> Some (fds, Some n))"
| "delete_entries E path fds [] = Some (fds, [])"
| "delete_entries E path fds ((d_name, n) # es) =
     (case get_file_path path d_name of
        None \<Rightarrow> None
      | Some file_path \<Rightarrow>
          if is_special_dir d_name
          then map_option (\<lambda>(fds', es'). (fds', (d_name, n) # es')) (delete_entries E path fds es)
          else case delete_file E file_path fds n of
                 None \<Rightarrow> None
               | Some (fds', n') \<Rightarrow>
                   map_option (\<lambda>(fds'', es'). (fds'', (case try_rmdir E file_path n' of None \<Rightarrow> es' | Some r \<Rightarrow> (d_name, r) # es')))
                     (delete_entries E path fds' es))"
  by pat_completeness auto
termination
  by (relation "measure (\<lambda>x. case x of Inl (E, path, fds, n) \<Rightarrow> 2 * size n | Inr (E, path, fds, es) \<Rightarrow> Suc (2 * size_list (size_prod (\<lambda>_. 0) size) es))")
     auto

declare delete_file.simps [simp del]

subsection \<open>Trees of files and directories\<close>

text \<open>Trees without links and the like; their directories, each of which costs a descriptor; their depth in characters.\<close>

fun plain :: "fs_node \<Rightarrow> bool" where
  "plain Reg = True"
| "plain Other = False"
| "plain (Dir es) = (\<forall>e \<in> set es. is_special_dir (fst e) \<or> plain (snd e))"

fun dirs :: "fs_node \<Rightarrow> nat" where
  "dirs Reg = 0"
| "dirs Other = 0"
| "dirs (Dir es) = Suc (sum_list (map (\<lambda>e. if is_special_dir (fst e) then 0 else dirs (snd e)) es))"

fun depth :: "fs_node \<Rightarrow> nat" where
  "depth Reg = 0"
| "depth Other = 0"
| "depth (Dir es) = foldr max (map (\<lambda>e. Suc (length (fst e) + depth (snd e))) es) 0"

definition emptied :: "fs_node \<Rightarrow> fs_node option" where
  "emptied n = (case n of Dir es \<Rightarrow> Some (Dir (filter (\<lambda>e. is_special_dir (fst e)) es)) | _ \<Rightarrow> None)"

lemma get_file_path_fits:
  "path \<noteq> [] \<Longrightarrow> length path + Suc (length name) < PATH_MAX \<Longrightarrow>
   \<exists>p. get_file_path path name = Some p \<and> p \<noteq> [] \<and> length p \<le> length path + Suc (length name)"
  by (auto simp: get_file_path_def Let_def)

lemma try_rmdir_emptied: "may_rmdir E path \<Longrightarrow> try_rmdir E path (emptied n) = None"
  by (auto simp: try_rmdir_def emptied_def split: fs_node.splits)

lemma plain_entries:
  "plain (Dir (e # es)) \<longleftrightarrow> (is_special_dir (fst e) \<or> plain (snd e)) \<and> plain (Dir es)"
  "dirs (Dir (e # es)) = (if is_special_dir (fst e) then 0 else dirs (snd e)) + dirs (Dir es)"
  "depth (Dir (e # es)) = max (Suc (length (fst e) + depth (snd e))) (depth (Dir es))"
  by auto

definition all_permitted :: "fs_env \<Rightarrow> bool" where
  "all_permitted E \<longleftrightarrow> (\<forall>p. may_remove E p \<and> may_rmdir E p \<and> may_open E p)"

lemma delete_plain:
  "all_permitted E \<Longrightarrow> path \<noteq> [] \<Longrightarrow> plain n \<Longrightarrow> dirs n \<le> fds \<Longrightarrow> length path + depth n < PATH_MAX \<Longrightarrow>
     delete_file E path fds n = Some (fds - dirs n, emptied n)"
  "all_permitted E \<Longrightarrow> path \<noteq> [] \<Longrightarrow> plain (Dir es) \<Longrightarrow> dirs (Dir es) \<le> Suc fds \<Longrightarrow>
     length path + depth (Dir es) < PATH_MAX \<Longrightarrow>
     delete_entries E path fds es = Some (Suc fds - dirs (Dir es), filter (\<lambda>e. is_special_dir (fst e)) es)"
proof (induction E path fds n and E path fds es rule: delete_file_delete_entries.induct)
  case (1 E path fds n)
  show ?case
  proof (cases n)
    case (Dir es)
    then have "0 < fds" using 1 by simp
    then show ?thesis
      using 1 Dir by (subst delete_file.simps) (simp add: is_file_def all_permitted_def emptied_def)
  qed (use 1 in \<open>simp_all add: delete_file.simps is_file_def all_permitted_def emptied_def\<close>)
next
  case (2 E path fds)
  then show ?case by simp
next
  case (3 E path fds d_name n es)
  then obtain p where p: "get_file_path path d_name = Some p" "p \<noteq> []" "length p \<le> length path + Suc (length d_name)"
    using get_file_path_fits [of path d_name] unfolding plain_entries by fastforce
  show ?case
  proof (cases "is_special_dir d_name")
    case True
    then show ?thesis
      using 3 p unfolding plain_entries by simp
  next
    case False
    have step: "delete_file E p fds n = Some (fds - dirs n, emptied n)"
      using 3 p False unfolding plain_entries by simp
    moreover have "delete_entries E path (fds - dirs n) es =
        Some (Suc (fds - dirs n) - dirs (Dir es), filter (\<lambda>e. is_special_dir (fst e)) es)"
      using 3 p False step unfolding plain_entries by simp
    moreover have "try_rmdir E p (emptied n) = None"
      using 3 by (simp add: try_rmdir_emptied all_permitted_def)
    moreover have "Suc (fds - dirs n) - dirs (Dir es) = Suc fds - dirs (Dir ((d_name, n) # es))"
      using 3 False unfolding plain_entries by simp
    ultimately show ?thesis
      using p False by simp
  qed
qed

text \<open>
  With every permission, short paths and a descriptor for every directory, a tree of files and directories is
  deleted; the top directory itself stays, empty.
\<close>

theorem delete_file_empties_tree:
  assumes "all_permitted E" "path \<noteq> []" "plain (Dir es)" "dirs (Dir es) \<le> fds" "length path + depth (Dir es) < PATH_MAX"
  shows "delete_file E path fds (Dir es) =
    Some (fds - dirs (Dir es), Some (Dir (filter (\<lambda>e. is_special_dir (fst e)) es)))"
  using delete_plain(1) [OF assms] by (simp add: emptied_def)

definition permissive :: fs_env where
  "permissive = \<lparr>may_remove = (\<lambda>_. True), may_rmdir = (\<lambda>_. True), may_open = (\<lambda>_. True)\<rparr>"

theorem delete_file_empties_tree_witness:
  "delete_file permissive ''/t'' 5 (Dir [(''.'', Other), (''a'', Reg), (''d'', Dir [(''b'', Reg)])]) =
     Some (3, Some (Dir [(''.'', Other)]))"
  by (subst delete_file_empties_tree) (simp_all add: all_permitted_def permissive_def is_special_dir_def PATH_MAX_def)

text \<open>The streams that stay open use up the descriptors: the second of two directories is not opened any more.\<close>

lemma open_streams_stop_deletion:
  "delete_file permissive ''/t'' 2 (Dir [(''d'', Dir [(''a'', Reg)]), (''e'', Dir [(''b'', Reg)])]) =
     Some (0, Some (Dir [(''e'', Dir [(''b'', Reg)])]))"
  by (simp add: delete_file.simps is_file_def permissive_def get_file_path_def PATH_MAX_def is_special_dir_def try_rmdir_def)

text \<open>A link is neither a file nor a directory: it stays, and so does the directory it is in.\<close>

lemma link_keeps_directory:
  "delete_file permissive ''/t'' 9 (Dir [(''d'', Dir [(''a'', Reg), (''l'', Other)])]) =
     Some (7, Some (Dir [(''d'', Dir [(''l'', Other)])]))"
  by (simp add: delete_file.simps is_file_def permissive_def get_file_path_def PATH_MAX_def is_special_dir_def try_rmdir_def)

end
