(* ===== verification/Uci_Config.thy ===== *)
theory Uci_Config
  imports Prelude
begin

text \<open>
  The functions of \<open>uci_c/src/main.c\<close> that read and delete entries of a configuration through libuci.  The
  library is not part of the repository: what it answers is a record of functions.  A context or package that
  was freed may not be used again, a buffer not be overrun; where the code does, there is no result.
\<close>

subsection \<open>Configurations\<close>

datatype uci_option = UCI_TYPE_STRING string | UCI_TYPE_LIST "string list"

record uci_section =
  sec_name :: string
  sec_type :: string

text \<open>
  The answers of libuci: whether a context is granted, the sections a package loads to, the option of a
  section, the section of a name, and the code and the package that a deletion and a commit give.
\<close>

record uci_lib =
  alloc_context :: bool
  load_package :: "string \<Rightarrow> uci_section list option"
  lookup_option :: "uci_section \<Rightarrow> string \<Rightarrow> uci_option option"
  lookup_section :: "uci_section list \<Rightarrow> string \<Rightarrow> uci_section option"
  delete_entry :: "uci_section list \<Rightarrow> string \<Rightarrow> string option \<Rightarrow> int \<times> uci_section list"
  strdup_ok :: "string \<Rightarrow> bool"

datatype context_state = Null_Context | Live | Freed

text \<open>Every call on a context needs one that is live.\<close>

definition use_context :: "context_state \<Rightarrow> unit option" where
  "use_context c = (if c = Live then Some () else None)"

definition uci_alloc_context :: "uci_lib \<Rightarrow> context_state" where
  "uci_alloc_context L = (if alloc_context L then Live else Null_Context)"

subsection \<open>Reading an option\<close>

text \<open>
  What the caller hands in, the sizes of its buffer and of its array, 0 for null pointers, and what is written
  there: the text, or the copies of the texts of a list.
\<close>

record uci_buffers =
  value_size :: nat
  list_size :: nat

datatype uci_out = Nothing | Text string | Texts "string option list"

definition copy_option :: "uci_lib \<Rightarrow> uci_buffers \<Rightarrow> uci_option \<Rightarrow> uci_out option" where
  "copy_option L B opt =
     (case opt of
        UCI_TYPE_STRING s \<Rightarrow> if length s < value_size B then Some (Text s) else None
      | UCI_TYPE_LIST ls \<Rightarrow>
          if length ls \<le> list_size B \<and> 0 < list_size B
          then Some (Texts (map (\<lambda>l. if strdup_ok L l then Some l else None) ls)) else None)"

definition lfuci_get_option :: "uci_lib \<Rightarrow> string \<Rightarrow> string \<Rightarrow> string \<Rightarrow> uci_buffers \<Rightarrow> (int \<times> uci_out) option" where
  "lfuci_get_option L package section opt_name B =
     (if uci_alloc_context L = Null_Context then Some (-1, Nothing)
      else case load_package L package of
        None \<Rightarrow> Some (-1, Nothing)
      | Some pkg \<Rightarrow>
          case lookup_section L pkg section of
            None \<Rightarrow> Some (-1, Nothing)
          | Some sec \<Rightarrow>
              case lookup_option L sec opt_name of
                None \<Rightarrow> Some (-1, Nothing)
              | Some opt \<Rightarrow> map_option (\<lambda>out. (0, out)) (copy_option L B opt))"

text \<open>
  The search through the sections of a type: both flags, the result, and what was copied.
\<close>

fun first_option_loop ::
    "uci_lib \<Rightarrow> string \<Rightarrow> string \<Rightarrow> uci_buffers \<Rightarrow> bool \<Rightarrow> uci_section list \<Rightarrow> (bool \<times> bool \<times> int \<times> uci_out) option" where
  "first_option_loop L section_type opt_name B found [] = Some (found, False, -1, Nothing)"
| "first_option_loop L section_type opt_name B found (s # ss) =
     (if section_type = sec_type s
      then case lookup_option L s opt_name of
             Some opt \<Rightarrow> map_option (\<lambda>out. (True, True, 0, out)) (copy_option L B opt)
           | None \<Rightarrow> first_option_loop L section_type opt_name B True ss
      else first_option_loop L section_type opt_name B found ss)"

definition lfuci_get_first_option_by_stype ::
    "uci_lib \<Rightarrow> string \<Rightarrow> string \<Rightarrow> string \<Rightarrow> uci_buffers \<Rightarrow> (int \<times> uci_out) option" where
  "lfuci_get_first_option_by_stype L package section_type opt_name B =
     use_context (uci_alloc_context L) \<bind> (\<lambda>_.
     case load_package L package of
       None \<Rightarrow> Some (-1, Nothing)
     | Some pkg \<Rightarrow>
         first_option_loop L section_type opt_name B False pkg \<bind> (\<lambda>(find_section, find_option, res, out).
         Some (if \<not> find_section then -2 else if \<not> find_option then -3 else res, out)))"

text \<open>The names that are printed.\<close>

definition list_all_section :: "uci_lib \<Rightarrow> string \<Rightarrow> string list option" where
  "list_all_section L package =
     use_context (uci_alloc_context L) \<bind> (\<lambda>_.
     case load_package L package of
       None \<Rightarrow> Some []
     | Some pkg \<Rightarrow> Some (map sec_name pkg))"

subsection \<open>Deleting\<close>

text \<open>
  The end of a failed deletion: the package is unloaded and the context freed, and then the context is asked
  for the text of the error.
\<close>

definition report_after_free :: "context_state \<Rightarrow> int option" where
  "report_after_free c = do {
     use_context c;
     let c = Freed
     in do { use_context c; Some (-1) }
   }"

text \<open>The result is the code and the package that is committed.\<close>

definition delete_section :: "uci_lib \<Rightarrow> string \<Rightarrow> string \<Rightarrow> (int \<times> uci_section list option) option" where
  "delete_section L packag acSection =
     (let c = uci_alloc_context L
      in if c = Null_Context then Some (-1, None)
         else case load_package L packag of
           None \<Rightarrow> map_option (\<lambda>r. (r, None)) (report_after_free c)
         | Some pkg \<Rightarrow>
             case lookup_section L pkg acSection of
               None \<Rightarrow> map_option (\<lambda>r. (r, None)) (report_after_free c)
             | Some sec \<Rightarrow>
                 case delete_entry L pkg acSection None of (ret, pkg') \<Rightarrow>
                   if ret \<noteq> 0 then map_option (\<lambda>r. (r, None)) (report_after_free c)
                   else Some (0, Some pkg'))"

definition uci_delete_option :: "uci_lib \<Rightarrow> string \<Rightarrow> string \<Rightarrow> string \<Rightarrow> (int \<times> uci_section list option) option" where
  "uci_delete_option L packag section opt_name =
     (let c = uci_alloc_context L
      in if c = Null_Context then Some (-1, None)
         else case load_package L packag of
           None \<Rightarrow> map_option (\<lambda>r. (r, None)) (report_after_free c)
         | Some pkg \<Rightarrow> case delete_entry L pkg section (Some opt_name) of (ret, pkg') \<Rightarrow> Some (0, Some pkg'))"

text \<open>
  The anonymous section whose option \<open>agent\<close> has the given text; a section of the type without this option
  makes \<open>strcmp\<close> read through a null pointer.  A list has no string value.
\<close>

fun delete_anon_loop :: "uci_lib \<Rightarrow> string \<Rightarrow> uci_section list \<Rightarrow> uci_section list \<Rightarrow> (int \<times> uci_section list option) option" where
  "delete_anon_loop L cid pkg [] = Some (0, None)"
| "delete_anon_loop L cid pkg (s # ss) =
     (if sec_type s = ''system_setion''
      then case lookup_option L s ''agent'' of
             Some (UCI_TYPE_STRING v) \<Rightarrow>
               if cid = v
               then case lookup_section L pkg (sec_name s) of
                      None \<Rightarrow> Some (0, None)
                    | Some sec \<Rightarrow>
                        case delete_entry L pkg (sec_name s) None of (ret, pkg') \<Rightarrow>
                          if ret \<noteq> 0 then Some (-2, None) else Some (0, Some pkg')
               else delete_anon_loop L cid pkg ss
           | _ \<Rightarrow> None
      else delete_anon_loop L cid pkg ss)"

definition delect_one_anonsection :: "uci_lib \<Rightarrow> string \<Rightarrow> (int \<times> uci_section list option) option" where
  "delect_one_anonsection L aDeviceCid =
     use_context (uci_alloc_context L) \<bind> (\<lambda>_.
     case load_package L ''/etc/config/hello'' of
       None \<Rightarrow> Some (-1, None)
     | Some pkg \<Rightarrow> delete_anon_loop L aDeviceCid pkg pkg)"

subsection \<open>What they do\<close>

lemma first_option_loop_finds:
  "first_option_loop L t opt_name B found ss =
     (case filter (\<lambda>s. lookup_option L s opt_name \<noteq> None) (filter (\<lambda>s. sec_type s = t) ss) of
        [] \<Rightarrow> Some (found \<or> (\<exists>s \<in> set ss. sec_type s = t), False, -1, Nothing)
      | s # _ \<Rightarrow> map_option (\<lambda>out. (True, True, 0, out)) (copy_option L B (the (lookup_option L s opt_name))))"
  by (induction ss arbitrary: found) (auto split: option.split list.split)

text \<open>
  The search by type gives the option of the first section of the type that has it; -2 says that there is no
  section of the type, -3 that none of them has the option.
\<close>

theorem first_option_by_type:
  assumes "alloc_context L" "load_package L package = Some pkg"
  shows "lfuci_get_first_option_by_stype L package t opt_name B =
    (let ss = filter (\<lambda>s. sec_type s = t) pkg
     in case filter (\<lambda>s. lookup_option L s opt_name \<noteq> None) ss of
          [] \<Rightarrow> Some (if ss = [] then -2 else -3, Nothing)
        | s # _ \<Rightarrow> map_option (\<lambda>out. (0, out)) (copy_option L B (the (lookup_option L s opt_name))))"
  using assms
  by (auto simp: lfuci_get_first_option_by_stype_def use_context_def uci_alloc_context_def first_option_loop_finds
      Let_def filter_empty_conv map_option_case split: list.split option.split)

definition two_sections :: uci_lib where
  "two_sections = \<lparr>alloc_context = True,
     load_package = (\<lambda>_. Some [\<lparr>sec_name = ''a'', sec_type = ''t''\<rparr>, \<lparr>sec_name = ''b'', sec_type = ''t''\<rparr>]),
     lookup_option = (\<lambda>s o'. if sec_name s = ''b'' \<and> o' = ''url'' then Some (UCI_TYPE_STRING ''x'') else None),
     lookup_section = (\<lambda>ss n. List.find (\<lambda>s. sec_name s = n) ss),
     delete_entry = (\<lambda>ss n _. (0, filter (\<lambda>s. sec_name s \<noteq> n) ss)), strdup_ok = (\<lambda>_. True)\<rparr>"

theorem first_option_by_type_witness:
  "lfuci_get_first_option_by_stype two_sections ''p'' ''t'' ''url'' \<lparr>value_size = 9, list_size = 0\<rparr> = Some (0, Text ''x'')"
  by (subst first_option_by_type [of _ _ "[\<lparr>sec_name = ''a'', sec_type = ''t''\<rparr>, \<lparr>sec_name = ''b'', sec_type = ''t''\<rparr>]"])
     (simp_all add: two_sections_def copy_option_def)

text \<open>Every failed deletion uses the context after it was freed; a failure of the library's deletion of an option goes unnoticed.\<close>

lemma failed_delete_uses_freed_context:
  assumes "alloc_context L"
    and "load_package L p = None \<or> (\<exists>pkg. load_package L p = Some pkg \<and>
           (lookup_section L pkg s = None \<or> fst (delete_entry L pkg s None) \<noteq> 0))"
  shows "delete_section L p s = None"
  using assms
  by (auto simp: delete_section_def uci_alloc_context_def report_after_free_def use_context_def Let_def
      split: option.split prod.split)

lemma delete_option_hides_failure:
  assumes "alloc_context L" "load_package L p = Some pkg" "fst (delete_entry L pkg s (Some o')) \<noteq> 0"
  shows "\<exists>pkg'. uci_delete_option L p s o' = Some (0, Some pkg')"
  using assms by (auto simp: uci_delete_option_def uci_alloc_context_def Let_def split: prod.split)

text \<open>A section of the type without an option \<open>agent\<close> before the one that is looked for ends the program.\<close>

lemma section_without_agent_is_read:
  assumes "alloc_context L" "load_package L ''/etc/config/hello'' = Some (s # ss)"
    and "sec_type s = ''system_setion''" "lookup_option L s ''agent'' = None"
  shows "delect_one_anonsection L cid = None"
  using assms by (simp add: delect_one_anonsection_def uci_alloc_context_def use_context_def)

end
