(* ===== verification/I2c_Alarm.thy ===== *)
theory I2c_Alarm
  imports Prelude
begin

unbundle bit_operations_syntax

text \<open>
  The alarm of a real-time clock over a serial bus, \<open>mips_test/i2c_test.c\<close>: numbers in packed decimal, and the
  writes to the registers of the device.  A write sends the number of a register and the bytes for it and those
  behind it; the device is the contents of its registers, and the driver may refuse a write.
\<close>

subsection \<open>Packed decimal\<close>

definition bcd_dec :: "8 word \<Rightarrow> 8 word" where
  "bcd_dec bat =
     (let temp1 = bat AND 0x0f;
          temp2 = drop_bit 4 (bat AND 0xf0)
      in temp2 * 10 + temp1)"

text \<open>The operands are promoted to \<open>int\<close>; the result is cut to a byte.\<close>

definition dec_bcd :: "8 word \<Rightarrow> 8 word" where
  "dec_bcd bat =
     word_of_int (((uint bat mod 10) AND 0x0F) OR ((push_bit 4 (uint bat div 10)) AND 0xF0))"

lemma dec_bcd_digits: "n < 100 \<Longrightarrow> dec_bcd (of_nat n) = of_nat (16 * (n div 10) + n mod 10)"
proof -
  have "list_all (\<lambda>n. dec_bcd (of_nat n) = of_nat (16 * (n div 10) + n mod 10)) [0..<100]"
    by (simp add: dec_bcd_def upt_rec)
  then show "n < 100 \<Longrightarrow> dec_bcd (of_nat n) = of_nat (16 * (n div 10) + n mod 10)"
    by (simp add: list_all_iff)
qed

lemma bcd_round_trip_list: "list_all (\<lambda>n. bcd_dec (of_nat (16 * (n div 10) + n mod 10)) = of_nat n) [0..<100]"
  by (simp add: bcd_dec_def upt_rec)

text \<open>A number below 100 survives the way to packed decimal and back.\<close>

theorem bcd_round_trip:
  assumes "b < 100"
  shows "bcd_dec (dec_bcd b) = b"
proof -
  define n where "n = unat b"
  have n: "b = of_nat n" "n < 100"
    using assms by (simp_all add: n_def word_less_nat_alt)
  from n(2) have "bcd_dec (of_nat (16 * (n div 10) + n mod 10)) = of_nat n"
    using bcd_round_trip_list by (simp add: list_all_iff del: of_nat_add of_nat_mult)
  then show ?thesis
    unfolding n(1) dec_bcd_digits [OF n(2)] .
qed

theorem bcd_round_trip_witness: "bcd_dec (dec_bcd 59) = 59"
  by (rule bcd_round_trip) simp

subsection \<open>Writing registers\<close>

text \<open>The messages that were sent so far, and how many bytes of the next one the driver takes.\<close>

record i2c_bus =
  written :: "8 word list list"
  takes :: "8 word list list \<Rightarrow> 8 word list \<Rightarrow> nat"

definition bus_write :: "8 word list \<Rightarrow> i2c_bus \<Rightarrow> nat \<times> i2c_bus" where
  "bus_write msg bus =
     (let n = min (takes bus (written bus) msg) (length msg)
      in (n, bus\<lparr>written := written bus @ [take n msg]\<rparr>))"

text \<open>The message is built in an array of 255 bytes, of which the register takes one.\<close>

definition i2c_write :: "8 word \<Rightarrow> 8 word list \<Rightarrow> 8 word \<Rightarrow> i2c_bus \<Rightarrow> (8 word \<times> i2c_bus) option" where
  "i2c_write reg val cnt bus =
     (if unat cnt \<le> length val \<and> unat cnt + 1 \<le> 255
      then case bus_write (reg # take (unat cnt) val) bus of
             (n, bus) \<Rightarrow> Some (if n = unat cnt + 1 then 0 else -1, bus)
      else None)"

definition i2c_write_byte :: "8 word \<Rightarrow> 8 word \<Rightarrow> i2c_bus \<Rightarrow> 8 word \<times> i2c_bus" where
  "i2c_write_byte reg val bus =
     (case bus_write [reg, val] bus of (n, bus) \<Rightarrow> (if n = 2 then 0 else -1, bus))"

text \<open>Reading: the number of the register is sent, then \<open>cnt\<close> bytes are asked for; \<open>answer\<close> is what comes.\<close>

definition i2c_read :: "8 word \<Rightarrow> 8 word \<Rightarrow> 8 word list \<Rightarrow> i2c_bus \<Rightarrow> 8 word \<times> 8 word list \<times> i2c_bus" where
  "i2c_read reg cnt answer bus =
     (case bus_write [reg] bus of
        (n, bus) \<Rightarrow>
          if n = 1
          then let got = take (unat cnt) answer
               in (if length got = unat cnt then 0 else -1, got, bus)
          else (-1, [], bus))"

text \<open>The results of the writes are not looked at.\<close>

definition P8563_alarm :: "8 word \<Rightarrow> 8 word \<Rightarrow> 8 word \<Rightarrow> i2c_bus \<Rightarrow> i2c_bus" where
  "P8563_alarm day hour minute bus =
     fold (\<lambda>(reg, val) bus. snd (i2c_write_byte reg val bus))
       [(0xc, 0x1), (0xb, dec_bcd day), (0xa, dec_bcd hour), (0x9, dec_bcd minute), (0x01, 0x02)] bus"

definition P8563_min_alarm :: "8 word \<Rightarrow> i2c_bus \<Rightarrow> i2c_bus" where
  "P8563_min_alarm minute bus =
     fold (\<lambda>(reg, val) bus. snd (i2c_write_byte reg val bus))
       [(0x9, dec_bcd minute), (0xa, 0x80), (0xb, 0x80), (0xc, 0x80), (0x01, 0x02)] bus"

text \<open>The minute the loop of the program sets the alarm to.\<close>

definition alarm_minute :: "int \<Rightarrow> 8 word" where
  "alarm_minute tm_min = word_of_int ((tm_min + 1) mod 60)"

text \<open>255 bytes do not fit behind the register.\<close>

lemma longest_write_overflows: "i2c_write reg val 255 bus = None"
  by (simp add: i2c_write_def)

lemma write_fits:
  "unat cnt < 255 \<Longrightarrow> unat cnt \<le> length val \<Longrightarrow> i2c_write reg val cnt bus \<noteq> None"
  by (simp add: i2c_write_def split: prod.split)

text \<open>
  On a bus that takes whole messages, the five registers get their values in order, and the minute register
  holds the minute that comes next, in packed decimal.
\<close>

theorem min_alarm_sets_next_minute:
  assumes "0 \<le> m" "m < 60" "\<forall>ws msg. length msg \<le> takes bus ws msg"
  shows "\<exists>v. written (P8563_min_alarm (alarm_minute m) bus) =
      written bus @ [[0x9, v], [0xa, 0x80], [0xb, 0x80], [0xc, 0x80], [0x01, 0x02]] \<and>
    uint (bcd_dec v) = (m + 1) mod 60"
proof -
  let ?v = "dec_bcd (alarm_minute m)"
  have sent: "snd (i2c_write_byte r x b) = b\<lparr>written := written b @ [[r, x]]\<rparr>" if "takes b = takes bus" for r x b
  proof -
    have "length [r, x] \<le> takes b (written b) [r, x]"
      using assms(3) that by metis
    then show ?thesis
      by (simp add: i2c_write_byte_def bus_write_def Let_def)
  qed
  have "0 \<le> (m + 1) mod 60" "(m + 1) mod 60 < 60"
    by simp_all
  then have minute: "uint (alarm_minute m) = (m + 1) mod 60"
    by (simp add: alarm_minute_def uint_word_of_int take_bit_int_eq_self)
  then have "alarm_minute m < 100"
    by (simp add: word_less_def)
  then have "bcd_dec ?v = alarm_minute m"
    by (rule bcd_round_trip)
  then show ?thesis
    using minute by (intro exI [of _ ?v]) (simp add: P8563_min_alarm_def sent)
qed

theorem min_alarm_sets_next_minute_witness:
  "\<exists>v. written (P8563_min_alarm (alarm_minute 59) \<lparr>written = [], takes = (\<lambda>_ msg. length msg)\<rparr>) =
      [[0x9, v], [0xa, 0x80], [0xb, 0x80], [0xc, 0x80], [0x01, 0x02]] \<and> uint (bcd_dec v) = 0"
  using min_alarm_sets_next_minute [of 59 "\<lparr>written = [], takes = (\<lambda>_ msg. length msg)\<rparr>"] by simp

end
