(* ===== verification/Inotify_Watch.thy ===== *)
theory Inotify_Watch
  imports Prelude
begin

unbundle bit_operations_syntax

text \<open>
  The watch of a configuration file in \<open>inotify/src/main.c\<close>: the events that a read returned one behind the
  other, each with a name of the length it tells, and the two marks that the program sets for them.
\<close>

subsection \<open>One event\<close>

definition IN_ACCESS :: "32 word" where "IN_ACCESS = 0x1"
definition IN_MODIFY :: "32 word" where "IN_MODIFY = 0x2"
definition IN_ATTRIB :: "32 word" where "IN_ATTRIB = 0x4"
definition IN_CLOSE_WRITE :: "32 word" where "IN_CLOSE_WRITE = 0x8"
definition IN_MOVED_FROM :: "32 word" where "IN_MOVED_FROM = 0x40"
definition IN_MOVED_TO :: "32 word" where "IN_MOVED_TO = 0x80"
definition IN_CREATE :: "32 word" where "IN_CREATE = 0x100"
definition IN_DELETE :: "32 word" where "IN_DELETE = 0x200"
definition IN_DELETE_SELF :: "32 word" where "IN_DELETE_SELF = 0x400"
definition IN_MOVE_SELF :: "32 word" where "IN_MOVE_SELF = 0x800"

record marks =
  need_parse :: bool
  need_remove_wd :: bool

text \<open>The first branch that matches decides; the branches behind \<open>IN_ATTRIB\<close> do nothing.\<close>

definition event_marks :: "32 word \<Rightarrow> marks \<Rightarrow> marks" where
  "event_marks msk m =
     (let has = (\<lambda>bits. msk AND bits \<noteq> 0)
      in if has IN_MODIFY then m\<lparr>need_parse := True\<rparr>
         else if has IN_CREATE then m\<lparr>need_parse := True\<rparr>
         else if has (IN_DELETE OR IN_DELETE_SELF) then m\<lparr>need_parse := True, need_remove_wd := True\<rparr>
         else if has (IN_MOVED_FROM OR IN_MOVED_TO OR IN_MOVE_SELF) then m\<lparr>need_parse := True, need_remove_wd := True\<rparr>
         else if has IN_CLOSE_WRITE then m
         else if has IN_ACCESS then m
         else if has IN_ATTRIB then m\<lparr>need_parse := True, need_remove_wd := True\<rparr>
         else m)"

subsection \<open>The events of a read\<close>

text \<open>A word at a place of the buffer, lowest byte first.\<close>

definition le32 :: "8 word list \<Rightarrow> nat \<Rightarrow> 32 word" where
  "le32 data p =
     ucast (data ! p) OR push_bit 8 (ucast (data ! (p + 1))) OR
     push_bit 16 (ucast (data ! (p + 2))) OR push_bit 24 (ucast (data ! (p + 3)))"

text \<open>The fields \<open>wd\<close> and \<open>cookie\<close> are read and not used.  A read behind the buffer has no result.\<close>

function parse_events :: "8 word list \<Rightarrow> nat \<Rightarrow> int \<Rightarrow> marks \<Rightarrow> marks option" where
  "parse_events data eventptr readLength m =
     (if readLength > 0
      then if eventptr + 16 \<le> length data
           then let msk = le32 data (eventptr + 4); event_len = unat (le32 data (eventptr + 12))
                in parse_events data (eventptr + 16 + event_len) (readLength - int (16 + event_len)) (event_marks msk m)
           else None
      else Some m)"
  by pat_completeness auto
termination
proof (relation "measure (\<lambda>(data, p, n, m). nat n)")
  have less: "0 < r \<Longrightarrow> nat (r - int (16 + k)) < nat r" for r :: int and k by simp
  fix data p m x y and r :: int
  assume "0 < r"
  from less [OF this] show "((data, p + 16 + y, r - int (16 + y), event_marks x m), data, p, r, m)
      \<in> measure (\<lambda>(data, p, n, m). nat n)"
    unfolding in_measure by simp
qed simp

declare parse_events.simps [simp del]

text \<open>
  A round of the program: a new descriptor is opened and never closed; when none is left, \<open>read\<close> fails.  The
  buffer keeps what earlier rounds left behind the bytes that were read, and the marks are never taken back.
\<close>

record watch =
  fds_left :: nat
  buffer :: "8 word list"
  mark :: marks

definition watch_round :: "8 word list \<Rightarrow> watch \<Rightarrow> watch option" where
  "watch_round events w =
     (if fds_left w = 0 then Some w
      else let got = take (length (buffer w)) events;
               data = got @ drop (length got) (buffer w)
           in map_option (\<lambda>m. \<lparr>fds_left = fds_left w - 1, buffer = data, mark = m\<rparr>)
                (parse_events data 0 (int (length got)) (mark w)))"

subsection \<open>What the kernel writes is what is seen\<close>

text \<open>An event with a mask and a name, as the kernel lays it out.\<close>

definition le_bytes :: "32 word \<Rightarrow> 8 word list" where
  "le_bytes w = [ucast w, ucast (drop_bit 8 w), ucast (drop_bit 16 w), ucast (drop_bit 24 w)]"

type_synonym kernel_event = "32 word \<times> 32 word \<times> 32 word \<times> 8 word list"

definition event_bytes :: "kernel_event \<Rightarrow> 8 word list" where
  "event_bytes e =
     (case e of (wd, msk, cookie, name) \<Rightarrow>
        le_bytes wd @ le_bytes msk @ le_bytes cookie @ le_bytes (of_nat (length name)) @ name)"

definition event_mask :: "kernel_event \<Rightarrow> 32 word" where
  "event_mask e = fst (snd e)"

lemma le_bytes_length: "length (le_bytes w) = 4"
  by (simp add: le_bytes_def)

lemma le32_bytes: "le32 (pre @ le_bytes w @ post) (length pre) = w"
proof (rule bit_word_eqI)
  fix n
  have "bit w n \<longleftrightarrow> (n < 8 \<and> bit w n) \<or> (8 \<le> n \<and> n < 16 \<and> bit w n) \<or> (16 \<le> n \<and> n < 24 \<and> bit w n) \<or> (24 \<le> n \<and> bit w n)"
    by auto
  then show "bit (le32 (pre @ le_bytes w @ post) (length pre)) n = bit w n" if "n < LENGTH(32)"
    using that by (auto simp: le32_def le_bytes_def nth_append bit_simps)
qed

lemma le32_at: "length pre = p \<Longrightarrow> data = pre @ le_bytes w @ post \<Longrightarrow> le32 data p = w"
  using le32_bytes by blast

lemma parse_one_event:
  assumes "length name < 2 ^ 32" "0 \<le> n"
  shows "parse_events (pre @ event_bytes (wd, msk, cookie, name) @ post) (length pre)
      (int (length (event_bytes (wd, msk, cookie, name))) + n) m =
    parse_events (pre @ event_bytes (wd, msk, cookie, name) @ post)
      (length pre + length (event_bytes (wd, msk, cookie, name))) n (event_marks msk m)"
proof -
  let ?data = "pre @ event_bytes (wd, msk, cookie, name) @ post"
  have "le32 ?data (length pre + 4) = msk"
    by (rule le32_at [where pre = "pre @ le_bytes wd" and
          post = "le_bytes cookie @ le_bytes (of_nat (length name)) @ name @ post"])
       (simp_all add: le_bytes_length event_bytes_def)
  moreover have "le32 ?data (length pre + 12) = of_nat (length name)"
    by (rule le32_at [where pre = "pre @ le_bytes wd @ le_bytes msk @ le_bytes cookie" and post = "name @ post"])
       (simp_all add: le_bytes_length event_bytes_def)
  moreover have "unat (of_nat (length name) :: 32 word) = length name"
    using assms(1) by (simp add: unsigned_of_nat take_bit_nat_eq_self)
  moreover have "length (event_bytes (wd, msk, cookie, name)) = 16 + length name"
    by (simp add: event_bytes_def le_bytes_length)
  ultimately show ?thesis
    using assms(2) by (subst parse_events.simps) (simp add: Let_def add.assoc)
qed

lemma parse_all_events:
  "\<forall>e \<in> set es. length (snd (snd (snd e))) < 2 ^ 32 \<Longrightarrow>
   parse_events (pre @ concat (map event_bytes es) @ post) (length pre) (int (length (concat (map event_bytes es)))) m =
     Some (fold event_marks (map event_mask es) m)"
proof (induction es arbitrary: pre m)
  case Nil
  then show ?case by (simp add: parse_events.simps)
next
  case (Cons e es)
  obtain wd msk cookie name where e: "e = (wd, msk, cookie, name)" by (cases e)
  have "parse_events (pre @ event_bytes e @ (concat (map event_bytes es) @ post)) (length pre)
      (int (length (event_bytes e)) + int (length (concat (map event_bytes es)))) m =
    parse_events ((pre @ event_bytes e) @ concat (map event_bytes es) @ post) (length (pre @ event_bytes e))
      (int (length (concat (map event_bytes es)))) (event_marks msk m)"
    using Cons.prems parse_one_event [of name "int (length (concat (map event_bytes es)))" pre wd msk cookie] e by simp
  also have "\<dots> = Some (fold event_marks (map event_mask es) (event_marks msk m))"
    by (rule Cons.IH) (use Cons.prems in simp)
  finally show ?case
    by (simp add: e event_mask_def [of "(wd, msk, cookie, name)"])
qed

text \<open>
  When a round reads whole events, it reaches exactly these, one after the other: the marks are those the
  masks give, and nothing behind the buffer is read.
\<close>

theorem watch_round_sees_events:
  assumes "0 < fds_left w" "length (concat (map event_bytes es)) \<le> length (buffer w)"
    and "\<forall>e \<in> set es. length (snd (snd (snd e))) < 2 ^ 32"
  shows "\<exists>w'. watch_round (concat (map event_bytes es)) w = Some w' \<and>
    mark w' = fold event_marks (map event_mask es) (mark w) \<and> fds_left w' = fds_left w - 1"
  using assms parse_all_events [OF assms(3), of "[]"]
  by (simp add: watch_round_def Let_def)

theorem watch_round_sees_events_witness:
  "\<exists>w'. watch_round (concat (map event_bytes [(1, IN_DELETE, 0, [0x61, 0])]))
       \<lparr>fds_left = 3, buffer = replicate 20 0, mark = \<lparr>need_parse = False, need_remove_wd = False\<rparr>\<rparr> = Some w' \<and>
     mark w' = fold event_marks [IN_DELETE] \<lparr>need_parse = False, need_remove_wd = False\<rparr> \<and> fds_left w' = 2"
  using watch_round_sees_events [of "\<lparr>fds_left = 3, buffer = replicate 20 0, mark = \<lparr>need_parse = False, need_remove_wd = False\<rparr>\<rparr>"
      "[(1, IN_DELETE, 0, [0x61, 0])]"]
  by (simp add: event_bytes_def le_bytes_length event_mask_def)

text \<open>When the descriptors are used up, a round changes nothing any more: the program turns without waiting.\<close>

lemma rounds_without_descriptors: "fds_left w = 0 \<Longrightarrow> watch_round events w = Some w"
  by (simp add: watch_round_def)

end
