(* ===== verification/Spec2Isabelle.thy ===== *)
theory Spec2Isabelle
  imports Eloop_End Json_Roundtrip Http_Url_Fields Http_Pieces Http_Request Kernel_Hlist Dllist Bin_Crc Time_Str Bits_N_Bits
    File_Delete Uci_Config I2c_Alarm Inotify_Watch
begin

text \<open>
  A verification library for the C programs of this repository.  The repository is a collection of
  small programs, each in a directory of its own, around a few libraries that hold the logic.  Modelled
  are these libraries: the linked list and the event loop of \<open>eloop/src\<close>, the JSON library
  \<open>parson/src/parson.c\<close>, the HTTP parser \<open>httpclient/src/http_parser.c\<close> and the client
  \<open>httpclient/src/http.c\<close>, the list macros of \<open>linux_kenel_list/src\<close> and \<open>dllist/src\<close>, the log library
  \<open>log/src/lf_log.c\<close>, and small programs with logic of their own: the checksum of images in
  \<open>bin_crc_make/src\<close>, and those named below.
  The event loop keeps its timeouts in the linked list; the HTTP client hands every piece it receives to the HTTP parser,
  which calls it back with the fields of the answer; the other libraries do not call each other.

  \<^bold>\<open>Conventions\<close> (\<open>Prelude\<close>).  A C structure is a record, an enumeration a datatype, an integer whose
  width matters a word, otherwise a natural number or an integer with its conversions written out.  A C
  string or buffer is a list of characters without its terminator; a position in it is an offset.  A call
  that can fail gives an option or a status; what C leaves undefined (a read behind an array, a failed
  assertion) is a value of its own, and the safety properties say that it does not occur.  Memory is a
  function \<open>mem\<close> that says whether a request of so many bytes is granted, the clock and the file system
  are arguments.  The names are those of the code.

  \<^bold>\<open>Linked list\<close> (\<open>Dl_List\<close>; \<open>list.h\<close>).  An explicit heap of links, \<open>dl_list_init\<close>, \<open>dl_list_add\<close>,
  \<open>dl_list_add_tail\<close>, \<open>dl_list_del\<close>, \<open>dl_list_len\<close> on it, and the ring they keep.  The locale of lists
  that clients rely on is interpreted on these definitions.

  \<^bold>\<open>Kernel lists\<close> (\<open>linux_kenel_list.h\<close>).  \<open>Kernel_List\<close>: the heap of \<open>list_head\<close> links, adding, deleting,
  moving, replacing and rotating; \<open>Kernel_Splice\<close>: cutting a list in two and joining two lists;
  \<open>Kernel_Loops\<close>: the loops of the \<open>for_each\<close> macros as recursion over the links, with fuel that a ring
  bounds; \<open>Kernel_Queue\<close>: the contract of a queue as a locale and its interpretation on the macros;
  \<open>Kernel_Hlist\<close>: the lists of hash buckets with their pointers to pointers.  \<open>Dllist\<close> (\<open>dllist.h\<close>): the
  circular lists of the macros there, of nodes that carry their own links.

  \<^bold>\<open>Event loop\<close> (\<open>Eloop_Timeout\<close>, \<open>Eloop\<close>, \<open>Eloop_End\<close>; \<open>eloop.c\<close>).  Times and the queue of timeouts; socket tables,
  signals and the loop \<open>eloop_run\<close> over passes of \<open>select\<close>.  Handlers are arguments.  The queue stays
  sorted, timeouts run in order and not early, dispatch equals a walk over a snapshot, the tables keep
  their counts, and the loop returns when nothing is left.  The loop takes fuel; the liveness property
  says how much is enough.  \<open>Eloop_End\<close>: what \<open>eloop_destroy\<close> finds left, and waiting for a single socket.

  \<^bold>\<open>JSON\<close>.
  \<^item> \<open>Json_Object\<close>: the open-addressing hash table of objects (\<open>json_object_get_cell_ix\<close>, \<open>json_object_add\<close>,
    \<open>json_object_grow_and_rehash\<close>, \<open>json_object_remove_internal\<close> with its backward shift), refined to a
    finite map that decides what every call reports.
  \<^item> \<open>Json_Text\<close>, \<open>Json_Utf8\<close>: comments, string literals and their escapes, surrogate pairs, and the check of
    UTF-8 against the definition of the encoding.  What is removed as a comment and what an escape stands for
    are defined without the scanner.
  \<^item> \<open>Json_Value\<close>, \<open>Json_Tree\<close>: values, arrays, objects, dotted names; copy, equality and schema validation,
    each against the document a value stands for.
  \<^item> \<open>Json_Parse\<close>: the recursive-descent parser with its nesting limit and the serializer over a counted
    buffer.  The parser takes fuel; \<open>Json_Total\<close> shows that two units for every character and one more are
    always enough, that results are well formed and that nesting is bounded.
  \<^item> \<open>Json_Render\<close>: the text of a document; the serializer writes it, and it fits a buffer exactly when the
    buffer has the reported size; a text of \<open>2 ^ 31\<close> characters, which an \<open>int\<close> cannot count, has no result.
  \<^item> \<open>Json_Roundtrip\<close>: what the serializer wrote, the parser reads back.
  The conversion between numbers and their texts (\<open>strtod\<close>, \<open>sprintf\<close>) and the arithmetic on doubles belong
  to the C library: they form the record \<open>json_env\<close>, and what is needed of them are named hypotheses, met by
  a concrete environment in the witnesses.  Parent pointers are not stored, a value is a tree.

  \<^bold>\<open>HTTP\<close>.
  \<^item> \<open>Http_Url\<close>: the URL and host automata and \<open>http_parser_parse_url\<close> with its 16-bit fields;
    \<open>Http_Url_Fields\<close>: the fields lie in the text and apart.
  \<^item> \<open>Http_Parser\<close>: the structures and macros of the message parser; \<open>Http_Execute\<close>: the branches of the
    switch, a definition for every few, composed to \<open>http_parser_execute\<close>.  The jumps back to \<open>reexecute\<close>
    take fuel 6, the loop one unit more than there are characters; the safety property shows that neither
    runs out.
  \<^item> \<open>Http_Invariant\<close>, \<open>Http_Safe\<close>: the invariant of the parser between two characters, and that every branch
    keeps it: no call fails an assertion or reads out of bounds.
  \<^item> \<open>Http_Messages\<close>: content lengths and bodies.
  \<^item> \<open>Http_Log\<close>, \<open>Http_Sim\<close>, \<open>Http_Cut\<close>, \<open>Http_Pieces\<close>: a run over a text and the runs over its pieces side by
    side, branch by branch; how an input is cut changes nothing but the count of header bytes, up to the
    limit on headers and to an upgrade.
  The model is the strict mode that \<open>http_parser.h\<close> selects.
  \<^item> \<open>Http_Client\<close>: the structures of \<open>http.c\<close>, the loops that send and receive, the buffers of a header field
    and of the body, and the callbacks of the parser; \<open>Http_Client_Buffers\<close>: what these buffers hold, and a run of
    the parser with these callbacks over an answer that overflows one;
    \<open>Http_Request\<close>: connecting, sending a request, receiving its answer, following redirects, and the
    functions of \<open>http.h\<close>.  Sockets, the resolver, TLS and the allocation of memory form the record \<open>http_env\<close>
    with a state of the world that is handed through.

  \<^bold>\<open>Log library\<close> (\<open>Lf_Log\<close>; \<open>lf_log.c\<close>, \<open>lf_log.h\<close>).  The static variables as a record, with the files by name
  and the printed text as the world they act on; each function is a step of it.  In all reachable states the
  files stay within their size, and what they hold refines a ring of three texts.

  \<^bold>\<open>Checksums\<close> (\<open>Bin_Crc\<close>; \<open>bin_crc_make/src/main.c\<close>).  The table-driven CRC-32 equals the shift register of its
  polynomial and detects every burst of 32 bits; the program that appends it to an image, over the answers of
  the file system.

  \<^bold>\<open>Small programs\<close>.  \<open>Bits_N_Bits\<close> (\<open>bitsnbits.h\<close>): the macros on bits and fields of words of any width.
  \<open>Time_Str\<close> (\<open>time_str/src/main.c\<close>, \<open>time/src/main.c\<close>): a time to its text and back, and points of time in
  milliseconds.  \<open>File_Delete\<close> (\<open>file/src/file_delete.c\<close>): deleting a tree of files, with the descriptors it
  uses up.  \<open>Uci_Config\<close> (\<open>uci_c/src/main.c\<close>): reading and deleting entries of a configuration, over the
  answers of libuci.  \<open>I2c_Alarm\<close> (\<open>mips_test/i2c_test.c\<close>): packed decimal and the registers of a clock.
  \<open>Inotify_Watch\<close> (\<open>inotify/src/main.c\<close>): the events of a read and the marks they set.

  \<^bold>\<open>Not modelled.\<close>  \<open>krypton.c\<close>, \<open>mongoose.c\<close> and \<open>sqlite3.h\<close>, which are copies of other projects; the programs
  around message queues, threads, regular expressions, websockets, devices and files, which are calls of
  system services in a row; the \<open>main\<close> programs that demonstrate a library and print.  Of the
  modelled libraries: the \<open>poll\<close> and \<open>epoll\<close> variants of the event loop, the tables of error texts and the
  version number of the HTTP parser, the TLS branches of the HTTP client; of \<open>uci_c\<close> the functions that add a
  section and set an option, which hand libuci a structure that is not initialised or hold fixed test data.
\<close>

end
